(* ===== verification/Prelude.thy ===== *)
theory Prelude
  imports Main "HOL-Library.Word" "HOL-Library.Monad_Syntax"
begin

text \<open>
  Shared vocabulary of the development: the machine integers of the C code, the
  error codes of \<^verbatim>\<open>include/cextras/error.h\<close>, the overflow-checking
  macros of \<^verbatim>\<open>include/cextras/macro.h\<close>, and the generic lemmas on
  options, lists and words that the component theories share.

  Conventions. A C function that may run into undefined behaviour or a failing
  \<^verbatim>\<open>assert\<close> is an option-valued HOL function: \<open>None\<close> is the
  undefined or aborted execution, \<open>Some\<close> the returned value together with the
  updated state. A C \<^verbatim>\<open>int\<close> status code is an \<open>int\<close>, zero on
  success and the negated error code otherwise.
\<close>

unbundle bit_operations_syntax

section \<open>Machine integers and addresses\<close>

type_synonym u8 = "8 word"
type_synonym u16 = "16 word"
type_synonym u32 = "32 word"
type_synonym u64 = "64 word"
  \<comment> \<open>\<^verbatim>\<open>uint64_t\<close>, \<^verbatim>\<open>size_t\<close> and \<^verbatim>\<open>cx_index_t\<close> on an LP64 target\<close>
type_synonym addr = nat
  \<comment> \<open>an address; \<open>0\<close> is \<^verbatim>\<open>NULL\<close>\<close>

section \<open>Error codes\<close>

datatype cx_error =
    CX_SUCCESS
  | CX_ERR_INTEGER_OVERFLOW
  | CX_ERR_BUFFER_OVERFLOW
  | CX_ERR_NOT_FOUND
  | CX_ERR_ALLOC

fun err_code :: "cx_error \<Rightarrow> int" where
  "err_code CX_SUCCESS = 0"
| "err_code CX_ERR_INTEGER_OVERFLOW = 1"
| "err_code CX_ERR_BUFFER_OVERFLOW = 2"
| "err_code CX_ERR_NOT_FOUND = 3"
| "err_code CX_ERR_ALLOC = 4"

section \<open>Checked arithmetic on \<^verbatim>\<open>size_t\<close>\<close>

text \<open>
  \<^verbatim>\<open>CX_ADD_OVERFLOW(a, b, &r)\<close> and its siblings store the wrapped result and
  return whether it differs from the mathematical one.
\<close>

definition add_overflow :: "u64 \<Rightarrow> u64 \<Rightarrow> bool \<times> u64" where
  "add_overflow a b = (2 ^ 64 \<le> unat a + unat b, a + b)"

definition sub_overflow :: "u64 \<Rightarrow> u64 \<Rightarrow> bool \<times> u64" where
  "sub_overflow a b = (unat a < unat b, a - b)"

definition mul_overflow :: "u64 \<Rightarrow> u64 \<Rightarrow> bool \<times> u64" where
  "mul_overflow a b = (2 ^ 64 \<le> unat a * unat b, a * b)"

definition divide_ceil :: "u64 \<Rightarrow> u64 \<Rightarrow> u64" where
  "divide_ceil x y = x div y + (if x mod y \<noteq> 0 then 1 else 0)"

lemma unat_lt64 [simp]: "unat (x :: u64) < 2 ^ 64"
  using unsigned_less [of x] by simp

lemma unat_lt64_num [simp]: "unat (x :: u64) < 18446744073709551616"
  using unat_lt64 [of x] by simp

lemma unat_le64 [simp]: "unat (x :: u64) \<le> 18446744073709551616"
  using unat_lt64_num [of x] by (rule less_imp_le)

lemma unat_add_no_wrap:
  "unat a + unat b < 2 ^ 64 \<Longrightarrow> unat (a + b :: u64) = unat a + unat b"
  by (simp add: unat_word_ariths)

lemma unat_mult_no_wrap:
  "unat a * unat b < 2 ^ 64 \<Longrightarrow> unat (a * b :: u64) = unat a * unat b"
  by (simp add: unat_word_ariths)

lemma unat_of_nat64: "n < 2 ^ 64 \<Longrightarrow> unat (of_nat n :: u64) = n"
  by (simp add: unat_of_nat)

lemma add_overflow_ok [simp]:
  "fst (add_overflow a b) \<longleftrightarrow> 2 ^ 64 \<le> unat a + unat b"
  by (simp add: add_overflow_def)

section \<open>Options as fallible computations\<close>

lemma bind_Some_iff:
  "Option.bind m f = Some y \<longleftrightarrow> (\<exists>x. m = Some x \<and> f x = Some y)"
  by (cases m) auto

lemma map_upt_nth: "map (\<lambda>i. xs ! i) [0..<length xs] = xs"
  by (rule map_nth)

lemma nth_take_drop:
  "i < n \<Longrightarrow> p + n \<le> length xs \<Longrightarrow> take n (drop p xs) ! i = xs ! (p + i)"
  by simp

end
