(* ===== verification/Memory.thy ===== *)
theory Memory
  imports Prelude
begin

text \<open>
  The memory the C code runs on: a flat byte-addressed store, the list of live
  objects (address and size), and the allocator.

  \<^item> \<open>mem\<close> is total. A fresh object from \<open>malloc\<close> or the grown part of a
    \<open>realloc\<close> simply keeps whatever bytes are at its addresses, so nothing can be
    proved about uninitialised bytes.
  \<^item> Every access is checked against \<open>blocks\<close>; an access that is not inside one
    live object is undefined behaviour (\<open>None\<close>). Objects of the caller (buffers
    to copy from) are entries of \<open>blocks\<close> as well.
  \<^item> The allocator is the environment: \<open>answers\<close> holds what it will answer to the
    next requests. An answer that is no admissible placement for the request (it
    overlaps a live object, wraps around the address space or is null), and a
    request with no answer left, is an allocation failure. Every behaviour of a
    correct allocator is one choice of \<open>answers\<close>, so a theorem about all heaps is
    a theorem about all allocators, including those that run out of memory.
  \<^item> \<open>cb_log\<close> is a ghost: the addresses handed to the user's cleanup callback.
\<close>

section \<open>Bytes at an address\<close>

definition read_mem :: "(addr \<Rightarrow> u8) \<Rightarrow> addr \<Rightarrow> nat \<Rightarrow> u8 list" where
  "read_mem f p n = map (\<lambda>i. f (p + i)) [0..<n]"

definition write_mem :: "(addr \<Rightarrow> u8) \<Rightarrow> addr \<Rightarrow> u8 list \<Rightarrow> (addr \<Rightarrow> u8)" where
  "write_mem f p bs = (\<lambda>a. if p \<le> a \<and> a < p + length bs then bs ! (a - p) else f a)"

lemma length_read_mem [simp]: "length (read_mem f p n) = n"
  by (simp add: read_mem_def)

lemma read_mem_0 [simp]: "read_mem f p 0 = []"
  by (simp add: read_mem_def)

lemma nth_read_mem [simp]: "i < n \<Longrightarrow> read_mem f p n ! i = f (p + i)"
  by (simp add: read_mem_def)

lemma read_mem_add: "read_mem f p (n + m) = read_mem f p n @ read_mem f (p + n) m"
  by (rule nth_equalityI) (auto simp: nth_append)

lemma read_mem_cong:
  "(\<And>a. p \<le> a \<Longrightarrow> a < p + n \<Longrightarrow> f a = g a) \<Longrightarrow> read_mem f p n = read_mem g p n"
  by (simp add: read_mem_def)

lemma read_write_same [simp]: "length bs = n \<Longrightarrow> read_mem (write_mem f p bs) p n = bs"
  by (rule nth_equalityI) (auto simp: write_mem_def)

lemma read_write_other:
  "p + n \<le> q \<or> q + length bs \<le> p \<Longrightarrow> read_mem (write_mem f q bs) p n = read_mem f p n"
  by (rule read_mem_cong) (auto simp: write_mem_def)

lemma write_mem_outside:
  "a < p \<or> p + length bs \<le> a \<Longrightarrow> write_mem f p bs a = f a"
  by (auto simp: write_mem_def)

lemma write_mem_Nil [simp]: "write_mem f p [] = f"
  by (rule ext) (auto simp: write_mem_def)

lemma read_mem_take: "n \<le> m \<Longrightarrow> read_mem f p n = take n (read_mem f p m)"
  by (rule nth_equalityI) auto

lemma read_mem_drop: "read_mem f (p + k) n = take n (drop k (read_mem f p (k + n)))"
  by (rule nth_equalityI) (auto simp: add.assoc)

section \<open>Little-endian words\<close>

definition le_bytes :: "nat \<Rightarrow> 'a::len word \<Rightarrow> u8 list" where
  "le_bytes n w = map (\<lambda>i. ucast (drop_bit (8 * i) w)) [0..<n]"

fun le_word :: "u8 list \<Rightarrow> 'a::len word" where
  "le_word [] = 0"
| "le_word (b # bs) = ucast b OR push_bit 8 (le_word bs)"

lemma length_le_bytes [simp]: "length (le_bytes n w) = n"
  by (simp add: le_bytes_def)

lemma bit_le_word:
  "bit (le_word bs :: 'a::len word) i \<longleftrightarrow>
     i < LENGTH('a) \<and> i < 8 * length bs \<and> bit (bs ! (i div 8)) (i mod 8)"
proof (induction bs arbitrary: i)
  case Nil
  then show ?case by simp
next
  case (Cons b bs)
  show ?case
  proof (cases "i < 8")
    case True
    then show ?thesis by (auto simp: bit_simps)
  next
    case False
    then obtain j where j: "i = j + 8"
      by (metis add.commute le_Suc_ex not_less)
    have "i div 8 = Suc (j div 8)" and "i mod 8 = j mod 8"
      by (simp_all add: j)
    moreover have "\<not> bit b i"
      using False bit_imp_le_length [of b i] by auto
    ultimately show ?thesis
      using Cons.IH [of j] j by (auto simp: bit_simps)
  qed
qed

lemma le_word_le_bytes [simp]:
  assumes "LENGTH('a::len) = 8 * n"
  shows "le_word (le_bytes n (w :: 'a word)) = w"
proof (rule bit_word_eqI)
  fix i
  assume i: "i < LENGTH('a)"
  then have "i div 8 < n" using assms by auto
  moreover have "8 * (i div 8) + i mod 8 = i" by simp
  ultimately show "bit (le_word (le_bytes n w) :: 'a word) i = bit w i"
    using i assms by (simp add: bit_le_word le_bytes_def bit_simps)
qed


section \<open>Heaps\<close>

record heap =
  mem :: "addr \<Rightarrow> u8"
  blocks :: "(addr \<times> nat) list"
  answers :: "addr list"
  cb_log :: "addr list"

text \<open>
  \<open>fits bs a n\<close>: an object of \<open>n\<close> bytes may be placed at \<open>a\<close> beside the
  objects \<open>bs\<close>. An empty object still takes one address, as \<open>malloc(0)\<close>
  returns either null or a unique pointer. No object is larger than
  \<^verbatim>\<open>PTRDIFF_MAX\<close>, as in the C libraries in use.
\<close>

definition fits :: "(addr \<times> nat) list \<Rightarrow> addr \<Rightarrow> nat \<Rightarrow> bool" where
  "fits bs a n \<longleftrightarrow> 0 < a \<and> n < 2 ^ 63 \<and> a + max n 1 \<le> 2 ^ 64 \<and>
     list_all (\<lambda>(b, m). a + max n 1 \<le> b \<or> b + max m 1 \<le> a) bs"

primrec wf_blocks :: "(addr \<times> nat) list \<Rightarrow> bool" where
  "wf_blocks [] = True"
| "wf_blocks (x # xs) = (fits xs (fst x) (snd x) \<and> wf_blocks xs)"

definition heap_ok :: "heap \<Rightarrow> bool" where
  "heap_ok h \<longleftrightarrow> wf_blocks (blocks h)"

definition valid :: "heap \<Rightarrow> addr \<Rightarrow> nat \<Rightarrow> bool" where
  "valid h p n \<longleftrightarrow> n = 0 \<or> list_ex (\<lambda>(b, m). b \<le> p \<and> p + n \<le> b + m) (blocks h)"

section \<open>The allocation functions of the C library\<close>

definition malloc :: "nat \<Rightarrow> heap \<Rightarrow> addr \<times> heap" where
  "malloc n h =
     (case answers h of
        [] \<Rightarrow> (0, h)
      | a # as \<Rightarrow>
          (if fits (blocks h) a n
           then (a, h\<lparr>answers := as, blocks := (a, n) # blocks h\<rparr>)
           else (0, h\<lparr>answers := as\<rparr>)))"

definition calloc :: "u64 \<Rightarrow> u64 \<Rightarrow> heap \<Rightarrow> addr \<times> heap" where
  "calloc n sz h =
     (if 2 ^ 64 \<le> unat n * unat sz then (0, h)
      else (case malloc (unat n * unat sz) h of
              (p, h') \<Rightarrow>
                if p = 0 then (0, h')
                else (p, h'\<lparr>mem := write_mem (mem h') p (replicate (unat n * unat sz) 0)\<rparr>)))"

definition free :: "addr \<Rightarrow> heap \<Rightarrow> heap option" where
  "free p h =
     (if p = 0 then Some h
      else if list_ex (\<lambda>(b, m). b = p) (blocks h)
      then Some (h\<lparr>blocks := filter (\<lambda>(b, m). b \<noteq> p) (blocks h)\<rparr>)
      else None)"

definition realloc :: "addr \<Rightarrow> nat \<Rightarrow> heap \<Rightarrow> (addr \<times> heap) option" where
  "realloc p n h =
     (if p = 0 then Some (malloc n h)
      else (case map_of (blocks h) p of
              None \<Rightarrow> None
            | Some m \<Rightarrow>
                (let others = filter (\<lambda>(b, m). b \<noteq> p) (blocks h) in
                 case answers h of
                   [] \<Rightarrow> Some (0, h)
                 | a # as \<Rightarrow>
                     (if fits others a n
                      then Some (a, h\<lparr>answers := as, blocks := (a, n) # others,
                                     mem := write_mem (mem h) a (read_mem (mem h) p (min m n))\<rparr>)
                      else Some (0, h\<lparr>answers := as\<rparr>)))))"

section \<open>Checked accesses\<close>

definition load_bytes :: "addr \<Rightarrow> nat \<Rightarrow> heap \<Rightarrow> u8 list option" where
  "load_bytes p n h = (if valid h p n then Some (read_mem (mem h) p n) else None)"

definition store_bytes :: "addr \<Rightarrow> u8 list \<Rightarrow> heap \<Rightarrow> heap option" where
  "store_bytes p bs h =
     (if valid h p (length bs) then Some (h\<lparr>mem := write_mem (mem h) p bs\<rparr>) else None)"

definition memcpy :: "addr \<Rightarrow> addr \<Rightarrow> nat \<Rightarrow> heap \<Rightarrow> heap option" where
  "memcpy d s n h =
     (if n = 0 \<or> d + n \<le> s \<or> s + n \<le> d
      then do { bs \<leftarrow> load_bytes s n h; store_bytes d bs h }
      else None)"

definition load_u64 :: "addr \<Rightarrow> heap \<Rightarrow> u64 option" where
  "load_u64 p h = map_option le_word (load_bytes p 8 h)"

definition store_u64 :: "addr \<Rightarrow> u64 \<Rightarrow> heap \<Rightarrow> heap option" where
  "store_u64 p w h = store_bytes p (le_bytes 8 w) h"

definition load_int :: "addr \<Rightarrow> heap \<Rightarrow> int option" where
  "load_int p h = map_option (\<lambda>bs. sint (le_word bs :: u32)) (load_bytes p 4 h)"

definition store_int :: "addr \<Rightarrow> int \<Rightarrow> heap \<Rightarrow> heap option" where
  "store_int p i h = store_bytes p (le_bytes 4 (word_of_int i :: u32)) h"

text \<open>The value a load returns where it is defined.\<close>

definition u64_at :: "heap \<Rightarrow> addr \<Rightarrow> u64" where
  "u64_at h p = le_word (read_mem (mem h) p 8)"

definition int_at :: "heap \<Rightarrow> addr \<Rightarrow> int" where
  "int_at h p = sint (le_word (read_mem (mem h) p 4) :: u32)"

definition bytes_at :: "heap \<Rightarrow> addr \<Rightarrow> nat \<Rightarrow> u8 list" where
  "bytes_at h p n = read_mem (mem h) p n"

definition set_bytes :: "addr \<Rightarrow> u8 list \<Rightarrow> heap \<Rightarrow> heap" where
  "set_bytes p bs h = h\<lparr>mem := write_mem (mem h) p bs\<rparr>"


section \<open>Symbolic execution of accesses\<close>

named_theorems mem_step \<open>how a checked access evaluates when it is valid\<close>
named_theorems heap_simps \<open>reading a heap after an update\<close>

lemma load_bytes_valid [mem_step]: "valid h p n \<Longrightarrow> load_bytes p n h = Some (bytes_at h p n)"
  by (simp add: load_bytes_def bytes_at_def)

lemma store_bytes_valid [mem_step]:
  "valid h p (length bs) \<Longrightarrow> store_bytes p bs h = Some (set_bytes p bs h)"
  by (simp add: store_bytes_def set_bytes_def)

lemma load_u64_valid [mem_step]: "valid h p 8 \<Longrightarrow> load_u64 p h = Some (u64_at h p)"
  by (simp add: load_u64_def load_bytes_def u64_at_def)

lemma store_u64_valid [mem_step]:
  "valid h p 8 \<Longrightarrow> store_u64 p w h = Some (set_bytes p (le_bytes 8 w) h)"
  by (simp add: store_u64_def mem_step)

lemma load_int_valid [mem_step]: "valid h p 4 \<Longrightarrow> load_int p h = Some (int_at h p)"
  by (simp add: load_int_def load_bytes_def int_at_def)

lemma store_int_valid [mem_step]:
  "valid h p 4 \<Longrightarrow> store_int p i h = Some (set_bytes p (le_bytes 4 (word_of_int i :: u32)) h)"
  by (simp add: store_int_def mem_step)

lemma memcpy_valid:
  "valid h s n \<Longrightarrow> valid h d n \<Longrightarrow> n = 0 \<or> d + n \<le> s \<or> s + n \<le> d \<Longrightarrow>
   memcpy d s n h = Some (set_bytes d (bytes_at h s n) h)"
  by (simp add: memcpy_def mem_step bytes_at_def)

lemma set_bytes_fields [heap_simps]:
  "blocks (set_bytes p bs h) = blocks h"
  "answers (set_bytes p bs h) = answers h"
  "cb_log (set_bytes p bs h) = cb_log h"
  "mem (set_bytes p bs h) = write_mem (mem h) p bs"
  by (simp_all add: set_bytes_def)

lemma valid_cong: "blocks h = blocks h' \<Longrightarrow> valid h p n = valid h' p n"
  by (simp add: valid_def)

lemma valid_set_bytes [heap_simps]: "valid (set_bytes p bs h) q n = valid h q n"
  by (rule valid_cong) (simp add: heap_simps)

lemma heap_ok_set_bytes [heap_simps]: "heap_ok (set_bytes p bs h) = heap_ok h"
  by (simp add: heap_ok_def heap_simps)

lemma length_bytes_at [simp]: "length (bytes_at h p n) = n"
  by (simp add: bytes_at_def)

lemma bytes_at_0 [simp]: "bytes_at h p 0 = []"
  by (simp add: bytes_at_def)

lemma bytes_at_set_same [heap_simps]:
  "length bs = n \<Longrightarrow> bytes_at (set_bytes p bs h) p n = bs"
  by (simp add: bytes_at_def heap_simps)

lemma bytes_at_set_other:
  "p + n \<le> q \<or> q + length bs \<le> p \<Longrightarrow> bytes_at (set_bytes q bs h) p n = bytes_at h p n"
  by (simp add: bytes_at_def heap_simps read_write_other)

lemma u64_at_set_same [heap_simps]: "u64_at (set_bytes p (le_bytes 8 w) h) p = w"
  by (simp add: u64_at_def heap_simps)

lemma u64_at_set_other:
  "p + 8 \<le> q \<or> q + length bs \<le> p \<Longrightarrow> u64_at (set_bytes q bs h) p = u64_at h p"
  by (simp add: u64_at_def heap_simps read_write_other)

lemma int_at_set_other:
  "p + 4 \<le> q \<or> q + length bs \<le> p \<Longrightarrow> int_at (set_bytes q bs h) p = int_at h p"
  by (simp add: int_at_def heap_simps read_write_other)

lemma int_at_set_same:
  "- (2 ^ 31) \<le> i \<Longrightarrow> i < 2 ^ 31 \<Longrightarrow>
   int_at (set_bytes p (le_bytes 4 (word_of_int i :: u32)) h) p = i"
  by (simp add: int_at_def heap_simps signed_of_int signed_take_bit_int_eq_self)

lemma int_at_range: "- (2 ^ 31) \<le> int_at h p" "int_at h p < 2 ^ 31"
  using sint_ge [of "le_word (read_mem (mem h) p 4) :: u32"]
        sint_lt [of "le_word (read_mem (mem h) p 4) :: u32"]
  by (simp_all add: int_at_def)

lemma bytes_at_u64: "bytes_at h p 8 = bytes_at h' p 8 \<Longrightarrow> u64_at h p = u64_at h' p"
  by (simp add: bytes_at_def u64_at_def)

lemma bytes_at_int: "bytes_at h p 4 = bytes_at h' p 4 \<Longrightarrow> int_at h p = int_at h' p"
  by (simp add: bytes_at_def int_at_def)

section \<open>Live objects are disjoint\<close>

lemma valid_block:
  "(b, m) \<in> set (blocks h) \<Longrightarrow> b \<le> p \<Longrightarrow> p + n \<le> b + m \<Longrightarrow> valid h p n"
  by (auto simp: valid_def list_ex_iff)

lemma valid_0 [simp]: "valid h p 0"
  by (simp add: valid_def)

lemma fits_disjoint:
  "fits bs a n \<Longrightarrow> (b, m) \<in> set bs \<Longrightarrow> a + max n 1 \<le> b \<or> b + max m 1 \<le> a"
  by (auto simp: fits_def list_all_iff)

lemma wf_blocks_disjoint:
  "wf_blocks bs \<Longrightarrow> (a, n) \<in> set bs \<Longrightarrow> (b, m) \<in> set bs \<Longrightarrow> (a, n) \<noteq> (b, m) \<Longrightarrow>
   a + max n 1 \<le> b \<or> b + max m 1 \<le> a"
  by (induction bs) (auto dest: fits_disjoint)

lemma wf_blocks_range:
  "wf_blocks bs \<Longrightarrow> (a, n) \<in> set bs \<Longrightarrow> 0 < a \<and> a + max n 1 \<le> 2 ^ 64"
  by (induction bs) (auto simp: fits_def)

lemma heap_ok_disjoint:
  "heap_ok h \<Longrightarrow> x \<in> set (blocks h) \<Longrightarrow> y \<in> set (blocks h) \<Longrightarrow> x \<noteq> y \<Longrightarrow>
   fst x + max (snd x) 1 \<le> fst y \<or> fst y + max (snd y) 1 \<le> fst x"
  using wf_blocks_disjoint [of "blocks h" "fst x" "snd x" "fst y" "snd y"]
  by (auto simp: heap_ok_def prod_eq_iff)

lemma heap_ok_range:
  "heap_ok h \<Longrightarrow> (a, n) \<in> set (blocks h) \<Longrightarrow> 0 < a \<and> a + max n 1 \<le> 2 ^ 64"
  by (auto simp: heap_ok_def dest: wf_blocks_range)

lemma heap_ok_size: "heap_ok h \<Longrightarrow> (a, n) \<in> set (blocks h) \<Longrightarrow> n < 2 ^ 63"
proof -
  have "wf_blocks bs \<Longrightarrow> (a, n) \<in> set bs \<Longrightarrow> n < 2 ^ 63" for bs
    by (induction bs) (auto simp: fits_def)
  then show "heap_ok h \<Longrightarrow> (a, n) \<in> set (blocks h) \<Longrightarrow> n < 2 ^ 63" by (simp add: heap_ok_def)
qed

lemma heap_ok_base_inj:
  "heap_ok h \<Longrightarrow> (a, n) \<in> set (blocks h) \<Longrightarrow> (a, m) \<in> set (blocks h) \<Longrightarrow> n = m"
  using heap_ok_disjoint [of h "(a, n)" "(a, m)"] by auto

lemma fits_filter: "fits bs a n \<Longrightarrow> fits (filter P bs) a n"
  by (auto simp: fits_def list_all_iff)

lemma wf_blocks_filter: "wf_blocks bs \<Longrightarrow> wf_blocks (filter P bs)"
  by (induction bs) (auto intro: fits_filter)

lemma fits_set_mono: "fits bs a n \<Longrightarrow> set cs \<subseteq> set bs \<Longrightarrow> fits cs a n"
  by (auto simp: fits_def list_all_iff)

lemma map_of_blocks:
  assumes "heap_ok h" "(p, m) \<in> set (blocks h)"
  shows "map_of (blocks h) p = Some m"
proof -
  obtain m' where m': "map_of (blocks h) p = Some m'"
    using assms(2) by (metis map_of_eq_None_iff not_Some_eq image_eqI fst_conv)
  then have "(p, m') \<in> set (blocks h)" by (rule map_of_SomeD)
  with assms have "m' = m" using heap_ok_base_inj by blast
  with m' show ?thesis by simp
qed

lemma filter_base_set:
  assumes "heap_ok h" "(p, m) \<in> set (blocks h)"
  shows "set (filter (\<lambda>(b, m). b \<noteq> p) (blocks h)) = set (blocks h) - {(p, m)}"
  using heap_ok_base_inj [OF assms(1)] assms(2) by auto


section \<open>Frames\<close>

text \<open>
  \<open>frame A B h h'\<close>: the step from \<open>h\<close> to \<open>h'\<close> turned the objects \<open>A\<close> into
  the objects \<open>B\<close>; every other live object is still there with the same bytes,
  and no other object appeared. \<open>frame {} {}\<close> is a step that leaks nothing.
\<close>

definition frame :: "(addr \<times> nat) set \<Rightarrow> (addr \<times> nat) set \<Rightarrow> heap \<Rightarrow> heap \<Rightarrow> bool" where
  "frame A B h h' \<longleftrightarrow>
     A \<subseteq> set (blocks h) \<and> B \<subseteq> set (blocks h') \<and>
     set (blocks h') - B = set (blocks h) - A \<and>
     (\<forall>x \<in> set (blocks h) - A. bytes_at h' (fst x) (snd x) = bytes_at h (fst x) (snd x)) \<and>
     (heap_ok h \<longrightarrow> heap_ok h')"

lemma frame_refl: "A \<subseteq> set (blocks h) \<Longrightarrow> frame A A h h"
  by (simp add: frame_def)

lemma frame_trans:
  "frame A B h h' \<Longrightarrow> frame B C h' h'' \<Longrightarrow> frame A C h h''"
  by (auto simp: frame_def)

lemma frame_heap_ok: "frame A B h h' \<Longrightarrow> heap_ok h \<Longrightarrow> heap_ok h'"
  by (simp add: frame_def)

lemma frame_sub: "frame A B h h' \<Longrightarrow> B \<subseteq> set (blocks h')"
  by (simp add: frame_def)

lemma frame_mem: "frame A B h h' \<Longrightarrow> x \<in> set (blocks h) \<Longrightarrow> x \<notin> A \<Longrightarrow> x \<in> set (blocks h') \<and> x \<notin> B"
  by (auto simp: frame_def)

lemma frame_extend:
  assumes "frame A B h h'" "C \<subseteq> set (blocks h)" "C \<inter> A = {}"
  shows "frame (A \<union> C) (B \<union> C) h h'"
  using assms by (auto simp: frame_def)

lemma frame_bytes:
  assumes "frame A B h h'" "(b, m) \<in> set (blocks h)" "(b, m) \<notin> A" "b \<le> p" "p + n \<le> b + m"
  shows "bytes_at h' p n = bytes_at h p n"
proof -
  have "\<forall>x \<in> set (blocks h) - A. bytes_at h' (fst x) (snd x) = bytes_at h (fst x) (snd x)"
    using assms(1) by (simp add: frame_def)
  from bspec [OF this, of "(b, m)"] have "bytes_at h' b m = bytes_at h b m"
    using assms(2,3) by simp
  then have "take n (drop (p - b) (bytes_at h' b m)) = take n (drop (p - b) (bytes_at h b m))"
    by simp
  moreover have "take n (drop (p - b) (bytes_at k b m)) = bytes_at k p n" for k
    by (rule nth_equalityI) (use assms(4,5) in \<open>auto simp: bytes_at_def\<close>)
  ultimately show ?thesis by simp
qed

lemma frame_valid:
  assumes "frame A B h h'" "(b, m) \<in> set (blocks h)" "(b, m) \<notin> A" "b \<le> p" "p + n \<le> b + m"
  shows "valid h' p n"
  using frame_mem [OF assms(1-3)] assms(4,5) by (blast intro: valid_block)

text \<open>A store inside an owned object changes that object only.\<close>

lemma frame_set_bytes:
  assumes ok: "heap_ok h" and own: "(b, m) \<in> A" "A \<subseteq> set (blocks h)"
    and range: "b \<le> p" "p + length bs \<le> b + m"
  shows "frame A A h (set_bytes p bs h)"
proof -
  have "bytes_at (set_bytes p bs h) (fst x) (snd x) = bytes_at h (fst x) (snd x)"
    if x: "x \<in> set (blocks h) - A" for x
  proof (rule bytes_at_set_other)
    have "fst x + max (snd x) 1 \<le> b \<or> b + max m 1 \<le> fst x"
      using heap_ok_disjoint [OF ok, of x "(b, m)"] x own by auto
    then show "fst x + snd x \<le> p \<or> p + length bs \<le> fst x"
      using range by auto
  qed
  then show ?thesis
    using ok own by (auto simp: frame_def heap_simps)
qed

section \<open>Readable ranges\<close>

text \<open>
  \<open>readable h X p n\<close>: the \<open>n\<close> bytes at \<open>p\<close> lie in a live object outside
  \<open>X\<close> (or there are none).
\<close>

definition readable :: "heap \<Rightarrow> (addr \<times> nat) set \<Rightarrow> addr \<Rightarrow> nat \<Rightarrow> bool" where
  "readable h X p n \<longleftrightarrow> n = 0 \<or>
     (\<exists>s m. (s, m) \<in> set (blocks h) \<and> (s, m) \<notin> X \<and> s \<le> p \<and> p + n \<le> s + m)"

lemma readableI:
  "(s, m) \<in> set (blocks h) \<Longrightarrow> (s, m) \<notin> X \<Longrightarrow> s \<le> p \<Longrightarrow> p + n \<le> s + m \<Longrightarrow> readable h X p n"
  by (auto simp: readable_def)

lemma readable_valid: "readable h X p n \<Longrightarrow> valid h p n"
  by (auto simp: readable_def intro: valid_block)

lemma readable_frame:
  assumes f: "frame A B h h'" and r: "readable h A p n"
  shows "readable h' B p n" "bytes_at h' p n = bytes_at h p n"
proof -
  have "readable h' B p n \<and> bytes_at h' p n = bytes_at h p n"
  proof (cases "n = 0")
    case False
    then obtain s m where s: "(s, m) \<in> set (blocks h)" "(s, m) \<notin> A" "s \<le> p" "p + n \<le> s + m"
      using r by (auto simp: readable_def)
    then show ?thesis
      using frame_mem [OF f s(1,2)] frame_bytes [OF f s] by (auto intro: readableI)
  qed (simp add: readable_def)
  then show "readable h' B p n" "bytes_at h' p n = bytes_at h p n" by simp_all
qed

lemma readable_mono: "readable h X p n \<Longrightarrow> Y \<subseteq> X \<Longrightarrow> readable h Y p n"
  by (auto simp: readable_def)

lemma readable_sub: "readable h X p n \<Longrightarrow> m \<le> n \<Longrightarrow> readable h X p m"
  by (cases "m = 0") (fastforce simp: readable_def)+

section \<open>What the allocation functions do\<close>

lemma malloc_cases:
  assumes "malloc n h = (p, h')" "heap_ok h"
  shows "(p = 0 \<and> frame {} {} h h' \<and> mem h' = mem h \<and> blocks h' = blocks h) \<or>
         (0 < p \<and> frame {} {(p, n)} h h' \<and> mem h' = mem h \<and> fits (blocks h) p n \<and>
          blocks h' = (p, n) # blocks h)"
proof (cases "answers h")
  case Nil
  then show ?thesis using assms by (simp add: malloc_def frame_refl)
next
  case (Cons a as)
  show ?thesis
  proof (cases "fits (blocks h) a n")
    case True
    then have "0 < a" and notin: "(a, n) \<notin> set (blocks h)"
      by (auto simp: fits_def list_all_iff)
    then show ?thesis
      using assms Cons True
      by (auto simp: malloc_def frame_def heap_ok_def bytes_at_def)
  next
    case False
    then show ?thesis
      using assms Cons
      by (auto simp: malloc_def frame_def heap_ok_def bytes_at_def)
  qed
qed

lemma calloc_cases:
  assumes "calloc n sz h = (p, h')" "heap_ok h"
  shows "(p = 0 \<and> frame {} {} h h' \<and> mem h' = mem h \<and> blocks h' = blocks h) \<or>
         (0 < p \<and> frame {} {(p, unat n * unat sz)} h h' \<and> unat n * unat sz < 2 ^ 64 \<and>
          bytes_at h' p (unat n * unat sz) = replicate (unat n * unat sz) 0)"
proof (cases "2 ^ 64 \<le> unat n * unat sz")
  case True
  then show ?thesis using assms by (simp add: calloc_def frame_refl)
next
  case False
  let ?k = "unat n * unat sz"
  obtain q h1 where m: "malloc ?k h = (q, h1)" by fastforce
  from malloc_cases [OF m assms(2)] show ?thesis
  proof (elim disjE conjE)
    assume "q = 0" "frame {} {} h h1" "mem h1 = mem h" "blocks h1 = blocks h"
    then show ?thesis using assms m False by (simp add: calloc_def)
  next
    assume q: "0 < q" and f: "frame {} {(q, ?k)} h h1"
    have p: "p = q" and h': "h' = set_bytes q (replicate ?k 0) h1"
      using assms(1) m False q by (auto simp: calloc_def set_bytes_def)
    have "frame {(q, ?k)} {(q, ?k)} h1 h'"
      unfolding h' by (rule frame_set_bytes [where b = q and m = ?k])
        (use f assms(2) in \<open>auto simp: frame_def\<close>)
    with f have "frame {} {(q, ?k)} h h'" by (rule frame_trans)
    then show ?thesis using p q False h' by (simp add: heap_simps)
  qed
qed

lemma free_block:
  assumes "heap_ok h" "(p, m) \<in> set (blocks h)"
  shows "\<exists>h'. free p h = Some h' \<and> frame {(p, m)} {} h h' \<and> mem h' = mem h"
proof -
  have "p \<noteq> 0" using heap_ok_range [OF assms] by simp
  moreover have "list_ex (\<lambda>(b, m). b = p) (blocks h)"
    using assms(2) by (auto simp: list_ex_iff)
  ultimately show ?thesis
    using assms filter_base_set [OF assms] wf_blocks_filter [of "blocks h"]
    by (auto simp: free_def frame_def heap_ok_def bytes_at_def)
qed

lemma free_null [simp]: "free 0 h = Some h"
  by (simp add: free_def)

lemma realloc_null [simp]: "realloc 0 n h = Some (malloc n h)"
  by (simp add: realloc_def)

lemma realloc_cases:
  assumes ok: "heap_ok h" and blk: "(p, m) \<in> set (blocks h)"
  shows "\<exists>q h'. realloc p n h = Some (q, h') \<and>
    ((q = 0 \<and> frame {(p, m)} {(p, m)} h h' \<and> mem h' = mem h \<and> blocks h' = blocks h) \<or>
     (0 < q \<and> frame {(p, m)} {(q, n)} h h' \<and>
      bytes_at h' q (min m n) = bytes_at h p (min m n)))"
proof -
  let ?rest = "filter (\<lambda>(b, m). b \<noteq> p) (blocks h)"
  have p: "p \<noteq> 0" using heap_ok_range [OF assms] by simp
  have fs: "set ?rest = set (blocks h) - {(p, m)}" by (rule filter_base_set [OF assms])
  show ?thesis
  proof (cases "answers h")
    case Nil
    then show ?thesis using p blk map_of_blocks [OF assms]
      by (simp add: realloc_def frame_refl)
  next
    case (Cons a as)
    show ?thesis
    proof (cases "fits ?rest a n")
      case True
      let ?h' = "h\<lparr>answers := as, blocks := (a, n) # ?rest,
                   mem := write_mem (mem h) a (read_mem (mem h) p (min m n))\<rparr>"
      have eq: "realloc p n h = Some (a, ?h')"
        using p Cons True map_of_blocks [OF assms] by (simp add: realloc_def Let_def)
      have a: "0 < a" and notin: "(a, n) \<notin> set ?rest"
        using True fits_disjoint [OF True, of a n] by (auto simp: fits_def)
      have other: "bytes_at ?h' (fst x) (snd x) = bytes_at h (fst x) (snd x)"
        if "x \<in> set (blocks h) - {(p, m)}" for x
      proof -
        have "a + max n 1 \<le> fst x \<or> fst x + max (snd x) 1 \<le> a"
          using True that fs fits_disjoint [of ?rest a n "fst x" "snd x"] by auto
        then show ?thesis
          by (auto simp: bytes_at_def intro!: read_write_other)
      qed
      have "heap_ok ?h'"
        using True ok by (auto simp: heap_ok_def intro: wf_blocks_filter)
      then have "frame {(p, m)} {(a, n)} h ?h'"
        using blk notin other fs by (auto simp: frame_def)
      moreover have "bytes_at ?h' a (min m n) = bytes_at h p (min m n)"
        by (simp add: bytes_at_def)
      ultimately show ?thesis using eq a by blast
    next
      case False
      let ?h' = "h\<lparr>answers := as\<rparr>"
      have "realloc p n h = Some (0, ?h')"
        using p Cons False map_of_blocks [OF assms] by (simp add: realloc_def Let_def)
      moreover have "frame {(p, m)} {(p, m)} h ?h'"
        using blk by (auto simp: frame_def heap_ok_def bytes_at_def)
      ultimately show ?thesis by auto
    qed
  qed
qed

end
