(* ===== verification/Buffer.thy ===== *)
theory Buffer
  imports Memory
begin

text \<open>
  \<^verbatim>\<open>lib/collection/buffer.c\<close>: the growable byte buffer \<^verbatim>\<open>struct CxBuffer\<close>.
  The struct is a record passed and returned by value; its data lives in the
  memory of theory Memory. An operation that can touch memory returns \<open>None\<close>
  exactly when the C code would access or free memory it must not.
\<close>

section \<open>State and operations\<close>

record cx_buffer =
  bdata :: addr
  bsize :: u64
  bcapacity :: u64

definition cx_buffer_init :: "cx_buffer \<Rightarrow> int \<times> cx_buffer" where
  "cx_buffer_init buffer = (0, buffer\<lparr>bdata := 0, bcapacity := 0, bsize := 0\<rparr>)"

definition resize_buffer_exact ::
  "cx_buffer \<Rightarrow> u64 \<Rightarrow> heap \<Rightarrow> (int \<times> cx_buffer \<times> heap) option" where
  "resize_buffer_exact buffer new_capacity h = do {
     (new_data, h) \<leftarrow> realloc (bdata buffer) (unat new_capacity) h;
     Some (if new_data = 0 then (- err_code CX_ERR_ALLOC, buffer, h)
           else (0, buffer\<lparr>bdata := new_data, bcapacity := new_capacity\<rparr>, h))
   }"

text \<open>\<^verbatim>\<open>__builtin_clzll\<close>: the number of leading zero bits of a non-zero word.\<close>

definition clz64 :: "u64 \<Rightarrow> nat" where
  "clz64 w = length (takeWhile (\<lambda>i. \<not> bit w i) (rev [0..<64]))"

definition round_to_next_pow2 :: "u64 \<Rightarrow> int \<times> u64" where
  "round_to_next_pow2 i =
     (if i \<le> 1 then (0, 1)
      else (let leading_zeros = clz64 (i - 1) in
            if leading_zeros = 0 then (- err_code CX_ERR_INTEGER_OVERFLOW, i)
            else (0, push_bit (64 - leading_zeros) 1)))"

text \<open>
  \<open>out\<close> says whether the caller passed a place for the pointer to the additional
  memory; the pointer is \<open>None\<close> when nothing is written through it.
\<close>

definition cx_buffer_add_capacity ::
  "cx_buffer \<Rightarrow> bool \<Rightarrow> u64 \<Rightarrow> heap \<Rightarrow> (int \<times> cx_buffer \<times> addr option \<times> heap) option" where
  "cx_buffer_add_capacity buffer out additional_size h =
     (let buffer_size = bsize buffer;
          (overflow, new_capacity) = add_overflow buffer_size additional_size;
          done = (\<lambda>b h. Some (0, b, if out then Some (bdata b + unat buffer_size) else None, h))
      in
      if overflow then Some (- err_code CX_ERR_INTEGER_OVERFLOW, buffer, None, h)
      else if bcapacity buffer < new_capacity
      then (let (rv, new_capacity) = round_to_next_pow2 new_capacity in
            if rv < 0 then Some (rv, buffer, None, h)
            else do {
              (rv, buffer, h) \<leftarrow> resize_buffer_exact buffer new_capacity h;
              if rv < 0 then Some (rv, buffer, None, h) else done buffer h
            })
      else done buffer h)"

definition cx_buffer_add_capacity_exact ::
  "cx_buffer \<Rightarrow> bool \<Rightarrow> u64 \<Rightarrow> heap \<Rightarrow> (int \<times> cx_buffer \<times> addr option \<times> heap) option" where
  "cx_buffer_add_capacity_exact buffer out additional_size h =
     (let buffer_size = bsize buffer;
          (overflow, new_capacity) = add_overflow buffer_size additional_size;
          done = (\<lambda>b h. Some (0, b, if out then Some (bdata b + unat buffer_size) else None, h))
      in
      if overflow then Some (- err_code CX_ERR_INTEGER_OVERFLOW, buffer, None, h)
      else if bcapacity buffer < new_capacity
      then do {
        (rv, buffer, h) \<leftarrow> resize_buffer_exact buffer new_capacity h;
        if rv < 0 then Some (rv, buffer, None, h) else done buffer h
      }
      else done buffer h)"

definition cx_buffer_add_size :: "cx_buffer \<Rightarrow> u64 \<Rightarrow> int \<times> cx_buffer" where
  "cx_buffer_add_size buffer additional_size =
     (let (overflow, new_size) = add_overflow (bsize buffer) additional_size in
      if overflow then (- err_code CX_ERR_INTEGER_OVERFLOW, buffer)
      else (0, buffer\<lparr>bsize := new_size\<rparr>))"

definition cx_buffer_append ::
  "cx_buffer \<Rightarrow> addr \<Rightarrow> u64 \<Rightarrow> heap \<Rightarrow> (int \<times> cx_buffer \<times> heap) option" where
  "cx_buffer_append buffer source src_size h =
     (if src_size \<le> 0 then Some (0, buffer, h)
      else do {
        (rv, buffer, additional_buffer, h) \<leftarrow> cx_buffer_add_capacity buffer True src_size h;
        if rv < 0 then Some (rv, buffer, h)
        else do {
          dest \<leftarrow> additional_buffer;
          h \<leftarrow> memcpy dest source (unat src_size) h;
          let (rv, buffer) = cx_buffer_add_size buffer src_size;
          Some (rv, buffer, h)
        }
      })"

definition cx_buffer_cleanup :: "cx_buffer \<Rightarrow> heap \<Rightarrow> (int \<times> cx_buffer \<times> heap) option" where
  "cx_buffer_cleanup buffer h = do {
     h \<leftarrow> free (bdata buffer) h;
     Some (0, buffer\<lparr>bdata := 0, bcapacity := 0, bsize := 0\<rparr>, h)
   }"

text \<open>The result holds the two structs after the move, target first.\<close>

definition cx_buffer_move ::
  "cx_buffer \<Rightarrow> cx_buffer \<Rightarrow> heap \<Rightarrow> (int \<times> cx_buffer \<times> cx_buffer \<times> heap) option" where
  "cx_buffer_move buffer source h = do {
     (_, buffer, h) \<leftarrow> cx_buffer_cleanup buffer h;
     Some (0, source, \<lparr>bdata = 0, bsize = 0, bcapacity = 0\<rparr>, h)
   }"

definition cx_buffer_drain :: "cx_buffer \<Rightarrow> cx_buffer" where
  "cx_buffer_drain buffer = buffer\<lparr>bsize := 0\<rparr>"

definition cx_buffer_data :: "cx_buffer \<Rightarrow> addr" where
  "cx_buffer_data buffer = bdata buffer"

definition cx_buffer_size :: "cx_buffer \<Rightarrow> u64" where
  "cx_buffer_size buffer = bsize buffer"

definition cx_buffer_unwrap :: "cx_buffer \<Rightarrow> heap \<Rightarrow> (addr \<times> cx_buffer \<times> heap) option" where
  "cx_buffer_unwrap buffer h = do {
     let data = bdata buffer;
     (_, buffer, h) \<leftarrow> cx_buffer_cleanup (buffer\<lparr>bdata := 0\<rparr>) h;
     Some (data, buffer, h)
   }"

section \<open>Rounding up to a power of two\<close>

lemma clz64_le: "clz64 w \<le> 64"
  using length_takeWhile_le [of "\<lambda>i. \<not> bit w i" "rev [0..<64]"]
  by (simp add: clz64_def)

lemma rev_upt_nth64: "i < 64 \<Longrightarrow> rev [0..<64] ! i = 63 - i"
  by (simp add: rev_nth)

lemma clz64_above:
  assumes "64 - clz64 w \<le> j"
  shows "\<not> bit w j"
proof (cases "j < 64")
  case True
  let ?t = "takeWhile (\<lambda>i. \<not> bit w i) (rev [0..<64])"
  have i: "63 - j < length ?t"
    using assms True clz64_le [of w] by (simp add: clz64_def)
  then have "?t ! (63 - j) = rev [0..<64] ! (63 - j)" by (rule takeWhile_nth)
  also have "\<dots> = j" using True by (subst rev_upt_nth64) auto
  finally have "j \<in> set ?t" using i by (metis nth_mem)
  then show ?thesis by (auto dest: set_takeWhileD)
next
  case False
  then show ?thesis using bit_imp_le_length [of w j] by auto
qed

lemma clz64_at:
  assumes "clz64 w < 64"
  shows "bit w (63 - clz64 w)"
proof -
  have "\<not> \<not> bit w (rev [0..<64] ! length (takeWhile (\<lambda>i. \<not> bit w i) (rev [0..<64])))"
    by (rule nth_length_takeWhile) (use assms in \<open>simp add: clz64_def\<close>)
  then show ?thesis
    using assms rev_upt_nth64 [of "clz64 w"] by (simp add: clz64_def)
qed

lemma clz64_upper: "unat w < 2 ^ (64 - clz64 w)"
proof -
  have "take_bit (64 - clz64 w) w = w"
    by (rule bit_word_eqI) (metis bit_take_bit_iff clz64_above not_less)
  then have "take_bit (64 - clz64 w) (unat w) = unat w"
    by (metis unsigned_take_bit_eq)
  then show ?thesis
    by (metis take_bit_nat_less_exp)
qed

lemma clz64_lower:
  assumes "clz64 w < 64"
  shows "2 ^ (63 - clz64 w) \<le> unat w"
proof -
  have "bit (unat w) (63 - clz64 w)"
    using clz64_at [OF assms] by (simp add: bit_unsigned_iff)
  then have "odd (unat w div 2 ^ (63 - clz64 w))"
    by (rule bit_iff_odd [THEN iffD1])
  then have "0 < unat w div 2 ^ (63 - clz64 w)" by (rule odd_pos)
  then show ?thesis by (simp add: div_greater_zero_iff)
qed


lemma unat_push_bit_one: "k < 64 \<Longrightarrow> unat (push_bit k 1 :: u64) = 2 ^ k"
  using unat_of_nat64 [of "2 ^ k"] power_strict_increasing [of k 64 "2 :: nat"] by simp

text \<open>
  Rounding succeeds exactly up to \<open>2^63\<close>. Then the result is a power of two at
  least the argument and below twice the argument.
\<close>

lemma round_to_next_pow2_big:
  assumes "2 ^ 63 < unat i"
  shows "round_to_next_pow2 i = (- err_code CX_ERR_INTEGER_OVERFLOW, i)"
proof -
  have i1: "1 < i" using assms by (simp add: word_less_nat_alt)
  then have "unat (i - 1) = unat i - 1"
    by (simp add: unat_sub word_le_nat_alt word_less_nat_alt)
  then have "2 ^ 63 \<le> unat (i - 1)" using assms by simp
  then have "\<not> 64 - clz64 (i - 1) \<le> 63"
    using clz64_upper [of "i - 1"] power_increasing [of "64 - clz64 (i - 1)" 63 "2 :: nat"]
    by linarith
  then have "clz64 (i - 1) = 0" by simp
  then show ?thesis using i1 by (simp add: round_to_next_pow2_def linorder_not_le [symmetric])
qed

lemma round_to_next_pow2_ok:
  assumes "unat i \<le> 2 ^ 63"
  shows "\<exists>k r. k < 64 \<and> round_to_next_pow2 i = (0, r) \<and> unat r = 2 ^ k \<and>
               unat i \<le> 2 ^ k \<and> (0 < unat i \<longrightarrow> 2 ^ k < 2 * unat i)"
proof (cases "i \<le> 1")
  case True
  then have "unat i \<le> 1" by (simp add: word_le_nat_alt)
  then show ?thesis using True by (intro exI [of _ 0] exI [of _ 1]) (simp add: round_to_next_pow2_def)
next
  case False
  let ?c = "clz64 (i - 1)"
  have i1: "1 < unat i" using False by (simp add: word_le_nat_alt)
  then have u: "unat (i - 1) = unat i - 1"
    by (simp add: unat_sub word_le_nat_alt)
  have c64: "?c < 64"
    using clz64_upper [of "i - 1"] clz64_le [of "i - 1"] u i1 by (cases "?c = 64") auto
  have lower: "2 ^ (63 - ?c) \<le> unat i - 1" and upper: "unat i - 1 < 2 ^ (64 - ?c)"
    using clz64_lower [OF c64] clz64_upper [of "i - 1"] u by simp_all
  have c0: "?c \<noteq> 0"
  proof
    assume "?c = 0"
    then have "2 ^ 63 \<le> unat i - 1" using lower by simp
    then show False using assms i1 by simp
  qed
  have "2 ^ (64 - ?c) = 2 * (2 ^ (63 - ?c) :: nat)"
    using c64 by (simp flip: power_Suc add: Suc_diff_le less_Suc_eq_le)
  moreover have "round_to_next_pow2 i = (0, push_bit (64 - ?c) 1)"
    using False c0 by (simp add: round_to_next_pow2_def)
  moreover have "unat (push_bit (64 - ?c) 1 :: u64) = 2 ^ (64 - ?c)"
    using c0 by (intro unat_push_bit_one) simp
  moreover have "64 - ?c < 64" using c0 by simp
  ultimately show ?thesis
    using lower upper i1
    by (intro exI [of _ "64 - ?c"] exI [of _ "push_bit (64 - ?c) 1"]) linarith
qed

section \<open>Invariant and contents\<close>

text \<open>
  \<open>own\<close> is the set of heap objects a buffer holds (none while \<open>bdata\<close> is null),
  \<open>contents\<close> the bytes a client sees.
\<close>

definition own :: "cx_buffer \<Rightarrow> (addr \<times> nat) set" where
  "own b = (if bdata b = 0 then {} else {(bdata b, unat (bcapacity b))})"

definition buffer_ok :: "heap \<Rightarrow> cx_buffer \<Rightarrow> bool" where
  "buffer_ok h b \<longleftrightarrow> own b \<subseteq> set (blocks h) \<and> bsize b \<le> bcapacity b \<and>
     (bdata b = 0 \<longrightarrow> bcapacity b = 0)"

definition contents :: "heap \<Rightarrow> cx_buffer \<Rightarrow> u8 list" where
  "contents h b = bytes_at h (bdata b) (unat (bsize b))"

lemma buffer_ok_le: "buffer_ok h b \<Longrightarrow> unat (bsize b) \<le> unat (bcapacity b)"
  by (simp add: buffer_ok_def word_le_nat_alt)

lemma buffer_ok_null: "buffer_ok h b \<Longrightarrow> bdata b = 0 \<Longrightarrow> bsize b = 0"
  using buffer_ok_le [of h b] by (auto simp: buffer_ok_def unat_eq_zero)

lemma buffer_ok_init: "buffer_ok h (snd (cx_buffer_init b))" "own (snd (cx_buffer_init b)) = {}"
    "contents h (snd (cx_buffer_init b)) = []"
  by (simp_all add: cx_buffer_init_def buffer_ok_def own_def contents_def)

lemma own_size_update [simp]: "own (b\<lparr>bsize := n\<rparr>) = own b"
  by (simp add: own_def)

lemma buffer_frame:
  assumes f: "frame A B h h'" and ok: "buffer_ok h b" and dis: "own b \<inter> A = {}"
  shows "buffer_ok h' b" "contents h' b = contents h b" "own b \<inter> B = {}"
proof -
  have sub: "own b \<subseteq> set (blocks h)" using ok by (simp add: buffer_ok_def)
  have own': "x \<in> own b \<Longrightarrow> x \<in> set (blocks h') \<and> x \<notin> B" for x
    using frame_mem [OF f, of x] sub dis by blast
  then show "own b \<inter> B = {}" by blast
  show "buffer_ok h' b" using ok own' by (auto simp: buffer_ok_def)
  show "contents h' b = contents h b"
  proof (cases "bdata b = 0")
    case True
    then have "unat (bsize b) = 0" using buffer_ok_null [OF ok] by simp
    then show ?thesis by (simp add: contents_def)
  next
    case False
    then have "(bdata b, unat (bcapacity b)) \<in> own b" by (simp add: own_def)
    then show ?thesis
      using frame_bytes [OF f, of "bdata b" "unat (bcapacity b)" "bdata b" "unat (bsize b)"]
        sub dis buffer_ok_le [OF ok]
      by (auto simp: contents_def)
  qed
qed

section \<open>Resizing\<close>

lemma resize_buffer_exact_spec:
  assumes ok: "heap_ok h" "buffer_ok h b" and n: "unat (bcapacity b) \<le> unat n"
  shows "\<exists>rv b' h'. resize_buffer_exact b n h = Some (rv, b', h') \<and>
     buffer_ok h' b' \<and> frame (own b) (own b') h h' \<and>
     bsize b' = bsize b \<and> contents h' b' = contents h b \<and>
     ((rv = 0 \<and> bdata b' \<noteq> 0 \<and> bcapacity b' = n) \<or> (rv = - 4 \<and> b' = b))"
proof (cases "bdata b = 0")
  case True
  obtain q h' where m: "malloc (unat n) h = (q, h')" by fastforce
  have "bsize b = 0" using ok(2) True by (rule buffer_ok_null)
  moreover have "bcapacity b = 0" using ok(2) True by (simp add: buffer_ok_def)
  ultimately show ?thesis
    using malloc_cases [OF m ok(1)] m True
    by (auto simp: resize_buffer_exact_def own_def buffer_ok_def contents_def frame_def)
next
  case False
  then have blk: "(bdata b, unat (bcapacity b)) \<in> set (blocks h)"
    using ok(2) by (auto simp: buffer_ok_def own_def)
  obtain q h' where r: "realloc (bdata b) (unat n) h = Some (q, h')"
    and c: "(q = 0 \<and> frame {(bdata b, unat (bcapacity b))} {(bdata b, unat (bcapacity b))} h h' \<and>
             mem h' = mem h \<and> blocks h' = blocks h) \<or>
     (0 < q \<and> frame {(bdata b, unat (bcapacity b))} {(q, unat n)} h h' \<and>
      bytes_at h' q (unat (bcapacity b)) = bytes_at h (bdata b) (unat (bcapacity b)))"
    using realloc_cases [OF ok(1) blk, of "unat n"] n by (auto simp: min_absorb1)
  have le: "unat (bsize b) \<le> unat (bcapacity b)" using buffer_ok_le [OF ok(2)] .
  from c show ?thesis
  proof (elim disjE conjE)
    assume "q = 0" "mem h' = mem h" "blocks h' = blocks h"
      "frame {(bdata b, unat (bcapacity b))} {(bdata b, unat (bcapacity b))} h h'"
    then show ?thesis using r ok False
      by (simp add: resize_buffer_exact_def own_def buffer_ok_def contents_def bytes_at_def)
  next
    assume q: "0 < q" and f: "frame {(bdata b, unat (bcapacity b))} {(q, unat n)} h h'"
      and b: "bytes_at h' q (unat (bcapacity b)) = bytes_at h (bdata b) (unat (bcapacity b))"
    have "bytes_at h' q (unat (bsize b)) = bytes_at h (bdata b) (unat (bsize b))"
      using arg_cong [OF b, of "take (unat (bsize b))"] le
      by (simp add: bytes_at_def flip: read_mem_take)
    moreover have "bsize b \<le> n" using le n by (simp add: word_le_nat_alt)
    ultimately show ?thesis using r q f False frame_sub [OF f]
      by (simp add: resize_buffer_exact_def own_def buffer_ok_def contents_def)
  qed
qed

section \<open>Reserving capacity\<close>

text \<open>
  The contract both reservation functions share; \<open>cap_ok\<close> is the relation the two
  differ in, between the requested and the new capacity.
\<close>

definition reserve_post ::
  "(nat \<Rightarrow> nat \<Rightarrow> bool) \<Rightarrow> cx_buffer \<Rightarrow> bool \<Rightarrow> u64 \<Rightarrow> heap \<Rightarrow>
   int \<times> cx_buffer \<times> addr option \<times> heap \<Rightarrow> bool" where
  "reserve_post cap_ok b out n h = (\<lambda>(rv, b', p, h').
     buffer_ok h' b' \<and> frame (own b) (own b') h h' \<and>
     bsize b' = bsize b \<and> contents h' b' = contents h b \<and>
     ((rv = 0 \<and> unat (bsize b) + unat n \<le> unat (bcapacity b') \<and>
       p = (if out then Some (bdata b' + unat (bsize b)) else None) \<and>
       (if unat (bsize b) + unat n \<le> unat (bcapacity b) then b' = b
        else cap_ok (unat (bsize b) + unat n) (unat (bcapacity b')))) \<or>
      ((rv = - 1 \<or> rv = - 4) \<and> b' = b \<and> p = None)))"

lemma cx_buffer_add_capacity_exact_spec:
  assumes ok: "heap_ok h" "buffer_ok h b"
  shows "\<exists>r. cx_buffer_add_capacity_exact b out n h = Some r \<and> reserve_post (=) b out n h r"
proof (cases "2 ^ 64 \<le> unat (bsize b) + unat n")
  case True
  then show ?thesis using ok frame_refl
    by (simp add: cx_buffer_add_capacity_exact_def add_overflow_def reserve_post_def buffer_ok_def)
next
  case False
  then have s: "unat (bsize b + n) = unat (bsize b) + unat n" by (simp add: unat_add_no_wrap)
  show ?thesis
  proof (cases "bcapacity b < bsize b + n")
    case True
    then have lt: "unat (bcapacity b) < unat (bsize b) + unat n"
      by (simp add: word_less_nat_alt s)
    then obtain rv b' h' where r: "resize_buffer_exact b (bsize b + n) h = Some (rv, b', h')"
      and post: "buffer_ok h' b'" "frame (own b) (own b') h h'" "bsize b' = bsize b"
        "contents h' b' = contents h b"
        "(rv = 0 \<and> bdata b' \<noteq> 0 \<and> bcapacity b' = bsize b + n) \<or> (rv = - 4 \<and> b' = b)"
      using resize_buffer_exact_spec [OF ok, of "bsize b + n"] s by auto
    then show ?thesis using False True lt s
      by (auto simp: cx_buffer_add_capacity_exact_def add_overflow_def reserve_post_def)
  next
    case le: False
    then show ?thesis using False ok s frame_refl
      by (auto simp: cx_buffer_add_capacity_exact_def add_overflow_def reserve_post_def
          buffer_ok_def word_less_nat_alt)
  qed
qed

lemma cx_buffer_add_capacity_spec:
  assumes ok: "heap_ok h" "buffer_ok h b"
  shows "\<exists>r. cx_buffer_add_capacity b out n h = Some r \<and>
             reserve_post (\<lambda>want c. \<exists>k<64. c = 2 ^ k \<and> want \<le> c \<and> (0 < want \<longrightarrow> c < 2 * want)) b out n h r"
proof (cases "2 ^ 64 \<le> unat (bsize b) + unat n")
  case True
  then show ?thesis using ok frame_refl
    by (simp add: cx_buffer_add_capacity_def add_overflow_def reserve_post_def buffer_ok_def)
next
  case False
  then have s: "unat (bsize b + n) = unat (bsize b) + unat n" by (simp add: unat_add_no_wrap)
  consider (fits) "\<not> bcapacity b < bsize b + n"
    | (big) "bcapacity b < bsize b + n" "2 ^ 63 < unat (bsize b + n)"
    | (grow) "bcapacity b < bsize b + n" "unat (bsize b + n) \<le> 2 ^ 63" by linarith
  then show ?thesis
  proof cases
    case fits
    then show ?thesis using False ok s frame_refl
      by (auto simp: cx_buffer_add_capacity_def add_overflow_def reserve_post_def
          buffer_ok_def word_less_nat_alt)
  next
    case big
    then show ?thesis using False ok frame_refl
      by (auto simp: cx_buffer_add_capacity_def add_overflow_def reserve_post_def
          buffer_ok_def round_to_next_pow2_big)
  next
    case grow
    obtain k c where c: "k < 64" "round_to_next_pow2 (bsize b + n) = (0, c)" "unat c = 2 ^ k"
        "unat (bsize b + n) \<le> 2 ^ k" "0 < unat (bsize b + n) \<longrightarrow> 2 ^ k < 2 * unat (bsize b + n)"
      using round_to_next_pow2_ok [OF grow(2)] by auto
    have lt: "unat (bcapacity b) < unat (bsize b) + unat n"
      using grow(1) by (simp add: word_less_nat_alt s)
    then obtain rv b' h' where r: "resize_buffer_exact b c h = Some (rv, b', h')"
      and post: "buffer_ok h' b'" "frame (own b) (own b') h h'" "bsize b' = bsize b"
        "contents h' b' = contents h b"
        "(rv = 0 \<and> bdata b' \<noteq> 0 \<and> bcapacity b' = c) \<or> (rv = - 4 \<and> b' = b)"
      using resize_buffer_exact_spec [OF ok, of c] s c by auto
    then show ?thesis using False grow(1) lt s c
      by (auto simp: cx_buffer_add_capacity_def add_overflow_def reserve_post_def)
  qed
qed

section \<open>Appending\<close>

lemma bytes_at_append:
  "bytes_at (set_bytes (d + k) bs h) d (k + length bs) = bytes_at h d k @ bs"
  by (simp add: bytes_at_def heap_simps read_mem_add read_write_other)

text \<open>\<open>tight n c\<close>: the capacity \<open>c\<close> is the least power of two that is not below \<open>n\<close>.\<close>

definition tight :: "nat \<Rightarrow> nat \<Rightarrow> bool" where
  "tight n c \<longleftrightarrow> (\<exists>k. c = 2 ^ k \<and> n \<le> c \<and> c < 2 * n)"

lemma least_power:
  assumes "n \<le> 2 ^ k" "2 ^ k < 2 * n"
  shows "(LEAST k. n \<le> (2 :: nat) ^ k) = k"
proof (rule Least_equality [of "\<lambda>k. n \<le> 2 ^ k", OF assms(1)])
  fix j assume j: "n \<le> 2 ^ j"
  show "k \<le> j"
  proof (rule ccontr)
    assume "\<not> k \<le> j"
    then have "(2 :: nat) ^ Suc j \<le> 2 ^ k" by (intro power_increasing) auto
    then show False using j assms(2) by simp
  qed
qed

lemma tight_least: "tight n c \<Longrightarrow> c = 2 ^ (LEAST k. n \<le> 2 ^ k) \<and> c < 2 * n"
  by (auto simp: tight_def least_power)

text \<open>A capacity that suffices for more bytes was the least one already.\<close>

lemma tight_mono: "tight n c \<Longrightarrow> n \<le> m \<Longrightarrow> m \<le> c \<Longrightarrow> tight m c"
  by (auto simp: tight_def)

lemma cx_buffer_append_spec:
  assumes ok: "heap_ok h" "buffer_ok h b" and src: "readable h (own b) p (unat n)"
  shows "\<exists>rv b' h'. cx_buffer_append b p n h = Some (rv, b', h') \<and>
     buffer_ok h' b' \<and> frame (own b) (own b') h h' \<and>
     ((rv = 0 \<and> contents h' b' = contents h b @ bytes_at h p (unat n) \<and>
       unat (bsize b') = unat (bsize b) + unat n \<and>
       (bcapacity b' = bcapacity b \<or> tight (unat (bsize b')) (unat (bcapacity b')))) \<or>
      ((rv = - 1 \<or> rv = - 4) \<and> b' = b \<and> contents h' b' = contents h b))"
proof (cases "n = 0")
  case True
  then show ?thesis using ok frame_refl by (auto simp: cx_buffer_append_def buffer_ok_def)
next
  case False
  then have n: "\<not> n \<le> 0" "0 < unat n" by (auto simp: unat_gt_0)
  obtain rv b1 q h1 where r: "cx_buffer_add_capacity b True n h = Some (rv, b1, q, h1)"
    and ok1: "buffer_ok h1 b1" and f1: "frame (own b) (own b1) h h1"
    and sz: "bsize b1 = bsize b" and ct: "contents h1 b1 = contents h b"
    and rv: "(rv = 0 \<and> unat (bsize b) + unat n \<le> unat (bcapacity b1) \<and>
        q = Some (bdata b1 + unat (bsize b)) \<and>
        (b1 = b \<or> tight (unat (bsize b) + unat n) (unat (bcapacity b1)))) \<or>
      ((rv = - 1 \<or> rv = - 4) \<and> b1 = b)"
  proof -
    obtain x where x: "cx_buffer_add_capacity b True n h = Some x"
      and post: "reserve_post (\<lambda>want c. \<exists>k<64. c = 2 ^ k \<and> want \<le> c \<and> (0 < want \<longrightarrow> c < 2 * want)) b True n h x"
      using cx_buffer_add_capacity_spec [OF ok, of True n] by auto
    obtain rv b1 q h1 where x': "x = (rv, b1, q, h1)" by (cases x) auto
    show thesis
      by (rule that [of rv b1 q h1])
        (use x post n in \<open>auto simp: x' reserve_post_def tight_def split: if_splits\<close>)
  qed
  show ?thesis
  proof (cases "rv < 0")
    case True
    then show ?thesis using r rv ok1 f1 ct n by (auto simp: cx_buffer_append_def)
  next
    case False
    then have rv0: "rv = 0" and cap: "unat (bsize b) + unat n \<le> unat (bcapacity b1)"
      and q: "q = Some (bdata b1 + unat (bsize b))"
      and grow: "b1 = b \<or> tight (unat (bsize b) + unat n) (unat (bcapacity b1))"
      using rv by auto
    have ok_h1: "heap_ok h1" using frame_heap_ok [OF f1 ok(1)] .
    have d: "bdata b1 \<noteq> 0" using ok1 cap n by (auto simp: buffer_ok_def)
    then have own1: "own b1 = {(bdata b1, unat (bcapacity b1))}" by (simp add: own_def)
    then have blk: "(bdata b1, unat (bcapacity b1)) \<in> set (blocks h1)"
      using ok1 by (auto simp: buffer_ok_def)
    let ?d = "bdata b1 + unat (bsize b)"
    let ?bs = "bytes_at h p (unat n)"
    let ?h2 = "set_bytes ?d ?bs h1"
    have src1: "readable h1 (own b1) p (unat n)" and same: "bytes_at h1 p (unat n) = ?bs"
      using readable_frame [OF f1 src] by auto
    obtain s m where s: "(s, m) \<in> set (blocks h1)" "(s, m) \<notin> own b1" "s \<le> p" "p + unat n \<le> s + m"
      using src1 n by (auto simp: readable_def)
    have "s + max m 1 \<le> bdata b1 \<or> bdata b1 + max (unat (bcapacity b1)) 1 \<le> s"
      using heap_ok_disjoint [OF ok_h1 s(1) blk] s(2) own1 by auto
    then have dis: "?d + unat n \<le> p \<or> p + unat n \<le> ?d"
      using s(3,4) cap by auto
    have "memcpy ?d p (unat n) h1 = Some ?h2"
      using dis memcpy_valid [OF readable_valid [OF src1], of ?d] valid_block [OF blk, of ?d "unat n"] cap
      by (simp add: same)
    moreover have no_wrap: "unat (bsize b) + unat n < 2 ^ 64"
      using cap unat_lt64 [of "bcapacity b1"] by linarith
    ultimately have res: "cx_buffer_append b p n h = Some (0, b1\<lparr>bsize := bsize b + n\<rparr>, ?h2)"
      using r rv0 q n sz
      by (simp add: cx_buffer_append_def cx_buffer_add_size_def add_overflow_def)
    have un: "unat (bsize b + n) = unat (bsize b) + unat n"
      using no_wrap by (rule unat_add_no_wrap)
    have f2: "frame (own b1) (own b1) h1 ?h2"
      by (rule frame_set_bytes [OF ok_h1, where b = "bdata b1" and m = "unat (bcapacity b1)"])
        (use own1 blk cap in auto)
    have "contents ?h2 (b1\<lparr>bsize := bsize b + n\<rparr>) = contents h b @ ?bs"
      using bytes_at_append [of "bdata b1" "unat (bsize b)" ?bs h1] ct sz un
      by (simp add: contents_def)
    moreover have "buffer_ok ?h2 (b1\<lparr>bsize := bsize b + n\<rparr>)"
      using ok1 cap un d by (auto simp: buffer_ok_def heap_simps word_le_nat_alt)
    moreover have "frame (own b) (own (b1\<lparr>bsize := bsize b + n\<rparr>)) h ?h2"
      using frame_trans [OF f1 f2] by simp
    ultimately show ?thesis using res un grow by (auto simp: own_def)
  qed
qed

section \<open>Cleanup, move and unwrap\<close>

lemma cx_buffer_cleanup_spec:
  assumes ok: "heap_ok h" "buffer_ok h b"
  shows "\<exists>b' h'. cx_buffer_cleanup b h = Some (0, b', h') \<and>
     buffer_ok h' b' \<and> own b' = {} \<and> contents h' b' = [] \<and> frame (own b) {} h h' \<and> mem h' = mem h"
proof (cases "bdata b = 0")
  case True
  then show ?thesis
    by (simp add: cx_buffer_cleanup_def own_def buffer_ok_def contents_def frame_refl)
next
  case False
  then have "(bdata b, unat (bcapacity b)) \<in> set (blocks h)"
    using ok(2) by (auto simp: buffer_ok_def own_def)
  from free_block [OF ok(1) this] show ?thesis using False
    by (intro exI [of _ "b\<lparr>bdata := 0, bcapacity := 0, bsize := 0\<rparr>"])
      (auto simp: cx_buffer_cleanup_def own_def buffer_ok_def contents_def)
qed

lemma cx_buffer_move_spec:
  assumes ok: "heap_ok h" "buffer_ok h b" "buffer_ok h s" and dis: "own b \<inter> own s = {}"
  shows "\<exists>b' s' h'. cx_buffer_move b s h = Some (0, b', s', h') \<and>
     buffer_ok h' b' \<and> buffer_ok h' s' \<and> own b' = own s \<and> own s' = {} \<and>
     contents h' b' = contents h s \<and> contents h' s' = [] \<and> frame (own b) {} h h'"
proof -
  obtain b1 h1 where c: "cx_buffer_cleanup b h = Some (0, b1, h1)" and f: "frame (own b) {} h h1"
    using cx_buffer_cleanup_spec [OF ok(1,2)] by auto
  have "buffer_ok h1 s" "contents h1 s = contents h s"
    using buffer_frame [OF f ok(3)] dis by auto
  then show ?thesis using c f
    by (auto simp: cx_buffer_move_def buffer_ok_def own_def contents_def)
qed

lemma cx_buffer_unwrap_spec:
  "\<exists>b'. cx_buffer_unwrap b h = Some (bdata b, b', h) \<and> own b' = {} \<and> contents h b' = []"
  by (simp add: cx_buffer_unwrap_def cx_buffer_cleanup_def own_def contents_def)

section \<open>The byte-sink interface\<close>

text \<open>
  What a client that only appends (the collector) relies on: putting a readable range
  either appends its bytes or fails and changes nothing, and a sink is insensitive to
  steps that leave its objects alone.
\<close>

locale byte_sink =
  fixes sink_ok :: "heap \<Rightarrow> 'b \<Rightarrow> bool"
    and objs :: "'b \<Rightarrow> (addr \<times> nat) set"
    and bytes_of :: "heap \<Rightarrow> 'b \<Rightarrow> u8 list"
    and put :: "'b \<Rightarrow> addr \<Rightarrow> u64 \<Rightarrow> heap \<Rightarrow> (int \<times> 'b \<times> heap) option"
  assumes live: "sink_ok h b \<Longrightarrow> objs b \<subseteq> set (blocks h)"
    and put_law: "heap_ok h \<Longrightarrow> sink_ok h b \<Longrightarrow> readable h (objs b) p (unat n) \<Longrightarrow>
      \<exists>rv b' h'. put b p n h = Some (rv, b', h') \<and> sink_ok h' b' \<and> frame (objs b) (objs b') h h' \<and>
        ((rv = 0 \<and> bytes_of h' b' = bytes_of h b @ bytes_at h p (unat n)) \<or>
         (rv < 0 \<and> bytes_of h' b' = bytes_of h b))"
    and frame_law: "frame A B h h' \<Longrightarrow> sink_ok h b \<Longrightarrow> objs b \<inter> A = {} \<Longrightarrow>
      sink_ok h' b \<and> bytes_of h' b = bytes_of h b"
begin

text \<open>Putting into a sink that shares the heap with other objects \<open>X\<close>.\<close>

lemma put_beside:
  assumes "heap_ok h" "sink_ok h b" "readable h (objs b) p (unat n)"
    and X: "X \<subseteq> set (blocks h)" "X \<inter> objs b = {}"
  shows "\<exists>rv b' h'. put b p n h = Some (rv, b', h') \<and> sink_ok h' b' \<and>
    frame (objs b \<union> X) (objs b' \<union> X) h h' \<and> frame (objs b) (objs b') h h' \<and> X \<inter> objs b' = {} \<and>
    ((rv = 0 \<and> bytes_of h' b' = bytes_of h b @ bytes_at h p (unat n)) \<or>
     (rv < 0 \<and> bytes_of h' b' = bytes_of h b))"
proof -
  obtain rv b' h' where r: "put b p n h = Some (rv, b', h')" "sink_ok h' b'"
      "(rv = 0 \<and> bytes_of h' b' = bytes_of h b @ bytes_at h p (unat n)) \<or>
       (rv < 0 \<and> bytes_of h' b' = bytes_of h b)"
    and f: "frame (objs b) (objs b') h h'"
    using put_law [OF assms(1-3)] by blast
  have "frame (objs b \<union> X) (objs b' \<union> X) h h'"
    using frame_extend [OF f X(1)] X(2) by auto
  moreover have "X \<inter> objs b' = {}"
    using frame_mem [OF f] X by blast
  ultimately show ?thesis using r f by auto
qed

text \<open>Putting a list of ranges one after the other, stopping at the first failure.\<close>

lemma put_twice:
  assumes "heap_ok h" "sink_ok h b" "readable h (objs b) p (unat n)" "readable h (objs b) q (unat m)"
    and "put b p n h = Some (0, b1, h1)"
  shows "\<exists>rv b' h'. put b1 q m h1 = Some (rv, b', h') \<and> sink_ok h' b' \<and> frame (objs b) (objs b') h h' \<and>
    (rv = 0 \<longrightarrow> bytes_of h' b' = bytes_of h b @ bytes_at h p (unat n) @ bytes_at h q (unat m))"
proof -
  have 1: "sink_ok h1 b1" "frame (objs b) (objs b1) h h1"
      "bytes_of h1 b1 = bytes_of h b @ bytes_at h p (unat n)"
    using put_law [OF assms(1-3)] assms(5) by auto
  have "readable h1 (objs b1) q (unat m)" "bytes_at h1 q (unat m) = bytes_at h q (unat m)"
    using readable_frame [OF 1(2) assms(4)] by auto
  then show ?thesis
    using put_law [OF frame_heap_ok [OF 1(2) assms(1)] 1(1), of q m] 1 frame_trans [OF 1(2)]
    by fastforce
qed

end

interpretation buf: byte_sink buffer_ok own contents cx_buffer_append
proof
  show "own b \<subseteq> set (blocks h)" if "buffer_ok h b" for h b
    using that by (simp add: buffer_ok_def)
next
  fix h b p and n :: u64
  assume a: "heap_ok h" "buffer_ok h b" "readable h (own b) p (unat n)"
  show "\<exists>rv b' h'. cx_buffer_append b p n h = Some (rv, b', h') \<and> buffer_ok h' b' \<and>
      frame (own b) (own b') h h' \<and>
      ((rv = 0 \<and> contents h' b' = contents h b @ bytes_at h p (unat n)) \<or>
       (rv < 0 \<and> contents h' b' = contents h b))"
    using cx_buffer_append_spec [OF a] by fastforce
next
  show "buffer_ok h' b \<and> contents h' b = contents h b"
    if "frame A B h h'" "buffer_ok h b" "own b \<inter> A = {}" for A B h h' b
    using buffer_frame [OF that] by simp
qed

section \<open>Runs of operations and their specification\<close>

text \<open>
  A client of the buffer issues a sequence of operations. The specification sees only
  the byte string: an append that reports success adds the bytes of its source, a
  drain empties it, a reservation changes nothing.
\<close>

datatype buf_op =
    OpAppend addr u64
  | OpReserve u64
  | OpReserveExact u64
  | OpDrain

fun buf_step :: "buf_op \<Rightarrow> cx_buffer \<Rightarrow> heap \<Rightarrow> (int \<times> cx_buffer \<times> heap) option" where
  "buf_step (OpAppend p n) b h = cx_buffer_append b p n h"
| "buf_step (OpReserve n) b h = do {
     (rv, b, _, h) \<leftarrow> cx_buffer_add_capacity b False n h;
     Some (rv, b, h)
   }"
| "buf_step (OpReserveExact n) b h = do {
     (rv, b, _, h) \<leftarrow> cx_buffer_add_capacity_exact b False n h;
     Some (rv, b, h)
   }"
| "buf_step OpDrain b h = Some (0, cx_buffer_drain b, h)"

fun buf_run :: "buf_op list \<Rightarrow> cx_buffer \<Rightarrow> heap \<Rightarrow> (int list \<times> cx_buffer \<times> heap) option" where
  "buf_run [] b h = Some ([], b, h)"
| "buf_run (x # xs) b h = do {
     (rv, b, h) \<leftarrow> buf_step x b h;
     (rvs, b, h) \<leftarrow> buf_run xs b h;
     Some (rv # rvs, b, h)
   }"

fun spec_step :: "heap \<Rightarrow> u8 list \<Rightarrow> buf_op \<Rightarrow> int \<Rightarrow> u8 list" where
  "spec_step h bs (OpAppend p n) rv = (if rv = 0 then bs @ bytes_at h p (unat n) else bs)"
| "spec_step h bs OpDrain rv = []"
| "spec_step h bs _ rv = bs"

fun spec_run :: "heap \<Rightarrow> u8 list \<Rightarrow> buf_op list \<Rightarrow> int list \<Rightarrow> u8 list" where
  "spec_run h bs (x # xs) (rv # rvs) = spec_run h (spec_step h bs x rv) xs rvs"
| "spec_run h bs _ _ = bs"

fun op_readable :: "heap \<Rightarrow> (addr \<times> nat) set \<Rightarrow> buf_op \<Rightarrow> bool" where
  "op_readable h X (OpAppend p n) = readable h X p (unat n)"
| "op_readable h X _ = True"

lemma op_readable_frame:
  "frame A B h h' \<Longrightarrow> op_readable h A x \<Longrightarrow> op_readable h' B x"
  by (cases x) (auto intro: readable_frame)

lemma spec_step_frame:
  "frame A B h h' \<Longrightarrow> op_readable h A x \<Longrightarrow> spec_step h' bs x rv = spec_step h bs x rv"
  by (cases x) (auto dest: readable_frame)

lemma spec_run_frame:
  "frame A B h h' \<Longrightarrow> list_all (op_readable h A) xs \<Longrightarrow> spec_run h' bs xs rvs = spec_run h bs xs rvs"
proof (induction xs arbitrary: bs rvs)
  case (Cons x xs)
  then show ?case by (cases rvs) (auto simp: spec_step_frame)
qed simp

lemma buf_step_refines:
  assumes ok: "heap_ok h" "buffer_ok h b" and r: "op_readable h (own b) x"
  shows "\<exists>rv b' h'. buf_step x b h = Some (rv, b', h') \<and> buffer_ok h' b' \<and>
     frame (own b) (own b') h h' \<and> contents h' b' = spec_step h (contents h b) x rv"
proof (cases x)
  case (OpAppend p n)
  then show ?thesis using buf.put_law [OF ok, of p n] r by fastforce
next
  case (OpReserve n)
  then show ?thesis using cx_buffer_add_capacity_spec [OF ok, of False n]
    by (auto simp: reserve_post_def)
next
  case (OpReserveExact n)
  then show ?thesis using cx_buffer_add_capacity_exact_spec [OF ok, of False n]
    by (auto simp: reserve_post_def)
next
  case OpDrain
  then show ?thesis using ok
    by (auto simp: cx_buffer_drain_def buffer_ok_def contents_def own_def frame_refl)
qed

lemma buf_run_refines:
  assumes "heap_ok h" "buffer_ok h b" "list_all (op_readable h (own b)) xs"
  shows "\<exists>rvs b' h'. buf_run xs b h = Some (rvs, b', h') \<and> buffer_ok h' b' \<and>
     frame (own b) (own b') h h' \<and> length rvs = length xs \<and>
     contents h' b' = spec_run h (contents h b) xs rvs"
  using assms
proof (induction xs arbitrary: b h)
  case Nil
  then show ?case by (simp add: frame_refl buffer_ok_def)
next
  case (Cons x xs)
  obtain rv b1 h1 where 1: "buf_step x b h = Some (rv, b1, h1)" "buffer_ok h1 b1"
      "frame (own b) (own b1) h h1" "contents h1 b1 = spec_step h (contents h b) x rv"
    using buf_step_refines [of h b x] Cons.prems by auto
  have "list_all (op_readable h1 (own b1)) xs"
    using Cons.prems(3) op_readable_frame [OF 1(3)] by (auto simp: list_all_iff)
  then obtain rvs b2 h2 where 2: "buf_run xs b1 h1 = Some (rvs, b2, h2)" "buffer_ok h2 b2"
      "frame (own b1) (own b2) h1 h2" "length rvs = length xs"
      "contents h2 b2 = spec_run h1 (contents h1 b1) xs rvs"
    using Cons.IH [of h1 b1] 1 frame_heap_ok [OF 1(3)] Cons.prems(1) by auto
  have "spec_run h1 (contents h1 b1) xs rvs = spec_run h (contents h1 b1) xs rvs"
    using spec_run_frame [OF 1(3)] Cons.prems(3) by simp
  then show ?case using 1 2 frame_trans [OF 1(3) 2(3)] by auto
qed

section \<open>Growth\<close>

definition growth_ok :: "cx_buffer \<Rightarrow> bool" where
  "growth_ok b \<longleftrightarrow> bcapacity b = 0 \<or> tight (unat (bsize b)) (unat (bcapacity b))"

lemma append_growth_ok:
  assumes ok: "heap_ok h" "buffer_ok h b" "readable h (own b) p (unat n)"
    and g: "growth_ok b" and r: "cx_buffer_append b p n h = Some (rv, b', h')"
  shows "growth_ok b'"
proof -
  have "buffer_ok h' b'" "(unat (bsize b') = unat (bsize b) + unat n \<and>
      (bcapacity b' = bcapacity b \<or> tight (unat (bsize b')) (unat (bcapacity b')))) \<or> b' = b"
    using cx_buffer_append_spec [OF ok] r by auto
  then show ?thesis using g tight_mono [of "unat (bsize b)" "unat (bcapacity b)" "unat (bsize b')"]
    by (auto simp: growth_ok_def dest: buffer_ok_le)
qed

fun is_append :: "buf_op \<Rightarrow> bool" where
  "is_append (OpAppend p n) = True"
| "is_append _ = False"

lemma run_growth_ok:
  assumes "heap_ok h" "buffer_ok h b" "list_all (op_readable h (own b)) xs" "list_all is_append xs"
    and "growth_ok b" "buf_run xs b h = Some (rvs, b', h')"
  shows "growth_ok b'"
  using assms
proof (induction xs arbitrary: b h rvs)
  case Nil
  then show ?case by simp
next
  case (Cons x xs)
  obtain p n where x: "x = OpAppend p n" using Cons.prems(4) by (cases x) auto
  obtain rv b1 h1 where 1: "buf_step x b h = Some (rv, b1, h1)" "buffer_ok h1 b1"
      "frame (own b) (own b1) h h1"
    using buf_step_refines [of h b x] Cons.prems by auto
  have "list_all (op_readable h1 (own b1)) xs"
    using Cons.prems(3) op_readable_frame [OF 1(3)] by (auto simp: list_all_iff)
  moreover have "growth_ok b1"
    using append_growth_ok [of h b p n rv b1 h1] Cons.prems 1 x by simp
  moreover obtain rvs' where "buf_run xs b1 h1 = Some (rvs', b', h')"
    using Cons.prems(6) 1(1) by (auto simp: bind_Some_iff)
  ultimately show ?case
    using Cons.IH [of h1 b1 rvs'] 1 Cons.prems frame_heap_ok [OF 1(3)] by simp
qed

section \<open>Properties\<close>

definition demo_heap :: heap where
  "demo_heap = \<lparr>mem = (\<lambda>a. of_nat a), blocks = [(100, 4), (16, 8), (32, 8)],
               answers = [200, 300, 400, 0, 500, 4096], cb_log = []\<rparr>"

lemma demo_heap_ok [simp]: "heap_ok demo_heap"
  by (simp add: heap_ok_def demo_heap_def fits_def)

lemma demo_readable [simp]: "X \<inter> {(100, 4)} = {} \<Longrightarrow> 100 \<le> p \<Longrightarrow> p + n \<le> 104 \<Longrightarrow> readable demo_heap X p n"
  by (rule readableI [of 100 4]) (auto simp: demo_heap_def)

text \<open>
  C1. A buffer's whole life is memory safe and refines its byte-string specification:
  starting from \<^verbatim>\<open>cx_buffer_init\<close>, any sequence of appends, reservations and
  drains runs without undefined behaviour whatever the allocator answers; the contents
  are what the specification computes from the returned status codes; and
  \<^verbatim>\<open>cx_buffer_cleanup\<close> then leaves every other object as it was and nothing leaked.
\<close>

theorem buffer_lifetime:
  assumes "heap_ok h" "list_all (op_readable h {}) xs"
  shows "\<exists>rvs b1 h1 b2 h2.
     buf_run xs (snd (cx_buffer_init b)) h = Some (rvs, b1, h1) \<and>
     length rvs = length xs \<and> contents h1 b1 = spec_run h [] xs rvs \<and>
     cx_buffer_cleanup b1 h1 = Some (0, b2, h2) \<and> contents h2 b2 = [] \<and> frame {} {} h h2"
proof -
  let ?b = "snd (cx_buffer_init b)"
  obtain rvs b1 h1 where 1: "buf_run xs ?b h = Some (rvs, b1, h1)" "buffer_ok h1 b1"
      "frame {} (own b1) h h1" "length rvs = length xs" "contents h1 b1 = spec_run h [] xs rvs"
    using buf_run_refines [of h ?b xs] assms by (auto simp: buffer_ok_init)
  then show ?thesis
    using cx_buffer_cleanup_spec [OF frame_heap_ok [OF 1(3) assms(1)] 1(2)]
    by (auto intro: frame_trans)
qed

theorem buffer_lifetime_witness:
  "\<exists>rvs b1 h1 b2 h2.
     buf_run [OpAppend 100 3, OpReserve 9, OpDrain, OpAppend 101 2]
       (snd (cx_buffer_init \<lparr>bdata = 9, bsize = 9, bcapacity = 9\<rparr>)) demo_heap = Some (rvs, b1, h1) \<and>
     cx_buffer_cleanup b1 h1 = Some (0, b2, h2) \<and> frame {} {} demo_heap h2"
  using buffer_lifetime [of demo_heap "[OpAppend 100 3, OpReserve 9, OpDrain, OpAppend 101 2]"
      "\<lparr>bdata = 9, bsize = 9, bcapacity = 9\<rparr>"]
  by auto

text \<open>
  \<^verbatim>\<open>round_to_next_pow2\<close> returns the least power of two that is not below
  its argument, and reports an integer overflow exactly when that power does not fit in
  64 bits.
\<close>

theorem round_to_next_pow2_least:
  "round_to_next_pow2 i =
     (if unat i \<le> 2 ^ 63 then (0, of_nat (2 ^ (LEAST k. unat i \<le> 2 ^ k)))
      else (- err_code CX_ERR_INTEGER_OVERFLOW, i))"
proof (cases "unat i \<le> 2 ^ 63")
  case True
  obtain k r where k: "round_to_next_pow2 i = (0, r)" "unat r = 2 ^ k" "unat i \<le> 2 ^ k"
      "0 < unat i \<longrightarrow> 2 ^ k < 2 * unat i"
    using round_to_next_pow2_ok [OF True] by auto
  have "(LEAST k. unat i \<le> 2 ^ k) = k"
  proof (cases "unat i = 0")
    case True
    then have "r = 1" using k(1) by (auto simp: round_to_next_pow2_def unat_eq_zero)
    then have "k = 0" using k(2) by (cases k) auto
    then show ?thesis by (simp add: Least_eq_0 True)
  next
    case False
    then show ?thesis using k(3,4) by (intro least_power) simp_all
  qed
  moreover have "r = of_nat (2 ^ k)" by (simp flip: k(2))
  ultimately show ?thesis using True k(1) by simp
next
  case False
  then show ?thesis using round_to_next_pow2_big [of i] by simp
qed

text \<open>
  C35. A buffer that is only appended to has grown to the least power of two that holds its contents,
  whatever appends failed on the way: its capacity is zero, and then it is empty, or that power, which is below
  twice its size.
\<close>

theorem append_growth_bound:
  assumes "heap_ok h" "list_all (op_readable h {}) xs" "list_all is_append xs"
    and "buf_run xs (snd (cx_buffer_init b)) h = Some (rvs, b', h')"
  shows "if bcapacity b' = 0 then bsize b' = 0
    else unat (bcapacity b') = 2 ^ (LEAST k. unat (bsize b') \<le> 2 ^ k) \<and> unat (bcapacity b') < 2 * unat (bsize b')"
proof -
  let ?b = "snd (cx_buffer_init b)"
  have i: "buffer_ok h ?b" "own ?b = {}" by (simp_all add: buffer_ok_init)
  have "growth_ok ?b" by (simp add: growth_ok_def cx_buffer_init_def)
  then have g: "growth_ok b'" using run_growth_ok [OF assms(1) i(1) _ assms(3)] assms(2,4) i(2) by simp
  have "buffer_ok h' b'" using buf_run_refines [OF assms(1) i(1), of xs] assms(2,4) i(2) by auto
  then have "unat (bsize b') \<le> unat (bcapacity b')" by (rule buffer_ok_le)
  then show ?thesis using g tight_least by (auto simp: growth_ok_def unat_eq_zero)
qed

theorem append_growth_bound_witness:
  "\<exists>rvs b' h'. buf_run [OpAppend 100 3, OpAppend 100 2] (snd (cx_buffer_init \<lparr>bdata = 9, bsize = 9, bcapacity = 9\<rparr>)) demo_heap
       = Some (rvs, b', h') \<and> bsize b' = 5 \<and> unat (bcapacity b') = 2 ^ (LEAST k. unat (bsize b') \<le> 2 ^ k)"
proof -
  let ?b = "\<lparr>bdata = 9, bsize = 9, bcapacity = 9\<rparr>" and ?xs = "[OpAppend 100 3, OpAppend 100 2]"
  have h: "heap_ok demo_heap" "list_all (op_readable demo_heap {}) ?xs" "list_all is_append ?xs" by simp_all
  have c: "clz64 2 = 62" "clz64 4 = 61" by code_simp+
  have n: "\<not> (5 :: u64) \<le> 1" "\<not> (3 :: u64) \<le> 1" by (simp_all add: word_le_nat_alt)
  have "\<exists>rvs b' h'. buf_run ?xs (snd (cx_buffer_init ?b)) demo_heap = Some (rvs, b', h') \<and> bsize b' = 5 \<and> bcapacity b' = 8"
    by (simp add: c n cx_buffer_init_def cx_buffer_append_def cx_buffer_add_capacity_def resize_buffer_exact_def
        round_to_next_pow2_def cx_buffer_add_size_def add_overflow_def demo_heap_def malloc_def realloc_def fits_def
        memcpy_def load_bytes_def store_bytes_def valid_def Let_def)
  then obtain rvs b' h' where r: "buf_run ?xs (snd (cx_buffer_init ?b)) demo_heap = Some (rvs, b', h')" "bsize b' = 5" "bcapacity b' = 8"
    by blast
  show ?thesis using append_growth_bound [OF h r(1)] r by auto
qed

text \<open>
  \<^verbatim>\<open>cx_buffer_move\<close> frees what the target held, hands the source's object
  and bytes to the target unchanged, and leaves the source empty, so that cleaning both
  up afterwards frees every object exactly once.
\<close>

theorem buffer_move_then_cleanup:
  assumes "heap_ok h" "buffer_ok h b" "buffer_ok h s" "own b \<inter> own s = {}"
  shows "\<exists>b1 s1 h1 b2 h2 s2 h3. cx_buffer_move b s h = Some (0, b1, s1, h1) \<and>
     contents h1 b1 = contents h s \<and> cx_buffer_data b1 = cx_buffer_data s \<and>
     cx_buffer_size s1 = 0 \<and>
     cx_buffer_cleanup b1 h1 = Some (0, b2, h2) \<and> cx_buffer_cleanup s1 h2 = Some (0, s2, h3) \<and>
     frame (own b \<union> own s) {} h h3"
proof -
  obtain b1 s1 h1 where m: "cx_buffer_move b s h = Some (0, b1, s1, h1)" and ok1: "buffer_ok h1 b1" "buffer_ok h1 s1"
    and o: "own b1 = own s" "own s1 = {}" and c: "contents h1 b1 = contents h s" and f: "frame (own b) {} h h1"
    using cx_buffer_move_spec [OF assms] by auto
  have b1: "b1 = s" "s1 = \<lparr>bdata = 0, bsize = 0, bcapacity = 0\<rparr>"
    using m by (auto simp: cx_buffer_move_def bind_Some_iff)
  have h1: "heap_ok h1" using frame_heap_ok [OF f assms(1)] .
  obtain b2 h2 where c2: "cx_buffer_cleanup b1 h1 = Some (0, b2, h2)" and f2: "frame (own s) {} h1 h2"
    using cx_buffer_cleanup_spec [OF h1 ok1(1)] o by auto
  have "cx_buffer_cleanup s1 h2 = Some (0, s1, h2)" by (simp add: b1 cx_buffer_cleanup_def)
  moreover have "frame (own b \<union> own s) {} h h2"
  proof -
    have "frame (own b \<union> own s) ({} \<union> own s) h h1"
      by (rule frame_extend [OF f]) (use assms in \<open>auto simp: buffer_ok_def\<close>)
    then show ?thesis using frame_trans f2 by fastforce
  qed
  ultimately show ?thesis using m c c2 b1 by (auto simp: cx_buffer_data_def cx_buffer_size_def)
qed

theorem buffer_move_then_cleanup_witness:
  "\<exists>b1 s1 h1 b2 h2 s2 h3.
     cx_buffer_move \<lparr>bdata = 100, bsize = 4, bcapacity = 4\<rparr> \<lparr>bdata = 16, bsize = 2, bcapacity = 8\<rparr> demo_heap
       = Some (0, b1, s1, h1) \<and> cx_buffer_data b1 = 16 \<and> cx_buffer_size s1 = 0 \<and>
     cx_buffer_cleanup b1 h1 = Some (0, b2, h2) \<and> cx_buffer_cleanup s1 h2 = Some (0, s2, h3)"
proof -
  let ?b = "\<lparr>bdata = 100, bsize = 4, bcapacity = 4\<rparr>" and ?s = "\<lparr>bdata = 16, bsize = 2, bcapacity = 8\<rparr>"
  have "buffer_ok demo_heap ?b" "buffer_ok demo_heap ?s" "own ?b \<inter> own ?s = {}"
    by (simp_all add: buffer_ok_def own_def demo_heap_def)
  from buffer_move_then_cleanup [OF demo_heap_ok this] show ?thesis
    by (auto simp: cx_buffer_data_def)
qed

end
