(* ===== verification/Collector.thy ===== *)
theory Collector
  imports Buffer
begin

text \<open>
  \<^verbatim>\<open>lib/collection/collector.c\<close>: \<^verbatim>\<open>cx_collect\<close> drains an
  iterator into one heap object that holds a null-terminated array of pointers followed
  by the zero-terminated strings they point to.

  The iterator callback \<open>nxt\<close> is client code and a parameter: it returns its status,
  the value pointer it stored (\<open>0\<close> when it stored none), the size it stored, the new
  iterator state and the new heap, or \<open>None\<close> when it misbehaves. \<open>slot\<close> is the
  address of the local variable \<^verbatim>\<open>offset_ptr\<close> and \<open>nullword\<close> the address
  of the static constant of that name; both are live objects of eight bytes.
\<close>

section \<open>Operations\<close>

type_synonym 'it collector_next = "'it \<Rightarrow> heap \<Rightarrow> (int \<times> addr \<times> u64 \<times> 'it \<times> heap) option"

definition handle_next ::
  "'it collector_next \<Rightarrow> addr \<Rightarrow> addr \<Rightarrow> 'it \<Rightarrow> cx_buffer \<Rightarrow> cx_buffer \<Rightarrow> heap \<Rightarrow>
   (int \<times> 'it \<times> cx_buffer \<times> cx_buffer \<times> heap) option" where
  "handle_next nxt slot nullword it lst values h = do {
     (rv, val, n, it, h) \<leftarrow> nxt it h;
     if rv < 0 then Some (rv, it, lst, values, h)
     else if val = 0 then Some (0, it, lst, values, h)
     else do {
       h \<leftarrow> store_u64 slot (cx_buffer_size values) h;
       (rv, lst, h) \<leftarrow> cx_buffer_append lst slot 8 h;
       if rv < 0 then Some (rv, it, lst, values, h)
       else do {
         (rv, values, h) \<leftarrow> cx_buffer_append values val n h;
         if rv < 0 then Some (rv, it, lst, values, h)
         else do {
           (rv, values, h) \<leftarrow> cx_buffer_append values nullword 1 h;
           if rv < 0 then Some (rv, it, lst, values, h)
           else Some (1, it, lst, values, h)
         }
       }
     }
   }"

text \<open>The \<^verbatim>\<open>for (;;)\<close> loop; \<open>None\<close> also stands for a loop that never ends.\<close>

partial_function (option) collect_loop ::
  "'it collector_next \<Rightarrow> addr \<Rightarrow> addr \<Rightarrow> 'it \<Rightarrow> cx_buffer \<Rightarrow> cx_buffer \<Rightarrow> u64 \<Rightarrow> heap \<Rightarrow>
   (int \<times> 'it \<times> cx_buffer \<times> cx_buffer \<times> u64 \<times> heap) option" where
  "collect_loop nxt slot nullword it lst values elements h =
     Option.bind (handle_next nxt slot nullword it lst values h)
       (\<lambda>(rv, it, lst, values, h).
          if rv > 0 then collect_loop nxt slot nullword it lst values (elements + 1) h
          else Some (rv, it, lst, values, elements, h))"

declare collect_loop.simps [code]

text \<open>The loop that turns the stored offsets into pointers.\<close>

fun relocate :: "addr \<Rightarrow> u64 \<Rightarrow> nat \<Rightarrow> nat \<Rightarrow> heap \<Rightarrow> heap option" where
  "relocate result delta i 0 h = Some h"
| "relocate result delta i (Suc k) h = do {
     w \<leftarrow> load_u64 (result + 8 * i) h;
     h \<leftarrow> store_u64 (result + 8 * i) (w + delta) h;
     relocate result delta (Suc i) k h
   }"

text \<open>The second component of the result is what was stored through \<^verbatim>\<open>target\<close>, if anything.\<close>

definition cx_collect ::
  "'it collector_next \<Rightarrow> addr \<Rightarrow> addr \<Rightarrow> 'it \<Rightarrow> heap \<Rightarrow> (int \<times> addr option \<times> 'it \<times> heap) option" where
  "cx_collect nxt slot nullword it h =
     (let zero = \<lparr>bdata = 0, bsize = 0, bcapacity = 0\<rparr>;
          out = (\<lambda>rv target it lst values h. do {
                   (_, _, h) \<leftarrow> cx_buffer_cleanup lst h;
                   (_, _, h) \<leftarrow> cx_buffer_cleanup values h;
                   Some (rv, target, it, h)
                 });
          (rv1, lst) = cx_buffer_init zero;
          (rv2, values) = cx_buffer_init zero
      in
      if rv1 < 0 then out rv1 None it zero zero h
      else if rv2 < 0 then out rv2 None it lst zero h
      else do {
        (rv, it, lst, values, elements, h) \<leftarrow> collect_loop nxt slot nullword it lst values 0 h;
        if rv < 0 then out rv None it lst values h
        else do {
          (rv, lst, h) \<leftarrow> cx_buffer_append lst nullword 8 h;
          if rv < 0 then out rv None it lst values h
          else do {
            let base_size = cx_buffer_size lst;
            (rv, lst, h) \<leftarrow> cx_buffer_append lst (cx_buffer_data values) (cx_buffer_size values) h;
            if rv < 0 then out rv None it lst values h
            else do {
              (result, lst, h) \<leftarrow> cx_buffer_unwrap lst h;
              h \<leftarrow> relocate result (base_size + of_nat result) 0 (unat elements) h;
              out rv (Some result) it lst values h
            }
          }
        }
      })"

section \<open>What the collected object looks like\<close>

text \<open>
  \<open>strings vs\<close> are the zero-terminated values one after the other, \<open>offsets k vs\<close>
  the offset of each of them when the first is at \<open>k\<close>.
\<close>

fun strings :: "u8 list list \<Rightarrow> u8 list" where
  "strings [] = []"
| "strings (v # vs) = v @ 0 # strings vs"

fun offsets :: "nat \<Rightarrow> u8 list list \<Rightarrow> u64 list" where
  "offsets k [] = []"
| "offsets k (v # vs) = of_nat k # offsets (k + length v + 1) vs"

definition le_words :: "u64 list \<Rightarrow> u8 list" where
  "le_words ws = concat (map (le_bytes 8) ws)"

definition string_array :: "heap \<Rightarrow> addr \<Rightarrow> nat \<Rightarrow> u8 list list \<Rightarrow> bool" where
  "string_array h r cap vs \<longleftrightarrow>
     (\<forall>j < length vs. \<exists>p. u64_at h (r + 8 * j) = of_nat p \<and> r \<le> p \<and>
        p + length (vs ! j) + 1 \<le> r + cap \<and>
        bytes_at h p (length (vs ! j) + 1) = vs ! j @ [0]) \<and>
     u64_at h (r + 8 * length vs) = 0"

lemma strings_append: "strings (vs @ ws) = strings vs @ strings ws"
  by (induction vs) auto

lemma offsets_snoc: "offsets k (vs @ [v]) = offsets k vs @ [of_nat (k + length (strings vs))]"
  by (induction vs arbitrary: k) (auto simp: add.assoc)

lemma length_offsets [simp]: "length (offsets k vs) = length vs"
  by (induction vs arbitrary: k) auto

lemma nth_offsets: "j < length vs \<Longrightarrow> offsets k vs ! j = of_nat (k + length (strings (take j vs)))"
proof (induction vs arbitrary: j k)
  case (Cons v vs)
  then show ?case by (cases j) auto
qed simp

lemma nth_strings:
  "j < length vs \<Longrightarrow>
   take (length (vs ! j) + 1) (drop (length (strings (take j vs))) (strings vs)) = vs ! j @ [0]"
proof (induction vs arbitrary: j)
  case (Cons v vs)
  then show ?case by (cases j) auto
qed simp

lemma strings_bound:
  "j < length vs \<Longrightarrow> length (strings (take j vs)) + length (vs ! j) + 1 \<le> length (strings vs)"
proof (induction vs arbitrary: j)
  case (Cons v vs)
  then show ?case by (cases j) fastforce+
qed simp

lemma le_words_simps [simp]: "le_words [] = []" "le_words (w # ws) = le_bytes 8 w @ le_words ws"
  by (simp_all add: le_words_def)

lemma le_words_append: "le_words (ws @ vs) = le_words ws @ le_words vs"
  by (simp add: le_words_def)

lemma length_le_words [simp]: "length (le_words ws) = 8 * length ws"
  by (induction ws) auto

lemma nth_le_words: "j < length ws \<Longrightarrow> take 8 (drop (8 * j) (le_words ws)) = le_bytes 8 (ws ! j)"
proof (induction ws arbitrary: j)
  case (Cons w ws)
  then show ?case by (cases j) auto
qed simp

lemma bytes_at_slice:
  "a + m \<le> n \<Longrightarrow> bytes_at h (r + a) m = take m (drop a (bytes_at h r n))"
  by (rule nth_equalityI) (auto simp: bytes_at_def add.assoc)

section \<open>The iterator\<close>

text \<open>
  \<open>iterates nxt rest fin\<close>: from state \<open>it\<close> the iterator hands out the values
  \<open>rest it\<close> (address and size) with non-negative status; then it returns \<open>fin\<close>,
  which is an error or comes with no value. It does not change the heap.
\<close>

definition iterates :: "'it collector_next \<Rightarrow> ('it \<Rightarrow> (addr \<times> u64) list) \<Rightarrow> int \<Rightarrow> bool" where
  "iterates nxt rest fin \<longleftrightarrow>
     (\<forall>it h. case rest it of
        [] \<Rightarrow> \<exists>p n it'. nxt it h = Some (fin, p, n, it', h) \<and> (p = 0 \<or> fin < 0)
      | x # xs \<Rightarrow> fst x \<noteq> 0 \<and>
          (\<exists>rv it'. 0 \<le> rv \<and> nxt it h = Some (rv, fst x, snd x, it', h) \<and> rest it' = xs))"

lemma iterates_end:
  "iterates nxt rest fin \<Longrightarrow> rest it = [] \<Longrightarrow>
   \<exists>p n it'. nxt it h = Some (fin, p, n, it', h) \<and> (p = 0 \<or> fin < 0)"
  unfolding iterates_def by (drule spec [of _ it]) simp

lemma iterates_value:
  "iterates nxt rest fin \<Longrightarrow> rest it = (p, n) # xs \<Longrightarrow>
   p \<noteq> 0 \<and> (\<exists>rv it'. 0 \<le> rv \<and> nxt it h = Some (rv, p, n, it', h) \<and> rest it' = xs)"
  unfolding iterates_def by (drule spec [of _ it]) simp

section \<open>One element\<close>

text \<open>The state the loop works on: the two buffers, the local and the constant.\<close>

definition collector_ok :: "addr \<Rightarrow> addr \<Rightarrow> cx_buffer \<Rightarrow> cx_buffer \<Rightarrow> heap \<Rightarrow> bool" where
  "collector_ok slot nullword l v h \<longleftrightarrow>
     heap_ok h \<and> buffer_ok h l \<and> buffer_ok h v \<and> (slot, 8) \<in> set (blocks h) \<and>
     own l \<inter> own v = {} \<and> (slot, 8) \<notin> own l \<and> (slot, 8) \<notin> own v \<and>
     readable h (own l \<union> own v \<union> {(slot, 8)}) nullword 8 \<and> bytes_at h nullword 8 = replicate 8 0"

definition work :: "addr \<Rightarrow> cx_buffer \<Rightarrow> cx_buffer \<Rightarrow> (addr \<times> nat) set" where
  "work slot l v = own l \<union> own v \<union> {(slot, 8)}"

text \<open>Appending to one of the two buffers keeps everything else.\<close>

lemma collector_append_list:
  assumes ok: "collector_ok slot nullword l v h" and r: "readable h (own l) p (unat n)"
  shows "\<exists>rv l' h'. cx_buffer_append l p n h = Some (rv, l', h') \<and> collector_ok slot nullword l' v h' \<and>
    frame (work slot l v) (work slot l' v) h h' \<and> contents h' v = contents h v \<and>
    ((rv = 0 \<and> contents h' l' = contents h l @ bytes_at h p (unat n)) \<or> rv < 0)"
proof -
  let ?X = "own v \<union> {(slot, 8)}"
  have X: "?X \<subseteq> set (blocks h)" "?X \<inter> own l = {}"
    using ok by (auto simp: collector_ok_def buffer_ok_def)
  obtain rv l' h' where a: "cx_buffer_append l p n h = Some (rv, l', h')" "buffer_ok h' l'"
      "frame (own l \<union> ?X) (own l' \<union> ?X) h h'" "frame (own l) (own l') h h'" "?X \<inter> own l' = {}"
      "(rv = 0 \<and> contents h' l' = contents h l @ bytes_at h p (unat n)) \<or> rv < 0"
    using buf.put_beside [OF _ _ r X] ok unfolding collector_ok_def by blast
  have v: "buffer_ok h' v" "contents h' v = contents h v"
    using buffer_frame [OF a(4), of v] ok by (auto simp: collector_ok_def)
  have n: "readable h' (own l' \<union> ?X) nullword 8" "bytes_at h' nullword 8 = bytes_at h nullword 8"
    using readable_frame [OF a(3), of nullword 8] ok by (auto simp: collector_ok_def Un_assoc)
  have "collector_ok slot nullword l' v h'"
    using ok a v n frame_heap_ok [OF a(4)] frame_sub [OF a(3)] by (auto simp: collector_ok_def Un_assoc)
  then show ?thesis using a v by (auto simp: work_def Un_assoc)
qed

lemma collector_append_values:
  assumes ok: "collector_ok slot nullword l v h" and r: "readable h (own v) p (unat n)"
  shows "\<exists>rv v' h'. cx_buffer_append v p n h = Some (rv, v', h') \<and> collector_ok slot nullword l v' h' \<and>
    frame (work slot l v) (work slot l v') h h' \<and> contents h' l = contents h l \<and>
    ((rv = 0 \<and> contents h' v' = contents h v @ bytes_at h p (unat n)) \<or> rv < 0)"
proof -
  have swap: "collector_ok slot nullword a b k = collector_ok slot nullword b a k" for a b k
    by (auto simp: collector_ok_def Un_commute)
  have "work slot a b = work slot b a" for a b by (auto simp: work_def)
  then show ?thesis
    using collector_append_list [of slot nullword v l h p n] ok r swap by metis
qed

lemma collector_store_slot:
  assumes ok: "collector_ok slot nullword l v h"
  shows "\<exists>h'. store_u64 slot w h = Some h' \<and> collector_ok slot nullword l v h' \<and>
    frame (work slot l v) (work slot l v) h h' \<and> contents h' l = contents h l \<and>
    contents h' v = contents h v \<and> bytes_at h' slot 8 = le_bytes 8 w"
proof -
  let ?h' = "set_bytes slot (le_bytes 8 w) h"
  have s: "(slot, 8) \<in> set (blocks h)" "heap_ok h" using ok by (auto simp: collector_ok_def)
  have eq: "store_u64 slot w h = Some ?h'"
    using valid_block [OF s(1), of slot 8] by (simp add: mem_step)
  have f: "frame {(slot, 8)} {(slot, 8)} h ?h'"
    by (rule frame_set_bytes [OF s(2)]) (use s in auto)
  have fw: "frame (work slot l v) (work slot l v) h ?h'"
    by (rule frame_set_bytes [OF s(2)])
      (use s ok in \<open>auto simp: work_def collector_ok_def buffer_ok_def\<close>)
  have l: "buffer_ok ?h' l" "contents ?h' l = contents h l"
    and v: "buffer_ok ?h' v" "contents ?h' v = contents h v"
    using buffer_frame [OF f, of l] buffer_frame [OF f, of v] ok by (auto simp: collector_ok_def)
  have n: "readable ?h' (work slot l v) nullword 8" "bytes_at ?h' nullword 8 = bytes_at h nullword 8"
    using readable_frame [OF fw, of nullword 8] ok by (auto simp: collector_ok_def work_def)
  have "collector_ok slot nullword l v ?h'"
    using ok l v n frame_heap_ok [OF f] by (auto simp: collector_ok_def work_def heap_simps)
  then show ?thesis using eq fw l v by (simp add: heap_simps)
qed

definition list_inv :: "cx_buffer \<Rightarrow> cx_buffer \<Rightarrow> u8 list list \<Rightarrow> heap \<Rightarrow> bool" where
  "list_inv l v vs h \<longleftrightarrow> contents h l = le_words (offsets 0 vs) \<and> contents h v = strings vs"

lemma list_inv_sizes:
  assumes "list_inv l v vs h"
  shows "unat (bsize l) = 8 * length vs" "unat (bsize v) = length (strings vs)"
    "bsize v = of_nat (length (strings vs))"
proof -
  have "length (contents h l) = 8 * length vs" "length (contents h v) = length (strings vs)"
    using assms by (simp_all add: list_inv_def)
  then show "unat (bsize l) = 8 * length vs" "unat (bsize v) = length (strings vs)"
    by (simp_all add: contents_def)
  then show "bsize v = of_nat (length (strings vs))" by (metis of_nat_unat ucast_id)
qed

lemma work_slot: "collector_ok slot nullword l v h \<Longrightarrow> readable h (own l) slot 8"
  by (rule readableI [of slot 8]) (auto simp: collector_ok_def)

lemma work_nullword:
  "collector_ok slot nullword l v h \<Longrightarrow> n \<le> 8 \<Longrightarrow>
   readable h (own l) nullword n \<and> readable h (own v) nullword n \<and> bytes_at h nullword n = replicate n 0"
proof -
  assume ok: "collector_ok slot nullword l v h" and n: "n \<le> 8"
  have r: "readable h (own l \<union> own v \<union> {(slot, 8)}) nullword 8" and b: "bytes_at h nullword 8 = replicate 8 0"
    using ok by (auto simp: collector_ok_def)
  have "bytes_at h nullword n = take n (bytes_at h nullword 8)"
    using n by (simp add: bytes_at_def read_mem_take)
  then show ?thesis
    using readable_sub [OF readable_mono [OF r] n, of "own l"] readable_sub [OF readable_mono [OF r] n, of "own v"] b n
    by (auto simp: min_absorb1)
qed

lemma handle_next_value:
  assumes ok: "collector_ok slot nullword l v h" and inv: "list_inv l v vs h"
    and it: "iterates nxt rest fin" "rest it = (p, n) # xs"
    and r: "readable h (work slot l v) p (unat n)"
  shows "\<exists>rv it' l' v' h'. handle_next nxt slot nullword it l v h = Some (rv, it', l', v', h') \<and>
    collector_ok slot nullword l' v' h' \<and> frame (work slot l v) (work slot l' v') h h' \<and> rest it' = xs \<and>
    ((rv = 1 \<and> list_inv l' v' (vs @ [bytes_at h p (unat n)]) h') \<or> rv < 0)"
proof -
  obtain rv0 it' where nx: "nxt it h = Some (rv0, p, n, it', h)" "0 \<le> rv0" "rest it' = xs" and p: "p \<noteq> 0"
    using iterates_value [OF it] by blast
  obtain h1 where 1: "store_u64 slot (bsize v) h = Some h1" "collector_ok slot nullword l v h1"
      "frame (work slot l v) (work slot l v) h h1" "contents h1 l = contents h l"
      "contents h1 v = contents h v" "bytes_at h1 slot 8 = le_bytes 8 (bsize v)"
    using collector_store_slot [OF ok] by blast
  have u8: "unat (8 :: u64) = 8" "unat (1 :: u64) = 1" by simp_all
  obtain rv2 l2 h2 where 2: "cx_buffer_append l slot 8 h1 = Some (rv2, l2, h2)" "collector_ok slot nullword l2 v h2"
      "frame (work slot l v) (work slot l2 v) h1 h2" "contents h2 v = contents h1 v"
      "(rv2 = 0 \<and> contents h2 l2 = contents h1 l @ bytes_at h1 slot 8) \<or> rv2 < 0"
    using collector_append_list [OF 1(2), of slot 8] work_slot [OF 1(2)] u8 by auto
  have f2: "frame (work slot l v) (work slot l2 v) h h2" using frame_trans [OF 1(3) 2(3)] .
  show ?thesis
  proof (cases "rv2 < 0")
    case True
    then show ?thesis using nx p 1(1) 2 f2 by (auto simp: handle_next_def cx_buffer_size_def)
  next
    case rv2: False
    have r2: "readable h2 (work slot l2 v) p (unat n)" "bytes_at h2 p (unat n) = bytes_at h p (unat n)"
      using readable_frame [OF f2 r] by auto
    obtain rv3 v3 h3 where 3: "cx_buffer_append v p n h2 = Some (rv3, v3, h3)" "collector_ok slot nullword l2 v3 h3"
      "frame (work slot l2 v) (work slot l2 v3) h2 h3" "contents h3 l2 = contents h2 l2"
      "(rv3 = 0 \<and> contents h3 v3 = contents h2 v @ bytes_at h2 p (unat n)) \<or> rv3 < 0"
      using collector_append_values [OF 2(2) readable_mono [OF r2(1)]] by (auto simp: work_def)
    have f3: "frame (work slot l v) (work slot l2 v3) h h3" using frame_trans [OF f2 3(3)] .
    show ?thesis
    proof (cases "rv3 < 0")
      case True
      then show ?thesis using nx p 1(1) 2 3 rv2 f3 by (auto simp: handle_next_def cx_buffer_size_def)
    next
      case rv3: False
      obtain rv4 v4 h4 where 4: "cx_buffer_append v3 nullword 1 h3 = Some (rv4, v4, h4)" "collector_ok slot nullword l2 v4 h4"
          "frame (work slot l2 v3) (work slot l2 v4) h3 h4" "contents h4 l2 = contents h3 l2"
          "(rv4 = 0 \<and> contents h4 v4 = contents h3 v3 @ [0]) \<or> rv4 < 0"
        using collector_append_values [OF 3(2), of nullword 1] work_nullword [OF 3(2), of 1] u8 by auto
      have f4: "frame (work slot l v) (work slot l2 v4) h h4" using frame_trans [OF f3 4(3)] .
      show ?thesis
      proof (cases "rv4 < 0")
        case True
        then show ?thesis using nx p 1(1) 2 3 4 rv2 rv3 f4 by (auto simp: handle_next_def cx_buffer_size_def)
      next
        case False
        then have "list_inv l2 v4 (vs @ [bytes_at h p (unat n)]) h4"
          using inv 1 2 3 4 rv2 rv3 r2(2) list_inv_sizes(3) [OF inv]
          by (auto simp: list_inv_def offsets_snoc le_words_append strings_append)
        then show ?thesis using nx p 1(1) 2 3 4 rv2 rv3 f4 False
          by (auto simp: handle_next_def cx_buffer_size_def)
      qed
    qed
  qed
qed

lemma handle_next_end:
  assumes "iterates nxt rest fin" "rest it = []"
  shows "\<exists>it'. handle_next nxt slot nullword it l v h = Some (min fin 0, it', l, v, h)"
  using iterates_end [OF assms, of h] by (auto simp: handle_next_def min_def)

section \<open>The loop\<close>

definition ranges_readable :: "heap \<Rightarrow> (addr \<times> nat) set \<Rightarrow> (addr \<times> u64) list \<Rightarrow> bool" where
  "ranges_readable h X xs \<longleftrightarrow> list_all (\<lambda>(p, n). readable h X p (unat n)) xs"

definition values_at :: "heap \<Rightarrow> (addr \<times> u64) list \<Rightarrow> u8 list list" where
  "values_at h xs = map (\<lambda>(p, n). bytes_at h p (unat n)) xs"

lemma ranges_readable_frame:
  assumes "frame A B h h'" "ranges_readable h A xs"
  shows "ranges_readable h' B xs" "values_at h' xs = values_at h xs"
  using assms by (auto simp: ranges_readable_def values_at_def list_all_iff dest: readable_frame)

lemma collect_loop_spec:
  assumes "collector_ok slot nullword l v h" "list_inv l v vs h" "iterates nxt rest fin"
    and "ranges_readable h (work slot l v) (rest it)" "e = of_nat (length vs)"
  shows "\<exists>rv it' l' v' e' h'. collect_loop nxt slot nullword it l v e h = Some (rv, it', l', v', e', h') \<and>
    collector_ok slot nullword l' v' h' \<and> frame (work slot l v) (work slot l' v') h h' \<and>
    ((rv = 0 \<and> 0 \<le> fin \<and> list_inv l' v' (vs @ values_at h (rest it)) h' \<and>
      e' = of_nat (length (vs @ values_at h (rest it)))) \<or> rv < 0)"
  using assms
proof (induction "rest it" arbitrary: it l v vs e h)
  case Nil
  then obtain it' where "handle_next nxt slot nullword it l v h = Some (min fin 0, it', l, v, h)"
    using handle_next_end by metis
  then show ?case using Nil
    by (auto simp: collect_loop.simps [of nxt] values_at_def frame_refl work_def collector_ok_def buffer_ok_def)
next
  case (Cons x xs)
  obtain p n where x: "x = (p, n)" by (cases x)
  have rx: "rest it = (p, n) # xs" using Cons.hyps(2) x by simp
  then have rd: "readable h (work slot l v) p (unat n)" and rds: "ranges_readable h (work slot l v) xs"
    using Cons.prems(4) by (auto simp: ranges_readable_def)
  obtain rv it1 l1 v1 h1 where 1: "handle_next nxt slot nullword it l v h = Some (rv, it1, l1, v1, h1)"
      "collector_ok slot nullword l1 v1 h1" "frame (work slot l v) (work slot l1 v1) h h1" "rest it1 = xs"
      "(rv = 1 \<and> list_inv l1 v1 (vs @ [bytes_at h p (unat n)]) h1) \<or> rv < 0"
    using handle_next_value [OF Cons.prems(1,2,3) rx rd] by blast
  show ?case
  proof (cases "rv < 0")
    case True
    then show ?thesis using 1 by (simp add: collect_loop.simps [of nxt])
  next
    case False
    then have rv: "rv = 1" and inv: "list_inv l1 v1 (vs @ [bytes_at h p (unat n)]) h1" using 1(5) by auto
    have fr: "ranges_readable h1 (work slot l1 v1) xs" "values_at h1 xs = values_at h xs"
      using ranges_readable_frame [OF 1(3) rds] by auto
    obtain rv2 it2 l2 v2 e2 h2 where 2: "collect_loop nxt slot nullword it1 l1 v1 (e + 1) h1 = Some (rv2, it2, l2, v2, e2, h2)"
        "collector_ok slot nullword l2 v2 h2" "frame (work slot l1 v1) (work slot l2 v2) h1 h2"
        "(rv2 = 0 \<and> 0 \<le> fin \<and> list_inv l2 v2 ((vs @ [bytes_at h p (unat n)]) @ values_at h1 xs) h2 \<and>
          e2 = of_nat (length ((vs @ [bytes_at h p (unat n)]) @ values_at h1 xs))) \<or> rv2 < 0"
      using Cons.hyps(1) [of it1 l1 v1 h1 "vs @ [bytes_at h p (unat n)]" "e + 1"] 1(2,4) inv Cons.prems(3,5) fr
      by auto
    have vals: "values_at h (rest it) = bytes_at h p (unat n) # values_at h xs"
      by (simp add: rx values_at_def)
    show ?thesis
      using 1(1) rv frame_trans [OF 1(3) 2(3)] 2(1,2) 2(4) [unfolded fr(2)]
      by (auto simp: collect_loop.simps [of nxt slot nullword it] vals)
  qed
qed

section \<open>Relocation\<close>

lemma relocate_spec:
  assumes "heap_ok h" "(r, cap) \<in> set (blocks h)" "8 * (i + k) \<le> cap"
  shows "\<exists>h'. relocate r d i k h = Some h' \<and> frame {(r, cap)} {(r, cap)} h h' \<and>
    (\<forall>j. i \<le> j \<and> j < i + k \<longrightarrow> u64_at h' (r + 8 * j) = u64_at h (r + 8 * j) + d) \<and>
    (\<forall>q m. q + m \<le> r + 8 * i \<or> r + 8 * (i + k) \<le> q \<longrightarrow> bytes_at h' q m = bytes_at h q m)"
  using assms
proof (induction k arbitrary: i h)
  case 0
  then show ?case by (auto simp: frame_refl)
next
  case (Suc k)
  let ?q = "r + 8 * i"
  let ?h1 = "set_bytes ?q (le_bytes 8 (u64_at h ?q + d)) h"
  have v: "valid h ?q 8" by (rule valid_block [OF Suc.prems(2)]) (use Suc.prems(3) in auto)
  have f1: "frame {(r, cap)} {(r, cap)} h ?h1"
    by (rule frame_set_bytes [OF Suc.prems(1)]) (use Suc.prems in auto)
  have b1: "(r, cap) \<in> set (blocks ?h1)" using Suc.prems(2) by (simp add: heap_simps)
  obtain h' where h': "relocate r d (Suc i) k ?h1 = Some h'" "frame {(r, cap)} {(r, cap)} ?h1 h'"
      "\<And>j. Suc i \<le> j \<Longrightarrow> j < Suc i + k \<Longrightarrow> u64_at h' (r + 8 * j) = u64_at ?h1 (r + 8 * j) + d"
      "\<And>q m. q + m \<le> r + 8 * Suc i \<or> r + 8 * (Suc i + k) \<le> q \<Longrightarrow> bytes_at h' q m = bytes_at ?h1 q m"
    using Suc.IH [OF frame_heap_ok [OF f1 Suc.prems(1)] b1, of "Suc i"] Suc.prems(3) by auto
  have "u64_at h' (r + 8 * j) = u64_at h (r + 8 * j) + d" if j: "i \<le> j" "j < i + Suc k" for j
  proof (cases "j = i")
    case True
    have "bytes_at h' ?q 8 = bytes_at ?h1 ?q 8" by (rule h'(4)) simp
    then have "u64_at h' ?q = u64_at ?h1 ?q" by (rule bytes_at_u64)
    then show ?thesis using True by (simp add: heap_simps)
  next
    case False
    then show ?thesis using h'(3) [of j] j u64_at_set_other [of "r + 8 * j" ?q] by simp
  qed
  moreover have "bytes_at h' q m = bytes_at h q m"
    if q: "q + m \<le> r + 8 * i \<or> r + 8 * (i + Suc k) \<le> q" for q m
    using h'(4) [of q m] bytes_at_set_other [of q m ?q] q by auto
  ultimately show ?case
    using h'(1) v frame_trans [OF f1 h'(2)] by (auto simp: mem_step heap_simps)
qed

text \<open>
  A relocated object: the first \<open>8 * n\<close> bytes held the offsets, then a null word, then the
  strings; adding the address of the strings to each offset gives the array of pointers.
\<close>

lemma relocated_array:
  assumes lay: "bytes_at h r (8 * length vs + 8 + length (strings vs)) =
      le_words (offsets 0 vs) @ replicate 8 0 @ strings vs"
    and new: "\<And>j. j < length vs \<Longrightarrow>
      u64_at h' (r + 8 * j) = u64_at h (r + 8 * j) + of_nat (8 * length vs + 8 + r)"
    and same: "\<And>q m. r + 8 * length vs \<le> q \<Longrightarrow> bytes_at h' q m = bytes_at h q m"
    and cap: "8 * length vs + 8 + length (strings vs) \<le> cap"
  shows "string_array h' r cap vs"
  unfolding string_array_def
proof (intro conjI allI impI)
  let ?n = "8 * length vs"
  let ?all = "le_words (offsets 0 vs) @ replicate 8 0 @ strings vs"
  have slice: "bytes_at h (r + a) m = take m (drop a ?all)"
    if "a + m \<le> ?n + 8 + length (strings vs)" for a m
    unfolding lay [symmetric] by (rule bytes_at_slice [OF that])
  have "bytes_at h' (r + ?n) 8 = bytes_at h (r + ?n) 8" by (rule same) simp
  also have "\<dots> = replicate 8 0" by (subst slice) auto
  finally show "u64_at h' (r + ?n) = 0"
    by (simp add: u64_at_def bytes_at_def numeral_eq_Suc)
  fix j assume j: "j < length vs"
  let ?k = "length (strings (take j vs))"
  let ?p = "r + (?n + 8 + ?k)"
  have "bytes_at h (r + 8 * j) 8 = take 8 (drop (8 * j) (le_words (offsets 0 vs)))"
    using j by (subst slice) auto
  also have "\<dots> = le_bytes 8 (offsets 0 vs ! j)" by (rule nth_le_words) (use j in simp)
  finally have "u64_at h (r + 8 * j) = of_nat ?k"
    using j by (simp add: u64_at_def bytes_at_def nth_offsets)
  then have "u64_at h' (r + 8 * j) = of_nat ?p" using new [OF j] by (simp add: algebra_simps)
  moreover have "?p + length (vs ! j) + 1 \<le> r + cap" using cap strings_bound [OF j] by simp
  moreover have "bytes_at h' ?p (length (vs ! j) + 1) = vs ! j @ [0]"
  proof -
    have "bytes_at h' ?p (length (vs ! j) + 1) = bytes_at h ?p (length (vs ! j) + 1)"
      by (rule same) simp
    also have "\<dots> = take (length (vs ! j) + 1) (drop ?k (strings vs))"
      using strings_bound [OF j] by (subst slice) auto
    finally show ?thesis using nth_strings [OF j] by simp
  qed
  ultimately show "\<exists>p. u64_at h' (r + 8 * j) = of_nat p \<and> r \<le> p \<and>
      p + length (vs ! j) + 1 \<le> r + cap \<and> bytes_at h' p (length (vs ! j) + 1) = vs ! j @ [0]"
    by (intro exI [of _ ?p]) simp
qed

section \<open>The whole collection\<close>

lemma collector_finish:
  assumes ok: "collector_ok slot nullword l v h"
  shows "\<exists>l' v' h1 h2. cx_buffer_cleanup l h = Some (0, l', h1) \<and> cx_buffer_cleanup v h1 = Some (0, v', h2) \<and>
    frame (work slot l v) {(slot, 8)} h h2"
proof -
  obtain l' h1 where 1: "cx_buffer_cleanup l h = Some (0, l', h1)" "frame (own l) {} h h1"
    using cx_buffer_cleanup_spec [of h l] ok by (auto simp: collector_ok_def)
  have f1: "frame (own l \<union> (own v \<union> {(slot, 8)})) ({} \<union> (own v \<union> {(slot, 8)})) h h1"
    by (rule frame_extend [OF 1(2)]) (use ok in \<open>auto simp: collector_ok_def buffer_ok_def\<close>)
  have v1: "buffer_ok h1 v"
    using buffer_frame [OF 1(2), of v] ok by (auto simp: collector_ok_def)
  obtain v' h2 where 2: "cx_buffer_cleanup v h1 = Some (0, v', h2)" "frame (own v) {} h1 h2"
    using cx_buffer_cleanup_spec [of h1 v] v1 frame_heap_ok [OF 1(2)] ok by (auto simp: collector_ok_def)
  have "frame (own v \<union> {(slot, 8)}) ({} \<union> {(slot, 8)}) h1 h2"
    by (rule frame_extend [OF 2(2)]) (use ok frame_sub [OF f1] in \<open>auto simp: collector_ok_def\<close>)
  then show ?thesis using 1(1) 2(1) frame_trans [OF f1] by (auto simp: work_def Un_assoc)
qed

lemma collector_deliver:
  assumes ok: "collector_ok slot nullword l v h" and d: "bdata l \<noteq> 0"
    and lay: "contents h l = le_words (offsets 0 vs) @ replicate 8 0 @ strings vs"
  shows "\<exists>l' h1 v' h2 l''. cx_buffer_unwrap l h = Some (bdata l, l', h) \<and>
    relocate (bdata l) (of_nat (8 * length vs + 8) + of_nat (bdata l)) 0 (length vs) h = Some h1 \<and>
    cx_buffer_cleanup l' h1 = Some (0, l'', h1) \<and> cx_buffer_cleanup v h1 = Some (0, v', h2) \<and>
    frame (work slot l v) {(slot, 8), (bdata l, unat (bcapacity l))} h h2 \<and>
    string_array h2 (bdata l) (unat (bcapacity l)) vs"
proof -
  let ?r = "bdata l" and ?cap = "unat (bcapacity l)"
  let ?d = "of_nat (8 * length vs + 8) + of_nat ?r :: u64"
  have own_l: "own l = {(?r, ?cap)}" using d by (simp add: own_def)
  have blk: "(?r, ?cap) \<in> set (blocks h)" and h: "heap_ok h" and okb: "buffer_ok h l"
    using ok own_l by (auto simp: collector_ok_def buffer_ok_def)
  have len: "unat (bsize l) = 8 * length vs + 8 + length (strings vs)"
    using arg_cong [OF lay, of length] by (simp add: contents_def)
  have cap: "8 * length vs + 8 + length (strings vs) \<le> ?cap" using len buffer_ok_le [OF okb] by simp
  obtain h1 where h1: "relocate ?r ?d 0 (length vs) h = Some h1" "frame {(?r, ?cap)} {(?r, ?cap)} h h1"
      "\<And>j. j < length vs \<Longrightarrow> u64_at h1 (?r + 8 * j) = u64_at h (?r + 8 * j) + ?d"
      "\<And>q m. ?r + 8 * length vs \<le> q \<Longrightarrow> bytes_at h1 q m = bytes_at h q m"
    using relocate_spec [OF h blk, of 0 "length vs" ?d] cap by auto
  have arr: "string_array h1 ?r ?cap vs"
  proof (rule relocated_array [OF _ _ h1(4) cap])
    show "bytes_at h ?r (8 * length vs + 8 + length (strings vs)) =
        le_words (offsets 0 vs) @ replicate 8 0 @ strings vs"
      using lay len by (simp add: contents_def)
  qed (use h1(3) in \<open>simp_all add: algebra_simps\<close>)
  have h1ok: "heap_ok h1" using frame_heap_ok [OF h1(2) h] .
  have v1: "buffer_ok h1 v"
    using buffer_frame [OF h1(2), of v] ok own_l by (auto simp: collector_ok_def)
  obtain v' h2 where 2: "cx_buffer_cleanup v h1 = Some (0, v', h2)" "frame (own v) {} h1 h2" "mem h2 = mem h1"
    using cx_buffer_cleanup_spec [OF h1ok v1] by blast
  let ?X = "own v \<union> {(slot, 8)}" and ?Y = "{(slot, 8), (?r, ?cap)}"
  have f1: "frame ({(?r, ?cap)} \<union> ?X) ({(?r, ?cap)} \<union> ?X) h h1"
    by (rule frame_extend [OF h1(2)])
      (use ok own_l in \<open>auto simp: collector_ok_def buffer_ok_def\<close>)
  have "frame (own v \<union> ?Y) ({} \<union> ?Y) h1 h2"
    by (rule frame_extend [OF 2(2)])
      (use frame_sub [OF f1] ok own_l in \<open>auto simp: collector_ok_def\<close>)
  moreover have "own v \<union> ?Y = {(?r, ?cap)} \<union> ?X" "work slot l v = {(?r, ?cap)} \<union> ?X"
    by (auto simp: work_def own_l)
  ultimately have "frame (work slot l v) ?Y h h2" using frame_trans [OF f1] by simp
  moreover have "string_array h2 ?r ?cap vs"
    using arr 2(3) by (simp add: string_array_def u64_at_def bytes_at_def)
  ultimately show ?thesis using h1(1) 2(1)
    by (simp add: cx_buffer_unwrap_def cx_buffer_cleanup_def)
qed

lemma collector_start:
  assumes "heap_ok h" "(slot, 8) \<in> set (blocks h)" "readable h {(slot, 8)} nullword 8"
    and "bytes_at h nullword 8 = replicate 8 0"
  defines "z \<equiv> \<lparr>bdata = 0, bsize = 0, bcapacity = 0\<rparr>"
  shows "collector_ok slot nullword z z h" "list_inv z z [] h" "work slot z z = {(slot, 8)}"
  using assms(1-4)
  by (simp_all add: z_def collector_ok_def list_inv_def contents_def buffer_ok_def own_def work_def)

lemma buffer_readable:
  "buffer_ok h v \<Longrightarrow> own v \<inter> X = {} \<Longrightarrow> readable h X (bdata v) (unat (bsize v))"
proof (cases "bdata v = 0")
  case True
  moreover assume "buffer_ok h v"
  ultimately show ?thesis using buffer_ok_null [of h v] by (simp add: readable_def)
next
  case False
  assume "buffer_ok h v" "own v \<inter> X = {}"
  then show ?thesis using False buffer_ok_le [of h v]
    by (intro readableI [of "bdata v" "unat (bcapacity v)"]) (auto simp: own_def buffer_ok_def)
qed

text \<open>The part of \<^verbatim>\<open>cx_collect\<close> after a loop that ended without error.\<close>

lemma collector_tail:
  assumes ok: "collector_ok slot nullword l v h" and inv: "list_inv l v vs h"
  shows "\<exists>rv l1 h1. cx_buffer_append l nullword 8 h = Some (rv, l1, h1) \<and>
    collector_ok slot nullword l1 v h1 \<and> frame (work slot l v) (work slot l1 v) h h1 \<and>
    (rv < 0 \<or> rv = 0 \<and> bsize l1 = of_nat (8 * length vs + 8) \<and>
      (\<exists>rv2 l2 h2. cx_buffer_append l1 (bdata v) (bsize v) h1 = Some (rv2, l2, h2) \<and>
        collector_ok slot nullword l2 v h2 \<and> frame (work slot l v) (work slot l2 v) h h2 \<and>
        (rv2 < 0 \<or> rv2 = 0 \<and> bdata l2 \<noteq> 0 \<and>
          contents h2 l2 = le_words (offsets 0 vs) @ replicate 8 0 @ strings vs)))"
proof -
  have u8: "unat (8 :: u64) = 8" by simp
  obtain rv l1 h1 where 1: "cx_buffer_append l nullword 8 h = Some (rv, l1, h1)" "collector_ok slot nullword l1 v h1"
      "frame (work slot l v) (work slot l1 v) h h1" "contents h1 v = contents h v"
      "(rv = 0 \<and> contents h1 l1 = contents h l @ replicate 8 0) \<or> rv < 0"
    using collector_append_list [OF ok, of nullword 8] work_nullword [OF ok, of 8] u8 by auto
  show ?thesis
  proof (cases "rv < 0")
    case True
    then show ?thesis using 1 by blast
  next
    case False
    then have rv: "rv = 0" and c1: "contents h1 l1 = le_words (offsets 0 vs) @ replicate 8 0"
      using 1(5) inv by (auto simp: list_inv_def)
    have "unat (bsize l1) = 8 * length vs + 8"
      using arg_cong [OF c1, of length] by (simp add: contents_def)
    then have base: "bsize l1 = of_nat (8 * length vs + 8)" by (metis of_nat_unat ucast_id)
    have "readable h1 (own l1) (bdata v) (unat (bsize v))"
      by (rule buffer_readable) (use 1(2) in \<open>auto simp: collector_ok_def\<close>)
    then obtain rv2 l2 h2 where 2: "cx_buffer_append l1 (bdata v) (bsize v) h1 = Some (rv2, l2, h2)"
        "collector_ok slot nullword l2 v h2" "frame (work slot l1 v) (work slot l2 v) h1 h2"
        "(rv2 = 0 \<and> contents h2 l2 = contents h1 l1 @ bytes_at h1 (bdata v) (unat (bsize v))) \<or> rv2 < 0"
      using collector_append_list [OF 1(2)] by blast
    have "bytes_at h1 (bdata v) (unat (bsize v)) = strings vs"
      using 1(4) inv by (simp add: contents_def list_inv_def)
    then have c2: "rv2 = 0 \<Longrightarrow> contents h2 l2 = le_words (offsets 0 vs) @ replicate 8 0 @ strings vs"
      using 2(4) c1 by auto
    have "bdata l2 \<noteq> 0" if "rv2 = 0"
    proof
      assume "bdata l2 = 0"
      then have "bsize l2 = 0" using 2(2) buffer_ok_null by (auto simp: collector_ok_def)
      then show False using c2 [OF that] by (auto simp: contents_def)
    qed
    then show ?thesis using 1 2 rv base c2 frame_trans [OF 1(3) 2(3)] by blast
  qed
qed

text \<open>After a loop that has read all values: the null word and the strings are appended and the offsets made addresses.\<close>

lemma collect_after_loop:
  assumes loop: "collect_loop nxt slot nullword it \<lparr>bdata = 0, bsize = 0, bcapacity = 0\<rparr> \<lparr>bdata = 0, bsize = 0, bcapacity = 0\<rparr> 0 h =
      Some (0, it', l, v, e, h1)"
    and ok: "collector_ok slot nullword l v h1" and fr: "frame {(slot, 8)} (work slot l v) h h1"
    and inv: "list_inv l v vs h1" and e: "e = of_nat (length vs)"
  shows "\<exists>rv t it' h'. cx_collect nxt slot nullword it h = Some (rv, t, it', h') \<and>
    ((rv = 0 \<and> (\<exists>r cap. t = Some r \<and> frame {(slot, 8)} {(slot, 8), (r, cap)} h h' \<and> string_array h' r cap vs)) \<or>
     (rv < 0 \<and> t = None \<and> frame {(slot, 8)} {(slot, 8)} h h'))"
proof -
  have "unat e = length vs"
  proof -
    have "8 * length vs < 2 ^ 64" using list_inv_sizes(1) [OF inv] unat_lt64 [of "bsize l"] by simp
    then show ?thesis unfolding e by (intro unat_of_nat64) simp
  qed
  note T = collector_tail [OF ok inv]
  then obtain rv2 l1 h2 where t1: "cx_buffer_append l nullword 8 h1 = Some (rv2, l1, h2)"
      "collector_ok slot nullword l1 v h2" "frame (work slot l v) (work slot l1 v) h1 h2" by blast
  show ?thesis
  proof (cases "rv2 < 0")
    case True
    then show ?thesis
      using loop t1(1) collector_finish [OF t1(2)] frame_trans [OF frame_trans [OF fr t1(3)]]
      by (fastforce simp: cx_collect_def cx_buffer_init_def Let_def)
  next
    case False
    then obtain rv3 l2 h3 where t2: "cx_buffer_append l1 (bdata v) (bsize v) h2 = Some (rv3, l2, h3)"
        "collector_ok slot nullword l2 v h3" "frame (work slot l v) (work slot l2 v) h1 h3"
        "rv3 < 0 \<or> rv3 = 0 \<and> bdata l2 \<noteq> 0 \<and>
          contents h3 l2 = le_words (offsets 0 vs) @ replicate 8 0 @ strings vs"
      and rv2: "rv2 = 0" and base: "bsize l1 = of_nat (8 * length vs + 8)"
      using T t1(1) by auto
    show ?thesis
    proof (cases "rv3 < 0")
      case True
      then show ?thesis
        using loop rv2 t1(1) t2(1) collector_finish [OF t2(2)] frame_trans [OF frame_trans [OF fr t2(3)]]
        by (fastforce simp: cx_collect_def cx_buffer_init_def cx_buffer_data_def cx_buffer_size_def Let_def)
    next
      case False
      then have fin3: "rv3 = 0" "bdata l2 \<noteq> 0"
          "contents h3 l2 = le_words (offsets 0 vs) @ replicate 8 0 @ strings vs"
        using t2(4) by auto
      from collector_deliver [OF t2(2) fin3(2,3)] show ?thesis
        using loop rv2 t1(1) t2(1) fin3(1) base \<open>unat e = length vs\<close>
          frame_trans [OF frame_trans [OF fr t2(3)]]
        by (fastforce simp: cx_collect_def cx_buffer_init_def cx_buffer_data_def cx_buffer_size_def Let_def)
    qed
  qed
qed

section \<open>An array iterator\<close>

text \<open>
  The iterator of \<^verbatim>\<open>test/collection/collector.c\<close>: it walks an array of
  strings and returns the status stored in it each time. A string is its address and its
  \<^verbatim>\<open>strlen\<close>.
\<close>

fun test_collect_next :: "int \<Rightarrow> (addr \<times> u64) list collector_next" where
  "test_collect_next rv [] h = Some (rv, 0, 0, [], h)"
| "test_collect_next rv ((p, n) # xs) h = Some (rv, p, n, xs, h)"

definition test_rest :: "int \<Rightarrow> (addr \<times> u64) list \<Rightarrow> (addr \<times> u64) list" where
  "test_rest rv xs = (if rv < 0 then [] else takeWhile (\<lambda>x. fst x \<noteq> 0) xs)"

lemma test_collect_iterates: "iterates (test_collect_next rv) (test_rest rv) rv"
proof -
  have "case test_rest rv it of
          [] \<Rightarrow> \<exists>p n it'. test_collect_next rv it h = Some (rv, p, n, it', h) \<and> (p = 0 \<or> rv < 0)
        | x # xs \<Rightarrow> fst x \<noteq> 0 \<and> (\<exists>rv' it'. 0 \<le> rv' \<and>
            test_collect_next rv it h = Some (rv', fst x, snd x, it', h) \<and> test_rest rv it' = xs)"
    for it h
    by (cases it) (auto simp: test_rest_def)
  then show ?thesis by (auto simp: iterates_def)
qed

section \<open>Properties\<close>

text \<open>
  C8. \<^verbatim>\<open>cx_collect\<close> is correct and memory safe for every iterator that hands
  out readable values and then ends with status \<open>fin\<close>, and for every allocator. Either it
  returns 0 and stores the address of one fresh object holding a null-terminated array whose
  \<open>j\<close>-th pointer points into the object, at a zero-terminated copy of the \<open>j\<close>-th
  value; or it returns a negative status, stores nothing and has leaked nothing. A negative
  \<open>fin\<close> always gives the second outcome. The caller's other objects are untouched.
\<close>

theorem collect_correct:
  assumes "heap_ok h" "(slot, 8) \<in> set (blocks h)"
    and "readable h {(slot, 8)} nullword 8" "bytes_at h nullword 8 = replicate 8 0"
    and "iterates nxt rest fin" "ranges_readable h {(slot, 8)} (rest it)"
  shows "\<exists>rv t it' h'. cx_collect nxt slot nullword it h = Some (rv, t, it', h') \<and>
    ((rv = 0 \<and> 0 \<le> fin \<and> (\<exists>r cap. t = Some r \<and> frame {(slot, 8)} {(slot, 8), (r, cap)} h h' \<and>
        string_array h' r cap (values_at h (rest it)))) \<or>
     (rv < 0 \<and> t = None \<and> frame {(slot, 8)} {(slot, 8)} h h'))"
proof -
  let ?z = "\<lparr>bdata = 0, bsize = 0, bcapacity = 0\<rparr>"
  note start = collector_start [OF assms(1-4)]
  obtain rv it' l v e h1 where L: "collect_loop nxt slot nullword it ?z ?z 0 h = Some (rv, it', l, v, e, h1)"
      "collector_ok slot nullword l v h1" "frame {(slot, 8)} (work slot l v) h h1"
      "(rv = 0 \<and> 0 \<le> fin \<and> list_inv l v (values_at h (rest it)) h1 \<and>
        e = of_nat (length (values_at h (rest it)))) \<or> rv < 0"
    using collect_loop_spec [OF start(1,2) assms(5), of it 0] assms(6) start(3) by auto
  show ?thesis
  proof (cases "rv < 0")
    case True
    then show ?thesis using L collector_finish [OF L(2)] frame_trans [OF L(3)]
      by (fastforce simp: cx_collect_def cx_buffer_init_def Let_def)
  next
    case False
    then have r: "rv = 0" "0 \<le> fin" "list_inv l v (values_at h (rest it)) h1" "e = of_nat (length (values_at h (rest it)))"
      using L(4) by auto
    show ?thesis using collect_after_loop [OF L(1) [unfolded r(1)] L(2,3) r(3,4)] r(2) by blast
  qed
qed

definition collect_heap :: heap where
  "collect_heap = \<lparr>mem = (\<lambda>a. if a < 64 then 0 else of_nat a), blocks = [(100, 4), (16, 8), (32, 8)],
     answers = [200, 300, 400, 500, 600, 700, 800, 900], cb_log = []\<rparr>"

text \<open>One run evaluated: a single one-byte string, with an allocator that always answers.\<close>

lemma collect_example:
  "\<exists>it h'. cx_collect (test_collect_next 0) 16 32 [(100, 1)] collect_heap = Some (0, Some 600, it, h')"
proof -
  have clz: "clz64 7 = 61" "clz64 15 = 60" "clz64 17 = 59" "clz64 1 = 63"
    by (simp_all add: clz64_def upt_rec)
  show ?thesis
    by (simp add: Let_def cx_collect_def collect_loop.simps handle_next_def cx_buffer_init_def
        cx_buffer_append_def cx_buffer_add_capacity_def add_overflow_def round_to_next_pow2_def clz
        resize_buffer_exact_def realloc_def malloc_def collect_heap_def fits_def memcpy_def
        load_bytes_def store_bytes_def load_u64_def store_u64_def valid_def cx_buffer_add_size_def
        cx_buffer_unwrap_def cx_buffer_cleanup_def cx_buffer_data_def cx_buffer_size_def free_def
        unat_eq_zero word_less_nat_alt word_le_nat_alt)
qed

theorem collect_correct_witness:
  "\<exists>it' h' cap. cx_collect (test_collect_next 0) 16 32 [(100, 1)] collect_heap = Some (0, Some 600, it', h') \<and>
     frame {(16, 8)} {(16, 8), (600, cap)} collect_heap h' \<and> string_array h' 600 cap [[100]]"
proof -
  have "heap_ok collect_heap" by (simp add: heap_ok_def collect_heap_def fits_def)
  moreover have "(16, 8) \<in> set (blocks collect_heap)" by (simp add: collect_heap_def)
  moreover have "readable collect_heap {(16, 8)} 32 8"
    by (rule readableI [of 32 8]) (simp_all add: collect_heap_def)
  moreover have "bytes_at collect_heap 32 8 = replicate 8 0"
    by (simp add: bytes_at_def read_mem_def collect_heap_def upt_rec numeral_eq_Suc)
  moreover have "ranges_readable collect_heap {(16, 8)} (test_rest 0 [(100, 1)])"
    by (auto simp: ranges_readable_def test_rest_def collect_heap_def intro!: readableI [of 100 4])
  moreover have "values_at collect_heap (test_rest 0 [(100, 1)]) = [[100]]"
    by (simp add: values_at_def test_rest_def bytes_at_def read_mem_def collect_heap_def)
  ultimately show ?thesis
    using collect_correct [OF _ _ _ _ test_collect_iterates, of collect_heap 16 32 0 "[(100, 1)]"] collect_example
    by auto
qed

end
