(* ===== verification/LruBackend.thy ===== *)
theory LruBackend
  imports Memory
begin

text \<open>
  The interface between the LRU cache and the containers it can sit on:
  \<^verbatim>\<open>struct CxLruBackendImpl\<close>, a table of function pointers. \<open>'b\<close> is the
  state of the container; \<^verbatim>\<open>retain_value\<close> may be a null pointer
  (\<^verbatim>\<open>cx_lru_rc_hash_map\<close> leaves it out).
\<close>

record 'b lru_impl =
  impl_retain :: "'b \<Rightarrow> u64 \<Rightarrow> heap \<Rightarrow> (addr \<times> 'b \<times> heap) option"
  impl_retain_value :: "('b \<Rightarrow> addr \<Rightarrow> heap \<Rightarrow> ('b \<times> heap) option) option"
  impl_release :: "'b \<Rightarrow> u64 \<Rightarrow> heap \<Rightarrow> (int \<times> 'b \<times> heap) option"

text \<open>
  What the cache relies on. \<open>cnt h b k\<close> is the number of references the container
  counts for the key \<open>k\<close>; retaining a live key adds one, releasing a live key removes
  one, nothing else changes, and a step outside the container's objects (\<open>foot\<close>) does
  not affect it. A count may grow up to \<open>limit\<close>.
\<close>

locale lru_backend =
  fixes bok :: "heap \<Rightarrow> 'b \<Rightarrow> bool"
    and foot :: "'b \<Rightarrow> (addr \<times> nat) set"
    and cnt :: "heap \<Rightarrow> 'b \<Rightarrow> u64 \<Rightarrow> nat"
    and limit :: nat
    and impl :: "'b lru_impl"
  assumes bok_live: "bok h b \<Longrightarrow> heap_ok h \<and> foot b \<subseteq> set (blocks h)"
    and retain_law: "bok h b \<Longrightarrow> 0 < cnt h b k \<Longrightarrow> cnt h b k < limit \<Longrightarrow>
      \<exists>p b' h'. impl_retain impl b k h = Some (p, b', h') \<and> bok h' b' \<and>
        frame (foot b) (foot b') h h' \<and> cnt h' b' = (cnt h b)(k := cnt h b k + 1)"
    and release_law: "bok h b \<Longrightarrow> 0 < cnt h b k \<Longrightarrow>
      \<exists>rv b' h'. impl_release impl b k h = Some (rv, b', h') \<and> bok h' b' \<and>
        frame (foot b) (foot b') h h' \<and> cnt h' b' = (cnt h b)(k := cnt h b k - 1)"
    and outside_law: "frame A B h h' \<Longrightarrow> bok h b \<Longrightarrow> foot b \<inter> A = {} \<Longrightarrow>
      bok h' b \<and> cnt h' b = cnt h b"

text \<open>
  A backend that can also retain through the address of the element: \<open>at h b k p\<close> says
  that \<open>p\<close> is the address of the live element of key \<open>k\<close>.
\<close>

locale lru_value_backend = lru_backend +
  fixes at :: "heap \<Rightarrow> 'b \<Rightarrow> u64 \<Rightarrow> addr \<Rightarrow> bool"
  assumes retain_value_law:
    "bok h b \<Longrightarrow> at h b k p \<Longrightarrow> 0 < cnt h b k \<Longrightarrow> cnt h b k < limit \<Longrightarrow>
      \<exists>f b' h'. impl_retain_value impl = Some f \<and> f b p h = Some (b', h') \<and> bok h' b' \<and>
        frame (foot b) (foot b') h h' \<and> cnt h' b' = (cnt h b)(k := cnt h b k + 1)"
    and at_release_law:
    "bok h b \<Longrightarrow> at h b k p \<Longrightarrow> j \<noteq> k \<Longrightarrow> 0 < cnt h b j \<Longrightarrow>
      impl_release impl b j h = Some (rv, b', h') \<Longrightarrow> at h' b' k p"
    and at_outside_law:
    "frame A B h h' \<Longrightarrow> bok h b \<Longrightarrow> foot b \<inter> A = {} \<Longrightarrow> at h b k p \<Longrightarrow> at h' b k p"

end
