(* ===== verification/Lru.thy ===== *)
theory Lru
  imports LruBackend
begin

text \<open>
  \<^verbatim>\<open>lib/collection/lru.c\<close>: \<^verbatim>\<open>struct CxLru\<close>, a ring of keys that
  holds one reference to each key it contains. The ring is an array on the heap. The
  \<^verbatim>\<open>backend\<close> pointer is the container's state, passed and returned beside the
  struct; the table of function pointers is a field, as in C.
\<close>

section \<open>State and operations\<close>

record 'b lru =
  limpl :: "'b lru_impl"
  litems :: addr
  lring_index :: u64
  lsize :: u64

definition EMPTY_MARKER :: u64 where
  "EMPTY_MARKER = - 1"

definition cx_lru_init ::
  "'b lru \<Rightarrow> u64 \<Rightarrow> 'b lru_impl \<Rightarrow> heap \<Rightarrow> (int \<times> 'b lru \<times> heap) option" where
  "cx_lru_init lru n impl h =
     (let lru = lru\<lparr>limpl := impl, litems := 0, lring_index := 0, lsize := n\<rparr> in
      if n = 0 then Some (0, lru, h)
      else (let (items, h) = calloc n 8 h; lru = lru\<lparr>litems := items\<rparr> in
            if items = 0 then Some (- err_code CX_ERR_ALLOC, lru, h)
            else do {
              h \<leftarrow> store_bytes items (replicate (unat (n * 8)) 255) h;
              Some (0, lru\<lparr>lring_index := 0\<rparr>, h)
            }))"

definition load_item :: "'b lru \<Rightarrow> u64 \<Rightarrow> heap \<Rightarrow> u64 option" where
  "load_item lru i h = load_u64 (litems lru + 8 * unat i) h"

text \<open>The guarded call of \<^verbatim>\<open>impl->release\<close> that eviction and cleanup share.\<close>

definition release_key :: "'b lru \<Rightarrow> u64 \<Rightarrow> 'b \<Rightarrow> heap \<Rightarrow> ('b \<times> heap) option" where
  "release_key lru key b h =
     (if key \<noteq> EMPTY_MARKER
      then do { (_, b, h) \<leftarrow> impl_release (limpl lru) b key h; Some (b, h) }
      else Some (b, h))"

definition try_touch :: "'b lru \<Rightarrow> u64 \<Rightarrow> 'b \<Rightarrow> heap \<Rightarrow> (bool \<times> 'b lru \<times> 'b \<times> heap) option" where
  "try_touch lru key b h =
     (if lsize lru = 0 then Some (False, lru, b, h)
      else do {
        let ring_index = lring_index lru;
        last_key \<leftarrow> load_item lru ring_index h;
        let ring_index = (ring_index + 1) mod lsize lru;
        old_key \<leftarrow> load_item lru ring_index h;
        if old_key = key \<or> last_key = key then Some (False, lru, b, h)
        else do {
          (b, h) \<leftarrow> release_key lru old_key b h;
          h \<leftarrow> store_u64 (litems lru + 8 * unat ring_index) key h;
          Some (True, lru\<lparr>lring_index := ring_index\<rparr>, b, h)
        }
      })"

definition cx_lru_touch :: "'b lru \<Rightarrow> u64 \<Rightarrow> 'b \<Rightarrow> heap \<Rightarrow> (int \<times> 'b lru \<times> 'b \<times> heap) option" where
  "cx_lru_touch lru key b h = do {
     (touched, lru, b, h) \<leftarrow> try_touch lru key b h;
     if touched
     then do { (_, b, h) \<leftarrow> impl_retain (limpl lru) b key h; Some (0, lru, b, h) }
     else Some (0, lru, b, h)
   }"

text \<open>The call through a null \<^verbatim>\<open>retain_value\<close> is undefined.\<close>

definition cx_lru_touch_value ::
  "'b lru \<Rightarrow> u64 \<Rightarrow> addr \<Rightarrow> 'b \<Rightarrow> heap \<Rightarrow> (int \<times> 'b lru \<times> 'b \<times> heap) option" where
  "cx_lru_touch_value lru key p b h = do {
     (touched, lru, b, h) \<leftarrow> try_touch lru key b h;
     if touched
     then do {
       f \<leftarrow> impl_retain_value (limpl lru);
       (b, h) \<leftarrow> f b p h;
       Some (0, lru, b, h)
     }
     else Some (0, lru, b, h)
   }"

fun release_items :: "'b lru \<Rightarrow> nat \<Rightarrow> nat \<Rightarrow> 'b \<Rightarrow> heap \<Rightarrow> ('b \<times> heap) option" where
  "release_items lru i 0 b h = Some (b, h)"
| "release_items lru i (Suc n) b h = do {
     key \<leftarrow> load_item lru (of_nat i) h;
     (b, h) \<leftarrow> release_key lru key b h;
     release_items lru (Suc i) n b h
   }"

definition cx_lru_cleanup :: "'b lru \<Rightarrow> 'b \<Rightarrow> heap \<Rightarrow> (int \<times> 'b lru \<times> 'b \<times> heap) option" where
  "cx_lru_cleanup lru b h = do {
     (b, h) \<leftarrow> release_items lru 0 (unat (lsize lru)) b h;
     h \<leftarrow> free (litems lru) h;
     Some (0, lru\<lparr>lsize := 0, litems := 0\<rparr>, b, h)
   }"

section \<open>The ring and its abstraction\<close>

definition items :: "heap \<Rightarrow> 'b lru \<Rightarrow> u64 list" where
  "items h l = map (\<lambda>i. u64_at h (litems l + 8 * i)) [0..<unat (lsize l)]"

definition own_lru :: "'b lru \<Rightarrow> (addr \<times> nat) set" where
  "own_lru l = (if lsize l = 0 then {} else {(litems l, unat (lsize l) * 8)})"

definition ring_ok :: "heap \<Rightarrow> 'b lru \<Rightarrow> bool" where
  "ring_ok h l \<longleftrightarrow> heap_ok h \<and> own_lru l \<subseteq> set (blocks h) \<and>
     (if lsize l = 0 then litems l = 0 else lring_index l < lsize l)"

text \<open>
  The abstract cache: the keys in the order in which they will be evicted, the oldest
  first. A touch drops the oldest key and appends the new one, unless the key is the
  newest or the oldest.
\<close>

definition queue :: "heap \<Rightarrow> 'b lru \<Rightarrow> u64 list" where
  "queue h l = rotate (Suc (unat (lring_index l))) (items h l)"

definition touch_queue :: "u64 \<Rightarrow> u64 list \<Rightarrow> u64 list" where
  "touch_queue k q = (if q = [] \<or> hd q = k \<or> last q = k then q else tl q @ [k])"

lemma length_items [simp]: "length (items h l) = unat (lsize l)"
  by (simp add: items_def)

lemma nth_items: "i < unat (lsize l) \<Longrightarrow> items h l ! i = u64_at h (litems l + 8 * i)"
  by (simp add: items_def)

lemma length_queue [simp]: "length (queue h l) = unat (lsize l)"
  by (simp add: queue_def)

lemma ring_block:
  assumes "ring_ok h l" "i < unat (lsize l)"
  shows "(litems l, unat (lsize l) * 8) \<in> set (blocks h)" "litems l \<noteq> 0"
    "unat (lsize l) * 8 < 2 ^ 64"
proof -
  have "lsize l \<noteq> 0" using assms(2) by auto
  then show b: "(litems l, unat (lsize l) * 8) \<in> set (blocks h)"
    using assms(1) by (auto simp: ring_ok_def own_lru_def)
  have h: "heap_ok h" using assms(1) by (simp add: ring_ok_def)
  show "litems l \<noteq> 0" "unat (lsize l) * 8 < 2 ^ 64" using heap_ok_range [OF h b] by auto
qed

lemma item_valid:
  assumes "ring_ok h l" "i < unat (lsize l)"
  shows "valid h (litems l + 8 * i) 8"
  by (rule valid_block [OF ring_block(1) [OF assms]]) (use assms(2) in auto)

lemma load_item_eq:
  "ring_ok h l \<Longrightarrow> unat i < unat (lsize l) \<Longrightarrow> load_item l i h = Some (items h l ! unat i)"
  by (simp add: load_item_def mem_step item_valid nth_items)

lemma ring_outside:
  assumes f: "frame A B h h'" and ok: "ring_ok h l" and dis: "own_lru l \<inter> A = {}"
  shows "ring_ok h' l" "items h' l = items h l" "own_lru l \<inter> B = {}"
proof -
  have h: "heap_ok h" using ok by (simp add: ring_ok_def)
  have "x \<in> own_lru l \<Longrightarrow> x \<in> set (blocks h') \<and> x \<notin> B" for x
    using frame_mem [OF f, of x] ok dis by (auto simp: ring_ok_def)
  then show "ring_ok h' l" "own_lru l \<inter> B = {}"
    using ok frame_heap_ok [OF f h] by (auto simp: ring_ok_def)
  have "u64_at h' (litems l + 8 * i) = u64_at h (litems l + 8 * i)" if i: "i < unat (lsize l)" for i
  proof (rule bytes_at_u64)
    have own: "own_lru l = {(litems l, unat (lsize l) * 8)}" using i by (auto simp: own_lru_def)
    show "bytes_at h' (litems l + 8 * i) 8 = bytes_at h (litems l + 8 * i) 8"
      by (rule frame_bytes [OF f ring_block(1) [OF ok i]]) (use dis own i in auto)
  qed
  then show "items h' l = items h l" by (simp add: items_def)
qed

lemma store_item_spec:
  assumes ok: "ring_ok h l" and i: "i < unat (lsize l)"
  shows "\<exists>h'. store_u64 (litems l + 8 * i) k h = Some h' \<and> frame (own_lru l) (own_lru l) h h' \<and>
    ring_ok h' l \<and> items h' l = (items h l)[i := k]"
proof -
  let ?h' = "set_bytes (litems l + 8 * i) (le_bytes 8 k) h"
  have h: "heap_ok h" using ok by (simp add: ring_ok_def)
  have own: "own_lru l = {(litems l, unat (lsize l) * 8)}" using i by (auto simp: own_lru_def)
  have f: "frame (own_lru l) (own_lru l) h ?h'"
    by (rule frame_set_bytes [OF h]) (use own i ring_block(1) [OF ok i] in auto)
  have "u64_at ?h' (litems l + 8 * j) = (if j = i then k else u64_at h (litems l + 8 * j))" for j
    by (cases j i rule: linorder_cases) (auto simp: heap_simps u64_at_set_other)
  then have "items ?h' l = (items h l)[i := k]"
    by (intro nth_equalityI) (auto simp: nth_items nth_list_update)
  moreover have "ring_ok ?h' l" using ok by (simp add: ring_ok_def heap_simps)
  ultimately show ?thesis using f item_valid [OF ok i] by (auto simp: mem_step)
qed

lemma hd_rotate_Suc: "n < length xs \<Longrightarrow> hd (rotate (Suc n) xs) = xs ! (Suc n mod length xs)"
  by (metis hd_rotate_conv_nth length_greater_0_conv less_nat_zero_code list.size(3) neq0_conv)

lemma last_rotate_Suc: "n < length xs \<Longrightarrow> last (rotate (Suc n) xs) = xs ! n"
proof -
  assume n: "n < length xs"
  then have ne: "rotate n xs \<noteq> []" by auto
  then have "last (rotate1 (rotate n xs)) = hd (rotate n xs)" by (cases "rotate n xs") auto
  moreover have "hd (rotate n xs) = xs ! n"
    using hd_rotate_conv_nth [of xs n] n ne by simp
  ultimately show ?thesis by simp
qed

lemma rotate_update:
  assumes "n < length xs"
  shows "rotate (Suc (Suc n mod length xs)) (xs[Suc n mod length xs := k]) = tl (rotate (Suc n) xs) @ [k]"
proof -
  let ?i = "Suc n mod length xs"
  have i: "?i < length xs" by (rule mod_less_divisor) (use assms in auto)
  have "rotate ?i (xs[?i := k]) = drop ?i (xs[?i := k]) @ take ?i (xs[?i := k])"
    using i by (simp add: rotate_drop_take)
  also have "\<dots> = k # drop (Suc ?i) xs @ take ?i xs"
    using i by (simp add: drop_update_swap Cons_nth_drop_Suc [symmetric])
  finally have "rotate (Suc ?i) (xs[?i := k]) = drop (Suc ?i) xs @ take ?i xs @ [k]" by simp
  moreover have "rotate (Suc n) xs = rotate ?i xs" by (rule rotate_conv_mod)
  moreover have "rotate ?i xs = (xs ! ?i) # drop (Suc ?i) xs @ take ?i xs"
    using i by (simp add: rotate_drop_take Cons_nth_drop_Suc [symmetric])
  ultimately show ?thesis by simp
qed

lemma count_list_rotate [simp]: "count_list (rotate n xs) k = count_list xs k"
proof (induction n)
  case (Suc n)
  have "count_list (rotate1 ys) k = count_list ys k" for ys :: "'a list" by (cases ys) auto
  then show ?case using Suc by simp
qed simp

lemma count_touch_queue:
  "q \<noteq> [] \<Longrightarrow> touch_queue k q \<noteq> q \<Longrightarrow>
   count_list (touch_queue k q) x + (if x = hd q then 1 else 0) = count_list q x + (if x = k then 1 else 0)"
  by (cases q) (auto simp: touch_queue_def split: if_splits)

section \<open>The cache over any backend\<close>

text \<open>
  \<open>held h l k\<close> is the number of references the cache owns. The invariant says that the
  container counts at least those; the difference are the references of the other clients,
  and no operation of the cache changes it.
\<close>

definition held :: "heap \<Rightarrow> 'b lru \<Rightarrow> u64 \<Rightarrow> nat" where
  "held h l k = (if k = EMPTY_MARKER then 0 else count_list (items h l) k)"

lemma held_queue: "held h l k = (if k = EMPTY_MARKER then 0 else count_list (queue h l) k)"
  by (simp add: held_def queue_def del: rotate_Suc)

lemma next_index:
  assumes "ring_ok h l" "lsize l \<noteq> 0"
  shows "unat ((lring_index l + 1) mod lsize l) = Suc (unat (lring_index l)) mod unat (lsize l)"
    "unat ((lring_index l + 1) mod lsize l) < unat (lsize l)"
    "unat (lring_index l) < unat (lsize l)"
proof -
  show lt: "unat (lring_index l) < unat (lsize l)"
    using assms by (simp add: ring_ok_def word_less_nat_alt)
  then have "unat (lring_index l) + unat (1 :: u64) < 2 ^ 64"
    using unat_lt64 [of "lsize l"] by (simp del: unat_lt64 unat_lt64_num)
  then have "unat (lring_index l + 1) = Suc (unat (lring_index l))"
    by (subst unat_add_no_wrap) simp_all
  then show eq: "unat ((lring_index l + 1) mod lsize l) = Suc (unat (lring_index l)) mod unat (lsize l)"
    by (simp add: unat_mod)
  show "unat ((lring_index l + 1) mod lsize l) < unat (lsize l)"
    unfolding eq by (rule mod_less_divisor) (use lt in simp)
qed

text \<open>When a key is rejected nothing happens at all.\<close>

lemma queue_ends:
  assumes "ring_ok h l" "lsize l \<noteq> 0"
  shows "hd (queue h l) = items h l ! unat ((lring_index l + 1) mod lsize l)"
    "last (queue h l) = items h l ! unat (lring_index l)" "queue h l \<noteq> []"
  using next_index [OF assms] assms(2)
  by (auto simp: queue_def hd_rotate_Suc last_rotate_Suc simp del: rotate_Suc simp flip: length_greater_0_conv)

lemma try_touch_rejected:
  assumes ok: "ring_ok h l" and same: "touch_queue k (queue h l) = queue h l"
  shows "try_touch l k b h = Some (False, l, b, h)"
proof (cases "lsize l = 0")
  case False
  have "tl q @ [k] = q \<Longrightarrow> q \<noteq> [] \<Longrightarrow> last q = k" for q :: "u64 list" by (metis last_snoc)
  then have "hd (queue h l) = k \<or> last (queue h l) = k"
    using same queue_ends(3) [OF ok False] by (auto simp: touch_queue_def split: if_splits)
  then show ?thesis
    using False next_index [OF ok False] queue_ends [OF ok False]
    by (auto simp: try_touch_def Let_def load_item_eq [OF ok])
qed (simp add: try_touch_def)

definition lru_inv ::
  "(heap \<Rightarrow> 'b \<Rightarrow> bool) \<Rightarrow> ('b \<Rightarrow> (addr \<times> nat) set) \<Rightarrow> (heap \<Rightarrow> 'b \<Rightarrow> u64 \<Rightarrow> nat) \<Rightarrow>
   heap \<Rightarrow> 'b lru \<Rightarrow> 'b \<Rightarrow> bool" where
  "lru_inv bok foot cnt h l b \<longleftrightarrow> bok h b \<and> ring_ok h l \<and> own_lru l \<inter> foot b = {} \<and>
     (\<forall>k. held h l k \<le> cnt h b k)"

text \<open>What an accepted touch does to the counts: the evicted key loses the cache's reference.\<close>

definition evicted :: "u64 \<Rightarrow> (u64 \<Rightarrow> nat) \<Rightarrow> (u64 \<Rightarrow> nat)" where
  "evicted k c = (if k = EMPTY_MARKER then c else c(k := c k - 1))"

lemma evicted_other: "j \<noteq> k \<Longrightarrow> evicted k c j = c j"
  by (simp add: evicted_def)

lemma queue_cong: "items h' l = items h l \<Longrightarrow> queue h' l = queue h l"
  by (simp add: queue_def)

text \<open>
  Counts and ring move together: the references of the other clients, the difference of
  the two, stay for every key.
\<close>

definition touched :: "u64 \<Rightarrow> u64 list \<Rightarrow> (u64 \<Rightarrow> nat) \<Rightarrow> (u64 \<Rightarrow> nat)" where
  "touched k q c = (if touch_queue k q = q then c else (evicted (hd q) c)(k := c k + 1))"

lemma touched_balance:
  assumes "touch_queue k q \<noteq> q" "x \<noteq> EMPTY_MARKER" "count_list q (hd q) \<le> c (hd q) \<or> hd q = EMPTY_MARKER"
  shows "touched k q c x + count_list q x = c x + count_list (touch_queue k q) x"
proof -
  have q: "q \<noteq> []" "hd q \<noteq> k" "touch_queue k q = tl q @ [k]"
    using assms(1) by (auto simp: touch_queue_def split: if_splits)
  then obtain y ys where "q = y # ys" by (cases q) auto
  then show ?thesis using q assms by (auto simp: touched_def evicted_def)
qed

lemma touched_held:
  assumes "touch_queue k q \<noteq> q" "\<And>x. x \<noteq> EMPTY_MARKER \<Longrightarrow> count_list q x \<le> c x"
  shows "x \<noteq> EMPTY_MARKER \<Longrightarrow> count_list (touch_queue k q) x \<le> touched k q c x"
  using touched_balance [OF assms(1), of x c] assms(2) by fastforce

definition touch_done ::
  "(heap \<Rightarrow> 'b \<Rightarrow> bool) \<Rightarrow> ('b \<Rightarrow> (addr \<times> nat) set) \<Rightarrow> (heap \<Rightarrow> 'b \<Rightarrow> u64 \<Rightarrow> nat) \<Rightarrow>
   u64 \<Rightarrow> heap \<Rightarrow> 'b lru \<Rightarrow> 'b \<Rightarrow> heap \<Rightarrow> 'b lru \<Rightarrow> 'b \<Rightarrow> bool" where
  "touch_done bok foot cnt k h l b h' l' b' \<longleftrightarrow>
     lru_inv bok foot cnt h' l' b' \<and> limpl l' = limpl l \<and> lsize l' = lsize l \<and>
     frame (own_lru l \<union> foot b) (own_lru l' \<union> foot b') h h' \<and>
     queue h' l' = touch_queue k (queue h l) \<and> cnt h' b' = touched k (queue h l) (cnt h b)"

lemma lru_inv_queue: "lru_inv bok foot cnt h l b \<Longrightarrow> x \<noteq> EMPTY_MARKER \<Longrightarrow> count_list (queue h l) x \<le> cnt h b x"
  by (metis held_queue lru_inv_def)

lemma lru_inv_touched:
  assumes "lru_inv bok foot cnt h l b" "touch_queue k (queue h l) \<noteq> queue h l"
    and "bok h' b'" "ring_ok h' l'" "own_lru l' \<inter> foot b' = {}"
    and "queue h' l' = touch_queue k (queue h l)" "cnt h' b' = touched k (queue h l) (cnt h b)"
  shows "lru_inv bok foot cnt h' l' b'"
  using assms touched_held [OF assms(2) lru_inv_queue [OF assms(1)]]
  by (simp add: lru_inv_def held_queue)

lemma marker_bytes: "le_word (replicate 8 255) = (- 1 :: u64)"
  by code_simp

lemma rotate_replicate_same [simp]: "rotate n (replicate m x) = replicate m x"
  by (rule nth_equalityI) (auto simp: nth_rotate)

lemma items_marked:
  assumes "unat (lsize l) * 8 = n"
  shows "items (set_bytes (litems l) (replicate n 255) h) l = replicate (unat (lsize l)) EMPTY_MARKER"
proof (rule nth_equalityI)
  fix i assume "i < length (items (set_bytes (litems l) (replicate n 255) h) l)"
  then have i: "i < unat (lsize l)" by simp
  have "read_mem (write_mem (mem h) (litems l) (replicate n 255)) (litems l + 8 * i) 8 = replicate 8 255"
    using i assms by (intro nth_equalityI) (auto simp: write_mem_def)
  then show "items (set_bytes (litems l) (replicate n 255) h) l ! i = replicate (unat (lsize l)) EMPTY_MARKER ! i"
    using i by (simp add: nth_items u64_at_def heap_simps marker_bytes EMPTY_MARKER_def)
qed simp

context lru_backend
begin

lemma release_key_spec:
  assumes "bok h b" "k \<noteq> EMPTY_MARKER \<longrightarrow> 0 < cnt h b k" "limpl l = impl"
  shows "\<exists>b' h'. release_key l k b h = Some (b', h') \<and>
    bok h' b' \<and> frame (foot b) (foot b') h h' \<and> cnt h' b' = evicted k (cnt h b)"
proof (cases "k = EMPTY_MARKER")
  case True
  then show ?thesis using bok_live [OF assms(1)] assms(1) by (auto simp: evicted_def frame_refl release_key_def)
next
  case False
  then show ?thesis using release_law [OF assms(1), of k] assms(2,3) by (auto simp: evicted_def release_key_def)
qed

lemma try_touch_accepted:
  assumes inv: "lru_inv bok foot cnt h l b" "limpl l = impl"
    and new: "touch_queue k (queue h l) \<noteq> queue h l"
  shows "\<exists>l' b' h'. try_touch l k b h = Some (True, l', b', h') \<and> bok h' b' \<and> ring_ok h' l' \<and>
    own_lru l' = own_lru l \<and> lsize l' = lsize l \<and> limpl l' = impl \<and> own_lru l \<inter> foot b' = {} \<and>
    frame (own_lru l \<union> foot b) (own_lru l \<union> foot b') h h' \<and>
    queue h' l' = touch_queue k (queue h l) \<and> cnt h' b' = evicted (hd (queue h l)) (cnt h b) \<and>
    (\<exists>hm. release_key l (hd (queue h l)) b h = Some (b', hm) \<and> bok hm b' \<and> frame (own_lru l) (own_lru l) hm h')"
proof -
  let ?i = "(lring_index l + 1) mod lsize l" and ?q = "queue h l"
  have ok: "bok h b" "ring_ok h l" "own_lru l \<inter> foot b = {}" "\<And>k. held h l k \<le> cnt h b k"
    using inv(1) by (auto simp: lru_inv_def)
  have ends: "?q \<noteq> []" "hd ?q \<noteq> k" "last ?q \<noteq> k" "touch_queue k ?q = tl ?q @ [k]"
    using new by (auto simp: touch_queue_def split: if_splits)
  have sz: "lsize l \<noteq> 0" using ends(1) by (auto simp flip: length_0_conv)
  note ni = next_index [OF ok(2) sz] and qe = queue_ends [OF ok(2) sz]
  let ?o = "hd ?q"
  have "?o \<noteq> EMPTY_MARKER \<longrightarrow> 0 < held h l ?o"
    using ends(1) count_list_0_iff [of ?q ?o] by (simp add: held_queue)
  then have "?o \<noteq> EMPTY_MARKER \<longrightarrow> 0 < cnt h b ?o" using ok(4) [of ?o] by linarith
  from release_key_spec [OF ok(1) this inv(2)] obtain b1 h1 where r:
    "release_key l ?o b h = Some (b1, h1)" "bok h1 b1" "frame (foot b) (foot b1) h h1" "cnt h1 b1 = evicted ?o (cnt h b)"
    by blast
  note out = ring_outside [OF r(3) ok(2,3)]
  obtain h2 where st: "store_u64 (litems l + 8 * unat ?i) k h1 = Some h2"
      "frame (own_lru l) (own_lru l) h1 h2" "ring_ok h2 l" "items h2 l = (items h1 l)[unat ?i := k]"
    using store_item_spec [OF out(1) ni(2)] by blast
  let ?l' = "l\<lparr>lring_index := ?i\<rparr>"
  have dis: "own_lru l \<inter> foot b1 = {}" by (rule out(3))
  have b2: "bok h2 b1" "cnt h2 b1 = cnt h1 b1"
    using outside_law [OF st(2) r(2)] dis by auto
  have "try_touch l k b h = Some (True, ?l', b1, h2)"
    unfolding try_touch_def using sz ni qe ends(2,3) r(1) st(1) inv(2)
    by (simp add: Let_def load_item_eq [OF ok(2)])
  moreover have "queue h2 ?l' = touch_queue k ?q"
  proof -
    have "queue h2 ?l' = rotate (Suc (unat ?i)) (items h2 l)"
      by (simp add: queue_def items_def)
    also have "\<dots> = tl ?q @ [k]"
      unfolding st(4) out(2) ni(1) queue_def
      using rotate_update [of "unat (lring_index l)" "items h l" k] ni(3) by (simp del: rotate_Suc)
    finally show ?thesis using ends(4) by simp
  qed
  moreover have "frame (own_lru l \<union> foot b) (own_lru l \<union> foot b1) h h2"
  proof (rule frame_trans)
    have "own_lru l \<subseteq> set (blocks h)" using ok(2) by (simp add: ring_ok_def)
    then show "frame (own_lru l \<union> foot b) (own_lru l \<union> foot b1) h h1"
      using frame_extend [OF r(3), of "own_lru l"] ok(3) by (simp add: Un_commute)
    show "frame (own_lru l \<union> foot b1) (own_lru l \<union> foot b1) h1 h2"
      using frame_extend [OF st(2), of "foot b1"] bok_live [OF r(2)] dis by auto
  qed
  moreover have "ring_ok h2 ?l'" "own_lru ?l' = own_lru l"
    using st(3) ni(2) sz by (auto simp: ring_ok_def own_lru_def word_less_nat_alt)
  ultimately show ?thesis using b2 r st(2) dis inv(2) by (auto simp: Let_def)
qed

lemma touched_finish:
  assumes inv: "lru_inv bok foot cnt h l b" "limpl l = impl"
    and step: "touch_queue k (queue h l) \<noteq> queue h l"
    and t: "bok h1 b1" "ring_ok h1 l'" "own_lru l' = own_lru l" "lsize l' = lsize l" "limpl l' = impl"
      "own_lru l \<inter> foot b1 = {}" "frame (own_lru l \<union> foot b) (own_lru l \<union> foot b1) h h1"
      "queue h1 l' = touch_queue k (queue h l)" "cnt h1 b1 = evicted (hd (queue h l)) (cnt h b)"
    and r: "bok h' b'" "frame (foot b1) (foot b') h1 h'" "cnt h' b' = (cnt h1 b1)(k := cnt h1 b1 k + 1)"
  shows "touch_done bok foot cnt k h l b h' l' b'"
proof -
  let ?q = "queue h l"
  have "hd ?q \<noteq> k" using step by (auto simp: touch_queue_def split: if_splits)
  then have c: "cnt h' b' = touched k ?q (cnt h b)"
    using r(3) t(9) step by (simp add: touched_def evicted_other)
  have d: "own_lru l' \<inter> foot b1 = {}" using t(3,6) by simp
  note out = ring_outside [OF r(2) t(2) d]
  have "frame (own_lru l \<union> foot b1) (own_lru l' \<union> foot b') h1 h'"
    using frame_extend [OF r(2), of "own_lru l'"] t(2,3) d by (simp add: Un_commute ring_ok_def)
  then have f: "frame (own_lru l \<union> foot b) (own_lru l' \<union> foot b') h h'"
    by (rule frame_trans [OF t(7)])
  have q: "queue h' l' = touch_queue k ?q" using queue_cong [OF out(2)] t(8) by simp
  show ?thesis
    using lru_inv_touched [OF inv(1) step r(1) out(1,3) q c] f q c t(4,5) inv(2) by (simp add: touch_done_def)
qed

lemma touch_rejected_done:
  assumes inv: "lru_inv bok foot cnt h l b" and same: "touch_queue k (queue h l) = queue h l"
  shows "try_touch l k b h = Some (False, l, b, h)" "touch_done bok foot cnt k h l b h l b"
proof -
  have "ring_ok h l" "foot b \<subseteq> set (blocks h)" "own_lru l \<subseteq> set (blocks h)"
    using inv bok_live by (auto simp: lru_inv_def ring_ok_def)
  then show "try_touch l k b h = Some (False, l, b, h)" "touch_done bok foot cnt k h l b h l b"
    using same inv by (auto intro: try_touch_rejected simp: touch_done_def touched_def frame_refl)
qed

lemma touch_spec:
  assumes inv: "lru_inv bok foot cnt h l b" "limpl l = impl"
    and live: "0 < cnt h b k" "cnt h b k < limit"
  shows "\<exists>l' b' h'. cx_lru_touch l k b h = Some (0, l', b', h') \<and> touch_done bok foot cnt k h l b h' l' b'"
proof (cases "touch_queue k (queue h l) = queue h l")
  case True
  then show ?thesis using touch_rejected_done [OF inv(1)] by (simp add: cx_lru_touch_def)
next
  case False
  obtain l' b1 h1 where a: "try_touch l k b h = Some (True, l', b1, h1)" and
    t: "bok h1 b1" "ring_ok h1 l'" "own_lru l' = own_lru l" "lsize l' = lsize l" "limpl l' = impl"
      "own_lru l \<inter> foot b1 = {}" "frame (own_lru l \<union> foot b) (own_lru l \<union> foot b1) h h1"
      "queue h1 l' = touch_queue k (queue h l)" "cnt h1 b1 = evicted (hd (queue h l)) (cnt h b)"
    using try_touch_accepted [OF inv False] by blast
  have "hd (queue h l) \<noteq> k" using False by (auto simp: touch_queue_def split: if_splits)
  then have "cnt h1 b1 k = cnt h b k" using t(9) by (simp add: evicted_other)
  then obtain p b' h' where r: "impl_retain impl b1 k h1 = Some (p, b', h')" "bok h' b'"
      "frame (foot b1) (foot b') h1 h'" "cnt h' b' = (cnt h1 b1)(k := cnt h1 b1 k + 1)"
    using retain_law [OF t(1), of k] live by auto
  show ?thesis using touched_finish [OF inv False t r(2-4)] a r(1) t(5) by (simp add: cx_lru_touch_def)
qed

lemma release_items_spec:
  assumes "bok h b" "ring_ok h l" "own_lru l \<inter> foot b = {}" "limpl l = impl"
    and "i + n \<le> unat (lsize l)"
    and "\<And>k. k \<noteq> EMPTY_MARKER \<Longrightarrow> count_list (take n (drop i (items h l))) k \<le> cnt h b k"
  shows "\<exists>b' h'. release_items l i n b h = Some (b', h') \<and> bok h' b' \<and> ring_ok h' l \<and>
    own_lru l \<inter> foot b' = {} \<and> frame (foot b) (foot b') h h' \<and>
    cnt h' b' = (\<lambda>k. cnt h b k - (if k = EMPTY_MARKER then 0 else count_list (take n (drop i (items h l))) k))"
  using assms
proof (induction n arbitrary: i b h)
  case 0
  then show ?case using bok_live [OF 0(1)] by (auto simp: frame_refl)
next
  case (Suc n)
  let ?k = "items h l ! i"
  have i: "i < unat (lsize l)" using Suc.prems(5) by simp
  then have "i < 2 ^ 64" by (rule less_trans) (rule unat_lt64)
  then have j: "unat (of_nat i :: u64) = i" by (rule unat_of_nat64)
  have drop: "take (Suc n) (drop i (items h l)) = ?k # take n (drop (Suc i) (items h l))"
    using i by (simp add: Cons_nth_drop_Suc [symmetric])
  have "?k \<noteq> EMPTY_MARKER \<longrightarrow> 0 < cnt h b ?k"
    using Suc.prems(6) [of ?k] drop by auto
  then obtain b1 h1 where r: "release_key l ?k b h = Some (b1, h1)" "bok h1 b1"
      "frame (foot b) (foot b1) h h1" "cnt h1 b1 = evicted ?k (cnt h b)"
    using release_key_spec [OF Suc.prems(1) _ Suc.prems(4), of ?k] by blast
  note out = ring_outside [OF r(3) Suc.prems(2,3)]
  have le: "count_list (take n (drop (Suc i) (items h1 l))) k \<le> cnt h1 b1 k" if "k \<noteq> EMPTY_MARKER" for k
    using Suc.prems(6) [OF that] that unfolding drop out(2) r(4) by (auto simp: evicted_def)
  obtain b' h' where s: "release_items l (Suc i) n b1 h1 = Some (b', h')" "bok h' b'" "ring_ok h' l"
      "own_lru l \<inter> foot b' = {}" "frame (foot b1) (foot b') h1 h'"
      "cnt h' b' = (\<lambda>k. cnt h1 b1 k - (if k = EMPTY_MARKER then 0
         else count_list (take n (drop (Suc i) (items h1 l))) k))"
    using Suc.IH [OF r(2) out(1,3) Suc.prems(4) _ le] Suc.prems(5) by auto
  have "cnt h' b' = (\<lambda>k. cnt h b k - (if k = EMPTY_MARKER then 0
      else count_list (take (Suc n) (drop i (items h l))) k))"
    unfolding s(6) r(4) drop out(2) by (auto simp: evicted_def)
  moreover have "release_items l i (Suc n) b h = Some (b', h')"
    using load_item_eq [OF Suc.prems(2), of "of_nat i"] i j r(1) s(1) by simp
  ultimately show ?case using s frame_trans [OF r(3) s(5)] by blast
qed

lemma lru_cleanup_spec:
  assumes inv: "lru_inv bok foot cnt h l b" "limpl l = impl"
  shows "\<exists>l' b' h'. cx_lru_cleanup l b h = Some (0, l', b', h') \<and> bok h' b' \<and>
    frame (own_lru l \<union> foot b) (foot b') h h' \<and> cnt h' b' = (\<lambda>k. cnt h b k - held h l k)"
proof -
  have ok: "bok h b" "ring_ok h l" "own_lru l \<inter> foot b = {}" "\<And>k. held h l k \<le> cnt h b k"
    using inv(1) by (auto simp: lru_inv_def)
  have all: "take (unat (lsize l)) (drop 0 (items h l)) = items h l" by simp
  have le: "count_list (take (unat (lsize l)) (drop 0 (items h l))) k \<le> cnt h b k" if "k \<noteq> EMPTY_MARKER" for k
    using ok(4) [of k] that unfolding all by (simp add: held_def)
  obtain b1 h1 where r: "release_items l 0 (unat (lsize l)) b h = Some (b1, h1)" "bok h1 b1" "ring_ok h1 l"
      "own_lru l \<inter> foot b1 = {}" "frame (foot b) (foot b1) h h1" "cnt h1 b1 = (\<lambda>k. cnt h b k - held h l k)"
    using release_items_spec [OF ok(1-3) inv(2) _ le] unfolding all by (auto simp: held_def)
  have own: "own_lru l \<subseteq> set (blocks h)" using ok(2) by (simp add: ring_ok_def)
  have "frame (own_lru l \<union> foot b) (own_lru l \<union> foot b1) h h1"
    using frame_extend [OF r(5) own] ok(3) by (simp add: Un_commute)
  moreover obtain h2 where f: "free (litems l) h1 = Some h2" "frame (own_lru l) {} h1 h2"
  proof (cases "lsize l = 0")
    case True
    then show ?thesis using that [of h1] r(3) by (simp add: ring_ok_def own_lru_def frame_refl)
  next
    case False
    then have "own_lru l = {(litems l, unat (lsize l) * 8)}" by (simp add: own_lru_def)
    then show ?thesis using that r(3) free_block [of h1 "litems l" "unat (lsize l) * 8"]
      by (auto simp: ring_ok_def)
  qed
  moreover have "frame (own_lru l \<union> foot b1) (foot b1) h1 h2"
    using frame_extend [OF f(2), of "foot b1"] bok_live [OF r(2)] r(4) by auto
  moreover have "bok h2 b1" "cnt h2 b1 = cnt h1 b1" using outside_law [OF f(2) r(2)] r(4) by auto
  ultimately have "bok h2 b1" "frame (own_lru l \<union> foot b) (foot b1) h h2" "cnt h2 b1 = (\<lambda>k. cnt h b k - held h l k)"
    using r(6) frame_trans [of "own_lru l \<union> foot b" "own_lru l \<union> foot b1" h h1] by auto
  moreover have "cx_lru_cleanup l b h = Some (0, l\<lparr>lsize := 0, litems := 0\<rparr>, b1, h2)"
    using r(1) f(1) by (simp add: cx_lru_cleanup_def)
  ultimately show ?thesis by blast
qed

lemma lru_init_spec:
  assumes "bok h b"
  shows "\<exists>rv l' h'. cx_lru_init l n impl h = Some (rv, l', h') \<and> limpl l' = impl \<and> lsize l' = n \<and>
    ((rv = 0 \<and> lru_inv bok foot cnt h' l' b \<and> frame {} (own_lru l') h h' \<and>
      queue h' l' = replicate (unat n) EMPTY_MARKER) \<or>
     (rv = - err_code CX_ERR_ALLOC \<and> bok h' b \<and> frame {} {} h h')) \<and> cnt h' b = cnt h b"
proof (cases "n = 0")
  case True
  let ?l = "l\<lparr>limpl := impl, litems := 0, lring_index := 0, lsize := 0\<rparr>"
  have "heap_ok h" using bok_live [OF assms] by simp
  then have "lru_inv bok foot cnt h ?l b" "frame {} (own_lru ?l) h h" "queue h ?l = []"
    using assms by (auto simp: lru_inv_def ring_ok_def own_lru_def held_def items_def queue_def frame_refl)
  then show ?thesis using True by (simp add: cx_lru_init_def)
next
  case False
  obtain p h1 where c: "calloc n 8 h = (p, h1)" by fastforce
  let ?l = "l\<lparr>limpl := impl, lsize := n, litems := p, lring_index := 0\<rparr>"
  have ok: "heap_ok h" "foot b \<subseteq> set (blocks h)" using bok_live [OF assms] by auto
  from calloc_cases [OF c ok(1)] show ?thesis
  proof (elim disjE conjE)
    assume p: "p = 0" and f: "frame {} {} h h1"
    then show ?thesis using False c outside_law [OF f assms] by (simp add: cx_lru_init_def Let_def)
  next
    assume p: "0 < p" and f: "frame {} {(p, unat n * unat (8 :: u64))} h h1" and sz: "unat n * unat (8 :: u64) < 2 ^ 64"
    have n8: "unat (n * 8) = unat n * 8" using unat_mult_no_wrap [OF sz] by simp
    let ?h2 = "set_bytes p (replicate (unat n * 8) 255) h1"
    have own: "own_lru ?l = {(p, unat n * 8)}" using False by (simp add: own_lru_def)
    have ok1: "heap_ok h1" "(p, unat n * 8) \<in> set (blocks h1)"
      using frame_heap_ok [OF f ok(1)] frame_sub [OF f] by auto
    have f2: "frame {} (own_lru ?l) h ?h2"
      by (rule frame_trans [OF f]) (use own ok1 in \<open>auto intro!: frame_set_bytes\<close>)
    have "(p, unat n * 8) \<notin> foot b" using f ok(2) by (auto simp: frame_def)
    moreover have "bok ?h2 b" "cnt ?h2 b = cnt h b" using outside_law [OF f2 assms] by auto
    moreover have it: "items ?h2 ?l = replicate (unat n) EMPTY_MARKER"
      using items_marked [of ?l "unat n * 8"] by simp
    moreover have "ring_ok ?h2 ?l"
      using False ok1 own by (simp add: ring_ok_def heap_simps word_less_nat_alt unat_gt_0)
    ultimately have "lru_inv bok foot cnt ?h2 ?l b"
      using own by (auto simp: lru_inv_def held_def count_list_0_iff)
    moreover have "store_bytes p (replicate (unat (n * 8)) 255) h1 = Some ?h2"
      using n8 valid_block [OF ok1(2), of p "unat n * 8"] by (simp add: mem_step)
    moreover have "queue ?h2 ?l = replicate (unat n) EMPTY_MARKER"
      using it by (simp add: queue_def del: rotate_Suc)
    ultimately show ?thesis using False c p f2 \<open>cnt ?h2 b = cnt h b\<close> by (simp add: cx_lru_init_def Let_def)
  qed
qed

end

context lru_value_backend
begin

lemma at_release_key:
  assumes "bok h b" "at h b k p" "j \<noteq> k" "j \<noteq> EMPTY_MARKER \<longrightarrow> 0 < cnt h b j" "limpl l = impl"
    and "release_key l j b h = Some (b', h')"
  shows "at h' b' k p"
  using assms at_release_law [OF assms(1-3)]
  by (auto simp: release_key_def bind_Some_iff split: if_splits)

text \<open>Touching through the address of the element does what touching through its key does.\<close>

lemma touch_value_spec:
  assumes inv: "lru_inv bok foot cnt h l b" "limpl l = impl"
    and live: "0 < cnt h b k" "cnt h b k < limit" "at h b k p"
  shows "\<exists>l' b' h'. cx_lru_touch_value l k p b h = Some (0, l', b', h') \<and> touch_done bok foot cnt k h l b h' l' b'"
proof (cases "touch_queue k (queue h l) = queue h l")
  case True
  then show ?thesis using touch_rejected_done [OF inv(1)] by (simp add: cx_lru_touch_value_def)
next
  case False
  let ?o = "hd (queue h l)"
  obtain l' b1 h1 hm where a: "try_touch l k b h = Some (True, l', b1, h1)" and
    t: "bok h1 b1" "ring_ok h1 l'" "own_lru l' = own_lru l" "lsize l' = lsize l" "limpl l' = impl"
      "own_lru l \<inter> foot b1 = {}" "frame (own_lru l \<union> foot b) (own_lru l \<union> foot b1) h h1"
      "queue h1 l' = touch_queue k (queue h l)" "cnt h1 b1 = evicted ?o (cnt h b)"
    and m: "release_key l ?o b h = Some (b1, hm)" "bok hm b1" "frame (own_lru l) (own_lru l) hm h1"
    using try_touch_accepted [OF inv False] by blast
  have o: "?o \<noteq> k" "queue h l \<noteq> []" using False by (auto simp: touch_queue_def split: if_splits)
  then have c1: "cnt h1 b1 k = cnt h b k" using t(9) by (simp add: evicted_other)
  have "?o \<noteq> EMPTY_MARKER \<longrightarrow> 0 < cnt h b ?o"
    using lru_inv_queue [OF inv(1), of ?o] o(2) count_list_0_iff [of "queue h l" ?o] by fastforce
  then have "at hm b1 k p"
    using at_release_key [OF _ live(3) o(1) _ inv(2) m(1)] inv(1) by (simp add: lru_inv_def)
  then have "at h1 b1 k p" using at_outside_law [OF m(3,2)] t(6) by blast
  then obtain f b' h' where r: "impl_retain_value impl = Some f" "f b1 p h1 = Some (b', h')" "bok h' b'"
      "frame (foot b1) (foot b') h1 h'" "cnt h' b' = (cnt h1 b1)(k := cnt h1 b1 k + 1)"
    using retain_value_law [OF t(1), of k p] c1 live by auto
  show ?thesis using touched_finish [OF inv False t r(3-5)] a r(1,2) t(5) by (simp add: cx_lru_touch_value_def)
qed

end

end
