(* ===== verification/RcMap.thy ===== *)
theory RcMap
  imports Lru
begin

text \<open>
  \<^verbatim>\<open>lib/collection/rc_map.c\<close>: \<^verbatim>\<open>struct CxRcMap\<close>, a
  fixed-size array of reference-counted elements. The element array and the array of
  counts are heap objects; the cleanup callback is client code, a function stored in the
  struct as in C. A failing \<^verbatim>\<open>assert\<close>, an access outside the arrays and the
  overflow of a signed count are \<open>None\<close> (the \<^verbatim>\<open>NDEBUG\<close>-free build is modelled).
\<close>

section \<open>State and operations\<close>

type_synonym cleanup_fn = "addr \<Rightarrow> heap \<Rightarrow> heap option"

record rc_map =
  rdata :: addr
  rsize :: u64
  relement_size :: u64
  rref_count :: addr
  rcleanup :: cleanup_fn

text \<open>A call of the callback; the ghost log records the address it was given.\<close>

definition call_cleanup :: "rc_map \<Rightarrow> addr \<Rightarrow> heap \<Rightarrow> heap option" where
  "call_cleanup array p h = rcleanup array p (h\<lparr>cb_log := cb_log h @ [p]\<rparr>)"

fun or_counts :: "addr \<Rightarrow> nat \<Rightarrow> nat \<Rightarrow> int \<Rightarrow> heap \<Rightarrow> int option" where
  "or_counts counts i 0 acc h = Some acc"
| "or_counts counts i (Suc k) acc h = do {
     c \<leftarrow> load_int (counts + 4 * i) h;
     or_counts counts (Suc i) k (acc OR c) h
   }"

definition cx_rc_map_cleanup :: "rc_map \<Rightarrow> heap \<Rightarrow> (int \<times> rc_map \<times> heap) option" where
  "cx_rc_map_cleanup array h = do {
     acc \<leftarrow> (if rref_count array \<noteq> 0
            then or_counts (rref_count array) 0 (unat (rsize array)) 0 h else Some 0);
     if acc \<noteq> 0 then None
     else do {
       h \<leftarrow> free (rdata array) h;
       h \<leftarrow> free (rref_count array) h;
       Some (0, array\<lparr>rdata := 0, rref_count := 0, rsize := 0\<rparr>, h)
     }
   }"

definition cx_rc_map_init ::
  "rc_map \<Rightarrow> u64 \<Rightarrow> u64 \<Rightarrow> cleanup_fn \<Rightarrow> heap \<Rightarrow> (int \<times> rc_map \<times> heap) option" where
  "cx_rc_map_init array n element_size cleanup h =
     (let fail = (\<lambda>array h. do {
            (_, array, h) \<leftarrow> cx_rc_map_cleanup array h;
            Some (- err_code CX_ERR_ALLOC, array, h)
          });
          (d, h) = calloc n element_size h;
          array = array\<lparr>rdata := d\<rparr>
      in if d = 0 then fail array h
      else (let (r, h) = calloc n 4 h;
                array = array\<lparr>rref_count := r\<rparr>
            in if r = 0 then fail array h
            else Some (0, array\<lparr>rsize := n, rcleanup := cleanup, relement_size := element_size\<rparr>, h)))"

definition get_element :: "rc_map \<Rightarrow> u64 \<Rightarrow> addr" where
  "get_element array index =
     (let (overflow, offset) = mul_overflow index (relement_size array) in
      if overflow then 0 else rdata array + unat offset)"

definition retain_rc :: "rc_map \<Rightarrow> u64 \<Rightarrow> heap \<Rightarrow> (int \<times> heap) option" where
  "retain_rc array index h = do {
     let p = rref_count array + 4 * unat index;
     c \<leftarrow> load_int p h;
     if c = 2 ^ 31 - 1 then None
     else do {
       h \<leftarrow> store_int p (c + 1) h;
       if c + 1 \<ge> 1 then Some (c + 1, h) else None
     }
   }"

definition release_rc :: "rc_map \<Rightarrow> u64 \<Rightarrow> heap \<Rightarrow> (int \<times> heap) option" where
  "release_rc array index h = do {
     let p = rref_count array + 4 * unat index;
     c \<leftarrow> load_int p h;
     if c = - (2 ^ 31) then None
     else do {
       h \<leftarrow> store_int p (c - 1) h;
       if c - 1 \<ge> 0 then Some (c - 1, h) else None
     }
   }"

definition cx_rc_map_is_empty :: "rc_map \<Rightarrow> u64 \<Rightarrow> heap \<Rightarrow> bool option" where
  "cx_rc_map_is_empty array index h = do {
     c \<leftarrow> load_int (rref_count array + 4 * unat index) h;
     Some (c = 0)
   }"

definition cx_rc_map_retain :: "rc_map \<Rightarrow> u64 \<Rightarrow> heap \<Rightarrow> (addr \<times> heap) option" where
  "cx_rc_map_retain array index h = do {
     empty \<leftarrow> cx_rc_map_is_empty array index h;
     if \<not> empty
     then do {
       (_, h) \<leftarrow> retain_rc array index h;
       Some (get_element array index, h)
     }
     else Some (0, h)
   }"

definition cx_rc_map_set :: "rc_map \<Rightarrow> u64 \<Rightarrow> addr \<Rightarrow> heap \<Rightarrow> (addr \<times> heap) option" where
  "cx_rc_map_set array index data h =
     (let target = get_element array index in
      if target = 0 then Some (0, h)
      else do {
        empty \<leftarrow> cx_rc_map_is_empty array index h;
        if \<not> empty
        then do {
          h \<leftarrow> call_cleanup array data h;
          cx_rc_map_retain array index h
        }
        else do {
          h \<leftarrow> memcpy target data (unat (relement_size array)) h;
          (_, h) \<leftarrow> retain_rc array index h;
          Some (target, h)
        }
      })"

text \<open>The index of an element from its address: a pointer difference divided by the size.\<close>

definition index_of :: "rc_map \<Rightarrow> addr \<Rightarrow> u64 option" where
  "index_of array element =
     (if relement_size array = 0 then None
      else Some ((of_nat element - of_nat (rdata array)) div relement_size array))"

definition cx_rc_map_retain_value :: "rc_map \<Rightarrow> addr \<Rightarrow> heap \<Rightarrow> heap option" where
  "cx_rc_map_retain_value array element h =
     (if element = 0 then Some h
      else do {
        index \<leftarrow> index_of array element;
        (_, h) \<leftarrow> cx_rc_map_retain array index h;
        Some h
      })"

definition cx_rc_map_release_index :: "rc_map \<Rightarrow> u64 \<Rightarrow> heap \<Rightarrow> (int \<times> heap) option" where
  "cx_rc_map_release_index array index h = do {
     (ref_count, h) \<leftarrow> release_rc array index h;
     if ref_count = 0
     then do {
       h \<leftarrow> call_cleanup array (get_element array index) h;
       Some (0, h)
     }
     else Some (0, h)
   }"

definition cx_rc_map_release :: "rc_map \<Rightarrow> addr \<Rightarrow> heap \<Rightarrow> (int \<times> heap) option" where
  "cx_rc_map_release array element h =
     (if element = 0 then Some (0, h)
      else do {
        index \<leftarrow> index_of array element;
        cx_rc_map_release_index array index h
      })"

definition cx_rc_map_contains :: "rc_map \<Rightarrow> addr \<Rightarrow> bool" where
  "cx_rc_map_contains array needle =
     (if needle = 0 then False
      else if needle < rdata array then False
      else if rdata array + unat (rsize array * relement_size array) \<le> needle then False
      else True)"

definition cx_rc_map_size :: "rc_map \<Rightarrow> u64" where
  "cx_rc_map_size array = rsize array"

section \<open>Invariant\<close>

definition own_map :: "rc_map \<Rightarrow> (addr \<times> nat) set" where
  "own_map m = {(rdata m, unat (rsize m) * unat (relement_size m)), (rref_count m, unat (rsize m) * 4)}"

definition count_at :: "heap \<Rightarrow> rc_map \<Rightarrow> nat \<Rightarrow> int" where
  "count_at h m i = int_at h (rref_count m + 4 * i)"

definition element_at :: "heap \<Rightarrow> rc_map \<Rightarrow> nat \<Rightarrow> u8 list" where
  "element_at h m i = bytes_at h (rdata m + i * unat (relement_size m)) (unat (relement_size m))"

text \<open>
  \<open>cb_local cb n\<close>: the callback only writes to the \<open>n\<close> bytes of the element it is
  given. This is what the map relies on; the client may run code of its own in it.
\<close>

definition cb_local :: "cleanup_fn \<Rightarrow> nat \<Rightarrow> bool" where
  "cb_local cb n \<longleftrightarrow>
     (\<forall>p h. valid h p n \<longrightarrow> (\<exists>bs. length bs = n \<and> cb p h = Some (set_bytes p bs h)))"

definition map_ok :: "heap \<Rightarrow> rc_map \<Rightarrow> bool" where
  "map_ok h m \<longleftrightarrow> heap_ok h \<and> own_map m \<subseteq> set (blocks h) \<and> rdata m \<noteq> rref_count m \<and>
     (\<forall>i < unat (rsize m). 0 \<le> count_at h m i) \<and> cb_local (rcleanup m) (unat (relement_size m))"

definition refs :: "heap \<Rightarrow> rc_map \<Rightarrow> u64 \<Rightarrow> nat" where
  "refs h m k = (if k < rsize m then nat (count_at h m (unat k)) else 0)"

section \<open>Reading and writing counts\<close>

lemma map_blocks:
  assumes "map_ok h m"
  shows "heap_ok h" "(rref_count m, unat (rsize m) * 4) \<in> set (blocks h)"
    "(rdata m, unat (rsize m) * unat (relement_size m)) \<in> set (blocks h)" "rdata m \<noteq> rref_count m"
    "0 < rdata m" "0 < rref_count m"
    "unat (rsize m) * unat (relement_size m) < 2 ^ 64"
    "rdata m + unat (rsize m) * unat (relement_size m) \<le> 2 ^ 64"
  using assms heap_ok_range [of h "rdata m" "unat (rsize m) * unat (relement_size m)"]
    heap_ok_range [of h "rref_count m" "unat (rsize m) * 4"]
  by (auto simp: map_ok_def own_map_def)

lemma count_valid: "map_ok h m \<Longrightarrow> i < unat (rsize m) \<Longrightarrow> valid h (rref_count m + 4 * i) 4"
  by (rule valid_block [OF map_blocks(2)]) auto

lemma element_range: "i < (n :: nat) \<Longrightarrow> i * e + e \<le> n * e"
  by (metis add.commute mult_Suc mult_le_mono1 Suc_leI)

lemma element_valid:
  "map_ok h m \<Longrightarrow> i < unat (rsize m) \<Longrightarrow>
   valid h (rdata m + i * unat (relement_size m)) (unat (relement_size m))"
  by (rule valid_block [OF map_blocks(3)]) (auto simp: element_range add.assoc)

lemma get_element_eq:
  assumes "map_ok h m" "k < rsize m"
  shows "get_element m k = rdata m + unat k * unat (relement_size m)" "get_element m k \<noteq> 0"
    "unat k * unat (relement_size m) < 2 ^ 64"
proof -
  have "unat k * unat (relement_size m) \<le> unat (rsize m) * unat (relement_size m)"
    using assms(2) by (simp add: word_less_nat_alt)
  then show lt: "unat k * unat (relement_size m) < 2 ^ 64" using map_blocks(7) [OF assms(1)] by linarith
  then show eq: "get_element m k = rdata m + unat k * unat (relement_size m)"
    by (simp add: get_element_def mul_overflow_def unat_mult_no_wrap)
  show "get_element m k \<noteq> 0" using eq map_blocks(5) [OF assms(1)] by simp
qed

definition set_count :: "rc_map \<Rightarrow> nat \<Rightarrow> int \<Rightarrow> heap \<Rightarrow> heap" where
  "set_count m i c h = set_bytes (rref_count m + 4 * i) (le_bytes 4 (word_of_int c :: u32)) h"

lemma count_at_range: "count_at h m i < 2 ^ 31" "- (2 ^ 31) \<le> count_at h m i"
  by (simp_all only: count_at_def int_at_range)

lemma frame_own_map:
  assumes ok: "map_ok h m" and f: "frame X X h h'" and X: "X \<subseteq> own_map m"
  shows "frame (own_map m) (own_map m) h h'"
proof -
  have "frame (X \<union> (own_map m - X)) (X \<union> (own_map m - X)) h h'"
    by (rule frame_extend [OF f]) (use ok in \<open>auto simp: map_ok_def\<close>)
  then show ?thesis using X by (simp add: Un_absorb1)
qed

lemma set_count_spec:
  assumes ok: "map_ok h m" and i: "i < unat (rsize m)" and c: "0 \<le> c" "c < 2 ^ 31"
  shows "map_ok (set_count m i c h) m" "frame (own_map m) (own_map m) h (set_count m i c h)"
    "\<And>j. count_at (set_count m i c h) m j = (if j = i then c else count_at h m j)"
    "\<And>j. j < unat (rsize m) \<Longrightarrow> element_at (set_count m i c h) m j = element_at h m j"
proof -
  let ?h' = "set_count m i c h"
  note b = map_blocks [OF ok]
  have f: "frame {(rref_count m, unat (rsize m) * 4)} {(rref_count m, unat (rsize m) * 4)} h ?h'"
    unfolding set_count_def by (rule frame_set_bytes [OF b(1)]) (use b i in auto)
  show count: "count_at ?h' m j = (if j = i then c else count_at h m j)" for j
  proof (cases "j = i")
    case True
    then show ?thesis using c int_at_set_same [of c "rref_count m + 4 * i" h]
      by (simp add: count_at_def set_count_def)
  next
    case False
    then have "rref_count m + 4 * j + 4 \<le> rref_count m + 4 * i \<or> rref_count m + 4 * i + 4 \<le> rref_count m + 4 * j"
      by linarith
    then show ?thesis using False by (simp add: count_at_def set_count_def int_at_set_other)
  qed
  show fr: "frame (own_map m) (own_map m) h ?h'"
    by (rule frame_own_map [OF ok f]) (simp add: own_map_def)
  have "heap_ok ?h'" using frame_heap_ok [OF f b(1)] .
  then show "map_ok ?h' m"
    using ok count c frame_sub [OF fr] by (auto simp: map_ok_def)
  show "element_at ?h' m j = element_at h m j" if "j < unat (rsize m)" for j
    unfolding element_at_def
    by (rule frame_bytes [OF f b(3)]) (use b(4) element_range [OF that] in \<open>auto simp: add.assoc\<close>)
qed

lemma is_empty_eq:
  "map_ok h m \<Longrightarrow> k < rsize m \<Longrightarrow> cx_rc_map_is_empty m k h = Some (refs h m k = 0)"
  by (auto simp: cx_rc_map_is_empty_def mem_step count_valid word_less_nat_alt refs_def count_at_def map_ok_def)

lemma refs_count: "map_ok h m \<Longrightarrow> k < rsize m \<Longrightarrow> count_at h m (unat k) = int (refs h m k)"
  by (simp add: refs_def map_ok_def word_less_nat_alt)

lemma refs_lt: "refs h m k < 2 ^ 31"
  using count_at_range(1) [of h m "unat k"] by (auto simp: refs_def nat_less_iff)

lemma refs_set_count:
  assumes "map_ok h m" "k < rsize m" "0 \<le> c" "c < 2 ^ 31"
  shows "refs (set_count m (unat k) c h) m = (refs h m)(k := nat c)"
  using assms set_count_spec(3) [OF assms(1), of "unat k" c]
  by (intro ext) (auto simp: refs_def word_less_nat_alt dest: unsigned_word_eqI)

lemma retain_rc_eq:
  assumes ok: "map_ok h m" and k: "k < rsize m" and c: "refs h m k < 2 ^ 31 - 1"
  shows "retain_rc m k h = Some (int (refs h m k) + 1, set_count m (unat k) (int (refs h m k) + 1) h)"
proof -
  have i: "unat k < unat (rsize m)" using k by (simp add: word_less_nat_alt)
  have "int_at h (rref_count m + 4 * unat k) = int (refs h m k)"
    using refs_count [OF ok k] by (simp add: count_at_def)
  then show ?thesis using count_valid [OF ok i] c
    by (simp add: retain_rc_def mem_step set_count_def)
qed

lemma release_rc_eq:
  assumes ok: "map_ok h m" and k: "k < rsize m" and c: "0 < refs h m k"
  shows "release_rc m k h = Some (int (refs h m k) - 1, set_count m (unat k) (int (refs h m k) - 1) h)"
proof -
  have i: "unat k < unat (rsize m)" using k by (simp add: word_less_nat_alt)
  have "int_at h (rref_count m + 4 * unat k) = int (refs h m k)"
    using refs_count [OF ok k] by (simp add: count_at_def)
  then show ?thesis using count_valid [OF ok i] c
    by (simp add: release_rc_def mem_step set_count_def)
qed

text \<open>Releasing an element that nobody holds aborts: the count would become negative.\<close>

lemma release_rc_dead:
  assumes ok: "map_ok h m" and k: "k < rsize m" and c: "refs h m k = 0"
  shows "release_rc m k h = None"
proof -
  have i: "unat k < unat (rsize m)" using k by (simp add: word_less_nat_alt)
  have "int_at h (rref_count m + 4 * unat k) = 0"
    using refs_count [OF ok k] c by (simp add: count_at_def)
  then show ?thesis using count_valid [OF ok i] by (simp add: release_rc_def mem_step)
qed

section \<open>Retain, release and set\<close>

lemma retain_spec:
  assumes ok: "map_ok h m" and k: "k < rsize m" and live: "0 < refs h m k" "refs h m k < 2 ^ 31 - 1"
  shows "\<exists>h'. cx_rc_map_retain m k h = Some (get_element m k, h') \<and> map_ok h' m \<and>
    frame (own_map m) (own_map m) h h' \<and> refs h' m = (refs h m)(k := refs h m k + 1) \<and>
    (\<forall>j < unat (rsize m). element_at h' m j = element_at h m j)"
proof -
  let ?h' = "set_count m (unat k) (int (refs h m k) + 1) h"
  have i: "unat k < unat (rsize m)" using k by (simp add: word_less_nat_alt)
  have c: "0 \<le> int (refs h m k) + 1" "int (refs h m k) + 1 < 2 ^ 31" using live by auto
  have "cx_rc_map_retain m k h = Some (get_element m k, ?h')"
    using is_empty_eq [OF ok k] live retain_rc_eq [OF ok k live(2)] by (simp add: cx_rc_map_retain_def)
  then show ?thesis
    using set_count_spec [OF ok i c] refs_set_count [OF ok k c] by (auto simp: nat_add_distrib)
qed

lemma retain_dead:
  "map_ok h m \<Longrightarrow> k < rsize m \<Longrightarrow> refs h m k = 0 \<Longrightarrow> cx_rc_map_retain m k h = Some (0, h)"
  by (simp add: cx_rc_map_retain_def is_empty_eq)

lemma map_ok_log: "map_ok (h\<lparr>cb_log := l\<rparr>) m = map_ok h m"
  by (simp add: map_ok_def heap_ok_def count_at_def int_at_def)

lemma frame_log: "A \<subseteq> set (blocks h) \<Longrightarrow> frame A A h (h\<lparr>cb_log := l\<rparr>)"
  by (simp add: frame_def heap_ok_def bytes_at_def)

lemma call_cleanup_spec:
  assumes ok: "map_ok h m" and v: "valid h p (unat (relement_size m))"
  shows "\<exists>bs. length bs = unat (relement_size m) \<and>
    call_cleanup m p h = Some (set_bytes p bs (h\<lparr>cb_log := cb_log h @ [p]\<rparr>))"
proof -
  have "valid (h\<lparr>cb_log := cb_log h @ [p]\<rparr>) p (unat (relement_size m))"
    using v by (simp add: valid_def)
  then show ?thesis using ok by (auto simp: call_cleanup_def map_ok_def cb_local_def)
qed

text \<open>The callback on an element of the map leaves the counts and the other elements alone.\<close>

lemma call_cleanup_element:
  assumes ok: "map_ok h m" and k: "k < rsize m"
  shows "\<exists>h'. call_cleanup m (get_element m k) h = Some h' \<and> map_ok h' m \<and>
    frame (own_map m) (own_map m) h h' \<and> refs h' m = refs h m \<and>
    cb_log h' = cb_log h @ [get_element m k] \<and>
    (\<forall>j < unat (rsize m). j \<noteq> unat k \<longrightarrow> element_at h' m j = element_at h m j)"
proof -
  let ?e = "unat (relement_size m)" and ?p = "rdata m + unat k * unat (relement_size m)"
  let ?h1 = "h\<lparr>cb_log := cb_log h @ [?p]\<rparr>"
  note b = map_blocks [OF ok]
  have i: "unat k < unat (rsize m)" using k by (simp add: word_less_nat_alt)
  have p: "get_element m k = ?p" by (rule get_element_eq(1) [OF ok k])
  obtain bs where bs: "length bs = ?e" "call_cleanup m ?p h = Some (set_bytes ?p bs ?h1)"
    using call_cleanup_spec [OF ok element_valid [OF ok i]] by auto
  let ?h' = "set_bytes ?p bs ?h1"
  have ok1: "map_ok ?h1 m" using ok by (simp add: map_ok_log)
  have f0: "frame {(rdata m, unat (rsize m) * ?e)} {(rdata m, unat (rsize m) * ?e)} ?h1 ?h'"
    by (rule frame_set_bytes [OF map_blocks(1) [OF ok1]])
      (use map_blocks(3) [OF ok1] element_range [OF i] bs(1) in \<open>auto simp: add.assoc\<close>)
  have f1: "frame (own_map m) (own_map m) ?h1 ?h'"
    by (rule frame_own_map [OF ok1 f0]) (simp add: own_map_def)
  have f: "frame (own_map m) (own_map m) h ?h'"
    by (rule frame_trans [OF frame_log f1]) (use ok in \<open>simp add: map_ok_def\<close>)
  have count: "count_at ?h' m j = count_at h m j" if "j < unat (rsize m)" for j
  proof -
    have "bytes_at ?h' (rref_count m + 4 * j) 4 = bytes_at ?h1 (rref_count m + 4 * j) 4"
      by (rule frame_bytes [OF f0 map_blocks(2) [OF ok1]]) (use b(4) that in auto)
    then have "int_at ?h' (rref_count m + 4 * j) = int_at ?h1 (rref_count m + 4 * j)"
      by (rule bytes_at_int)
    then show ?thesis by (simp add: count_at_def int_at_def)
  qed
  have "map_ok ?h' m"
    using ok count frame_heap_ok [OF f b(1)] frame_sub [OF f] by (auto simp: map_ok_def)
  moreover have "refs ?h' m = refs h m" using count by (auto simp: refs_def word_less_nat_alt)
  moreover have "element_at ?h' m j = element_at h m j" if j: "j < unat (rsize m)" "j \<noteq> unat k" for j
  proof -
    have "j * ?e + ?e \<le> unat k * ?e \<or> unat k * ?e + ?e \<le> j * ?e"
      using j(2) element_range [of j "unat k" ?e] element_range [of "unat k" j ?e] by linarith
    then have "element_at ?h' m j = element_at ?h1 m j"
      unfolding element_at_def by (intro bytes_at_set_other) (auto simp: bs(1))
    then show ?thesis by (simp add: element_at_def bytes_at_def)
  qed
  ultimately show ?thesis using bs(2) p f by (auto simp: heap_simps)
qed

lemma release_index_spec:
  assumes ok: "map_ok h m" and k: "k < rsize m" and live: "0 < refs h m k"
  shows "\<exists>h'. cx_rc_map_release_index m k h = Some (0, h') \<and> map_ok h' m \<and>
    frame (own_map m) (own_map m) h h' \<and> refs h' m = (refs h m)(k := refs h m k - 1) \<and>
    cb_log h' = cb_log h @ (if refs h m k = 1 then [get_element m k] else []) \<and>
    (\<forall>j < unat (rsize m). j \<noteq> unat k \<or> 1 < refs h m k \<longrightarrow> element_at h' m j = element_at h m j)"
proof -
  let ?c = "int (refs h m k) - 1"
  let ?h1 = "set_count m (unat k) ?c h"
  have i: "unat k < unat (rsize m)" using k by (simp add: word_less_nat_alt)
  have c: "0 \<le> ?c" "?c < 2 ^ 31" using live refs_lt [of h m k] by auto
  have r: "release_rc m k h = Some (?c, ?h1)" by (rule release_rc_eq [OF ok k live])
  note s = set_count_spec [OF ok i c]
  have rf: "refs ?h1 m = (refs h m)(k := refs h m k - 1)"
    using refs_set_count [OF ok k c] live by (simp add: nat_diff_distrib)
  have log: "cb_log ?h1 = cb_log h" by (simp add: set_count_def heap_simps)
  show ?thesis
  proof (cases "refs h m k = 1")
    case True
    obtain h2 where h2: "call_cleanup m (get_element m k) ?h1 = Some h2" "map_ok h2 m"
        "frame (own_map m) (own_map m) ?h1 h2" "refs h2 m = refs ?h1 m"
        "cb_log h2 = cb_log ?h1 @ [get_element m k]"
        "\<forall>j < unat (rsize m). j \<noteq> unat k \<longrightarrow> element_at h2 m j = element_at ?h1 m j"
      using call_cleanup_element [OF s(1) k] by blast
    then show ?thesis using True r rf log s(4) frame_trans [OF s(2) h2(3)]
      by (auto simp: cx_rc_map_release_index_def)
  next
    case False
    then show ?thesis using r rf log s live by (auto simp: cx_rc_map_release_index_def)
  qed
qed

text \<open>
  Setting an empty slot copies the caller's bytes in and counts one reference; setting an
  occupied slot hands the caller's data to the callback, keeps the old element and counts
  one more reference. \<open>data\<close> lies in an object \<open>x\<close> of the caller.
\<close>

lemma set_empty_spec:
  assumes ok: "map_ok h m" and k: "k < rsize m" and dead: "refs h m k = 0"
    and d: "readable h (own_map m) data (unat (relement_size m))"
  shows "\<exists>h'. cx_rc_map_set m k data h = Some (get_element m k, h') \<and> map_ok h' m \<and>
    frame (own_map m) (own_map m) h h' \<and> refs h' m = (refs h m)(k := 1) \<and> cb_log h' = cb_log h \<and>
    element_at h' m (unat k) = bytes_at h data (unat (relement_size m)) \<and>
    (\<forall>j < unat (rsize m). j \<noteq> unat k \<longrightarrow> element_at h' m j = element_at h m j)"
proof -
  let ?e = "unat (relement_size m)" and ?p = "get_element m k"
  let ?bs = "bytes_at h data ?e"
  let ?h1 = "set_bytes ?p ?bs h"
  note b = map_blocks [OF ok]
  have i: "unat k < unat (rsize m)" using k by (simp add: word_less_nat_alt)
  have p: "?p = rdata m + unat k * ?e" "?p \<noteq> 0" using get_element_eq [OF ok k] by auto
  have dis: "?e = 0 \<or> ?p + ?e \<le> data \<or> data + ?e \<le> ?p"
  proof (cases "?e = 0")
    case False
    then obtain s n where s: "(s, n) \<in> set (blocks h)" "(s, n) \<notin> own_map m" "s \<le> data" "data + ?e \<le> s + n"
      using d by (auto simp: readable_def)
    then have "s + max n 1 \<le> rdata m \<or> rdata m + max (unat (rsize m) * ?e) 1 \<le> s"
      using heap_ok_disjoint [OF b(1) s(1) b(3)] by (auto simp: own_map_def)
    then show ?thesis using s(3,4) p element_range [OF i, of ?e] by auto
  qed simp
  have cpy: "memcpy ?p data ?e h = Some ?h1"
    using memcpy_valid [OF readable_valid [OF d]] element_valid [OF ok i] p dis by simp
  have f0: "frame {(rdata m, unat (rsize m) * ?e)} {(rdata m, unat (rsize m) * ?e)} h ?h1"
    by (rule frame_set_bytes [OF b(1)]) (use b(3) element_range [OF i] p in \<open>auto simp: add.assoc\<close>)
  have f1: "frame (own_map m) (own_map m) h ?h1"
    by (rule frame_own_map [OF ok f0]) (simp add: own_map_def)
  have count: "count_at ?h1 m j = count_at h m j" if "j < unat (rsize m)" for j
    unfolding count_at_def
    by (rule bytes_at_int, rule frame_bytes [OF f0 b(2)]) (use b(4) that in auto)
  have ok1: "map_ok ?h1 m"
    using ok count frame_heap_ok [OF f1 b(1)] frame_sub [OF f1] by (auto simp: map_ok_def)
  have rf: "refs ?h1 m = refs h m" using count by (auto simp: refs_def word_less_nat_alt)
  let ?h2 = "set_count m (unat k) 1 ?h1"
  have "retain_rc m k ?h1 = Some (1, ?h2)"
    using retain_rc_eq [OF ok1 k] rf dead by simp
  then have r: "cx_rc_map_set m k data h = Some (?p, ?h2)"
    using p(2) is_empty_eq [OF ok k] dead cpy by (simp add: cx_rc_map_set_def Let_def)
  note s2 = set_count_spec [OF ok1 i, of 1]
  have "element_at ?h1 m (unat k) = ?bs" using p by (simp add: element_at_def heap_simps)
  moreover have "element_at ?h1 m j = element_at h m j" if j: "j < unat (rsize m)" "j \<noteq> unat k" for j
  proof -
    have "j * ?e + ?e \<le> unat k * ?e \<or> unat k * ?e + ?e \<le> j * ?e"
      using j(2) element_range [of j "unat k" ?e] element_range [of "unat k" j ?e] by linarith
    then show ?thesis using p(1) unfolding element_at_def by (intro bytes_at_set_other) auto
  qed
  moreover have "refs ?h2 m = (refs h m)(k := 1)" using refs_set_count [OF ok1 k, of 1] rf by simp
  moreover have "cb_log ?h2 = cb_log h" by (simp add: set_count_def heap_simps)
  ultimately show ?thesis using r s2 i frame_trans [OF f1] by auto
qed

lemma set_live_spec:
  assumes ok: "map_ok h m" and k: "k < rsize m" and live: "0 < refs h m k" "refs h m k < 2 ^ 31 - 1"
    and x: "(s, n) \<in> set (blocks h)" "(s, n) \<notin> own_map m" "s \<le> data" "data + unat (relement_size m) \<le> s + n"
  shows "\<exists>h'. cx_rc_map_set m k data h = Some (get_element m k, h') \<and> map_ok h' m \<and>
    frame (own_map m \<union> {(s, n)}) (own_map m \<union> {(s, n)}) h h' \<and>
    refs h' m = (refs h m)(k := refs h m k + 1) \<and> cb_log h' = cb_log h @ [data] \<and>
    (\<forall>j < unat (rsize m). element_at h' m j = element_at h m j)"
proof -
  let ?e = "unat (relement_size m)"
  let ?h0 = "h\<lparr>cb_log := cb_log h @ [data]\<rparr>"
  note b = map_blocks [OF ok]
  have i: "unat k < unat (rsize m)" using k by (simp add: word_less_nat_alt)
  obtain bs where bs: "length bs = ?e" "call_cleanup m data h = Some (set_bytes data bs ?h0)"
    using call_cleanup_spec [OF ok valid_block [OF x(1,3,4)]] by auto
  let ?h1 = "set_bytes data bs ?h0"
  have ok0: "map_ok ?h0 m" using ok by (simp add: map_ok_log)
  have x0: "(s, n) \<in> set (blocks ?h0)" using x(1) by simp
  have f0: "frame {(s, n)} {(s, n)} ?h0 ?h1"
    by (rule frame_set_bytes [OF map_blocks(1) [OF ok0]]) (use x bs in auto)
  have own0: "own_map m \<subseteq> set (blocks h)" using ok by (simp add: map_ok_def)
  have f1: "frame ({(s, n)} \<union> own_map m) ({(s, n)} \<union> own_map m) h ?h1"
    by (rule frame_trans [OF frame_log frame_extend [OF f0]]) (use own0 x in auto)
  have count: "count_at ?h1 m j = count_at h m j" if "j < unat (rsize m)" for j
  proof -
    have "bytes_at ?h1 (rref_count m + 4 * j) 4 = bytes_at ?h0 (rref_count m + 4 * j) 4"
      by (rule frame_bytes [OF f0 map_blocks(2) [OF ok0]]) (use x(2) that in \<open>auto simp: own_map_def\<close>)
    then show ?thesis by (simp add: count_at_def int_at_def bytes_at_def)
  qed
  have el: "element_at ?h1 m j = element_at h m j" if j: "j < unat (rsize m)" for j
  proof -
    have "element_at ?h1 m j = element_at ?h0 m j" unfolding element_at_def
      by (rule frame_bytes [OF f0 map_blocks(3) [OF ok0]])
        (use x(2) element_range [OF j] in \<open>auto simp: own_map_def add.assoc\<close>)
    then show ?thesis by (simp add: element_at_def bytes_at_def)
  qed
  have ok1: "map_ok ?h1 m"
    using ok count frame_heap_ok [OF f1 b(1)] frame_sub [OF f1] by (auto simp: map_ok_def)
  have rf: "refs ?h1 m = refs h m" using count by (auto simp: refs_def word_less_nat_alt)
  have log: "cb_log ?h1 = cb_log h @ [data]" by (simp add: heap_simps)
  let ?h2 = "set_count m (unat k) (int (refs h m k) + 1) ?h1"
  have c: "0 \<le> int (refs h m k) + 1" "int (refs h m k) + 1 < 2 ^ 31" using live by auto
  have "cx_rc_map_retain m k ?h1 = Some (get_element m k, ?h2)"
    using is_empty_eq [OF ok1 k] retain_rc_eq [OF ok1 k] rf live by (simp add: cx_rc_map_retain_def)
  then have r: "cx_rc_map_set m k data h = Some (get_element m k, ?h2)"
    using get_element_eq(2) [OF ok k] is_empty_eq [OF ok k] live bs(2)
    by (simp add: cx_rc_map_set_def Let_def)
  note s2 = set_count_spec [OF ok1 i c]
  have "frame ({(s, n)} \<union> own_map m) ({(s, n)} \<union> own_map m) ?h1 ?h2"
    using frame_extend [OF s2(2), of "{(s, n)}"] frame_sub [OF f1] x(2) by (auto simp: Un_commute)
  then have "frame (own_map m \<union> {(s, n)}) (own_map m \<union> {(s, n)}) h ?h2"
    using frame_trans [OF f1] by (simp add: Un_commute)
  moreover have "refs ?h2 m = (refs h m)(k := refs h m k + 1)"
    using refs_set_count [OF ok1 k c] rf by (simp add: nat_add_distrib)
  moreover have "cb_log ?h2 = cb_log h @ [data]" using log by (simp add: set_count_def heap_simps)
  ultimately show ?thesis using r s2(1,4) el by auto
qed

section \<open>Elements by address\<close>

lemma index_of_element:
  assumes ok: "map_ok h m" and k: "k < rsize m" and e: "relement_size m \<noteq> 0"
  shows "index_of m (get_element m k) = Some k"
proof -
  let ?e = "relement_size m"
  note g = get_element_eq [OF ok k]
  have "(of_nat (get_element m k) - of_nat (rdata m) :: u64) = k * ?e"
    using g(1) by simp
  moreover have "k * ?e div ?e = k"
  proof (rule unsigned_word_eqI)
    have "unat (k * ?e) = unat k * unat ?e" using g(3) by (rule unat_mult_no_wrap)
    then show "unat (k * ?e div ?e) = unat k" using e by (simp add: unat_div unat_eq_zero)
  qed
  ultimately show ?thesis using e by (simp add: index_of_def)
qed

lemma release_element:
  assumes "map_ok h m" "k < rsize m" "relement_size m \<noteq> 0"
  shows "cx_rc_map_release m (get_element m k) h = cx_rc_map_release_index m k h"
  using index_of_element [OF assms] get_element_eq(2) [OF assms(1,2)] by (simp add: cx_rc_map_release_def)

lemma retain_value_element:
  assumes "map_ok h m" "k < rsize m" "relement_size m \<noteq> 0"
  shows "cx_rc_map_retain_value m (get_element m k) h = map_option snd (cx_rc_map_retain m k h)"
  using index_of_element [OF assms] get_element_eq(2) [OF assms(1,2)]
  by (cases "cx_rc_map_retain m k h") (auto simp: cx_rc_map_retain_value_def)

lemma contains_iff:
  assumes ok: "map_ok h m"
  shows "cx_rc_map_contains m p \<longleftrightarrow>
    rdata m \<le> p \<and> p < rdata m + unat (rsize m) * unat (relement_size m)"
  using map_blocks(5,7) [OF ok] unat_mult_no_wrap [of "rsize m" "relement_size m"]
  by (auto simp: cx_rc_map_contains_def)

lemma contains_element:
  assumes "map_ok h m" "k < rsize m" "relement_size m \<noteq> 0"
  shows "cx_rc_map_contains m (get_element m k)"
proof -
  have "unat k * unat (relement_size m) + unat (relement_size m) \<le> unat (rsize m) * unat (relement_size m)"
    using assms(2) by (intro element_range) (simp add: word_less_nat_alt)
  moreover have "0 < unat (relement_size m)" using assms(3) by (simp add: unat_gt_0)
  ultimately have "get_element m k < rdata m + unat (rsize m) * unat (relement_size m)"
    unfolding get_element_eq(1) [OF assms(1,2)] by linarith
  then show ?thesis
    using contains_iff [OF assms(1)] get_element_eq(1) [OF assms(1,2)] by simp
qed

section \<open>Init and cleanup\<close>

lemma or_counts_spec:
  "(\<And>j. i \<le> j \<Longrightarrow> j < i + k \<Longrightarrow> valid h (c + 4 * j) 4) \<Longrightarrow>
   \<exists>r. or_counts c i k acc h = Some r \<and>
     (r = 0 \<longleftrightarrow> acc = 0 \<and> (\<forall>j. i \<le> j \<and> j < i + k \<longrightarrow> int_at h (c + 4 * j) = 0))"
proof (induction k arbitrary: i acc)
  case (Suc k)
  have "valid h (c + 4 * i) 4" using Suc.prems [of i] by simp
  moreover obtain r where r: "or_counts c (Suc i) k (acc OR int_at h (c + 4 * i)) h = Some r"
      "r = 0 \<longleftrightarrow> acc OR int_at h (c + 4 * i) = 0 \<and>
         (\<forall>j. Suc i \<le> j \<and> j < Suc i + k \<longrightarrow> int_at h (c + 4 * j) = 0)"
    using Suc.IH [of "Suc i" "acc OR int_at h (c + 4 * i)"] Suc.prems by auto
  moreover have "(\<forall>j. i \<le> j \<and> j < i + Suc k \<longrightarrow> int_at h (c + 4 * j) = 0) \<longleftrightarrow>
      int_at h (c + 4 * i) = 0 \<and> (\<forall>j. Suc i \<le> j \<and> j < Suc i + k \<longrightarrow> int_at h (c + 4 * j) = 0)"
    by (metis Suc_leI add_Suc add_Suc_right le_add1 le_eq_less_or_eq less_add_Suc1 Suc_le_lessD)
  ultimately show ?case by (auto simp: mem_step or_eq_0_iff)
qed auto

lemma counts_zero_iff:
  "map_ok h m \<Longrightarrow> (\<forall>j < unat (rsize m). int_at h (rref_count m + 4 * j) = 0) \<longleftrightarrow> refs h m = (\<lambda>_. 0)"
proof -
  assume ok: "map_ok h m"
  have "int_at h (rref_count m + 4 * j) = 0" if "refs h m = (\<lambda>_. 0)" "j < unat (rsize m)" for j
  proof -
    have "j < 2 ^ 64" using that(2) unat_lt64 [of "rsize m"] by linarith
    then have j: "unat (of_nat j :: u64) = j" by (rule unat_of_nat64)
    then have "of_nat j < rsize m" using that(2) by (simp add: word_less_nat_alt)
    then have "count_at h m j = int (refs h m (of_nat j))" using refs_count [OF ok] j by metis
    then show ?thesis using that(1) by (simp add: count_at_def)
  qed
  moreover have "refs h m = (\<lambda>_. 0)" if "\<forall>j < unat (rsize m). int_at h (rref_count m + 4 * j) = 0"
    using that by (auto simp: refs_def count_at_def word_less_nat_alt)
  ultimately show ?thesis by blast
qed

lemma cleanup_spec:
  assumes ok: "map_ok h m"
  shows "if refs h m = (\<lambda>_. 0)
    then \<exists>m' h'. cx_rc_map_cleanup m h = Some (0, m', h') \<and> frame (own_map m) {} h h'
    else cx_rc_map_cleanup m h = None"
proof -
  note b = map_blocks [OF ok]
  obtain r where r: "or_counts (rref_count m) 0 (unat (rsize m)) 0 h = Some r"
      "r = 0 \<longleftrightarrow> refs h m = (\<lambda>_. 0)"
    using or_counts_spec [of 0 "unat (rsize m)" h "rref_count m" 0] count_valid [OF ok] counts_zero_iff [OF ok]
    by auto
  show ?thesis
  proof (cases "refs h m = (\<lambda>_. 0)")
    case False
    then show ?thesis using r b(6) by (simp add: cx_rc_map_cleanup_def)
  next
    case True
    obtain h1 where h1: "free (rdata m) h = Some h1"
        "frame {(rdata m, unat (rsize m) * unat (relement_size m))} {} h h1"
      using free_block [OF b(1,3)] by blast
    have in1: "(rref_count m, unat (rsize m) * 4) \<in> set (blocks h1)"
      using frame_mem [OF h1(2) b(2)] b(4) by simp
    obtain h2 where h2: "free (rref_count m) h1 = Some h2" "frame {(rref_count m, unat (rsize m) * 4)} {} h1 h2"
      using free_block [OF frame_heap_ok [OF h1(2) b(1)] in1] by blast
    have "frame ({(rdata m, unat (rsize m) * unat (relement_size m))} \<union> {(rref_count m, unat (rsize m) * 4)})
        ({} \<union> {(rref_count m, unat (rsize m) * 4)}) h h1"
      by (rule frame_extend [OF h1(2)]) (use b in auto)
    then have "frame (own_map m) {} h h2"
      using frame_trans h2(2) by (fastforce simp: own_map_def insert_commute)
    then show ?thesis using True r h1(1) h2(1) b(6) by (auto simp: cx_rc_map_cleanup_def)
  qed
qed

lemma init_spec:
  assumes h: "heap_ok h" and cb: "cb_local cb (unat e)" and null: "rref_count m = 0"
  shows "\<exists>rv m' h'. cx_rc_map_init m n e cb h = Some (rv, m', h') \<and>
    ((rv = 0 \<and> map_ok h' m' \<and> frame {} (own_map m') h h' \<and> refs h' m' = (\<lambda>_. 0) \<and>
      rsize m' = n \<and> relement_size m' = e) \<or>
     (rv = - 4 \<and> frame {} {} h h'))"
proof -
  obtain d h1 where c1: "calloc n e h = (d, h1)" by fastforce
  have u4: "unat (4 :: u64) = 4" by simp
  from calloc_cases [OF c1 h] show ?thesis
  proof (elim disjE conjE)
    assume "d = 0" "frame {} {} h h1"
    then show ?thesis using c1 null by (simp add: cx_rc_map_init_def cx_rc_map_cleanup_def)
  next
    assume d: "0 < d" and f1: "frame {} {(d, unat n * unat e)} h h1"
      and z1: "bytes_at h1 d (unat n * unat e) = replicate (unat n * unat e) 0"
    have h1: "heap_ok h1" using frame_heap_ok [OF f1 h] .
    obtain r h2 where c2: "calloc n 4 h1 = (r, h2)" by fastforce
    from calloc_cases [OF c2 h1] show ?thesis
    proof (elim disjE conjE)
      assume r: "r = 0" and f2: "frame {} {} h1 h2" and same: "blocks h2 = blocks h1"
      have "(d, unat n * unat e) \<in> set (blocks h2)" using frame_sub [OF f1] same by simp
      then obtain h3 where h3: "free d h2 = Some h3" "frame {(d, unat n * unat e)} {} h2 h3"
        using free_block [OF frame_heap_ok [OF f2 h1]] by blast
      have "frame ({} \<union> {(d, unat n * unat e)}) ({} \<union> {(d, unat n * unat e)}) h1 h2"
        by (rule frame_extend [OF f2]) (use frame_sub [OF f1] in auto)
      then have "frame {(d, unat n * unat e)} {(d, unat n * unat e)} h1 h2" by simp
      then have "frame {} {} h h3" by (rule frame_trans [OF frame_trans [OF f1] h3(2)])
      then show ?thesis using c1 c2 d r h3(1) by (simp add: cx_rc_map_init_def cx_rc_map_cleanup_def Let_def)
    next
      assume r: "0 < r" and f2: "frame {} {(r, unat n * unat (4 :: u64))} h1 h2"
        and z2: "bytes_at h2 r (unat n * unat (4 :: u64)) = replicate (unat n * unat (4 :: u64)) 0"
      let ?m' = "m\<lparr>rdata := d, rref_count := r, rsize := n, rcleanup := cb, relement_size := e\<rparr>"
      have res: "cx_rc_map_init m n e cb h = Some (0, ?m', h2)"
        using c1 c2 d r by (simp add: cx_rc_map_init_def)
      have f3: "frame ({} \<union> {(d, unat n * unat e)}) ({(r, unat n * 4)} \<union> {(d, unat n * unat e)}) h1 h2"
        using frame_extend [OF f2, of "{(d, unat n * unat e)}"] frame_sub [OF f1] u4 by auto
      have f: "frame {} (own_map ?m') h h2"
        using frame_trans [OF f1] f3 by (simp add: own_map_def insert_commute)
      have h2: "heap_ok h2" using frame_heap_ok [OF f h] .
      have ne: "d \<noteq> r"
      proof
        assume dr: "d = r"
        have new: "(d, unat n * unat e) \<notin> {(r, unat n * 4)}"
          using frame_mem [OF f2, of "(d, unat n * unat e)"] frame_sub [OF f1] u4 by auto
        then show False
          using heap_ok_base_inj [OF h2, of d "unat n * unat e" "unat n * 4"] frame_sub [OF f] dr
          by (auto simp: own_map_def)
      qed
      have zero: "int_at h2 (r + 4 * j) = 0" if "j < unat n" for j
      proof -
        have "bytes_at h2 (r + 4 * j) 4 = take 4 (drop (4 * j) (bytes_at h2 r (unat n * 4)))"
          by (rule nth_equalityI) (use that in \<open>auto simp: bytes_at_def add.assoc\<close>)
        also have "\<dots> = replicate 4 0" using z2 u4 that by simp
        finally have "read_mem (mem h2) (r + 4 * j) 4 = [0, 0, 0, 0]"
          by (simp add: bytes_at_def numeral_eq_Suc)
        then show ?thesis by (simp add: int_at_def)
      qed
      have ok: "map_ok h2 ?m'"
        using h2 ne zero cb frame_sub [OF f] by (auto simp: map_ok_def count_at_def)
      moreover have "refs h2 ?m' = (\<lambda>_. 0)" using zero by (auto simp: refs_def count_at_def word_less_nat_alt)
      ultimately show ?thesis using res f by auto
    qed
  qed
qed

section \<open>The map as an LRU backend\<close>

definition lru_rc_map_retain :: "rc_map \<Rightarrow> u64 \<Rightarrow> heap \<Rightarrow> (addr \<times> rc_map \<times> heap) option" where
  "lru_rc_map_retain backend index h = do {
     (p, h) \<leftarrow> cx_rc_map_retain backend index h;
     Some (p, backend, h)
   }"

definition lru_rc_map_retain_value :: "rc_map \<Rightarrow> addr \<Rightarrow> heap \<Rightarrow> (rc_map \<times> heap) option" where
  "lru_rc_map_retain_value backend val h = do {
     index \<leftarrow> index_of backend val;
     (_, h) \<leftarrow> cx_rc_map_retain backend index h;
     Some (backend, h)
   }"

definition lru_rc_map_release :: "rc_map \<Rightarrow> u64 \<Rightarrow> heap \<Rightarrow> (int \<times> rc_map \<times> heap) option" where
  "lru_rc_map_release backend index h = do {
     (rv, h) \<leftarrow> cx_rc_map_release_index backend index h;
     Some (rv, backend, h)
   }"

definition cx_lru_rc_map :: "rc_map lru_impl" where
  "cx_lru_rc_map = \<lparr>impl_retain = lru_rc_map_retain,
     impl_retain_value = Some lru_rc_map_retain_value, impl_release = lru_rc_map_release\<rparr>"

lemma refs_pos_key: "0 < refs h m k \<Longrightarrow> k < rsize m"
  by (simp add: refs_def split: if_splits)

lemma map_outside:
  assumes f: "frame A B h h'" and ok: "map_ok h m" and dis: "own_map m \<inter> A = {}"
  shows "map_ok h' m" "refs h' m = refs h m"
    "\<And>j. j < unat (rsize m) \<Longrightarrow> element_at h' m j = element_at h m j"
proof -
  note b = map_blocks [OF ok]
  have c: "count_at h' m j = count_at h m j" if "j < unat (rsize m)" for j
    unfolding count_at_def
    by (rule bytes_at_int, rule frame_bytes [OF f b(2)]) (use dis that in \<open>auto simp: own_map_def\<close>)
  then show "refs h' m = refs h m" by (auto simp: refs_def word_less_nat_alt)
  have "own_map m \<subseteq> set (blocks h')"
    using frame_mem [OF f] ok dis by (auto simp: map_ok_def)
  then show "map_ok h' m" using ok c frame_heap_ok [OF f b(1)] by (auto simp: map_ok_def)
  show "element_at h' m j = element_at h m j" if j: "j < unat (rsize m)" for j
    unfolding element_at_def
    by (rule frame_bytes [OF f b(3)]) (use dis element_range [OF j] in \<open>auto simp: own_map_def add.assoc\<close>)
qed

interpretation rcm: lru_value_backend map_ok own_map refs "2 ^ 31 - 1" cx_lru_rc_map
  "\<lambda>h m k p. relement_size m \<noteq> 0 \<and> p = get_element m k"
proof
  show "heap_ok h \<and> own_map b \<subseteq> set (blocks h)" if "map_ok h b" for h b
    using that by (simp add: map_ok_def)
next
  fix h b k assume a: "map_ok h b" "0 < refs h b k" "refs h b k < 2 ^ 31 - 1"
  show "\<exists>p b' h'. impl_retain cx_lru_rc_map b k h = Some (p, b', h') \<and> map_ok h' b' \<and>
      frame (own_map b) (own_map b') h h' \<and> refs h' b' = (refs h b)(k := refs h b k + 1)"
    using retain_spec [OF a(1) refs_pos_key [OF a(2)] a(2,3)]
    by (auto simp: cx_lru_rc_map_def lru_rc_map_retain_def)
next
  fix h b k assume a: "map_ok h b" "0 < refs h b k"
  show "\<exists>rv b' h'. impl_release cx_lru_rc_map b k h = Some (rv, b', h') \<and> map_ok h' b' \<and>
      frame (own_map b) (own_map b') h h' \<and> refs h' b' = (refs h b)(k := refs h b k - 1)"
    using release_index_spec [OF a(1) refs_pos_key [OF a(2)] a(2)]
    by (auto simp: cx_lru_rc_map_def lru_rc_map_release_def)
next
  show "map_ok h' b \<and> refs h' b = refs h b"
    if "frame A B h h'" "map_ok h b" "own_map b \<inter> A = {}" for A B h h' b
    using map_outside [OF that] by simp
next
  fix h b k p assume a: "map_ok h b" "relement_size b \<noteq> 0 \<and> p = get_element b k"
    "0 < refs h b k" "refs h b k < 2 ^ 31 - 1"
  show "\<exists>f b' h'. impl_retain_value cx_lru_rc_map = Some f \<and> f b p h = Some (b', h') \<and> map_ok h' b' \<and>
      frame (own_map b) (own_map b') h h' \<and> refs h' b' = (refs h b)(k := refs h b k + 1)"
    using retain_spec [OF a(1) refs_pos_key [OF a(3)] a(3,4)]
      index_of_element [OF a(1) refs_pos_key [OF a(3)]] a(2)
    by (auto simp: cx_lru_rc_map_def lru_rc_map_retain_value_def)
next
  show "relement_size b' \<noteq> 0 \<and> p = get_element b' k"
    if "relement_size b \<noteq> 0 \<and> p = get_element b k" "impl_release cx_lru_rc_map b j h = Some (rv, b', h')"
    for h b k p j rv b' h'
    using that by (auto simp: cx_lru_rc_map_def lru_rc_map_release_def bind_Some_iff)
qed simp_all

section \<open>Runs of retains and releases and their specification\<close>

text \<open>
  A client that holds the map retains and releases by index or by element address. The
  specification sees only the counts: a retain of a dead element does nothing, a release of
  a dead element aborts, and the element is cleaned up when its count falls to zero.
\<close>

datatype rc_op = Retain u64 | RetainValue u64 | ReleaseIndex u64 | ReleaseValue u64

fun op_key :: "rc_op \<Rightarrow> u64" where
  "op_key (Retain k) = k"
| "op_key (RetainValue k) = k"
| "op_key (ReleaseIndex k) = k"
| "op_key (ReleaseValue k) = k"

fun rc_step :: "rc_map \<Rightarrow> rc_op \<Rightarrow> heap \<Rightarrow> heap option" where
  "rc_step m (Retain k) h = map_option snd (cx_rc_map_retain m k h)"
| "rc_step m (RetainValue k) h = cx_rc_map_retain_value m (get_element m k) h"
| "rc_step m (ReleaseIndex k) h = map_option snd (cx_rc_map_release_index m k h)"
| "rc_step m (ReleaseValue k) h = map_option snd (cx_rc_map_release m (get_element m k) h)"

fun rc_run :: "rc_map \<Rightarrow> rc_op list \<Rightarrow> heap \<Rightarrow> heap option" where
  "rc_run m [] h = Some h"
| "rc_run m (x # xs) h = Option.bind (rc_step m x h) (rc_run m xs)"

fun is_retain :: "rc_op \<Rightarrow> bool" where
  "is_retain (Retain k) = True"
| "is_retain (RetainValue k) = True"
| "is_retain _ = False"

definition count_step :: "(u64 \<Rightarrow> nat) \<Rightarrow> rc_op \<Rightarrow> ((u64 \<Rightarrow> nat) \<times> u64 list) option" where
  "count_step c x = (let k = op_key x in
     if is_retain x
     then (if c k = 0 then Some (c, [])
           else if c k = 2 ^ 31 - 1 then None
           else Some (c(k := c k + 1), []))
     else (if c k = 0 then None
           else Some (c(k := c k - 1), if c k = 1 then [k] else [])))"

fun count_run :: "(u64 \<Rightarrow> nat) \<Rightarrow> rc_op list \<Rightarrow> ((u64 \<Rightarrow> nat) \<times> u64 list) option" where
  "count_run c [] = Some (c, [])"
| "count_run c (x # xs) = do {
     (c, cleaned) \<leftarrow> count_step c x;
     (c, more) \<leftarrow> count_run c xs;
     Some (c, cleaned @ more)
   }"

lemma retain_overflow:
  assumes ok: "map_ok h m" and k: "k < rsize m" and c: "refs h m k = 2 ^ 31 - 1"
  shows "cx_rc_map_retain m k h = None"
proof -
  have i: "unat k < unat (rsize m)" using k by (simp add: word_less_nat_alt)
  have "int_at h (rref_count m + 4 * unat k) = 2 ^ 31 - 1"
    using refs_count [OF ok k] c by (simp add: count_at_def)
  then show ?thesis using is_empty_eq [OF ok k] c count_valid [OF ok i]
    by (simp add: cx_rc_map_retain_def retain_rc_def mem_step)
qed

lemma rc_step_cases:
  assumes "map_ok h m" "op_key x < rsize m" "relement_size m \<noteq> 0"
  shows "rc_step m x h = (if is_retain x then map_option snd (cx_rc_map_retain m (op_key x) h)
    else map_option snd (cx_rc_map_release_index m (op_key x) h))"
  using assms by (cases x) (auto simp: retain_value_element release_element)

lemma rc_step_refines:
  assumes ok: "map_ok h m" and k: "op_key x < rsize m" and e: "relement_size m \<noteq> 0"
  shows "case count_step (refs h m) x of
      None \<Rightarrow> rc_step m x h = None
    | Some (c, cleaned) \<Rightarrow> \<exists>h'. rc_step m x h = Some h' \<and> map_ok h' m \<and> frame (own_map m) (own_map m) h h' \<and>
        refs h' m = c \<and> cb_log h' = cb_log h @ map (get_element m) cleaned"
proof -
  let ?k = "op_key x" and ?c = "refs h m (op_key x)"
  note st = rc_step_cases [OF ok k e]
  consider (dead_retain) "is_retain x" "?c = 0" | (overflow) "is_retain x" "?c = 2 ^ 31 - 1"
    | (retain) "is_retain x" "0 < ?c" "?c < 2 ^ 31 - 1" | (dead_release) "\<not> is_retain x" "?c = 0"
    | (release) "\<not> is_retain x" "0 < ?c"
    using refs_lt [of h m ?k] by fastforce
  then show ?thesis
  proof cases
    case dead_retain
    then show ?thesis using st retain_dead [OF ok k] ok
      by (simp add: count_step_def frame_refl map_ok_def)
  next
    case overflow
    then show ?thesis using st retain_overflow [OF ok k] by (simp add: count_step_def)
  next
    case retain
    obtain h' where h': "cx_rc_map_retain m ?k h = Some (get_element m ?k, h')" "map_ok h' m"
        "frame (own_map m) (own_map m) h h'" "refs h' m = (refs h m)(?k := ?c + 1)"
      using retain_spec [OF ok k retain(2,3)] by blast
    have "cb_log h' = cb_log h"
      using h'(1) is_empty_eq [OF ok k] retain retain_rc_eq [OF ok k retain(3)]
      by (auto simp: cx_rc_map_retain_def set_count_def heap_simps)
    then show ?thesis using st h' retain by (simp add: count_step_def Let_def)
  next
    case dead_release
    then show ?thesis using st release_rc_dead [OF ok k]
      by (simp add: count_step_def cx_rc_map_release_index_def)
  next
    case release
    then show ?thesis using st release_index_spec [OF ok k release(2)]
      by (auto simp: count_step_def Let_def)
  qed
qed

lemma rc_run_refines:
  assumes "map_ok h m" "list_all (\<lambda>x. op_key x < rsize m) xs" "relement_size m \<noteq> 0"
  shows "case count_run (refs h m) xs of
      None \<Rightarrow> rc_run m xs h = None
    | Some (c, cleaned) \<Rightarrow> \<exists>h'. rc_run m xs h = Some h' \<and> map_ok h' m \<and> frame (own_map m) (own_map m) h h' \<and>
        refs h' m = c \<and> cb_log h' = cb_log h @ map (get_element m) cleaned"
  using assms(1,2)
proof (induction xs arbitrary: h)
  case Nil
  then show ?case by (simp add: frame_refl map_ok_def)
next
  case (Cons x xs)
  have k: "op_key x < rsize m" "list_all (\<lambda>x. op_key x < rsize m) xs" using Cons.prems(2) by auto
  note S = rc_step_refines [OF Cons.prems(1) k(1) assms(3)]
  show ?case
  proof (cases "count_step (refs h m) x")
    case None
    then show ?thesis using S by simp
  next
    case (Some p)
    obtain c cl where p: "p = (c, cl)" by (cases p)
    obtain h1 where h1: "rc_step m x h = Some h1" "map_ok h1 m" "frame (own_map m) (own_map m) h h1"
        "refs h1 m = c" "cb_log h1 = cb_log h @ map (get_element m) cl"
      using S Some p by auto
    show ?thesis
      using Cons.IH [OF h1(2) k(2)] h1 Some p frame_trans [OF h1(3)]
      by (fastforce split: option.splits prod.splits)
  qed
qed

section \<open>Properties\<close>

text \<open>
  For the witnesses: the callback of \<^verbatim>\<open>test/collection/lru_test.c\<close>, which
  overwrites the first byte of the element, and a map of four one-byte elements in which
  element 1 is held twice.
\<close>

definition test_deinit :: cleanup_fn where
  "test_deinit p h = store_bytes p [255] h"

definition demo_map :: rc_map where
  "demo_map = \<lparr>rdata = 100, rsize = 4, relement_size = 1, rref_count = 16, rcleanup = test_deinit\<rparr>"

definition demo_map_heap :: heap where
  "demo_map_heap = \<lparr>mem = (\<lambda>a. if a = 20 then 2 else 0), blocks = [(100, 4), (16, 16), (64, 8)],
     answers = [200, 300], cb_log = []\<rparr>"

lemma test_deinit_local: "cb_local test_deinit 1"
proof -
  have "length [255 :: u8] = 1 \<and> test_deinit p h = Some (set_bytes p [255] h)" if "valid h p 1" for p h
    using that by (simp add: test_deinit_def mem_step)
  then show ?thesis unfolding cb_local_def by blast
qed

lemma demo_counts:
  "count_at demo_map_heap demo_map 0 = 0" "count_at demo_map_heap demo_map 1 = 2"
  "count_at demo_map_heap demo_map 2 = 0" "count_at demo_map_heap demo_map 3 = 0"
  by (simp_all add: count_at_def int_at_def read_mem_def demo_map_heap_def demo_map_def upt_rec)

lemma demo_map_ok: "map_ok demo_map_heap demo_map"
proof -
  have "i < 4 \<Longrightarrow> i = 0 \<or> i = 1 \<or> i = 2 \<or> i = 3" for i :: nat by linarith
  then have "\<forall>i < 4. 0 \<le> count_at demo_map_heap demo_map i" using demo_counts by force
  then show ?thesis using test_deinit_local
    by (simp add: map_ok_def own_map_def demo_map_def demo_map_heap_def heap_ok_def fits_def)
qed

lemma demo_refs: "refs demo_map_heap demo_map 1 = 2" "refs demo_map_heap demo_map 0 = 0"
  using demo_counts by (simp_all add: refs_def demo_map_def word_less_nat_alt)

text \<open>
  C2. The reference counts of a \<^verbatim>\<open>CxRcMap\<close> are exact: any sequence of retains and
  releases, by index or by element address, does to the map what the counting specification
  says. It runs without undefined behaviour exactly when no dead element is released and no
  count passes \<^verbatim>\<open>INT_MAX\<close>; the callback is called with the address of an
  element exactly when its last reference goes, once, in order; and nothing outside the
  two arrays changes.
\<close>

theorem rc_map_counts_exact:
  assumes "map_ok h m" "list_all (\<lambda>x. op_key x < rsize m) xs" "relement_size m \<noteq> 0"
  shows "(rc_run m xs h = None \<longleftrightarrow> count_run (refs h m) xs = None) \<and>
    (\<forall>c cleaned. count_run (refs h m) xs = Some (c, cleaned) \<longrightarrow>
      (\<exists>h'. rc_run m xs h = Some h' \<and> map_ok h' m \<and> frame (own_map m) (own_map m) h h' \<and>
        refs h' m = c \<and> cb_log h' = cb_log h @ map (get_element m) cleaned))"
  using rc_run_refines [OF assms] by (auto split: option.splits)

theorem rc_map_counts_exact_witness:
  "\<exists>h'. rc_run demo_map [Retain 1, ReleaseIndex 1, ReleaseValue 1, ReleaseIndex 1, Retain 1] demo_map_heap = Some h' \<and>
     refs h' demo_map 1 = 0 \<and> cb_log h' = [101] \<and>
     rc_run demo_map [ReleaseIndex 0] demo_map_heap = None"
proof -
  let ?xs = "[Retain 1, ReleaseIndex 1, ReleaseValue 1, ReleaseIndex 1, Retain 1]"
  have k: "list_all (\<lambda>x. op_key x < rsize demo_map) ?xs" "relement_size demo_map \<noteq> 0"
      "list_all (\<lambda>x. op_key x < rsize demo_map) [ReleaseIndex 0]"
    by (simp_all add: demo_map_def word_less_nat_alt)
  have "count_run (refs demo_map_heap demo_map) ?xs = Some ((refs demo_map_heap demo_map)(1 := 0), [1])"
    by (simp add: count_step_def Let_def demo_refs)
  then obtain h' where "rc_run demo_map ?xs demo_map_heap = Some h'"
      "refs h' demo_map = (refs demo_map_heap demo_map)(1 := 0)" "cb_log h' = cb_log demo_map_heap @ [get_element demo_map 1]"
    using rc_map_counts_exact [OF demo_map_ok k(1,2)] by auto
  moreover have "get_element demo_map 1 = 101" "cb_log demo_map_heap = []"
    by (simp_all add: get_element_def mul_overflow_def demo_map_def demo_map_heap_def)
  moreover have "rc_run demo_map [ReleaseIndex 0] demo_map_heap = None"
    using rc_map_counts_exact [OF demo_map_ok k(3,2)] by (simp add: count_step_def Let_def demo_refs)
  ultimately show ?thesis by auto
qed

text \<open>
  \<^verbatim>\<open>cx_rc_map_set\<close> on an empty slot copies the caller's bytes into the slot,
  counts one reference and returns the slot; on an occupied slot it keeps the stored element,
  counts one more reference and hands the caller's data, not the element, to the callback. In
  both cases every other element and every other count stays.
\<close>

theorem rc_map_set_correct:
  assumes "map_ok h m" "k < rsize m" "refs h m k < 2 ^ 31 - 1"
    and "(s, n) \<in> set (blocks h)" "(s, n) \<notin> own_map m" "s \<le> data"
    and "data + unat (relement_size m) \<le> s + n"
  shows "\<exists>h'. cx_rc_map_set m k data h = Some (get_element m k, h') \<and> map_ok h' m \<and>
    refs h' m = (refs h m)(k := refs h m k + 1) \<and>
    cb_log h' = cb_log h @ (if refs h m k = 0 then [] else [data]) \<and>
    element_at h' m (unat k) = (if refs h m k = 0 then bytes_at h data (unat (relement_size m))
                                else element_at h m (unat k)) \<and>
    (\<forall>j < unat (rsize m). j \<noteq> unat k \<longrightarrow> element_at h' m j = element_at h m j)"
proof (cases "refs h m k = 0")
  case True
  have "readable h (own_map m) data (unat (relement_size m))"
    by (rule readableI [OF assms(4-7)])
  from set_empty_spec [OF assms(1,2) True this] True show ?thesis by auto
next
  case False
  have "unat k < unat (rsize m)" using assms(2) by (simp add: word_less_nat_alt)
  then show ?thesis using set_live_spec [OF assms(1,2) _ assms(3-7)] False by auto
qed

theorem rc_map_set_correct_witness:
  "\<exists>h1 h2. cx_rc_map_set demo_map 0 65 demo_map_heap = Some (100, h1) \<and> cb_log h1 = [] \<and>
     cx_rc_map_set demo_map 1 65 demo_map_heap = Some (101, h2) \<and> cb_log h2 = [65]"
proof -
  have pre: "(64, 8) \<in> set (blocks demo_map_heap)" "(64, 8) \<notin> own_map demo_map"
      "0 < rsize demo_map" "1 < rsize demo_map" "65 + unat (relement_size demo_map) \<le> 64 + 8"
      "cb_log demo_map_heap = []" "get_element demo_map 0 = 100" "get_element demo_map 1 = 101"
    by (simp_all add: demo_map_def demo_map_heap_def own_map_def get_element_def mul_overflow_def word_less_nat_alt)
  then show ?thesis
    using rc_map_set_correct [OF demo_map_ok pre(3), of 64 8 65] rc_map_set_correct [OF demo_map_ok pre(4), of 64 8 65]
    by (auto simp: demo_refs)
qed

text \<open>
  A whole life: initialising a zeroed struct either fails with \<^verbatim>\<open>-CX_ERR_ALLOC\<close>
  and leaks nothing, or gives an empty map; setting and releasing an element then calls the
  callback once, on the slot, and \<^verbatim>\<open>cx_rc_map_cleanup\<close> returns both arrays, so
  that nothing has leaked.
\<close>

theorem rc_map_lifetime:
  assumes h: "heap_ok h" "cb_local cb (unat e)" "rref_count m = 0" "k < n"
    and src: "readable h {} data (unat e)"
  shows "\<exists>rv m1 h1. cx_rc_map_init m n e cb h = Some (rv, m1, h1) \<and>
    (if rv \<noteq> 0 then rv = - err_code CX_ERR_ALLOC \<and> frame {} {} h h1
     else \<exists>p h2 h3 m4 h4. cx_rc_map_set m1 k data h1 = Some (p, h2) \<and>
       cx_rc_map_release_index m1 k h2 = Some (0, h3) \<and> cb_log h3 = cb_log h1 @ [p] \<and>
       cx_rc_map_cleanup m1 h3 = Some (0, m4, h4) \<and> frame {} {} h h4)"
proof -
  obtain rv m1 h1 where i: "cx_rc_map_init m n e cb h = Some (rv, m1, h1)"
    and r: "(rv = 0 \<and> map_ok h1 m1 \<and> frame {} (own_map m1) h h1 \<and> refs h1 m1 = (\<lambda>_. 0) \<and>
        rsize m1 = n \<and> relement_size m1 = e) \<or> (rv = - 4 \<and> frame {} {} h h1)"
    using init_spec [OF h(1,2,3), of n] by blast
  show ?thesis
  proof (cases "rv = 0")
    case False
    then show ?thesis using i r by auto
  next
    case True
    then have ok: "map_ok h1 m1" and f: "frame {} (own_map m1) h h1" and z: "refs h1 m1 = (\<lambda>_. 0)"
      and sz: "k < rsize m1" "relement_size m1 = e" using r h(4) by auto
    have "readable h1 (own_map m1) data (unat (relement_size m1))"
      using readable_frame [OF f src] sz by simp
    then obtain h2 where h2: "cx_rc_map_set m1 k data h1 = Some (get_element m1 k, h2)" "map_ok h2 m1"
        "frame (own_map m1) (own_map m1) h1 h2" "refs h2 m1 = (\<lambda>_. 0)(k := 1)" "cb_log h2 = cb_log h1"
      using set_empty_spec [OF ok sz(1)] z by auto
    then obtain h3 where h3: "cx_rc_map_release_index m1 k h2 = Some (0, h3)" "map_ok h3 m1"
        "frame (own_map m1) (own_map m1) h2 h3" "refs h3 m1 = (\<lambda>_. 0)" "cb_log h3 = cb_log h1 @ [get_element m1 k]"
      using release_index_spec [OF h2(2) sz(1)] by fastforce
    then obtain m4 h4 where "cx_rc_map_cleanup m1 h3 = Some (0, m4, h4)" "frame (own_map m1) {} h3 h4"
      using cleanup_spec [OF h3(2)] by auto
    then show ?thesis
      using i True h2(1) h3(1,5) frame_trans [OF f frame_trans [OF h2(3) frame_trans [OF h3(3)]]] by auto
  qed
qed

theorem rc_map_lifetime_witness:
  "\<exists>rv m1 h1. cx_rc_map_init (demo_map\<lparr>rref_count := 0\<rparr>) 4 1 test_deinit demo_map_heap = Some (rv, m1, h1) \<and>
     (rv = 0 \<longrightarrow> (\<exists>p h2 h3. cx_rc_map_set m1 3 65 h1 = Some (p, h2) \<and> cx_rc_map_release_index m1 3 h2 = Some (0, h3) \<and>
        cb_log h3 = cb_log h1 @ [p]))"
proof -
  have "heap_ok demo_map_heap" "readable demo_map_heap {} 65 (unat (1 :: u64))" "rref_count (demo_map\<lparr>rref_count := 0\<rparr>) = 0"
    using map_blocks(1) [OF demo_map_ok] by (auto simp: demo_map_heap_def intro: readableI [of 64 8])
  moreover have "(3 :: u64) < 4" "cb_local test_deinit (unat (1 :: u64))"
    using test_deinit_local by (simp_all add: word_less_nat_alt)
  ultimately show ?thesis
    using rc_map_lifetime [of demo_map_heap test_deinit 1 "demo_map\<lparr>rref_count := 0\<rparr>" 3 4 65] by (auto split: if_splits)
qed

text \<open>
  \<^verbatim>\<open>cx_rc_map_cleanup\<close> frees both arrays exactly when no element is held;
  otherwise its assertion aborts.
\<close>

theorem rc_map_cleanup_iff_unheld:
  assumes "map_ok h m"
  shows "(cx_rc_map_cleanup m h \<noteq> None \<longleftrightarrow> (\<forall>k. refs h m k = 0)) \<and>
    (\<forall>rv m' h'. cx_rc_map_cleanup m h = Some (rv, m', h') \<longrightarrow> rv = 0 \<and> frame (own_map m) {} h h')"
  using cleanup_spec [OF assms] by (auto split: if_splits)

theorem rc_map_cleanup_iff_unheld_witness: "cx_rc_map_cleanup demo_map demo_map_heap = None"
proof -
  have "\<not> (\<forall>k. refs demo_map_heap demo_map k = 0)" using demo_refs(1) by (metis zero_neq_numeral)
  then show ?thesis using rc_map_cleanup_iff_unheld [OF demo_map_ok] by blast
qed

text \<open>
  An allocation failure in \<^verbatim>\<open>cx_rc_map_init\<close> on a struct that was not zeroed
  is undefined behaviour: the error path runs \<^verbatim>\<open>cx_rc_map_cleanup\<close>, which reads or
  frees through the indeterminate \<^verbatim>\<open>ref_count\<close> that was there before. (On a zeroed
  struct the failure is reported cleanly.)
\<close>

theorem rc_map_init_failure_reads_garbage:
  assumes "answers h = []" "rref_count m \<noteq> 0"
    and stray: "\<forall>(b, n) \<in> set (blocks h). rref_count m < b \<or> b + max n 1 \<le> rref_count m"
  shows "cx_rc_map_init m n e cb h = None \<and>
         cx_rc_map_init (m\<lparr>rref_count := 0\<rparr>) n e cb h =
           Some (- err_code CX_ERR_ALLOC, m\<lparr>rref_count := 0, rdata := 0, rsize := 0\<rparr>, h)"
proof -
  have c: "calloc n e h = (0, h)" using assms(1) by (simp add: calloc_def malloc_def)
  have inv: "\<not> valid h (rref_count m) 4"
    using stray by (fastforce simp: valid_def list_ex_iff)
  have nofree: "free (rref_count m) h = None"
    using stray assms(2) by (fastforce simp: free_def list_ex_iff)
  show ?thesis
  proof (cases "unat (rsize m)")
    case (Suc j)
    then show ?thesis using c inv assms(2)
      by (simp add: cx_rc_map_init_def cx_rc_map_cleanup_def load_int_def load_bytes_def)
  next
    case 0
    then show ?thesis using c assms(2) nofree
      by (simp add: cx_rc_map_init_def cx_rc_map_cleanup_def)
  qed
qed

theorem rc_map_init_failure_reads_garbage_witness:
  "cx_rc_map_init (demo_map\<lparr>rref_count := 7\<rparr>) 4 1 test_deinit (demo_map_heap\<lparr>answers := []\<rparr>) = None"
proof -
  have "answers (demo_map_heap\<lparr>answers := []\<rparr>) = []" "rref_count (demo_map\<lparr>rref_count := 7\<rparr>) \<noteq> 0"
    "\<forall>(b, n) \<in> set (blocks (demo_map_heap\<lparr>answers := []\<rparr>)).
       rref_count (demo_map\<lparr>rref_count := 7\<rparr>) < b \<or> b + max n 1 \<le> rref_count (demo_map\<lparr>rref_count := 7\<rparr>)"
    by (simp_all add: demo_map_heap_def)
  then show ?thesis using rc_map_init_failure_reads_garbage by blast
qed

end
