(* ===== verification/LruCache.thy ===== *)
theory LruCache
  imports RcMap
begin

text \<open>
  The cache on a \<^verbatim>\<open>CxRcMap\<close>, the pair \<^verbatim>\<open>cx_lru_rc_map\<close>
  connects: what a client sees of touching, evicting and cleaning up, from the laws of
  \<open>lru_value_backend\<close> on the model of \<^verbatim>\<open>rc_map.c\<close>.
\<close>

section \<open>Runs of touches\<close>

datatype lru_op = Touch u64 | TouchValue u64

fun touch_key :: "lru_op \<Rightarrow> u64" where
  "touch_key (Touch k) = k"
| "touch_key (TouchValue k) = k"

fun lru_step :: "'b lru \<Rightarrow> ('b \<Rightarrow> u64 \<Rightarrow> addr) \<Rightarrow> lru_op \<Rightarrow> 'b \<Rightarrow> heap \<Rightarrow> (int \<times> 'b lru \<times> 'b \<times> heap) option" where
  "lru_step l elem (Touch k) b h = cx_lru_touch l k b h"
| "lru_step l elem (TouchValue k) b h = cx_lru_touch_value l k (elem b k) b h"

fun lru_run :: "('b \<Rightarrow> u64 \<Rightarrow> addr) \<Rightarrow> lru_op list \<Rightarrow> 'b lru \<Rightarrow> 'b \<Rightarrow> heap \<Rightarrow> ('b lru \<times> 'b \<times> heap) option" where
  "lru_run elem [] l b h = Some (l, b, h)"
| "lru_run elem (x # xs) l b h = do {
     (_, l, b, h) \<leftarrow> lru_step l elem x b h;
     lru_run elem xs l b h
   }"

abbreviation map_inv :: "heap \<Rightarrow> rc_map lru \<Rightarrow> rc_map \<Rightarrow> bool" where
  "map_inv \<equiv> lru_inv map_ok own_map refs"

abbreviation map_touched :: "u64 \<Rightarrow> heap \<Rightarrow> rc_map lru \<Rightarrow> rc_map \<Rightarrow> heap \<Rightarrow> rc_map lru \<Rightarrow> rc_map \<Rightarrow> bool" where
  "map_touched \<equiv> touch_done map_ok own_map refs"

text \<open>The functions of the map return the struct unchanged.\<close>

lemma map_release_same:
  "impl_release cx_lru_rc_map m k h = Some (rv, m', h') \<Longrightarrow> m' = m"
  by (auto simp: cx_lru_rc_map_def lru_rc_map_release_def bind_Some_iff)

lemma try_touch_same_map:
  "try_touch l k m h = Some (t, l', m', h') \<Longrightarrow> limpl l = cx_lru_rc_map \<Longrightarrow> m' = m \<and> limpl l' = limpl l"
  by (auto simp: try_touch_def release_key_def bind_Some_iff Let_def dest: map_release_same split: if_splits)

lemma lru_step_same_map:
  "lru_step l elem x m h = Some (rv, l', m', h') \<Longrightarrow> limpl l = cx_lru_rc_map \<Longrightarrow> m' = m"
  by (cases x)
    (auto simp: cx_lru_touch_def cx_lru_touch_value_def cx_lru_rc_map_def lru_rc_map_retain_def
      lru_rc_map_retain_value_def bind_Some_iff dest!: try_touch_same_map split: if_splits)

lemma map_step_spec:
  assumes "map_inv h l m" "limpl l = cx_lru_rc_map" "relement_size m \<noteq> 0"
    and "0 < refs h m (touch_key x)" "refs h m (touch_key x) < 2 ^ 31 - 1"
  shows "\<exists>l' h'. lru_step l get_element x m h = Some (0, l', m, h') \<and> map_touched (touch_key x) h l m h' l' m"
proof -
  have "\<exists>l' m' h'. lru_step l get_element x m h = Some (0, l', m', h') \<and> map_touched (touch_key x) h l m h' l' m'"
    using rcm.touch_spec [OF assms(1,2,4,5)] rcm.touch_value_spec [OF assms(1,2,4,5), of "get_element m (touch_key x)"]
      assms(3) by (cases x) auto
  then show ?thesis using lru_step_same_map [OF _ assms(2)] by blast
qed

lemma live_not_marker: "0 < refs h m k \<Longrightarrow> k \<noteq> EMPTY_MARKER"
  using refs_pos_key [of h m k] word_n1_ge [of "rsize m"] by (auto simp: EMPTY_MARKER_def not_less)

lemma touch_done_balance:
  assumes "touch_done bok foot cnt k h l b h' l' b'" "lru_inv bok foot cnt h l b" "k \<noteq> EMPTY_MARKER"
  shows "cnt h' b' x + held h l x = cnt h b x + held h' l' x"
proof (cases "touch_queue k (queue h l) = queue h l")
  case True
  then show ?thesis using assms(1) by (simp add: touch_done_def touched_def held_queue)
next
  case False
  let ?q = "queue h l"
  have q: "hd ?q \<noteq> k" using False by (auto simp: touch_queue_def split: if_splits)
  have le: "count_list ?q (hd ?q) \<le> cnt h b (hd ?q) \<or> hd ?q = EMPTY_MARKER"
    using lru_inv_queue [OF assms(2)] by blast
  have "x \<noteq> EMPTY_MARKER \<Longrightarrow> touched k ?q (cnt h b) x + count_list ?q x = cnt h b x + count_list (touch_queue k ?q) x"
    by (rule touched_balance [where q = ?q and c = "cnt h b", OF False _ le])
  then show ?thesis
    using assms(1,3) q by (auto simp: touch_done_def held_queue touched_def evicted_def)
qed

lemma touched_le: "touched k q c x \<le> c x + 1"
  by (auto simp: touched_def evicted_def intro: le_trans [OF diff_le_self])

lemma lru_run_spec:
  assumes "map_inv h l m" "limpl l = cx_lru_rc_map" "relement_size m \<noteq> 0"
    and "\<forall>x \<in> set xs. held h l (touch_key x) < refs h m (touch_key x) \<and>
           refs h m (touch_key x) + length xs < 2 ^ 31"
  shows "\<exists>l' h'. lru_run get_element xs l m h = Some (l', m, h') \<and> map_inv h' l' m \<and>
    limpl l' = cx_lru_rc_map \<and> lsize l' = lsize l \<and>
    frame (own_lru l \<union> own_map m) (own_lru l' \<union> own_map m) h h' \<and>
    queue h' l' = fold (\<lambda>x. touch_queue (touch_key x)) xs (queue h l) \<and>
    (\<forall>k. refs h' m k + held h l k = refs h m k + held h' l' k)"
  using assms
proof (induction xs arbitrary: h l)
  case Nil
  have "map_ok h m" "ring_ok h l" using Nil.prems(1) by (auto simp: lru_inv_def)
  then have "frame (own_lru l \<union> own_map m) (own_lru l \<union> own_map m) h h"
    by (intro frame_refl) (auto simp: ring_ok_def map_ok_def)
  then show ?case using Nil by simp
next
  case (Cons x xs)
  let ?k = "touch_key x"
  have k: "0 < refs h m ?k" "refs h m ?k < 2 ^ 31 - 1" using Cons.prems(4) by auto
  obtain l1 h1 where s: "lru_step l get_element x m h = Some (0, l1, m, h1)" "map_touched ?k h l m h1 l1 m"
    using map_step_spec [OF Cons.prems(1-3) k] by blast
  have t: "map_inv h1 l1 m" "limpl l1 = cx_lru_rc_map" "lsize l1 = lsize l"
      "frame (own_lru l \<union> own_map m) (own_lru l1 \<union> own_map m) h h1"
      "queue h1 l1 = touch_queue ?k (queue h l)" "refs h1 m = touched ?k (queue h l) (refs h m)"
    using s(2) Cons.prems(2) by (auto simp: touch_done_def)
  have bal: "refs h1 m y + held h l y = refs h m y + held h1 l1 y" for y
    by (rule touch_done_balance [OF s(2) Cons.prems(1) live_not_marker [OF k(1)]])
  have "held h1 l1 (touch_key y) < refs h1 m (touch_key y) \<and> refs h1 m (touch_key y) + length xs < 2 ^ 31"
    if "y \<in> set xs" for y
    using Cons.prems(4) that bal [of "touch_key y"] touched_le [of ?k "queue h l" "refs h m" "touch_key y"]
    by (auto simp: t(6))
  then obtain l' h' where r: "lru_run get_element xs l1 m h1 = Some (l', m, h')" "map_inv h' l' m"
      "limpl l' = cx_lru_rc_map" "lsize l' = lsize l1"
      "frame (own_lru l1 \<union> own_map m) (own_lru l' \<union> own_map m) h1 h'"
      "queue h' l' = fold (\<lambda>x. touch_queue (touch_key x)) xs (queue h1 l1)"
      "\<forall>k. refs h' m k + held h1 l1 k = refs h1 m k + held h' l' k"
    using Cons.IH [OF t(1,2) Cons.prems(3)] by blast
  have "refs h' m y + held h l y = refs h m y + held h' l' y" for y
    using bal [of y] spec [OF r(7), of y] by linarith
  moreover have "lru_run get_element (x # xs) l m h = Some (l', m, h')" using s(1) r(1) by simp
  moreover have "queue h' l' = fold (\<lambda>x. touch_queue (touch_key x)) (x # xs) (queue h l)"
    using r(6) t(5) by simp
  moreover have "lsize l' = lsize l" using r(4) t(3) by simp
  ultimately show ?case using r(2,3) frame_trans [OF t(4) r(5)] by blast
qed

lemma map_release_items_same:
  "release_items l i n m h = Some (m', h') \<Longrightarrow> limpl l = cx_lru_rc_map \<Longrightarrow> m' = m"
proof (induction n arbitrary: i m h)
  case (Suc n)
  obtain key m1 h1 where k: "load_item l (of_nat i) h = Some key" "release_key l key m h = Some (m1, h1)"
      "release_items l (Suc i) n m1 h1 = Some (m', h')"
    using Suc.prems(1) by (auto simp: bind_Some_iff)
  have "m1 = m" using k(2) Suc.prems(2) by (auto simp: release_key_def bind_Some_iff dest: map_release_same split: if_splits)
  then show ?case using Suc.IH [OF k(3) Suc.prems(2)] by simp
qed simp

lemma map_cleanup_same:
  "cx_lru_cleanup l m h = Some (rv, l', m', h') \<Longrightarrow> limpl l = cx_lru_rc_map \<Longrightarrow> m' = m"
  by (auto simp: cx_lru_cleanup_def bind_Some_iff dest: map_release_items_same)

section \<open>Properties\<close>

text \<open>For the witnesses: a ring of two on the map of \<open>demo_map\<close>.\<close>

definition demo_ring :: "rc_map lru" where
  "demo_ring = \<lparr>limpl = cx_lru_rc_map, litems = 200, lring_index = 0, lsize = 2\<rparr>"

definition demo_ring_heap :: heap where
  "demo_ring_heap = set_bytes 200 (replicate 16 255)
     (demo_map_heap\<lparr>blocks := (200, 16) # blocks demo_map_heap, answers := []\<rparr>)"

lemma demo_ring_items: "items demo_ring_heap demo_ring = [EMPTY_MARKER, EMPTY_MARKER]"
proof -
  have n: "unat (lsize demo_ring) = 2" "litems demo_ring = 200" by (simp_all add: demo_ring_def)
  have "replicate 2 EMPTY_MARKER = [EMPTY_MARKER, EMPTY_MARKER]" by (simp add: numeral_2_eq_2)
  then show ?thesis using items_marked [of demo_ring 16] n by (simp add: demo_ring_heap_def)
qed

lemma demo_ring_refs: "refs demo_ring_heap demo_map = refs demo_map_heap demo_map"
proof -
  have "count_at demo_ring_heap demo_map i = count_at demo_map_heap demo_map i" if "i < 4" for i
    using that by (simp add: count_at_def int_at_def read_write_other demo_ring_heap_def set_bytes_def demo_map_def)
  then show ?thesis by (auto simp: refs_def demo_map_def word_less_nat_alt)
qed

lemma demo_ring_inv: "map_inv demo_ring_heap demo_ring demo_map"
proof -
  have "\<forall>i < 4. 0 \<le> count_at demo_ring_heap demo_map i"
    using demo_map_ok
    by (simp add: count_at_def int_at_def read_write_other demo_ring_heap_def set_bytes_def demo_map_def map_ok_def)
  then have "map_ok demo_ring_heap demo_map"
    using test_deinit_local
    by (simp add: map_ok_def own_map_def demo_map_def demo_ring_heap_def demo_map_heap_def heap_ok_def fits_def heap_simps)
  moreover have "held demo_ring_heap demo_ring k = 0" for k
    by (simp add: held_def demo_ring_items)
  ultimately show ?thesis
    by (simp add: lru_inv_def ring_ok_def own_lru_def demo_ring_def own_map_def demo_map_def demo_ring_heap_def
        demo_map_heap_def heap_simps map_ok_def word_less_nat_alt)
qed

text \<open>
  C3. The cache is a queue with reference counts: any sequence of touches, by key or by
  element address, of keys that somebody else holds too runs without undefined behaviour,
  leaves the ring holding what the queue specification says in eviction order, and for
  every key the count of the map minus the references of the cache, which is what the other
  clients hold, is as before. Nothing but the ring and the map changes.
\<close>

theorem lru_touches_refine_queue:
  assumes "map_inv h l m" "limpl l = cx_lru_rc_map" "relement_size m \<noteq> 0"
    and "\<forall>x \<in> set xs. held h l (touch_key x) < refs h m (touch_key x) \<and>
           refs h m (touch_key x) + length xs < 2 ^ 31"
  shows "\<exists>l' h'. lru_run get_element xs l m h = Some (l', m, h') \<and> map_inv h' l' m \<and>
    frame (own_lru l \<union> own_map m) (own_lru l' \<union> own_map m) h h' \<and>
    queue h' l' = fold (\<lambda>x. touch_queue (touch_key x)) xs (queue h l) \<and>
    (\<forall>k. refs h' m k - held h' l' k = refs h m k - held h l k)"
proof -
  have le: "held h' l' k \<le> refs h' m k" if "map_inv h' l' m" for h' l' k
    using that by (simp add: lru_inv_def)
  obtain l' h' where r: "lru_run get_element xs l m h = Some (l', m, h')" "map_inv h' l' m"
      "frame (own_lru l \<union> own_map m) (own_lru l' \<union> own_map m) h h'"
      "queue h' l' = fold (\<lambda>x. touch_queue (touch_key x)) xs (queue h l)"
      "\<forall>k. refs h' m k + held h l k = refs h m k + held h' l' k"
    using lru_run_spec [OF assms] by blast
  have "refs h' m k - held h' l' k = refs h m k - held h l k" for k
    using spec [OF r(5), of k] le [OF assms(1), of k] le [OF r(2), of k] by linarith
  then show ?thesis using r by blast
qed

theorem lru_touches_refine_queue_witness:
  "\<exists>l' h'. lru_run get_element [Touch 1, TouchValue 1] demo_ring demo_map demo_ring_heap = Some (l', demo_map, h') \<and>
     queue h' l' = [EMPTY_MARKER, 1]"
proof -
  have q: "queue demo_ring_heap demo_ring = [EMPTY_MARKER, EMPTY_MARKER]"
    by (simp add: queue_def demo_ring_items) (simp add: demo_ring_def)
  have "limpl demo_ring = cx_lru_rc_map" "relement_size demo_map \<noteq> 0"
    "\<forall>x \<in> set [Touch 1, TouchValue 1]. held demo_ring_heap demo_ring (touch_key x) < refs demo_ring_heap demo_map (touch_key x) \<and>
       refs demo_ring_heap demo_map (touch_key x) + length [Touch 1, TouchValue 1] < 2 ^ 31"
    by (simp_all add: demo_ring_def demo_map_def) (simp_all add: held_def demo_ring_items demo_ring_refs demo_refs flip: demo_map_def demo_ring_def)
  from lru_touches_refine_queue [OF demo_ring_inv this] show ?thesis
    by (auto simp: q touch_queue_def EMPTY_MARKER_def)
qed

text \<open>
  C12. A whole life of a cache on a map: \<^verbatim>\<open>cx_lru_init\<close> fails with
  \<^verbatim>\<open>-CX_ERR_ALLOC\<close> and leaks nothing, or any touches of live keys followed by
  \<^verbatim>\<open>cx_lru_cleanup\<close> give every reference back exactly once: all counts of the map
  are what they were before the cache existed, and no memory is left.
\<close>

theorem lru_lifetime_balanced:
  assumes m: "map_ok h m" "relement_size m \<noteq> 0"
    and live: "\<forall>x \<in> set xs. 0 < refs h m (touch_key x) \<and> refs h m (touch_key x) + length xs < 2 ^ 31"
  shows "\<exists>rv l1 h1. cx_lru_init l n cx_lru_rc_map h = Some (rv, l1, h1) \<and>
    (if rv \<noteq> 0 then rv = - err_code CX_ERR_ALLOC \<and> frame {} {} h h1
     else \<exists>l2 h2 l3 h3. lru_run get_element xs l1 m h1 = Some (l2, m, h2) \<and>
       cx_lru_cleanup l2 m h2 = Some (0, l3, m, h3) \<and> refs h3 m = refs h m \<and>
       frame (own_map m) (own_map m) h h3)"
proof -
  obtain rv l1 h1 where i: "cx_lru_init l n cx_lru_rc_map h = Some (rv, l1, h1)" "limpl l1 = cx_lru_rc_map"
      "(rv = 0 \<and> map_inv h1 l1 m \<and> frame {} (own_lru l1) h h1 \<and> queue h1 l1 = replicate (unat n) EMPTY_MARKER) \<or>
       (rv = - err_code CX_ERR_ALLOC \<and> map_ok h1 m \<and> frame {} {} h h1)" "refs h1 m = refs h m"
    using rcm.lru_init_spec [OF m(1), of l n] by blast
  show ?thesis
  proof (cases "rv = 0")
    case False
    then show ?thesis using i by auto
  next
    case True
    then have inv: "map_inv h1 l1 m" and f1: "frame {} (own_lru l1) h h1"
      and q: "queue h1 l1 = replicate (unat n) EMPTY_MARKER" using i(3) by auto
    have none: "held h1 l1 k = 0" for k by (simp add: held_queue q count_list_0_iff)
    have "\<forall>x \<in> set xs. held h1 l1 (touch_key x) < refs h1 m (touch_key x) \<and> refs h1 m (touch_key x) + length xs < 2 ^ 31"
      using live by (simp add: none i(4))
    then obtain l2 h2 where r: "lru_run get_element xs l1 m h1 = Some (l2, m, h2)" "map_inv h2 l2 m" "limpl l2 = cx_lru_rc_map"
        "frame (own_lru l1 \<union> own_map m) (own_lru l2 \<union> own_map m) h1 h2"
        "\<forall>k. refs h2 m k + held h1 l1 k = refs h1 m k + held h2 l2 k"
      using lru_run_spec [OF inv i(2) m(2)] by blast
    obtain l3 m3 h3 where c: "cx_lru_cleanup l2 m h2 = Some (0, l3, m3, h3)"
        "frame (own_lru l2 \<union> own_map m) (own_map m3) h2 h3" "refs h3 m3 = (\<lambda>k. refs h2 m k - held h2 l2 k)"
      using rcm.lru_cleanup_spec [OF r(2,3)] by blast
    have m3: "m3 = m" by (rule map_cleanup_same [OF c(1) r(3)])
    have "frame (own_map m) (own_lru l1 \<union> own_map m) h h1"
      using frame_extend [OF f1, of "own_map m"] m(1) by (simp add: map_ok_def)
    then have "frame (own_map m) (own_map m) h h3"
      using frame_trans [OF _ frame_trans [OF r(4) c(2)]] m3 by blast
    moreover have "refs h3 m = refs h m" using c(3) r(5) m3 i(4) none by auto
    ultimately show ?thesis using True i(1) r(1) c(1) m3 by auto
  qed
qed

theorem lru_lifetime_balanced_witness:
  "\<exists>rv l1 h1. cx_lru_init demo_ring 2 cx_lru_rc_map demo_map_heap = Some (rv, l1, h1) \<and>
     (rv = 0 \<longrightarrow> (\<exists>l2 h2 l3 h3. lru_run get_element [Touch 1, TouchValue 1] l1 demo_map h1 = Some (l2, demo_map, h2) \<and>
        cx_lru_cleanup l2 demo_map h2 = Some (0, l3, demo_map, h3) \<and> refs h3 demo_map 1 = 2))"
proof -
  have "relement_size demo_map \<noteq> 0" by (simp add: demo_map_def)
  moreover have "\<forall>x \<in> set [Touch 1, TouchValue 1]. 0 < refs demo_map_heap demo_map (touch_key x) \<and>
      refs demo_map_heap demo_map (touch_key x) + length [Touch 1, TouchValue 1] < 2 ^ 31"
    by (simp add: demo_refs)
  ultimately show ?thesis
    using lru_lifetime_balanced [OF demo_map_ok, of "[Touch 1, TouchValue 1]" demo_ring 2] demo_refs(1)
    by (fastforce split: if_splits)
qed

text \<open>
  Touching the key that is next to be evicted does not mark it as recently used, against
  what the header promises: the touch is ignored, the next touch of another key evicts it and
  drops the cache's reference to it.
\<close>

theorem lru_oldest_key_not_refreshed:
  assumes "map_inv h l m" "limpl l = cx_lru_rc_map" "queue h l = a # q" "q \<noteq> []" "a \<noteq> EMPTY_MARKER"
    and "d \<noteq> a" "last q \<noteq> d" "0 < refs h m d" "refs h m d < 2 ^ 31 - 1"
  shows "\<exists>l1 l2 h2. cx_lru_touch l a m h = Some (0, l1, m, h) \<and>
    cx_lru_touch l1 d m h = Some (0, l2, m, h2) \<and> queue h2 l2 = q @ [d] \<and>
    refs h2 m a = refs h m a - 1"
proof -
  have "touch_queue a (queue h l) = queue h l" using assms(3) by (simp add: touch_queue_def)
  then have "cx_lru_touch l a m h = Some (0, l, m, h)"
    using rcm.touch_rejected_done(1) [OF assms(1)] by (simp add: cx_lru_touch_def)
  moreover obtain l2 m2 h2 where t: "cx_lru_touch l d m h = Some (0, l2, m2, h2)" "map_touched d h l m h2 l2 m2"
    using rcm.touch_spec [OF assms(1,2,8,9)] by blast
  moreover have "m2 = m" using lru_step_same_map [of l get_element "Touch d"] t(1) assms(2) by simp
  moreover have q: "touch_queue d (queue h l) = q @ [d]" using assms(3,4,6,7) by (simp add: touch_queue_def)
  moreover have "q @ [d] \<noteq> a # q" using assms(4,7) by (metis last_ConsR last_snoc)
  ultimately show ?thesis
    using assms(3,5,6) by (auto simp: touch_done_def touched_def evicted_def)
qed

definition full_ring_heap :: heap where
  "full_ring_heap = demo_map_heap\<lparr>blocks := (200, 16) # blocks demo_map_heap,
     mem := (\<lambda>a. if a = 20 then 2 else if a \<in> {24, 28, 200} then 1 else if a = 208 then 2 else 0)\<rparr>"

lemma full_ring:
  "map_inv full_ring_heap (demo_ring\<lparr>lring_index := 1\<rparr>) demo_map"
  "queue full_ring_heap (demo_ring\<lparr>lring_index := 1\<rparr>) = [1, 2]"
  "refs full_ring_heap demo_map 3 = 1"
proof -
  let ?l = "demo_ring\<lparr>lring_index := 1\<rparr>"
  have c: "count_at full_ring_heap demo_map 0 = 0" "count_at full_ring_heap demo_map 1 = 2"
      "count_at full_ring_heap demo_map 2 = 1" "count_at full_ring_heap demo_map 3 = 1"
    by (simp_all add: count_at_def int_at_def read_mem_def full_ring_heap_def demo_map_def upt_rec)
  have "i < 4 \<Longrightarrow> i = 0 \<or> i = 1 \<or> i = 2 \<or> i = 3" for i :: nat by linarith
  then have "\<forall>i < 4. 0 \<le> count_at full_ring_heap demo_map i" using c by force
  then have ok: "map_ok full_ring_heap demo_map" using test_deinit_local
    by (simp add: map_ok_def own_map_def demo_map_def full_ring_heap_def demo_map_heap_def heap_ok_def fits_def)
  have it: "items full_ring_heap ?l = [1, 2]"
    by (simp add: items_def u64_at_def read_mem_def full_ring_heap_def demo_ring_def upt_rec)
  then show "queue full_ring_heap ?l = [1, 2]" by (simp add: queue_def)
  have r: "refs full_ring_heap demo_map 1 = 2" "refs full_ring_heap demo_map 2 = 1"
    using c by (simp_all add: refs_def demo_map_def word_less_nat_alt)
  show "refs full_ring_heap demo_map 3 = 1"
    using c by (simp add: refs_def demo_map_def word_less_nat_alt)
  have "held full_ring_heap ?l k \<le> refs full_ring_heap demo_map k" for k
    using r by (auto simp: held_def it)
  then show "map_inv full_ring_heap ?l demo_map" using ok
    by (simp add: lru_inv_def ring_ok_def own_lru_def demo_ring_def own_map_def demo_map_def full_ring_heap_def
        demo_map_heap_def map_ok_def word_less_nat_alt)
qed

theorem lru_oldest_key_not_refreshed_witness:
  "\<exists>l1 l2 h2. cx_lru_touch (demo_ring\<lparr>lring_index := 1\<rparr>) 1 demo_map full_ring_heap = Some (0, l1, demo_map, full_ring_heap) \<and>
     cx_lru_touch l1 3 demo_map full_ring_heap = Some (0, l2, demo_map, h2) \<and> queue h2 l2 = [2, 3]"
  using lru_oldest_key_not_refreshed [OF full_ring(1) _ full_ring(2), of 3]
  by (auto simp: demo_ring_def EMPTY_MARKER_def full_ring(3))

text \<open>
  A failed \<^verbatim>\<open>cx_lru_init\<close> leaves the size set beside null items, so that
  \<^verbatim>\<open>cx_lru_cleanup\<close> (and any touch) of the failed cache is undefined behaviour.
\<close>

theorem lru_init_failure_leaves_size:
  assumes "answers h = []" "n \<noteq> 0" "heap_ok h"
  shows "\<exists>l'. cx_lru_init l n impl h = Some (- err_code CX_ERR_ALLOC, l', h) \<and> lsize l' = n \<and>
    cx_lru_cleanup l' b h = None \<and> cx_lru_touch l' k b h = None"
proof -
  let ?l = "l\<lparr>limpl := impl, lsize := n, litems := 0, lring_index := 0\<rparr>"
  have i: "cx_lru_init l n impl h = Some (- err_code CX_ERR_ALLOC, ?l, h)"
    using assms(1,2) by (simp add: cx_lru_init_def calloc_def malloc_def)
  have "\<not> valid h 0 8" using assms(3) by (auto simp: valid_def list_ex_iff dest: heap_ok_range)
  then have "load_item ?l 0 h = None" by (simp add: load_item_def load_u64_def load_bytes_def)
  moreover obtain j where "unat n = Suc j" using assms(2) by (metis not0_implies_Suc unat_eq_zero)
  ultimately have "cx_lru_cleanup ?l b h = None" "cx_lru_touch ?l k b h = None"
    using assms(2) by (simp_all add: cx_lru_cleanup_def cx_lru_touch_def try_touch_def)
  then show ?thesis using i by auto
qed

theorem lru_init_failure_leaves_size_witness:
  "\<exists>l'. cx_lru_init demo_ring 2 cx_lru_rc_map (demo_map_heap\<lparr>answers := []\<rparr>) =
      Some (- err_code CX_ERR_ALLOC, l', demo_map_heap\<lparr>answers := []\<rparr>) \<and> cx_lru_cleanup l' demo_map (demo_map_heap\<lparr>answers := []\<rparr>) = None"
proof -
  have "heap_ok (demo_map_heap\<lparr>answers := []\<rparr>)" using demo_map_ok by (simp add: map_ok_def heap_ok_def)
  then show ?thesis using lru_init_failure_leaves_size [of "demo_map_heap\<lparr>answers := []\<rparr>" 2] by fastforce
qed

end
