(* ===== verification/RcHashMap.thy ===== *)
theory RcHashMap
  imports RcMap
begin

text \<open>
  \<^verbatim>\<open>lib/collection/rc_hash_map.c\<close>: \<^verbatim>\<open>struct CxRcHashMap\<close>, an open-addressing
  hash table on \<^verbatim>\<open>CxRcMap\<close>s. When all slots a key may take are in use, a further
  table is added. The array of tables is a heap object; its elements, the
  \<^verbatim>\<open>struct CxRcHashMapInner\<close>s, are a list in the model, and the keys of a table are an
  array of words on the heap.
\<close>

section \<open>State and operations\<close>

record hash_inner =
  hkeys :: addr
  hvalues :: rc_map

record rc_hash_map =
  hash_maps :: addr
  hinners :: "hash_inner list"
  hash_map_count :: u64
  map_size :: u64
  helement_size :: u64
  hcleanup :: cleanup_fn

definition MAX_COLLISIONS :: nat where
  "MAX_COLLISIONS = 5"

definition djb2_hash :: "u8 list \<Rightarrow> u64" where
  "djb2_hash data = foldl (\<lambda>hash b. (push_bit 5 hash + hash) + ucast b) 5381 data"

text \<open>The hash of the bytes of the key; the remainder is undefined for an empty table.\<close>

definition key_to_index :: "u64 \<Rightarrow> u64 \<Rightarrow> u64 option" where
  "key_to_index key n =
     (if n = 0 then None else Some (push_bit 2 (djb2_hash (le_bytes 8 key)) mod n))"

text \<open>
  \<open>junk\<close> is what the memory of the new, uninitialised element holds.
  \<^verbatim>\<open>sizeof(struct CxRcHashMapInner)\<close> is 56. A null result of \<^verbatim>\<open>realloc\<close> is
  dereferenced.
\<close>

definition extend_hash_map :: "rc_map \<Rightarrow> rc_hash_map \<Rightarrow> heap \<Rightarrow> (int \<times> rc_hash_map \<times> heap) option" where
  "extend_hash_map junk hash_map h =
     (let (overflow, new_size) = add_overflow (hash_map_count hash_map) 1 in
      if overflow then Some (- err_code CX_ERR_INTEGER_OVERFLOW, hash_map, h)
      else
        let hash_map = hash_map\<lparr>hash_map_count := new_size\<rparr>;
            (overflow, new_size) = mul_overflow new_size 56
        in
        if overflow then Some (- err_code CX_ERR_INTEGER_OVERFLOW, hash_map, h)
        else do {
          (p, h) \<leftarrow> realloc (hash_maps hash_map) (unat new_size) h;
          if p = 0 then None
          else do {
            let (keys, h) = calloc (map_size hash_map) 8 h;
            let hash_map = hash_map\<lparr>hash_maps := p\<rparr>;
            if keys = 0
            then Some (- err_code CX_ERR_ALLOC,
                   hash_map\<lparr>hinners := hinners hash_map @ [\<lparr>hkeys = 0, hvalues = junk\<rparr>]\<rparr>, h)
            else do {
              (rv, values, h) \<leftarrow> cx_rc_map_init junk (map_size hash_map) (helement_size hash_map) (hcleanup hash_map) h;
              Some (rv, hash_map\<lparr>hinners := hinners hash_map @ [\<lparr>hkeys = keys, hvalues = values\<rparr>]\<rparr>, h)
            }
          }
        })"

definition cx_rc_hash_map_init ::
  "rc_map \<Rightarrow> rc_hash_map \<Rightarrow> u64 \<Rightarrow> u64 \<Rightarrow> cleanup_fn \<Rightarrow> heap \<Rightarrow> (int \<times> rc_hash_map \<times> heap) option" where
  "cx_rc_hash_map_init junk hash_map n element_size cleanup h =
     extend_hash_map junk (hash_map\<lparr>hash_maps := 0, hinners := [], hash_map_count := 0, map_size := n,
       helement_size := element_size, hcleanup := cleanup\<rparr>) h"

text \<open>The size of the first table, from which every operation starts.\<close>

definition first_size :: "rc_hash_map \<Rightarrow> u64 option" where
  "first_size hash_map = (case hinners hash_map of [] \<Rightarrow> None | x # _ \<Rightarrow> Some (cx_rc_map_size (hvalues x)))"

text \<open>
  The nested loops over the probed indices and the tables, with the condition of the
  \<^verbatim>\<open>if\<close> in their middle as a parameter. The result is the table and the index at which
  the search ends.
\<close>

fun find_table :: "(hash_inner \<Rightarrow> u64 \<Rightarrow> heap \<Rightarrow> bool option) \<Rightarrow> u64 \<Rightarrow> nat \<Rightarrow> hash_inner list \<Rightarrow> heap \<Rightarrow> nat option option" where
  "find_table test index j [] h = Some None"
| "find_table test index j (x # xs) h = do {
     b \<leftarrow> test x index h;
     if b then Some (Some j) else find_table test index (Suc j) xs h
   }"

fun find_slot ::
  "(hash_inner \<Rightarrow> u64 \<Rightarrow> heap \<Rightarrow> bool option) \<Rightarrow> hash_inner list \<Rightarrow> u64 \<Rightarrow> u64 \<Rightarrow> nat \<Rightarrow> heap \<Rightarrow> (nat \<times> u64) option option" where
  "find_slot test xs n index 0 h = Some None"
| "find_slot test xs n index (Suc k) h = do {
     let index = index mod n;
     r \<leftarrow> find_table test index 0 xs h;
     case r of Some j \<Rightarrow> Some (Some (j, index)) | None \<Rightarrow> find_slot test xs n (index + 1) k h
   }"

definition load_key :: "hash_inner \<Rightarrow> u64 \<Rightarrow> heap \<Rightarrow> u64 option" where
  "load_key x index h = load_u64 (hkeys x + 8 * unat index) h"

definition key_at :: "u64 \<Rightarrow> hash_inner \<Rightarrow> u64 \<Rightarrow> heap \<Rightarrow> bool option" where
  "key_at key x index h = do { k \<leftarrow> load_key x index h; Some (k = key) }"

definition free_or_key_at :: "u64 \<Rightarrow> hash_inner \<Rightarrow> u64 \<Rightarrow> heap \<Rightarrow> bool option" where
  "free_or_key_at key x index h = do {
     empty \<leftarrow> cx_rc_map_is_empty (hvalues x) index h;
     if empty then Some True else key_at key x index h
   }"

definition cx_rc_hash_map_put ::
  "rc_map \<Rightarrow> rc_hash_map \<Rightarrow> u64 \<Rightarrow> addr \<Rightarrow> heap \<Rightarrow> (addr \<times> rc_hash_map \<times> heap) option" where
  "cx_rc_hash_map_put junk hash_map key data h = do {
     n \<leftarrow> first_size hash_map;
     orig_index \<leftarrow> key_to_index key n;
     slot \<leftarrow> find_slot (free_or_key_at key) (hinners hash_map) n orig_index (min (unat n) MAX_COLLISIONS) h;
     let found = (\<lambda>hash_map j index h. do {
        let x = hinners hash_map ! j;
        h \<leftarrow> store_u64 (hkeys x + 8 * unat index) key h;
        (p, h) \<leftarrow> cx_rc_map_set (hvalues x) index data h;
        Some (p, hash_map, h)
     });
     case slot of
       Some (j, index) \<Rightarrow> found hash_map j index h
     | None \<Rightarrow> do {
         (rv, hash_map, h) \<leftarrow> extend_hash_map junk hash_map h;
         if rv < 0 then Some (0, hash_map, h)
         else found hash_map (unat (hash_map_count hash_map) - 1) orig_index h
       }
   }"

definition cx_rc_hash_map_size :: "rc_hash_map \<Rightarrow> u64 option" where
  "cx_rc_hash_map_size hash_map = map_option (\<lambda>n. n * hash_map_count hash_map) (first_size hash_map)"

definition cx_rc_hash_map_retain :: "rc_hash_map \<Rightarrow> u64 \<Rightarrow> heap \<Rightarrow> (addr \<times> heap) option" where
  "cx_rc_hash_map_retain hash_map key h = do {
     n \<leftarrow> first_size hash_map;
     index \<leftarrow> key_to_index key n;
     slot \<leftarrow> find_slot (key_at key) (hinners hash_map) n index (min (unat n) MAX_COLLISIONS) h;
     case slot of
       Some (j, index) \<Rightarrow> cx_rc_map_retain (hvalues (hinners hash_map ! j)) index h
     | None \<Rightarrow> Some (0, h)
   }"

fun release_in :: "hash_inner list \<Rightarrow> addr \<Rightarrow> heap \<Rightarrow> (int \<times> heap) option" where
  "release_in [] element h = Some (- err_code CX_ERR_NOT_FOUND, h)"
| "release_in (x # xs) element h =
     (if cx_rc_map_contains (hvalues x) element then cx_rc_map_release (hvalues x) element h
      else release_in xs element h)"

definition cx_rc_hash_map_release :: "rc_hash_map \<Rightarrow> addr \<Rightarrow> heap \<Rightarrow> (int \<times> heap) option" where
  "cx_rc_hash_map_release hash_map element h = release_in (hinners hash_map) element h"

definition cx_rc_hash_map_release_key :: "rc_hash_map \<Rightarrow> u64 \<Rightarrow> heap \<Rightarrow> (int \<times> heap) option" where
  "cx_rc_hash_map_release_key hash_map key h = do {
     n \<leftarrow> first_size hash_map;
     index \<leftarrow> key_to_index key n;
     slot \<leftarrow> find_slot (key_at key) (hinners hash_map) n index (unat n) h;
     case slot of
       Some (j, index) \<Rightarrow> cx_rc_map_release_index (hvalues (hinners hash_map ! j)) index h
     | None \<Rightarrow> Some (0, h)
   }"

fun cleanup_inners :: "hash_inner list \<Rightarrow> heap \<Rightarrow> heap option" where
  "cleanup_inners [] h = Some h"
| "cleanup_inners (x # xs) h = do {
     h \<leftarrow> free (hkeys x) h;
     (_, _, h) \<leftarrow> cx_rc_map_cleanup (hvalues x) h;
     cleanup_inners xs h
   }"

definition cx_rc_hash_map_cleanup :: "rc_hash_map \<Rightarrow> heap \<Rightarrow> (int \<times> heap) option" where
  "cx_rc_hash_map_cleanup hash_map h = do {
     h \<leftarrow> cleanup_inners (hinners hash_map) h;
     h \<leftarrow> free (hash_maps hash_map) h;
     Some (0, h)
   }"

section \<open>The hash map as an LRU backend\<close>

definition lru_rc_hash_map_retain :: "rc_hash_map \<Rightarrow> u64 \<Rightarrow> heap \<Rightarrow> (addr \<times> rc_hash_map \<times> heap) option" where
  "lru_rc_hash_map_retain backend index h = do {
     (p, h) \<leftarrow> cx_rc_hash_map_retain backend index h;
     Some (p, backend, h)
   }"

definition lru_rc_hash_map_release :: "rc_hash_map \<Rightarrow> u64 \<Rightarrow> heap \<Rightarrow> (int \<times> rc_hash_map \<times> heap) option" where
  "lru_rc_hash_map_release backend index h = do {
     (rv, h) \<leftarrow> cx_rc_hash_map_release_key backend index h;
     Some (rv, backend, h)
   }"

definition cx_lru_rc_hash_map :: "rc_hash_map lru_impl" where
  "cx_lru_rc_hash_map = \<lparr>impl_retain = lru_rc_hash_map_retain, impl_retain_value = None,
     impl_release = lru_rc_hash_map_release\<rparr>"

section \<open>Invariant\<close>

definition own_keys :: "hash_inner \<Rightarrow> addr \<times> nat" where
  "own_keys x = (hkeys x, unat (rsize (hvalues x)) * 8)"

definition own_inner :: "hash_inner \<Rightarrow> (addr \<times> nat) set" where
  "own_inner x = insert (own_keys x) (own_map (hvalues x))"

definition own_array :: "rc_hash_map \<Rightarrow> addr \<times> nat" where
  "own_array m = (hash_maps m, unat (hash_map_count m) * 56)"

definition own_hm :: "rc_hash_map \<Rightarrow> (addr \<times> nat) set" where
  "own_hm m = insert (own_array m) (\<Union>x \<in> set (hinners m). own_inner x)"

definition inner_ok :: "heap \<Rightarrow> rc_hash_map \<Rightarrow> hash_inner \<Rightarrow> bool" where
  "inner_ok h m x \<longleftrightarrow> map_ok h (hvalues x) \<and> own_keys x \<in> set (blocks h) \<and> own_keys x \<notin> own_map (hvalues x) \<and>
     rsize (hvalues x) = map_size m \<and> relement_size (hvalues x) = helement_size m \<and> rcleanup (hvalues x) = hcleanup m"

definition hm_ok :: "heap \<Rightarrow> rc_hash_map \<Rightarrow> bool" where
  "hm_ok h m \<longleftrightarrow> heap_ok h \<and> hinners m \<noteq> [] \<and> length (hinners m) = unat (hash_map_count m) \<and>
     map_size m \<noteq> 0 \<and> own_array m \<in> set (blocks h) \<and>
     (\<forall>x \<in> set (hinners m). inner_ok h m x \<and> own_array m \<notin> own_inner x) \<and>
     (\<forall>i < length (hinners m). \<forall>j < length (hinners m). i \<noteq> j \<longrightarrow>
        own_inner (hinners m ! i) \<inter> own_inner (hinners m ! j) = {})"

text \<open>A slot is a table and an index in it.\<close>

definition slot_ok :: "rc_hash_map \<Rightarrow> nat \<times> u64 \<Rightarrow> bool" where
  "slot_ok m s \<longleftrightarrow> fst s < length (hinners m) \<and> snd s < map_size m"

definition slot_key :: "heap \<Rightarrow> rc_hash_map \<Rightarrow> nat \<times> u64 \<Rightarrow> u64" where
  "slot_key h m s = u64_at h (hkeys (hinners m ! fst s) + 8 * unat (snd s))"

definition slot_refs :: "heap \<Rightarrow> rc_hash_map \<Rightarrow> nat \<times> u64 \<Rightarrow> nat" where
  "slot_refs h m s = refs h (hvalues (hinners m ! fst s)) (snd s)"

lemma hm_inner:
  assumes "hm_ok h m" "j < length (hinners m)"
  shows "inner_ok h m (hinners m ! j)" "map_ok h (hvalues (hinners m ! j))"
    "rsize (hvalues (hinners m ! j)) = map_size m" "relement_size (hvalues (hinners m ! j)) = helement_size m"
    "own_inner (hinners m ! j) \<subseteq> set (blocks h)" "own_inner (hinners m ! j) \<subseteq> own_hm m"
    "own_map (hvalues (hinners m ! j)) \<subseteq> own_inner (hinners m ! j)"
proof -
  show i: "inner_ok h m (hinners m ! j)" using assms by (simp add: hm_ok_def)
  then show "map_ok h (hvalues (hinners m ! j))" "rsize (hvalues (hinners m ! j)) = map_size m"
    "relement_size (hvalues (hinners m ! j)) = helement_size m"
    "own_inner (hinners m ! j) \<subseteq> set (blocks h)"
    by (auto simp: inner_ok_def own_inner_def map_ok_def)
  show "own_inner (hinners m ! j) \<subseteq> own_hm m" using assms(2) by (auto simp: own_hm_def)
  show "own_map (hvalues (hinners m ! j)) \<subseteq> own_inner (hinners m ! j)" by (auto simp: own_inner_def)
qed

lemma hm_own_sub: "hm_ok h m \<Longrightarrow> own_hm m \<subseteq> set (blocks h)"
  by (auto simp: own_hm_def hm_ok_def inner_ok_def own_inner_def map_ok_def)

lemma key_block:
  assumes "hm_ok h m" "slot_ok m s"
  shows "(hkeys (hinners m ! fst s), unat (map_size m) * 8) \<in> set (blocks h)"
    "hkeys (hinners m ! fst s) + 8 * unat (snd s) + 8 \<le> hkeys (hinners m ! fst s) + unat (map_size m) * 8"
    "own_keys (hinners m ! fst s) = (hkeys (hinners m ! fst s), unat (map_size m) * 8)"
  using assms hm_inner [OF assms(1), of "fst s"]
  by (auto simp: slot_ok_def inner_ok_def own_keys_def word_less_nat_alt)

lemma key_valid: "hm_ok h m \<Longrightarrow> slot_ok m s \<Longrightarrow> valid h (hkeys (hinners m ! fst s) + 8 * unat (snd s)) 8"
  using key_block [of h m s] by (intro valid_block) auto

text \<open>A step that stays inside one table leaves the keys and the counts of the others alone.\<close>

lemma inner_outside:
  assumes f: "frame X Y h h'" and ok: "inner_ok h m x" and dis: "own_inner x \<inter> X = {}" and i: "i < map_size m"
  shows "inner_ok h' m x" "refs h' (hvalues x) = refs h (hvalues x)"
    "u64_at h' (hkeys x + 8 * unat i) = u64_at h (hkeys x + 8 * unat i)"
proof -
  have m: "map_ok h (hvalues x)" and d: "own_map (hvalues x) \<inter> X = {}"
    and k: "own_keys x \<in> set (blocks h)" "own_keys x \<notin> X"
    using ok dis by (auto simp: inner_ok_def own_inner_def)
  note out = map_outside [OF f m d]
  show "refs h' (hvalues x) = refs h (hvalues x)" by (rule out(2))
  show "inner_ok h' m x" using ok out(1) frame_mem [OF f k] by (simp add: inner_ok_def)
  show "u64_at h' (hkeys x + 8 * unat i) = u64_at h (hkeys x + 8 * unat i)"
    by (rule bytes_at_u64, rule frame_bytes [OF f, of "hkeys x" "unat (map_size m) * 8"])
      (use k ok i in \<open>auto simp: own_keys_def inner_ok_def word_less_nat_alt\<close>)
qed

lemma hm_step:
  assumes ok: "hm_ok h m" and j: "j < length (hinners m)" and f: "frame X X h h'"
    and X: "X \<inter> own_hm m \<subseteq> own_inner (hinners m ! j)" and inner: "inner_ok h' m (hinners m ! j)"
  shows "hm_ok h' m"
    "\<And>s. slot_ok m s \<Longrightarrow> fst s \<noteq> j \<Longrightarrow> slot_key h' m s = slot_key h m s \<and> slot_refs h' m s = slot_refs h m s"
    "X \<subseteq> own_hm m \<Longrightarrow> frame (own_hm m) (own_hm m) h h'"
proof -
  note O = ok [unfolded hm_ok_def]
  have dis: "own_inner (hinners m ! i) \<inter> X = {}" if "i < length (hinners m)" "i \<noteq> j" for i
    using O that j X hm_inner(6) [OF ok that(1)] by blast
  have other: "inner_ok h' m (hinners m ! i)" if "i < length (hinners m)" for i
  proof (cases "i = j")
    case False
    have "0 < map_size m" using O by (simp add: word_gt_0)
    then show ?thesis using inner_outside(1) [OF f hm_inner(1) [OF ok that(1)] dis [OF that(1) False]] by simp
  qed (use inner in simp)
  have "own_array m \<notin> X" using O j X by (auto simp: own_hm_def)
  then have "own_array m \<in> set (blocks h')" using frame_mem [OF f] O by blast
  then show "hm_ok h' m"
    using O other frame_heap_ok [OF f] unfolding hm_ok_def by (metis in_set_conv_nth)
  show "slot_key h' m s = slot_key h m s \<and> slot_refs h' m s = slot_refs h m s" if "slot_ok m s" "fst s \<noteq> j" for s
    using inner_outside [OF f hm_inner(1) [OF ok] dis, of "fst s" "snd s"] that
    by (simp add: slot_ok_def slot_key_def slot_refs_def)
  show "frame (own_hm m) (own_hm m) h h'" if "X \<subseteq> own_hm m"
  proof -
    have "frame (X \<union> (own_hm m - X)) (X \<union> (own_hm m - X)) h h'"
      by (rule frame_extend [OF f]) (use hm_own_sub [OF ok] in auto)
    moreover have "X \<union> (own_hm m - X) = own_hm m" using that by auto
    ultimately show ?thesis by simp
  qed
qed

text \<open>In particular a step of the \<^verbatim>\<open>CxRcMap\<close> of one table.\<close>

lemma hm_value_step:
  assumes ok: "hm_ok h m" and j: "j < length (hinners m)"
    and f: "frame (own_map (hvalues (hinners m ! j)) \<union> Y) (own_map (hvalues (hinners m ! j)) \<union> Y) h h'"
    and Y: "Y \<inter> own_hm m = {}"
    and v: "map_ok h' (hvalues (hinners m ! j))"
  shows "hm_ok h' m"
    "\<And>s. slot_ok m s \<Longrightarrow> slot_key h' m s = slot_key h m s"
    "\<And>s. slot_ok m s \<Longrightarrow> fst s \<noteq> j \<Longrightarrow> slot_refs h' m s = slot_refs h m s"
    "Y = {} \<Longrightarrow> frame (own_hm m) (own_hm m) h h'"
proof -
  let ?x = "hinners m ! j"
  have i: "inner_ok h m ?x" by (rule hm_inner(1) [OF ok j])
  have k: "own_keys ?x \<in> set (blocks h)" "own_keys ?x \<notin> own_map (hvalues ?x) \<union> Y"
    using i Y hm_inner(6) [OF ok j] by (auto simp: inner_ok_def own_inner_def)
  have i': "inner_ok h' m ?x" using i v frame_mem [OF f k] by (simp add: inner_ok_def)
  have X: "(own_map (hvalues ?x) \<union> Y) \<inter> own_hm m \<subseteq> own_inner ?x" using Y hm_inner(7) [OF ok j] by blast
  note st = hm_step [OF ok j f X i']
  show "hm_ok h' m" by (rule st(1))
  show "frame (own_hm m) (own_hm m) h h'" if "Y = {}"
    using st(3) that hm_inner(6,7) [OF ok j] by blast
  show "slot_refs h' m s = slot_refs h m s" if "slot_ok m s" "fst s \<noteq> j" for s using st(2) that by blast
  show "slot_key h' m s = slot_key h m s" if s: "slot_ok m s" for s
  proof (cases "fst s = j")
    case True
    show ?thesis unfolding slot_key_def
      by (rule bytes_at_u64, rule frame_bytes [OF f, of "hkeys ?x" "unat (map_size m) * 8"])
        (use key_block [OF ok s] k True in auto)
  qed (use st(2) s in blast)
qed

section \<open>Probing\<close>

text \<open>The slots a search visits, in order.\<close>

fun probe :: "nat \<Rightarrow> u64 \<Rightarrow> u64 \<Rightarrow> nat \<Rightarrow> (nat \<times> u64) list" where
  "probe t n index 0 = []"
| "probe t n index (Suc k) = map (\<lambda>j. (j, index mod n)) [0..<t] @ probe t n (index mod n + 1) k"

lemma find_SomeD: "find P xs = Some s \<Longrightarrow> s \<in> set xs \<and> P s"
  by (induction xs) (auto split: if_splits)

lemma find_append: "find P (xs @ ys) = (case find P xs of None \<Rightarrow> find P ys | Some x \<Rightarrow> Some x)"
  by (induction xs) auto

lemma probe_add: "\<exists>i. probe t n index (a + b) = probe t n index a @ probe t n i b"
proof (induction a arbitrary: index)
  case (Suc a)
  then show ?case by (metis add_Suc append_assoc probe.simps(2))
qed auto

lemma find_probe_more:
  assumes "find P (probe t n index a) = Some s" "a \<le> b"
  shows "find P (probe t n index b) = Some s"
  using assms probe_add [of t n index a "b - a"] by (auto simp: find_append)

lemma probe_slots: "s \<in> set (probe t n index k) \<Longrightarrow> n \<noteq> 0 \<Longrightarrow> fst s < t \<and> snd s < n"
proof (induction k arbitrary: index)
  case (Suc k)
  have "index mod n < n" using Suc.prems(2) by (simp add: word_less_nat_alt unat_mod unat_gt_0)
  then show ?case using Suc by auto
qed simp

lemma find_table_eq:
  "(\<And>i. i < length ys \<Longrightarrow> test (ys ! i) index h = Some (P (j + i, index))) \<Longrightarrow>
   find_table test index j ys h = Some (map_option fst (find P (map (\<lambda>i. (i, index)) [j..<j + length ys])))"
proof (induction ys arbitrary: j)
  case (Cons y ys)
  have h: "test y index h = Some (P (j, index))" using Cons.prems [of 0] by simp
  have u: "[j..<j + length (y # ys)] = j # [Suc j..<Suc j + length ys]" by (simp add: upt_rec)
  have "find_table test index (Suc j) ys h =
      Some (map_option fst (find P (map (\<lambda>i. (i, index)) [Suc j..<Suc j + length ys])))"
    by (rule Cons.IH) (use Cons.prems [of "Suc i" for i] in auto)
  then show ?case using h unfolding u by simp
qed simp

lemma find_slot_eq:
  assumes "n \<noteq> 0" "\<And>s. s \<in> set (probe (length xs) n index k) \<Longrightarrow> test (xs ! fst s) (snd s) h = Some (P s)"
  shows "find_slot test xs n index k h = Some (find P (probe (length xs) n index k))"
  using assms(2)
proof (induction k arbitrary: index)
  case (Suc k)
  let ?i = "index mod n" and ?here = "map (\<lambda>j. (j, index mod n)) [0..<length xs]"
  have t: "find_table test ?i 0 xs h = Some (map_option fst (find P ?here))"
    using find_table_eq [of xs test ?i h P 0] Suc.prems by auto
  have r: "find_slot test xs n (?i + 1) k h = Some (find P (probe (length xs) n (?i + 1) k))"
    using Suc.prems by (intro Suc.IH) simp
  show ?case
  proof (cases "find P ?here")
    case None
    then show ?thesis using t r by (simp add: find_append)
  next
    case (Some s)
    then have "s \<in> set ?here" by (metis find_Some_iff nth_mem)
    then have "s = (fst s, ?i)" by auto
    then show ?thesis using t Some by (simp add: find_append)
  qed
qed simp

definition start_index :: "rc_hash_map \<Rightarrow> u64 \<Rightarrow> u64" where
  "start_index m key = push_bit 2 (djb2_hash (le_bytes 8 key)) mod map_size m"

definition probes :: "rc_hash_map \<Rightarrow> u64 \<Rightarrow> nat \<Rightarrow> (nat \<times> u64) list" where
  "probes m key k = probe (length (hinners m)) (map_size m) (start_index m key) k"

definition limit :: "rc_hash_map \<Rightarrow> nat" where
  "limit m = min (unat (map_size m)) MAX_COLLISIONS"

lemma hm_starts:
  assumes "hm_ok h m"
  shows "first_size m = Some (map_size m)" "key_to_index key (map_size m) = Some (start_index m key)"
    "map_size m \<noteq> 0" "start_index m key < map_size m"
proof -
  obtain x xs where "hinners m = x # xs" using assms by (cases "hinners m") (auto simp: hm_ok_def)
  then show "first_size m = Some (map_size m)"
    using hm_inner(3) [OF assms, of 0] by (simp add: first_size_def cx_rc_map_size_def)
  show "map_size m \<noteq> 0" using assms by (simp add: hm_ok_def)
  then show "key_to_index key (map_size m) = Some (start_index m key)" "start_index m key < map_size m"
    by (simp_all add: key_to_index_def start_index_def word_less_nat_alt unat_mod unat_gt_0)
qed

lemma probes_ok: "hm_ok h m \<Longrightarrow> s \<in> set (probes m key k) \<Longrightarrow> slot_ok m s"
  using probe_slots hm_starts(3) unfolding probes_def slot_ok_def by blast

lemma load_key_eq: "hm_ok h m \<Longrightarrow> slot_ok m s \<Longrightarrow> load_key (hinners m ! fst s) (snd s) h = Some (slot_key h m s)"
  using key_valid [of h m s] by (simp add: load_key_def mem_step slot_key_def)

text \<open>The slot a key is found in, and the references counted for it.\<close>

definition lookup :: "heap \<Rightarrow> rc_hash_map \<Rightarrow> u64 \<Rightarrow> (nat \<times> u64) option" where
  "lookup h m key = find (\<lambda>s. slot_key h m s = key) (probes m key (limit m))"

definition hrefs :: "heap \<Rightarrow> rc_hash_map \<Rightarrow> u64 \<Rightarrow> nat" where
  "hrefs h m key = (case lookup h m key of None \<Rightarrow> 0 | Some s \<Rightarrow> slot_refs h m s)"

lemma lookup_Some:
  assumes "hm_ok h m" "lookup h m key = Some s"
  shows "slot_ok m s" "slot_key h m s = key" "fst s < length (hinners m)" "snd s < map_size m"
proof -
  have "s \<in> set (probes m key (limit m)) \<and> slot_key h m s = key"
    using find_SomeD [OF assms(2) [unfolded lookup_def]] .
  then show "slot_ok m s" "slot_key h m s = key" using probes_ok [OF assms(1), of s] by blast+
  then show "fst s < length (hinners m)" "snd s < map_size m" by (auto simp: slot_ok_def)
qed

lemma find_key_eq:
  assumes "hm_ok h m"
  shows "find_slot (key_at key) (hinners m) (map_size m) (start_index m key) k h =
    Some (find (\<lambda>s. slot_key h m s = key) (probes m key k))"
proof -
  have "key_at key (hinners m ! fst s) (snd s) h = Some (slot_key h m s = key)"
    if "s \<in> set (probes m key k)" for s
    using load_key_eq [OF assms probes_ok [OF assms that]] by (simp add: key_at_def)
  then show ?thesis unfolding probes_def by (intro find_slot_eq [OF hm_starts(3) [OF assms]])
qed

section \<open>Retain and release\<close>

text \<open>A step of the map of one table that changes the count of one slot.\<close>

definition slot_step :: "heap \<Rightarrow> rc_hash_map \<Rightarrow> nat \<times> u64 \<Rightarrow> nat \<Rightarrow> heap \<Rightarrow> bool" where
  "slot_step h m s c h' \<longleftrightarrow> hm_ok h' m \<and> frame (own_hm m) (own_hm m) h h' \<and>
     (\<forall>t. slot_ok m t \<longrightarrow> slot_key h' m t = slot_key h m t \<and>
        slot_refs h' m t = (if t = s then c else slot_refs h m t))"

lemma slot_stepI:
  assumes ok: "hm_ok h m" and s: "slot_ok m s"
    and f: "frame (own_map (hvalues (hinners m ! fst s))) (own_map (hvalues (hinners m ! fst s))) h h'"
    and v: "map_ok h' (hvalues (hinners m ! fst s))"
    and c: "refs h' (hvalues (hinners m ! fst s)) = (refs h (hvalues (hinners m ! fst s)))(snd s := c)"
  shows "slot_step h m s c h'"
proof -
  have j: "fst s < length (hinners m)" using s by (simp add: slot_ok_def)
  have f': "frame (own_map (hvalues (hinners m ! fst s)) \<union> {}) (own_map (hvalues (hinners m ! fst s)) \<union> {}) h h'"
    using f by simp
  note st = hm_value_step [OF ok j f' _ v]
  have "slot_refs h' m t = (if t = s then c else slot_refs h m t)" if t: "slot_ok m t" for t
  proof (cases "fst t = fst s")
    case True
    then show ?thesis using c by (auto simp: slot_refs_def prod_eq_iff)
  next
    case False
    then show ?thesis using st(3) [OF _ t] by (auto simp: prod_eq_iff)
  qed
  then show ?thesis using st(1,2,4) by (simp add: slot_step_def)
qed

lemma slot_map:
  assumes "hm_ok h m" "slot_ok m s"
  shows "map_ok h (hvalues (hinners m ! fst s))" "snd s < rsize (hvalues (hinners m ! fst s))"
  using hm_inner(2,3) [OF assms(1), of "fst s"] assms(2) by (auto simp: slot_ok_def)

definition slot_element :: "rc_hash_map \<Rightarrow> nat \<times> u64 \<Rightarrow> addr" where
  "slot_element m s = get_element (hvalues (hinners m ! fst s)) (snd s)"

lemma hm_retain_spec:
  assumes ok: "hm_ok h m" and live: "0 < hrefs h m key" "hrefs h m key < 2 ^ 31 - 1"
  shows "\<exists>s h'. lookup h m key = Some s \<and> cx_rc_hash_map_retain m key h = Some (slot_element m s, h') \<and>
    slot_step h m s (slot_refs h m s + 1) h'"
proof -
  obtain s where s: "lookup h m key = Some s" using live(1) by (auto simp: hrefs_def split: option.splits)
  then have r: "hrefs h m key = slot_refs h m s" by (simp add: hrefs_def)
  note L = lookup_Some [OF ok s] and v = slot_map [OF ok lookup_Some(1) [OF ok s]]
  let ?v = "hvalues (hinners m ! fst s)"
  have c: "0 < refs h ?v (snd s)" "refs h ?v (snd s) < 2 ^ 31 - 1"
    using live r by (simp_all add: slot_refs_def)
  obtain h' where h': "cx_rc_map_retain ?v (snd s) h = Some (get_element ?v (snd s), h')" "map_ok h' ?v"
      "frame (own_map ?v) (own_map ?v) h h'" "refs h' ?v = (refs h ?v)(snd s := refs h ?v (snd s) + 1)"
    using retain_spec [OF v c] by blast
  have "cx_rc_hash_map_retain m key h = Some (slot_element m s, h')"
    using hm_starts(1,2) [OF ok] find_key_eq [OF ok, of key "limit m"] s h'(1)
    by (cases s) (simp add: cx_rc_hash_map_retain_def limit_def lookup_def slot_element_def)
  moreover have "slot_step h m s (slot_refs h m s + 1) h'"
    by (rule slot_stepI [OF ok L(1) h'(3,2)]) (simp add: h'(4) slot_refs_def)
  ultimately show ?thesis using s by blast
qed

lemma hm_retain_absent:
  assumes ok: "hm_ok h m" and dead: "hrefs h m key = 0"
  shows "cx_rc_hash_map_retain m key h = Some (0, h)"
proof (cases "lookup h m key")
  case None
  then show ?thesis using hm_starts(1,2) [OF ok] find_key_eq [OF ok, of key "limit m"]
    by (simp add: cx_rc_hash_map_retain_def limit_def lookup_def)
next
  case (Some s)
  then have "refs h (hvalues (hinners m ! fst s)) (snd s) = 0" using dead by (simp add: hrefs_def slot_refs_def)
  then show ?thesis
    using hm_starts(1,2) [OF ok] find_key_eq [OF ok, of key "limit m"] Some
      retain_dead [OF slot_map [OF ok lookup_Some(1) [OF ok Some]]]
    by (cases s) (simp add: cx_rc_hash_map_retain_def limit_def lookup_def)
qed

lemma hm_release_slot:
  assumes ok: "hm_ok h m" and s: "slot_ok m s" and live: "0 < slot_refs h m s"
  shows "\<exists>h'. cx_rc_map_release_index (hvalues (hinners m ! fst s)) (snd s) h = Some (0, h') \<and>
    slot_step h m s (slot_refs h m s - 1) h' \<and>
    cb_log h' = cb_log h @ (if slot_refs h m s = 1 then [slot_element m s] else [])"
proof -
  let ?v = "hvalues (hinners m ! fst s)"
  obtain h' where h': "cx_rc_map_release_index ?v (snd s) h = Some (0, h')" "map_ok h' ?v"
      "frame (own_map ?v) (own_map ?v) h h'" "refs h' ?v = (refs h ?v)(snd s := refs h ?v (snd s) - 1)"
      "cb_log h' = cb_log h @ (if refs h ?v (snd s) = 1 then [get_element ?v (snd s)] else [])"
    using release_index_spec [OF slot_map [OF ok s]] live unfolding slot_refs_def by blast
  moreover have "slot_step h m s (slot_refs h m s - 1) h'"
    by (rule slot_stepI [OF ok s h'(3,2)]) (simp add: h'(4) slot_refs_def)
  ultimately show ?thesis by (simp add: slot_refs_def slot_element_def)
qed

lemma hm_release_key_spec:
  assumes ok: "hm_ok h m" and live: "0 < hrefs h m key"
  shows "\<exists>s h'. lookup h m key = Some s \<and> cx_rc_hash_map_release_key m key h = Some (0, h') \<and>
    slot_step h m s (slot_refs h m s - 1) h' \<and>
    cb_log h' = cb_log h @ (if slot_refs h m s = 1 then [slot_element m s] else [])"
proof -
  obtain s where s: "lookup h m key = Some s" using live by (auto simp: hrefs_def split: option.splits)
  then have live_s: "0 < slot_refs h m s" using live by (simp add: hrefs_def)
  have "find (\<lambda>s. slot_key h m s = key) (probes m key (unat (map_size m))) = Some s"
    using s unfolding lookup_def probes_def by (rule find_probe_more) (simp add: limit_def)
  then have "cx_rc_hash_map_release_key m key h = cx_rc_map_release_index (hvalues (hinners m ! fst s)) (snd s) h"
    using hm_starts(1,2) [OF ok] find_key_eq [OF ok, of key "unat (map_size m)"]
    by (cases s) (simp add: cx_rc_hash_map_release_key_def)
  then show ?thesis using hm_release_slot [OF ok lookup_Some(1) [OF ok s] live_s] s by auto
qed

text \<open>The counts of the keys after a step on the slot of one key.\<close>

lemma slot_step_lookup:
  assumes "hm_ok h m" "slot_step h m s c h'"
  shows "lookup h' m key = lookup h m key"
proof -
  have "find (\<lambda>s. slot_key h' m s = key) xs = find (\<lambda>s. slot_key h m s = key) xs" if "\<forall>s \<in> set xs. slot_ok m s" for xs
    using that assms(2) by (induction xs) (auto simp: slot_step_def)
  then show ?thesis unfolding lookup_def using probes_ok [OF assms(1)] by blast
qed

lemma slot_step_hrefs:
  assumes ok: "hm_ok h m" and st: "slot_step h m s c h'" and s: "lookup h m key = Some s"
  shows "hrefs h' m = (hrefs h m)(key := c)"
proof
  fix k
  show "hrefs h' m k = ((hrefs h m)(key := c)) k"
  proof (cases "lookup h m k")
    case None
    then show ?thesis using slot_step_lookup [OF ok st, of k] s by (auto simp: hrefs_def)
  next
    case (Some t)
    have "t = s \<longleftrightarrow> k = key"
    proof
      assume "t = s"
      then show "k = key" using lookup_Some(2) [OF ok Some] lookup_Some(2) [OF ok s] by simp
    next
      assume "k = key"
      then show "t = s" using Some s by simp
    qed
    moreover have "slot_refs h' m t = (if t = s then c else slot_refs h m t)"
      using st lookup_Some(1) [OF ok Some] unfolding slot_step_def by blast
    ultimately show ?thesis using slot_step_lookup [OF ok st, of k] Some by (simp add: hrefs_def)
  qed
qed

lemma hm_outside:
  assumes f: "frame A B h h'" and ok: "hm_ok h m" and dis: "own_hm m \<inter> A = {}"
  shows "hm_ok h' m" "\<And>s. slot_ok m s \<Longrightarrow> slot_key h' m s = slot_key h m s \<and> slot_refs h' m s = slot_refs h m s"
    "hrefs h' m = hrefs h m"
proof -
  note O = ok [unfolded hm_ok_def]
  have d: "own_inner x \<inter> A = {}" if "x \<in> set (hinners m)" for x using dis that by (auto simp: own_hm_def)
  have inner: "inner_ok h' m x" if x: "x \<in> set (hinners m)" for x
  proof -
    have i: "inner_ok h m x" using O x by blast
    have "own_map (hvalues x) \<inter> A = {}" "own_keys x \<notin> A" using d [OF x] by (auto simp: own_inner_def)
    then show ?thesis using i map_outside(1) [OF f] frame_mem [OF f] by (simp add: inner_ok_def)
  qed
  have "own_array m \<in> set (blocks h')" using frame_mem [OF f] O dis by (auto simp: own_hm_def)
  then show ok': "hm_ok h' m" using O inner frame_heap_ok [OF f] unfolding hm_ok_def by blast
  show slots: "slot_key h' m s = slot_key h m s \<and> slot_refs h' m s = slot_refs h m s" if s: "slot_ok m s" for s
  proof -
    let ?x = "hinners m ! fst s"
    have x: "?x \<in> set (hinners m)" using s by (simp add: slot_ok_def)
    have i: "inner_ok h m ?x" using O x by blast
    have m: "own_map (hvalues ?x) \<inter> A = {}" and k: "own_keys ?x \<notin> A" using d [OF x] by (auto simp: own_inner_def)
    have "refs h' (hvalues ?x) = refs h (hvalues ?x)"
      using map_outside(2) [OF f _ m] i by (simp add: inner_ok_def)
    moreover have "slot_key h' m s = slot_key h m s" unfolding slot_key_def
      by (rule bytes_at_u64, rule frame_bytes [OF f key_block(1) [OF ok s]])
        (use key_block(2,3) [OF ok s] k in auto)
    ultimately show ?thesis by (simp add: slot_refs_def)
  qed
  show "hrefs h' m = hrefs h m"
  proof
    fix k
    have "find (\<lambda>s. slot_key h' m s = k) xs = find (\<lambda>s. slot_key h m s = k) xs" if "\<forall>s \<in> set xs. slot_ok m s" for xs
      using that slots by (induction xs) auto
    then have l: "lookup h' m k = lookup h m k" unfolding lookup_def using probes_ok [OF ok] by blast
    show "hrefs h' m k = hrefs h m k"
    proof (cases "lookup h m k")
      case (Some s)
      then show ?thesis using l slots [OF lookup_Some(1) [OF ok Some]] by (simp add: hrefs_def)
    qed (use l in \<open>simp add: hrefs_def\<close>)
  qed
qed

interpretation rhm: lru_backend hm_ok own_hm hrefs "2 ^ 31 - 1" cx_lru_rc_hash_map
proof
  show "heap_ok h \<and> own_hm b \<subseteq> set (blocks h)" if "hm_ok h b" for h b
    using hm_own_sub [OF that] that by (simp add: hm_ok_def)
next
  fix h b k assume a: "hm_ok h b" "0 < hrefs h b k" "hrefs h b k < 2 ^ 31 - 1"
  obtain s h' where s: "lookup h b k = Some s" "cx_rc_hash_map_retain b k h = Some (slot_element b s, h')"
      "slot_step h b s (slot_refs h b s + 1) h'"
    using hm_retain_spec [OF a] by blast
  then have "hrefs h' b = (hrefs h b)(k := hrefs h b k + 1)"
    using slot_step_hrefs [OF a(1) s(3,1)] by (simp add: hrefs_def)
  then show "\<exists>p b' h'. impl_retain cx_lru_rc_hash_map b k h = Some (p, b', h') \<and> hm_ok h' b' \<and>
      frame (own_hm b) (own_hm b') h h' \<and> hrefs h' b' = (hrefs h b)(k := hrefs h b k + 1)"
    using s(2,3) by (auto simp: cx_lru_rc_hash_map_def lru_rc_hash_map_retain_def slot_step_def)
next
  fix h b k assume a: "hm_ok h b" "0 < hrefs h b k"
  obtain s h' where s: "lookup h b k = Some s" "cx_rc_hash_map_release_key b k h = Some (0, h')"
      "slot_step h b s (slot_refs h b s - 1) h'"
    using hm_release_key_spec [OF a] by blast
  then have "hrefs h' b = (hrefs h b)(k := hrefs h b k - 1)"
    using slot_step_hrefs [OF a(1) s(3,1)] by (simp add: hrefs_def)
  then show "\<exists>rv b' h'. impl_release cx_lru_rc_hash_map b k h = Some (rv, b', h') \<and> hm_ok h' b' \<and>
      frame (own_hm b) (own_hm b') h h' \<and> hrefs h' b' = (hrefs h b)(k := hrefs h b k - 1)"
    using s(2,3) by (auto simp: cx_lru_rc_hash_map_def lru_rc_hash_map_release_def slot_step_def)
next
  show "hm_ok h' b \<and> hrefs h' b = hrefs h b"
    if "frame A B h h'" "hm_ok h b" "own_hm b \<inter> A = {}" for A B h h' b
    using hm_outside [OF that] by simp
qed

section \<open>Put\<close>

lemma find_free_eq:
  assumes "hm_ok h m"
  shows "find_slot (free_or_key_at key) (hinners m) (map_size m) (start_index m key) k h =
    Some (find (\<lambda>s. slot_refs h m s = 0 \<or> slot_key h m s = key) (probes m key k))"
proof -
  have "free_or_key_at key (hinners m ! fst s) (snd s) h = Some (slot_refs h m s = 0 \<or> slot_key h m s = key)"
    if "s \<in> set (probes m key k)" for s
    using load_key_eq [OF assms probes_ok [OF assms that]]
      is_empty_eq [OF slot_map [OF assms probes_ok [OF assms that]]]
    by (simp add: free_or_key_at_def key_at_def slot_refs_def)
  then show ?thesis unfolding probes_def by (intro find_slot_eq [OF hm_starts(3) [OF assms]])
qed

lemma store_key_spec:
  assumes ok: "hm_ok h m" and s: "slot_ok m s"
  shows "\<exists>h1. store_u64 (hkeys (hinners m ! fst s) + 8 * unat (snd s)) key h = Some h1 \<and> hm_ok h1 m \<and>
    frame {own_keys (hinners m ! fst s)} {own_keys (hinners m ! fst s)} h h1 \<and>
    frame (own_hm m) (own_hm m) h h1 \<and> cb_log h1 = cb_log h \<and>
    (\<forall>t. slot_ok m t \<longrightarrow> slot_key h1 m t = (if t = s then key else slot_key h m t) \<and> slot_refs h1 m t = slot_refs h m t)"
proof -
  let ?x = "hinners m ! fst s"
  let ?p = "hkeys ?x + 8 * unat (snd s)"
  let ?h1 = "set_bytes ?p (le_bytes 8 key) h"
  have j: "fst s < length (hinners m)" using s by (simp add: slot_ok_def)
  have i: "inner_ok h m ?x" by (rule hm_inner(1) [OF ok j])
  note kb = key_block [OF ok s]
  have f: "frame {own_keys ?x} {own_keys ?x} h ?h1"
    by (rule frame_set_bytes [of h "hkeys ?x" "unat (map_size m) * 8"]) (use ok kb in \<open>auto simp: hm_ok_def\<close>)
  have m: "own_map (hvalues ?x) \<inter> {own_keys ?x} = {}" using i by (simp add: inner_ok_def)
  have vok: "map_ok h (hvalues ?x)" using i by (simp add: inner_ok_def)
  note out = map_outside [OF f vok m]
  have i': "inner_ok ?h1 m ?x" using i out(1) frame_sub [OF f] by (simp add: inner_ok_def)
  have X: "{own_keys ?x} \<inter> own_hm m \<subseteq> own_inner ?x" by (auto simp: own_inner_def)
  note st = hm_step [OF ok j f X i']
  have "slot_key ?h1 m t = (if t = s then key else slot_key h m t) \<and> slot_refs ?h1 m t = slot_refs h m t"
    if t: "slot_ok m t" for t
  proof (cases "fst t = fst s")
    case True
    have "slot_key ?h1 m t = (if t = s then key else slot_key h m t)"
    proof (cases "snd t = snd s")
      case same: True
      then show ?thesis using True by (simp add: slot_key_def prod_eq_iff heap_simps)
    next
      case False
      then have "unat (snd t) \<noteq> unat (snd s)" by (simp add: word_unat_eq_iff)
      then show ?thesis using True False
        by (simp add: slot_key_def prod_eq_iff, intro u64_at_set_other) auto
    qed
    then show ?thesis using True out(2) by (simp add: slot_refs_def)
  next
    case False
    then show ?thesis using st(2) [OF t False] by auto
  qed
  moreover have "{own_keys ?x} \<subseteq> own_hm m" using hm_inner(6) [OF ok j] by (auto simp: own_inner_def)
  ultimately show ?thesis
    using st(1,3) f key_valid [OF ok s] by (auto simp: mem_step heap_simps)
qed

text \<open>
  The code after the label \<^verbatim>\<open>found\<close>, on a free slot: the key and the element are
  stored, the count is one.
\<close>

definition put_done :: "heap \<Rightarrow> rc_hash_map \<Rightarrow> nat \<times> u64 \<Rightarrow> u64 \<Rightarrow> nat \<Rightarrow> heap \<Rightarrow> bool" where
  "put_done h m s key c h' \<longleftrightarrow> hm_ok h' m \<and>
     (\<forall>t. slot_ok m t \<longrightarrow> slot_key h' m t = (if t = s then key else slot_key h m t) \<and>
        slot_refs h' m t = (if t = s then c else slot_refs h m t))"

lemma put_at_free:
  assumes ok: "hm_ok h m" and s: "slot_ok m s" and free: "slot_refs h m s = 0"
    and data: "readable h (own_hm m) data (unat (helement_size m))"
  shows "\<exists>h1 h'. store_u64 (hkeys (hinners m ! fst s) + 8 * unat (snd s)) key h = Some h1 \<and>
    cx_rc_map_set (hvalues (hinners m ! fst s)) (snd s) data h1 = Some (slot_element m s, h') \<and>
    put_done h m s key 1 h' \<and> frame (own_hm m) (own_hm m) h h' \<and> cb_log h' = cb_log h \<and>
    element_at h' (hvalues (hinners m ! fst s)) (unat (snd s)) = bytes_at h data (unat (helement_size m))"
proof -
  let ?v = "hvalues (hinners m ! fst s)"
  have j: "fst s < length (hinners m)" using s by (simp add: slot_ok_def)
  obtain h1 where h1: "store_u64 (hkeys (hinners m ! fst s) + 8 * unat (snd s)) key h = Some h1" "hm_ok h1 m"
      "frame (own_hm m) (own_hm m) h h1" "cb_log h1 = cb_log h"
      "\<And>t. slot_ok m t \<Longrightarrow> slot_key h1 m t = (if t = s then key else slot_key h m t) \<and> slot_refs h1 m t = slot_refs h m t"
    using store_key_spec [OF ok s] by blast
  have r1: "readable h1 (own_hm m) data (unat (helement_size m))"
      "bytes_at h1 data (unat (helement_size m)) = bytes_at h data (unat (helement_size m))"
    using readable_frame [OF h1(3) data] .
  have e: "relement_size ?v = helement_size m" by (rule hm_inner(4) [OF ok j])
  have "own_map ?v \<subseteq> own_hm m" using hm_inner(6,7) [OF ok j] by blast
  then have rv: "readable h1 (own_map ?v) data (unat (relement_size ?v))"
    using readable_mono [OF r1(1)] e by simp
  have free1: "refs h1 ?v (snd s) = 0" using h1(5) [OF s] free by (simp add: slot_refs_def)
  obtain h2 where h2: "cx_rc_map_set ?v (snd s) data h1 = Some (get_element ?v (snd s), h2)" "map_ok h2 ?v"
      "frame (own_map ?v) (own_map ?v) h1 h2" "refs h2 ?v = (refs h1 ?v)(snd s := 1)" "cb_log h2 = cb_log h1"
      "element_at h2 ?v (unat (snd s)) = bytes_at h1 data (unat (relement_size ?v))"
    using set_empty_spec [OF slot_map [OF h1(2) s] free1 rv] by blast
  have st: "slot_step h1 m s 1 h2" by (rule slot_stepI [OF h1(2) s h2(3,2,4)])
  then have "put_done h m s key 1 h2" using h1(5) by (simp add: slot_step_def put_done_def)
  moreover have "frame (own_hm m) (own_hm m) h h2"
    using frame_trans [OF h1(3)] st by (simp add: slot_step_def)
  ultimately show ?thesis using h1(1,4) h2(1,5,6) r1(2) e by (auto simp: slot_element_def)
qed

lemma put_at_live:
  assumes ok: "hm_ok h m" and s: "slot_ok m s" and live: "0 < slot_refs h m s" "slot_refs h m s < 2 ^ 31 - 1"
    and data: "(b, n) \<in> set (blocks h)" "(b, n) \<notin> own_hm m" "b \<le> data" "data + unat (helement_size m) \<le> b + n"
  shows "\<exists>h1 h'. store_u64 (hkeys (hinners m ! fst s) + 8 * unat (snd s)) key h = Some h1 \<and>
    cx_rc_map_set (hvalues (hinners m ! fst s)) (snd s) data h1 = Some (slot_element m s, h') \<and>
    put_done h m s key (slot_refs h m s + 1) h' \<and> cb_log h' = cb_log h @ [data]"
proof -
  let ?v = "hvalues (hinners m ! fst s)"
  have j: "fst s < length (hinners m)" using s by (simp add: slot_ok_def)
  obtain h1 where h1: "store_u64 (hkeys (hinners m ! fst s) + 8 * unat (snd s)) key h = Some h1" "hm_ok h1 m"
      "frame (own_hm m) (own_hm m) h h1" "cb_log h1 = cb_log h"
      "\<And>t. slot_ok m t \<Longrightarrow> slot_key h1 m t = (if t = s then key else slot_key h m t) \<and> slot_refs h1 m t = slot_refs h m t"
    using store_key_spec [OF ok s] by blast
  have e: "relement_size ?v = helement_size m" by (rule hm_inner(4) [OF ok j])
  have b1: "(b, n) \<in> set (blocks h1)" "(b, n) \<notin> own_map ?v" "data + unat (relement_size ?v) \<le> b + n"
    using frame_mem [OF h1(3) data(1,2)] hm_inner(6,7) [OF ok j] data(2,4) e by auto
  have c: "0 < refs h1 ?v (snd s)" "refs h1 ?v (snd s) < 2 ^ 31 - 1"
    using h1(5) [OF s] live by (simp_all add: slot_refs_def)
  obtain h2 where h2: "cx_rc_map_set ?v (snd s) data h1 = Some (get_element ?v (snd s), h2)" "map_ok h2 ?v"
      "frame (own_map ?v \<union> {(b, n)}) (own_map ?v \<union> {(b, n)}) h1 h2"
      "refs h2 ?v = (refs h1 ?v)(snd s := refs h1 ?v (snd s) + 1)" "cb_log h2 = cb_log h1 @ [data]"
    using set_live_spec [OF slot_map [OF h1(2) s] c b1(1,2) data(3) b1(3)] by blast
  have Y: "{(b, n)} \<inter> own_hm m = {}" using data(2) by simp
  note st = hm_value_step [OF h1(2) j h2(3) Y h2(2)]
  have "slot_refs h2 m t = (if t = s then slot_refs h m s + 1 else slot_refs h m t)" if t: "slot_ok m t" for t
  proof (cases "fst t = fst s")
    case True
    then show ?thesis using h2(4) h1(5) [OF t] h1(5) [OF s] by (auto simp: slot_refs_def prod_eq_iff)
  next
    case False
    then show ?thesis using st(3) [OF t] h1(5) [OF t] by (auto simp: prod_eq_iff)
  qed
  then have "put_done h m s key (slot_refs h m s + 1) h2"
    using st(1,2) h1(5) by (simp add: put_done_def)
  then show ?thesis using h1(1,4) h2(1,5) by (auto simp: slot_element_def)
qed

text \<open>
  \<open>all_found\<close>: every live slot is the one its key is found in. It holds for a new map;
  a put of a key that is not live keeps it.
\<close>

definition all_found :: "heap \<Rightarrow> rc_hash_map \<Rightarrow> bool" where
  "all_found h m \<longleftrightarrow> (\<forall>t. slot_ok m t \<longrightarrow> 0 < slot_refs h m t \<longrightarrow> lookup h m (slot_key h m t) = Some t)"

lemma all_foundD: "all_found h m \<Longrightarrow> slot_ok m t \<Longrightarrow> 0 < slot_refs h m t \<Longrightarrow> lookup h m (slot_key h m t) = Some t"
  unfolding all_found_def by blast

definition free_slot :: "heap \<Rightarrow> rc_hash_map \<Rightarrow> u64 \<Rightarrow> (nat \<times> u64) option" where
  "free_slot h m key = find (\<lambda>s. slot_refs h m s = 0 \<or> slot_key h m s = key) (probes m key (limit m))"

lemma put_doneD:
  assumes "put_done h m s key c h'"
  shows "hm_ok h' m" "\<And>t. slot_ok m t \<Longrightarrow> slot_key h' m t = (if t = s then key else slot_key h m t)"
    "\<And>t. slot_ok m t \<Longrightarrow> slot_refs h' m t = (if t = s then c else slot_refs h m t)"
  using assms unfolding put_done_def by blast+

lemma find_stronger:
  "find P xs = Some s \<Longrightarrow> Q s \<Longrightarrow> (\<And>x. x \<in> set xs \<Longrightarrow> Q x \<Longrightarrow> x \<noteq> s \<Longrightarrow> P x) \<Longrightarrow> find Q xs = Some s"
  by (induction xs) (auto split: if_splits)

lemma put_lookup:
  assumes ok: "hm_ok h m" and pd: "put_done h m s key c h'" and f: "free_slot h m key = Some s"
  shows "lookup h' m key = Some s"
proof -
  note F = find_SomeD [OF f [unfolded free_slot_def]]
  have s: "slot_ok m s" using probes_ok [OF ok] F by blast
  show ?thesis unfolding lookup_def
    by (rule find_stronger [OF f [unfolded free_slot_def]])
      (use put_doneD(2) [OF pd] s probes_ok [OF ok] in \<open>simp_all\<close>)
qed

lemma put_lookup_other:
  assumes ok: "hm_ok h m" and pd: "put_done h m s key c h'" and k: "k \<noteq> key"
    and l: "lookup h m k = Some t" "t \<noteq> s"
  shows "lookup h' m k = Some t"
  unfolding lookup_def
proof (rule find_stronger [OF l(1) [unfolded lookup_def]])
  show "slot_key h' m t = k"
    using put_doneD(2) [OF pd] l(2) lookup_Some(1,2) [OF ok l(1)] by simp
  show "slot_key h m x = k" if "x \<in> set (probes m k (limit m))" "slot_key h' m x = k" "x \<noteq> t" for x
    using put_doneD(2) [OF pd probes_ok [OF ok that(1)]] that k by (simp split: if_splits)
qed

lemma put_fresh:
  assumes ok: "hm_ok h m" and found: "all_found h m" and fresh: "hrefs h m key = 0"
    and f: "free_slot h m key = Some s" and pd: "put_done h m s key 1 h'"
  shows "slot_refs h m s = 0" "all_found h' m" "hrefs h' m = (hrefs h m)(key := 1)"
proof -
  note F = find_SomeD [OF f [unfolded free_slot_def]]
  have s: "slot_ok m s" using probes_ok [OF ok] F by blast
  have live_key: "slot_key h m t \<noteq> key" if "slot_ok m t" "0 < slot_refs h m t" for t
    using all_foundD [OF found that] that fresh by (auto simp: hrefs_def)
  show dead: "slot_refs h m s = 0" using live_key [OF s] F by auto
  have slots: "slot_key h' m t = (if t = s then key else slot_key h m t)"
      "slot_refs h' m t = (if t = s then 1 else slot_refs h m t)" if "slot_ok m t" for t
    using put_doneD(2,3) [OF pd that] by simp_all
  have live: "lookup h' m (slot_key h m t) = Some t" if t: "slot_ok m t" "0 < slot_refs h m t" for t
  proof (rule put_lookup_other [OF ok pd])
    show "slot_key h m t \<noteq> key" by (rule live_key [OF t])
    show "lookup h m (slot_key h m t) = Some t" by (rule all_foundD [OF found t])
    show "t \<noteq> s" using t(2) dead by auto
  qed
  show "all_found h' m"
    unfolding all_found_def using slots live put_lookup [OF ok pd f] s by auto
  show "hrefs h' m = (hrefs h m)(key := 1)"
  proof
    fix k
    show "hrefs h' m k = ((hrefs h m)(key := 1)) k"
    proof (cases "k = key")
      case True
      then show ?thesis using put_lookup [OF ok pd f] slots(2) [OF s] by (simp add: hrefs_def)
    next
      case False
      show ?thesis
      proof (cases "\<exists>t. slot_ok m t \<and> 0 < slot_refs h m t \<and> slot_key h m t = k")
        case True
        then obtain t where t: "slot_ok m t" "0 < slot_refs h m t" "slot_key h m t = k" by blast
        then have "lookup h m k = Some t" "lookup h' m k = Some t" "t \<noteq> s"
          using all_foundD [OF found t(1,2)] live [OF t(1,2)] dead t(2,3) by auto
        then show ?thesis using False slots(2) [OF t(1)] by (simp add: hrefs_def)
      next
        case none: False
        have "hrefs h m k = 0"
        proof (cases "lookup h m k")
          case (Some t)
          then have "slot_refs h m t = 0" using none lookup_Some(1,2) [OF ok Some] by (metis neq0_conv)
          then show ?thesis using Some by (simp add: hrefs_def)
        qed (simp add: hrefs_def)
        moreover have "hrefs h' m k = 0"
        proof (cases "lookup h' m k")
          case (Some t)
          have ok': "hm_ok h' m" using pd by (rule put_doneD(1))
          have t: "slot_ok m t" "slot_key h' m t = k" using lookup_Some [OF ok' Some] by auto
          then have "t \<noteq> s" using slots(1) [OF t(1)] False by auto
          then have "slot_key h m t = k" using slots(1) [OF t(1)] t by simp
          then have "slot_refs h m t = 0" using none t(1) by (metis neq0_conv)
          then show ?thesis using Some slots(2) [OF t(1)] \<open>t \<noteq> s\<close> by (simp add: hrefs_def)
        qed (simp add: hrefs_def)
        ultimately show ?thesis using False by simp
      qed
    qed
  qed
qed

lemma put_free_eq:
  assumes "hm_ok h m" "free_slot h m key = Some s"
  shows "cx_rc_hash_map_put junk m key data h = do {
    h \<leftarrow> store_u64 (hkeys (hinners m ! fst s) + 8 * unat (snd s)) key h;
    (p, h) \<leftarrow> cx_rc_map_set (hvalues (hinners m ! fst s)) (snd s) data h;
    Some (p, m, h)
  }"
  using hm_starts(1,2) [OF assms(1)] find_free_eq [OF assms(1), of key "limit m"] assms(2)
  by (cases s) (simp add: cx_rc_hash_map_put_def free_slot_def limit_def Let_def)

section \<open>Init, growth and cleanup\<close>

text \<open>Before the first table there is no array.\<close>

definition no_tables :: "heap \<Rightarrow> rc_hash_map \<Rightarrow> bool" where
  "no_tables h m \<longleftrightarrow> heap_ok h \<and> hinners m = [] \<and> hash_maps m = 0 \<and> hash_map_count m = 0 \<and> map_size m \<noteq> 0"

definition own_tables :: "rc_hash_map \<Rightarrow> (addr \<times> nat) set" where
  "own_tables m = (if hinners m = [] then {} else own_hm m)"

lemma init_keeps_cleanup: "cx_rc_map_init m n e cb h = Some (0, m', h') \<Longrightarrow> rcleanup m' = cb"
  by (auto simp: cx_rc_map_init_def Let_def bind_Some_iff split: prod.splits if_splits)

lemma frame_fresh: "frame A B h h' \<Longrightarrow> x \<in> set (blocks h) \<Longrightarrow> x \<notin> A \<Longrightarrow> x \<notin> B"
  by (auto simp: frame_def)

text \<open>
  A successful \<^verbatim>\<open>cx_rc_map_init\<close> sets every field: it does not depend on what the memory held before.
\<close>

lemma init_ignores_junk:
  "cx_rc_map_init m n e cb h = Some (0, m', h') \<Longrightarrow> cx_rc_map_init (m\<lparr>rref_count := 0\<rparr>) n e cb h = Some (0, m', h')"
  by (auto simp: cx_rc_map_init_def Let_def bind_Some_iff split: prod.splits if_splits)

text \<open>A fresh table: zeroed keys and counts.\<close>

definition fresh_table :: "heap \<Rightarrow> rc_hash_map \<Rightarrow> hash_inner \<Rightarrow> bool" where
  "fresh_table h m x \<longleftrightarrow> inner_ok h m x \<and> refs h (hvalues x) = (\<lambda>_. 0) \<and>
     (\<forall>i < map_size m. u64_at h (hkeys x + 8 * unat i) = 0)"

lemma u64_at_zeros:
  assumes "bytes_at h p (n * 8) = replicate (n * 8) 0" "i < n"
  shows "u64_at h (p + 8 * i) = 0"
proof -
  have "read_mem (mem h) (p + 8 * i) 8 = replicate 8 0"
  proof (rule nth_equalityI)
    fix j assume "j < length (read_mem (mem h) (p + 8 * i) 8)"
    then have j: "j < 8" by simp
    have b: "8 * i + j < n * 8" using assms(2) j by linarith
    then have "bytes_at h p (n * 8) ! (8 * i + j) = 0" unfolding assms(1) by simp
    then show "read_mem (mem h) (p + 8 * i) 8 ! j = replicate 8 0 ! j"
      using b j by (simp add: bytes_at_def add.assoc)
  qed simp
  moreover have "le_word (replicate 8 0) = (0 :: u64)" by code_simp
  ultimately show ?thesis by (simp add: u64_at_def)
qed

lemma new_table:
  assumes h: "heap_ok h" and cb: "cb_local (hcleanup m) (unat (helement_size m))"
    and k: "calloc (map_size m) 8 h = (keys, h1)" "keys \<noteq> 0"
    and v: "cx_rc_map_init junk (map_size m) (helement_size m) (hcleanup m) h1 = Some (0, values, h2)"
  shows "fresh_table h2 m \<lparr>hkeys = keys, hvalues = values\<rparr> \<and>
    frame {} (own_inner \<lparr>hkeys = keys, hvalues = values\<rparr>) h h2"
proof -
  let ?x = "\<lparr>hkeys = keys, hvalues = values\<rparr>" and ?n = "unat (map_size m)"
  have f1: "frame {} {(keys, ?n * 8)} h h1" and z: "bytes_at h1 keys (?n * 8) = replicate (?n * 8) 0"
    using calloc_cases [OF k(1) h] k(2) by auto
  have h1: "heap_ok h1" by (rule frame_heap_ok [OF f1 h])
  have i: "map_ok h2 values" "frame {} (own_map values) h1 h2" "refs h2 values = (\<lambda>_. 0)"
      "rsize values = map_size m" "relement_size values = helement_size m"
    using init_spec [OF h1 cb, of "junk\<lparr>rref_count := 0\<rparr>" "map_size m"] init_ignores_junk [OF v] by auto
  have own: "own_keys ?x = (keys, ?n * 8)" using i(4) by (simp add: own_keys_def)
  have in1: "(keys, ?n * 8) \<in> set (blocks h1)" using frame_sub [OF f1] by simp
  have in2: "(keys, ?n * 8) \<in> set (blocks h2)" "(keys, ?n * 8) \<notin> own_map values"
    using frame_mem [OF i(2) in1] by auto
  have "u64_at h2 (keys + 8 * unat j) = 0" if "j < map_size m" for j
  proof -
    have "bytes_at h2 (keys + 8 * unat j) 8 = bytes_at h1 (keys + 8 * unat j) 8"
      by (rule frame_bytes [OF i(2) in1]) (use that in \<open>auto simp: word_less_nat_alt\<close>)
    then have "u64_at h2 (keys + 8 * unat j) = u64_at h1 (keys + 8 * unat j)" by (rule bytes_at_u64)
    then show ?thesis using u64_at_zeros [OF z, of "unat j"] that by (simp add: word_less_nat_alt)
  qed
  moreover have "inner_ok h2 m ?x"
    using i in2 own init_keeps_cleanup [OF v] by (simp add: inner_ok_def)
  moreover have "frame {} (own_inner ?x) h h2"
  proof -
    have "frame ({} \<union> {(keys, ?n * 8)}) (own_map values \<union> {(keys, ?n * 8)}) h1 h2"
      by (rule frame_extend [OF i(2)]) (use in1 in auto)
    then have "frame {(keys, ?n * 8)} (own_inner ?x) h1 h2"
      by (simp add: own_inner_def own Un_commute)
    then show ?thesis by (rule frame_trans [OF f1])
  qed
  ultimately show ?thesis using i(3) by (simp add: fresh_table_def)
qed

text \<open>The array grows by one element; the tables stay where they are.\<close>

lemma grow_array:
  assumes pre: "no_tables h m \<or> hm_ok h m" and n: "(unat (hash_map_count m) + 1) * 56 < 2 ^ 64"
    and r: "realloc (hash_maps m) ((unat (hash_map_count m) + 1) * 56) h = Some (p, h1)" "p \<noteq> 0"
  shows "heap_ok h1" "(p, (unat (hash_map_count m) + 1) * 56) \<in> set (blocks h1)"
    "\<exists>A. frame A {(p, (unat (hash_map_count m) + 1) * 56)} h h1 \<and>
      (hinners m = [] \<longrightarrow> A = {}) \<and> (hinners m \<noteq> [] \<longrightarrow> A = {own_array m})"
proof -
  let ?n = "(unat (hash_map_count m) + 1) * 56"
  have h: "heap_ok h" using pre by (auto simp: no_tables_def hm_ok_def)
  show e: "\<exists>A. frame A {(p, ?n)} h h1 \<and> (hinners m = [] \<longrightarrow> A = {}) \<and> (hinners m \<noteq> [] \<longrightarrow> A = {own_array m})"
  proof (cases "hinners m = []")
    case True
    then have "malloc ?n h = (p, h1)" using r(1) pre by (auto simp: no_tables_def hm_ok_def)
    then show ?thesis using malloc_cases [OF _ h] r(2) True by fastforce
  next
    case False
    then have "own_array m \<in> set (blocks h)" using pre by (simp add: no_tables_def hm_ok_def)
    then have "(hash_maps m, unat (hash_map_count m) * 56) \<in> set (blocks h)" by (simp add: own_array_def)
    from realloc_cases [OF h this, of ?n] show ?thesis using r False by (auto simp: own_array_def)
  qed
  then show "heap_ok h1" "(p, ?n) \<in> set (blocks h1)"
    using frame_heap_ok [OF _ h] frame_sub by blast+
qed

text \<open>
  \<^verbatim>\<open>extend_hash_map\<close> when its three allocations succeed: one fresh table more, and
  the other slots as before.
\<close>

lemma extend_spec:
  assumes pre: "no_tables h m \<or> hm_ok h m"
    and cb: "cb_local (hcleanup m) (unat (helement_size m))"
    and run: "extend_hash_map junk m h = Some (0, m', h')"
  shows "hm_ok h' m' \<and> frame (own_tables m) (own_hm m') h h' \<and>
    (\<exists>x. hinners m' = hinners m @ [x] \<and> fresh_table h' m' x) \<and>
    map_size m' = map_size m \<and> helement_size m' = helement_size m \<and> hcleanup m' = hcleanup m \<and>
    (\<forall>s. slot_ok m s \<longrightarrow> slot_key h' m' s = slot_key h m s \<and> slot_refs h' m' s = slot_refs h m s)"
proof -
  let ?c = "hash_map_count m"
  let ?n = "(unat ?c + 1) * 56"
  obtain p h1 keys h2 vals where c1: "unat ?c + 1 < 2 ^ 64" "?n < 2 ^ 64"
    and a: "realloc (hash_maps m) ?n h = Some (p, h1)" "p \<noteq> 0" "calloc (map_size m) 8 h1 = (keys, h2)" "keys \<noteq> 0"
      "cx_rc_map_init junk (map_size m) (helement_size m) (hcleanup m) h2 = Some (0, vals, h')"
    and m': "m' = m\<lparr>hash_maps := p, hinners := hinners m @ [\<lparr>hkeys = keys, hvalues = vals\<rparr>], hash_map_count := ?c + 1\<rparr>"
  proof -
    have nov: "unat ?c + 1 < 2 ^ 64" "unat (?c + 1) * 56 < 2 ^ 64"
      using run by (auto simp: extend_hash_map_def add_overflow_def mul_overflow_def Let_def split: if_splits)
    have cnt: "unat (?c + 1) = unat ?c + 1" using nov(1) by (subst unat_add_no_wrap) simp_all
    have sz: "unat ((?c + 1) * 56) = ?n" using nov(2) cnt by (subst unat_mult_no_wrap) simp_all
    then have sz': "unat (?c * 56 + 56) = 56 + unat ?c * 56" by (simp add: distrib_right)
    obtain p h1 where r: "realloc (hash_maps m) ?n h = Some (p, h1)" "p \<noteq> 0"
      using run nov by (auto simp: extend_hash_map_def add_overflow_def mul_overflow_def Let_def cnt sz' bind_Some_iff split: if_splits)
    obtain keys h2 where k: "calloc (map_size m) 8 h1 = (keys, h2)" by fastforce
    show thesis
      using run nov r k that [OF _ _ r k]
      by (auto simp: extend_hash_map_def add_overflow_def mul_overflow_def Let_def cnt sz' bind_Some_iff split: if_splits)
  qed
  let ?x = "\<lparr>hkeys = keys, hvalues = vals\<rparr>"
  have cnt: "unat (?c + 1) = unat ?c + 1" using c1(1) by (subst unat_add_no_wrap) simp_all
  note g = grow_array [OF pre c1(2) a(1,2)]
  obtain A where A: "frame A {(p, ?n)} h h1" "hinners m = [] \<longrightarrow> A = {}" "hinners m \<noteq> [] \<longrightarrow> A = {own_array m}"
    using g(3) by blast
  have nt: "fresh_table h' m ?x" "frame {} (own_inner ?x) h1 h'"
    using new_table [OF g(1) cb a(3,4,5)] by auto
  have arr': "own_array m' = (p, ?n)" using cnt by (simp add: own_array_def m')
  have arr: "own_array m' \<in> set (blocks h')" "own_array m' \<notin> own_inner ?x"
    using frame_mem [OF nt(2)] g(2) arr' by auto
  have old: "inner_ok h' m y \<and> own_inner y \<inter> own_inner ?x = {} \<and> own_array m' \<notin> own_inner y"
    if y: "y \<in> set (hinners m)" for y
  proof -
    have ok: "hm_ok h m" using pre y by (auto simp: no_tables_def)
    then have i: "inner_ok h m y" "own_array m \<notin> own_inner y" "0 < map_size m"
      using y by (auto simp: hm_ok_def word_gt_0)
    have dA: "own_inner y \<inter> A = {}" using A i(2) y by auto
    note o1 = inner_outside(1) [OF A(1) i(1) dA i(3)]
    have yb: "own_inner y \<subseteq> set (blocks h)" "own_inner y \<subseteq> set (blocks h1)"
      using i(1) o1 by (auto simp: inner_ok_def own_inner_def map_ok_def)
    have "own_inner y \<inter> {(p, ?n)} = {}" using frame_fresh [OF A(1)] yb(1) dA by blast
    moreover have "own_inner y \<inter> own_inner ?x = {}" using frame_fresh [OF nt(2)] yb(2) by blast
    moreover have "inner_ok h' m y" using inner_outside(1) [OF nt(2) o1 _ i(3)] by simp
    ultimately show ?thesis using arr' by auto
  qed
  have inner': "inner_ok k m' y = inner_ok k m y" for k y by (simp add: inner_ok_def m')
  have slots: "slot_key h' m' s = slot_key h m s \<and> slot_refs h' m' s = slot_refs h m s" if s: "slot_ok m s" for s
  proof -
    let ?y = "hinners m ! fst s"
    have y: "?y \<in> set (hinners m)" and same: "hinners m' ! fst s = ?y"
      using s by (auto simp: slot_ok_def m' nth_append)
    have ok: "hm_ok h m" using pre y by (auto simp: no_tables_def)
    have i: "inner_ok h m ?y" "own_array m \<notin> own_inner ?y" "snd s < map_size m" using ok y s by (auto simp: hm_ok_def slot_ok_def)
    have dA: "own_inner ?y \<inter> A = {}" using A i(2) y by auto
    note o1 = inner_outside [OF A(1) i(1) dA i(3)]
    note o2 = inner_outside [OF nt(2) o1(1) _ i(3)]
    show ?thesis using o1 o2 same by (simp add: slot_key_def slot_refs_def)
  qed
  have dis: "own_inner (hinners m' ! i) \<inter> own_inner (hinners m' ! j) = {}"
    if ij: "i < length (hinners m')" "j < length (hinners m')" "i \<noteq> j" for i j
  proof -
    have L: "length (hinners m') = Suc (length (hinners m))" by (simp add: m')
    consider "i < length (hinners m)" "j < length (hinners m)" | "i < length (hinners m)" "j = length (hinners m)"
      | "i = length (hinners m)" "j < length (hinners m)" using ij L by linarith
    then show ?thesis
    proof cases
      case 1
      then have "hm_ok h m" using pre by (auto simp: no_tables_def)
      then have "own_inner (hinners m ! i) \<inter> own_inner (hinners m ! j) = {}" using 1 ij(3) by (simp add: hm_ok_def)
      then show ?thesis using 1 by (simp add: m' nth_append)
    next
      case 2
      then show ?thesis using old [of "hinners m ! i"] by (simp add: m' nth_append)
    next
      case 3
      then show ?thesis using old [of "hinners m ! j"] by (simp add: m' nth_append Int_commute)
    qed
  qed
  have "hm_ok h' m'"
  proof -
    have "heap_ok h'" by (rule frame_heap_ok [OF nt(2) g(1)])
    moreover have "length (hinners m) = unat ?c" "map_size m \<noteq> 0" using pre by (auto simp: no_tables_def hm_ok_def)
    ultimately show ?thesis unfolding hm_ok_def using arr old nt(1) dis inner' cnt
      by (simp add: m' fresh_table_def)
  qed
  moreover have "frame (own_tables m) (own_hm m') h h'"
  proof -
    let ?I = "\<Union>y \<in> set (hinners m). own_inner y"
    have tabs: "own_tables m = A \<union> ?I" using A(2,3) by (auto simp: own_tables_def own_hm_def)
    have I: "?I \<subseteq> set (blocks h)" "?I \<inter> A = {}"
    proof -
      have "own_inner y \<subseteq> set (blocks h) \<and> own_inner y \<inter> A = {}" if y: "y \<in> set (hinners m)" for y
      proof -
        have "hm_ok h m" using pre y by (auto simp: no_tables_def)
        then have "inner_ok h m y" "own_array m \<notin> own_inner y" using y by (auto simp: hm_ok_def)
        then show ?thesis using A(3) y by (auto simp: inner_ok_def own_inner_def map_ok_def)
      qed
      then show "?I \<subseteq> set (blocks h)" "?I \<inter> A = {}" by blast+
    qed
    have f1: "frame (A \<union> ?I) ({(p, ?n)} \<union> ?I) h h1" by (rule frame_extend [OF A(1) I])
    have f2: "frame ({} \<union> ({(p, ?n)} \<union> ?I)) (own_inner ?x \<union> ({(p, ?n)} \<union> ?I)) h1 h'"
      by (rule frame_extend [OF nt(2)]) (use frame_sub [OF f1] in auto)
    have "own_hm m' = own_inner ?x \<union> ({(p, ?n)} \<union> ?I)"
      unfolding own_hm_def arr' by (auto simp: m')
    then show ?thesis using frame_trans [OF f1] f2 tabs by simp
  qed
  moreover have fields: "hinners m' = hinners m @ [?x]" "map_size m' = map_size m"
    "helement_size m' = helement_size m" "hcleanup m' = hcleanup m" by (simp_all add: m')
  moreover have "fresh_table h' m' ?x" using nt(1) inner' fields(2) by (simp add: fresh_table_def)
  ultimately show ?thesis using slots by blast
qed

lemma fresh_slots:
  assumes "hm_ok h m" "hinners m = ys @ [x]" "fresh_table h m x" "slot_ok m s" "fst s = length ys"
  shows "slot_key h m s = 0" "slot_refs h m s = 0"
  using assms by (auto simp: fresh_table_def slot_key_def slot_refs_def slot_ok_def)

text \<open>A new map: no key is live.\<close>

lemma hm_init_spec:
  assumes h: "heap_ok h" "n \<noteq> 0" and cb: "cb_local cb (unat e)"
    and run: "cx_rc_hash_map_init junk m0 n e cb h = Some (0, m, h')"
  shows "hm_ok h' m" "frame {} (own_hm m) h h'" "map_size m = n" "helement_size m = e"
    "\<And>s. slot_ok m s \<Longrightarrow> slot_refs h' m s = 0" "all_found h' m" "hrefs h' m = (\<lambda>_. 0)"
proof -
  let ?m0 = "m0\<lparr>hash_maps := 0, hinners := [], hash_map_count := 0, map_size := n, helement_size := e, hcleanup := cb\<rparr>"
  have pre: "no_tables h ?m0 \<or> hm_ok h ?m0" using h by (simp add: no_tables_def)
  have E: "extend_hash_map junk ?m0 h = Some (0, m, h')" using run by (simp add: cx_rc_hash_map_init_def)
  have X: "hm_ok h' m" "frame (own_tables ?m0) (own_hm m) h h'" "map_size m = map_size ?m0" "helement_size m = helement_size ?m0"
      "\<exists>x. hinners m = hinners ?m0 @ [x] \<and> fresh_table h' m x"
    using extend_spec [OF pre _ E] cb by simp_all
  then show ok: "hm_ok h' m" and "frame {} (own_hm m) h h'" "map_size m = n" "helement_size m = e"
    by (simp_all add: own_tables_def)
  obtain x where x: "hinners m = [] @ [x]" "fresh_table h' m x" using X(5) by auto
  show dead: "slot_refs h' m s = 0" if "slot_ok m s" for s
    using fresh_slots(2) [OF ok x that] that x(1) by (simp add: slot_ok_def)
  then show "all_found h' m" by (simp add: all_found_def)
  show "hrefs h' m = (\<lambda>_. 0)"
    using dead lookup_Some(1) [OF ok] by (auto simp: hrefs_def split: option.splits)
qed

fun disjoint_inners :: "hash_inner list \<Rightarrow> bool" where
  "disjoint_inners [] = True"
| "disjoint_inners (x # xs) = ((\<forall>y \<in> set xs. own_inner x \<inter> own_inner y = {}) \<and> disjoint_inners xs)"

lemma disjoint_innersI:
  "(\<forall>i < length xs. \<forall>j < length xs. i \<noteq> j \<longrightarrow> own_inner (xs ! i) \<inter> own_inner (xs ! j) = {}) \<Longrightarrow> disjoint_inners xs"
proof (induction xs)
  case (Cons x xs)
  have "own_inner x \<inter> own_inner (xs ! j) = {}" if "j < length xs" for j
    using Cons.prems [rule_format, of 0 "Suc j"] that by simp
  moreover have "disjoint_inners xs"
  proof (rule Cons.IH, intro allI impI)
    fix i j assume "i < length xs" "j < length xs" "i \<noteq> j"
    then show "own_inner (xs ! i) \<inter> own_inner (xs ! j) = {}"
      using Cons.prems [rule_format, of "Suc i" "Suc j"] by simp
  qed
  ultimately show ?case by (metis disjoint_inners.simps(2) in_set_conv_nth)
qed simp

lemma cleanup_inners_spec:
  assumes "heap_ok h" "\<forall>x \<in> set xs. inner_ok h m x \<and> refs h (hvalues x) = (\<lambda>_. 0)" "disjoint_inners xs" "0 < map_size m"
  shows "\<exists>h'. cleanup_inners xs h = Some h' \<and> frame (\<Union>x \<in> set xs. own_inner x) {} h h'"
  using assms
proof (induction xs arbitrary: h)
  case Nil
  then show ?case by (simp add: frame_refl)
next
  case (Cons x xs)
  have i: "inner_ok h m x" "refs h (hvalues x) = (\<lambda>_. 0)" using Cons.prems(2) by auto
  have k: "own_keys x \<in> set (blocks h)" "own_map (hvalues x) \<inter> {own_keys x} = {}" "map_ok h (hvalues x)"
    using i(1) by (auto simp: inner_ok_def)
  obtain h1 where h1: "free (hkeys x) h = Some h1" "frame {own_keys x} {} h h1"
    using free_block [OF Cons.prems(1), of "hkeys x"] k(1) by (auto simp: own_keys_def)
  note o1 = map_outside [OF h1(2) k(3,2)]
  obtain a b h2 where h2: "cx_rc_map_cleanup (hvalues x) h1 = Some (a, b, h2)" "frame (own_map (hvalues x)) {} h1 h2"
    using cleanup_spec [OF o1(1)] o1(2) i(2) by auto
  have "own_map (hvalues x) \<subseteq> set (blocks h)" using k(3) by (simp add: map_ok_def)
  then have "frame ({own_keys x} \<union> own_map (hvalues x)) ({} \<union> own_map (hvalues x)) h h1"
    by (rule frame_extend [OF h1(2) _ k(2)])
  then have f: "frame (own_inner x) {} h h2" using frame_trans h2(2) by (fastforce simp: own_inner_def)
  have rest: "inner_ok h2 m y \<and> refs h2 (hvalues y) = (\<lambda>_. 0)" if y: "y \<in> set xs" for y
  proof -
    have d: "own_inner y \<inter> own_inner x = {}" and iy: "inner_ok h m y" "refs h (hvalues y) = (\<lambda>_. 0)"
      using Cons.prems(2,3) y by auto
    show ?thesis using inner_outside(1,2) [OF f iy(1) d Cons.prems(4)] iy(2) by simp
  qed
  obtain h' where h': "cleanup_inners xs h2 = Some h'" "frame (\<Union>x \<in> set xs. own_inner x) {} h2 h'"
    using Cons.IH [OF frame_heap_ok [OF f Cons.prems(1)] _ _ Cons.prems(4)] rest Cons.prems(3) by auto
  have "frame (own_inner x \<union> (\<Union>x \<in> set xs. own_inner x)) ({} \<union> (\<Union>x \<in> set xs. own_inner x)) h h2"
  proof (rule frame_extend [OF f])
    have "own_inner y \<subseteq> set (blocks h)" if "y \<in> set xs" for y
      using Cons.prems(2) that by (auto simp: inner_ok_def own_inner_def map_ok_def)
    then show "(\<Union>x \<in> set xs. own_inner x) \<subseteq> set (blocks h)" by blast
    show "(\<Union>x \<in> set xs. own_inner x) \<inter> own_inner x = {}" using Cons.prems(3) by auto
  qed
  then have "frame (\<Union>y \<in> set (x # xs). own_inner y) {} h h'" using frame_trans h'(2) by fastforce
  then show ?case using h1(1) h2(1) h'(1) by auto
qed

lemma refs_zero_slots:
  assumes ok: "hm_ok h m" and z: "\<And>s. slot_ok m s \<Longrightarrow> slot_refs h m s = 0" and x: "x \<in> set (hinners m)"
  shows "refs h (hvalues x) = (\<lambda>_. 0)"
proof
  fix k
  obtain j where j: "j < length (hinners m)" "hinners m ! j = x" using x by (auto simp: in_set_conv_nth)
  show "refs h (hvalues x) k = 0"
  proof (cases "k < map_size m")
    case True
    then show ?thesis using z [of "(j, k)"] j by (simp add: slot_ok_def slot_refs_def)
  next
    case False
    then show ?thesis using hm_inner(3) [OF ok j(1)] j(2) by (simp add: refs_def)
  qed
qed

lemma hm_cleanup_spec:
  assumes ok: "hm_ok h m" and z: "\<And>s. slot_ok m s \<Longrightarrow> slot_refs h m s = 0"
  shows "\<exists>h'. cx_rc_hash_map_cleanup m h = Some (0, h') \<and> frame (own_hm m) {} h h'"
proof -
  note O = ok [unfolded hm_ok_def]
  let ?I = "\<Union>x \<in> set (hinners m). own_inner x"
  have "\<forall>x \<in> set (hinners m). inner_ok h m x \<and> refs h (hvalues x) = (\<lambda>_. 0)"
    using O refs_zero_slots [OF ok z] by blast
  then obtain h1 where h1: "cleanup_inners (hinners m) h = Some h1" "frame ?I {} h h1"
    using cleanup_inners_spec [of h "hinners m" m] O disjoint_innersI by (auto simp: word_gt_0)
  have arr: "own_array m \<in> set (blocks h)" "{own_array m} \<inter> ?I = {}" using O by auto
  have "own_array m \<in> set (blocks h1)" using frame_mem [OF h1(2) arr(1)] arr(2) by auto
  moreover have "heap_ok h1" using frame_heap_ok [OF h1(2)] O by blast
  ultimately obtain h2 where h2: "free (hash_maps m) h1 = Some h2" "frame {own_array m} {} h1 h2"
    using free_block [of h1 "hash_maps m"] by (auto simp: own_array_def)
  have "frame (?I \<union> {own_array m}) ({} \<union> {own_array m}) h h1"
    by (rule frame_extend [OF h1(2)]) (use arr in auto)
  then have "frame (own_hm m) {} h h2" using frame_trans h2(2) by (fastforce simp: own_hm_def Un_commute)
  then show ?thesis using h1(1) h2(1) by (simp add: cx_rc_hash_map_cleanup_def)
qed

end
