(* ===== verification/HashMapUse.thy ===== *)
theory HashMapUse
  imports RcHashMap Lru
begin

text \<open>
  The hash map under use: how many keys a map holds before it needs another table, whole
  histories of puts, retains and releases, growth, and the LRU cache on a hash map.
\<close>

section \<open>Capacity\<close>

text \<open>The probed indices of the first table are distinct.\<close>

lemma probe_first_table:
  "i < k \<Longrightarrow> 0 < t \<Longrightarrow> n \<noteq> 0 \<Longrightarrow>
    (0, word_of_nat ((unat index + i) mod unat n)) \<in> set (probe t n index k)" for n :: u64
proof (induction k arbitrary: index i)
  case (Suc k)
  have n: "0 < unat n" using Suc.prems(3) by (simp add: unat_gt_0)
  show ?case
  proof (cases i)
    case 0
    then show ?thesis using Suc.prems(2) by (simp add: image_iff word_arith_nat_mod)
  next
    case (Suc j)
    have "unat index mod unat n < unat n" using n by simp
    then have "unat index mod unat n + 1 < 18446744073709551616" using unat_lt64_num [of n] by linarith
    then have "unat (index mod n) + 1 < 2 ^ 64" by (simp add: unat_mod)
    then have "unat (index mod n + 1) = unat index mod unat n + 1"
      by (subst unat_add_no_wrap) (simp_all add: unat_mod)
    then have "(unat (index mod n + 1) + j) mod unat n = (unat index + i) mod unat n"
      using mod_add_left_eq [of "unat index" "unat n" "1 + j"] Suc by (simp add: add.assoc)
    moreover have "(0, word_of_nat ((unat (index mod n + 1) + j) mod unat n)) \<in> set (probe t n (index mod n + 1) k)"
      by (rule Suc.IH) (use Suc Suc.prems in simp_all)
    ultimately show ?thesis unfolding probe.simps set_append by (intro UnI2) simp
  qed
qed simp

lemma shifted_mod_inj: "inj_on (\<lambda>i. (a + i) mod n) {..<k}" if "k \<le> n" for a n k :: nat
proof (rule linorder_inj_onI')
  fix i j assume "i \<in> {..<k}" "j \<in> {..<k}" "i < j"
  then have ij: "i < j" "j - i < n" using that by auto
  show "(a + i) mod n \<noteq> (a + j) mod n"
  proof
    assume "(a + i) mod n = (a + j) mod n"
    then have "(a + j) mod n = (a + i) mod n" by simp
    then have "n dvd (a + j) - (a + i)" using ij(1) by (subst mod_eq_dvd_iff_nat [symmetric]) simp_all
    then show False using ij nat_dvd_not_less [of "j - i" n] by simp
  qed
qed

lemma probes_reach:
  assumes ok: "hm_ok h m"
  shows "\<exists>S. S \<subseteq> set (probes m key (limit m)) \<and> card S = limit m"
proof -
  let ?n = "unat (map_size m)"
  let ?f = "\<lambda>i. (0 :: nat, word_of_nat ((unat (start_index m key) + i) mod ?n) :: u64)"
  have lim: "limit m \<le> ?n" by (simp add: limit_def)
  have n: "map_size m \<noteq> 0" "0 < ?n" using hm_starts(3) [OF ok] by (simp_all add: unat_gt_0)
  have t: "0 < length (hinners m)" using ok unfolding hm_ok_def by blast
  have "?f i \<in> set (probes m key (limit m))" if "i < limit m" for i
    unfolding probes_def by (rule probe_first_table [OF that t n(1)])
  then have "?f ` {..<limit m} \<subseteq> set (probes m key (limit m))" by (intro image_subsetI) (simp only: lessThan_iff)
  moreover have "inj_on ?f {..<limit m}"
  proof (rule inj_onI)
    fix i j assume ij: "i \<in> {..<limit m}" "j \<in> {..<limit m}" "?f i = ?f j"
    have "(unat (start_index m key) + x) mod ?n < 18446744073709551616" for x
      using mod_less_divisor [OF n(2), of "unat (start_index m key) + x"] unat_lt64_num [of "map_size m"] by linarith
    then have "(unat (start_index m key) + i) mod ?n = (unat (start_index m key) + j) mod ?n"
      using ij(3) by (simp add: word_of_nat_eq_iff take_bit_nat_eq_self)
    then show "i = j"
      by (rule inj_onD [OF shifted_mod_inj [OF lim] _ ij(1,2)])
  qed
  ultimately show ?thesis by (intro exI [of _ "?f ` {..<limit m}"] conjI) (simp_all only: card_image card_lessThan)
qed

text \<open>
  A map whose number of live keys is below the reach of a search has a free slot for
  every further key.
\<close>

lemma free_slot_exists:
  assumes ok: "hm_ok h m" and found: "all_found h m"
    and live: "\<And>k. 0 < hrefs h m k \<Longrightarrow> k \<in> set ks" and few: "length ks < limit m"
  shows "\<exists>s. free_slot h m key = Some s"
proof (cases "free_slot h m key")
  case None
  obtain S where S: "S \<subseteq> set (probes m key (limit m))" "card S = limit m" using probes_reach [OF ok] by blast
  have used: "lookup h m (slot_key h m s) = Some s \<and> 0 < slot_refs h m s" if s: "s \<in> S" for s
  proof -
    have p: "s \<in> set (probes m key (limit m))" using S(1) s by blast
    have "\<forall>s \<in> set (probes m key (limit m)). 0 < slot_refs h m s"
      using None unfolding free_slot_def find_None_iff by auto
    then have "0 < slot_refs h m s" using p by blast
    then show ?thesis using all_foundD [OF found probes_ok [OF ok p]] by simp
  qed
  then have "inj_on (slot_key h m) S" by (metis inj_onI option.inject)
  moreover have "slot_key h m ` S \<subseteq> set ks" using used live by (fastforce simp: hrefs_def)
  ultimately have "card S \<le> card (set ks)" by (metis card_image card_mono finite_set)
  then show ?thesis using few S(2) card_length [of ks] by linarith
qed simp

section \<open>Histories\<close>

lemma put_spec:
  assumes ok: "hm_ok h m" and found: "all_found h m" and fresh: "hrefs h m key = 0"
    and f: "free_slot h m key = Some s" and data: "readable h (own_hm m) data (unat (helement_size m))"
  shows "\<exists>h'. cx_rc_hash_map_put junk m key data h = Some (slot_element m s, m, h') \<and>
    hm_ok h' m \<and> all_found h' m \<and> hrefs h' m = (hrefs h m)(key := 1) \<and> lookup h' m key = Some s \<and>
    frame (own_hm m) (own_hm m) h h' \<and> cb_log h' = cb_log h \<and>
    bytes_at h' (slot_element m s) (unat (helement_size m)) = bytes_at h data (unat (helement_size m)) \<and>
    (\<forall>k t. 0 < hrefs h m k \<longrightarrow> lookup h m k = Some t \<longrightarrow> lookup h' m k = Some t)"
proof -
  have s: "slot_ok m s" using find_SomeD [OF f [unfolded free_slot_def]] probes_ok [OF ok] by blast
  have pre: "slot_refs h m s = 0"
  proof (rule ccontr)
    assume "slot_refs h m s \<noteq> 0"
    then have live: "0 < slot_refs h m s" by simp
    then have "slot_key h m s = key" using find_SomeD [OF f [unfolded free_slot_def]] by simp
    then show False using all_foundD [OF found s live] fresh live by (simp add: hrefs_def)
  qed
  obtain h1 h' where r: "store_u64 (hkeys (hinners m ! fst s) + 8 * unat (snd s)) key h = Some h1"
      "cx_rc_map_set (hvalues (hinners m ! fst s)) (snd s) data h1 = Some (slot_element m s, h')"
      "put_done h m s key 1 h'" "frame (own_hm m) (own_hm m) h h'" "cb_log h' = cb_log h"
      "element_at h' (hvalues (hinners m ! fst s)) (unat (snd s)) = bytes_at h data (unat (helement_size m))"
    using put_at_free [OF ok s pre data] by blast
  have j: "fst s < length (hinners m)" using s by (simp add: slot_ok_def)
  have el: "element_at h' (hvalues (hinners m ! fst s)) (unat (snd s)) = bytes_at h' (slot_element m s) (unat (helement_size m))"
    using get_element_eq(1) [OF slot_map [OF ok s]] hm_inner(4) [OF ok j]
    by (simp add: element_at_def slot_element_def)
  have "cx_rc_hash_map_put junk m key data h = Some (slot_element m s, m, h')"
    using put_free_eq [OF ok f] r(1,2) by simp
  moreover have "lookup h' m k = Some t" if "0 < hrefs h m k" "lookup h m k = Some t" for k t
  proof (rule put_lookup_other [OF ok r(3) _ that(2)])
    show "k \<noteq> key" using that(1) fresh by auto
    show "t \<noteq> s" using that pre by (auto simp: hrefs_def)
  qed
  ultimately show ?thesis
    using r(3-6) el put_fresh(2,3) [OF ok found fresh f r(3)] put_lookup [OF ok r(3) f] put_doneD(1) [OF r(3)]
    by auto
qed

text \<open>
  The operations of a client that puts a key only while it is not live. The result says
  whether a put or a retain gave an element, and whether a release returned zero.
\<close>

datatype hm_op = Put u64 addr | RetainKey u64 | ReleaseKey u64

datatype hm_result = Element addr | Status int

fun hm_call :: "rc_map \<Rightarrow> rc_hash_map \<Rightarrow> hm_op \<Rightarrow> heap \<Rightarrow> (hm_result \<times> rc_hash_map \<times> heap) option" where
  "hm_call junk m (Put k d) h = map_option (\<lambda>(p, m, h). (Element p, m, h)) (cx_rc_hash_map_put junk m k d h)"
| "hm_call junk m (RetainKey k) h = map_option (\<lambda>(p, h). (Element p, m, h)) (cx_rc_hash_map_retain m k h)"
| "hm_call junk m (ReleaseKey k) h = map_option (\<lambda>(rv, h). (Status rv, m, h)) (cx_rc_hash_map_release_key m k h)"

fun hm_trace :: "rc_map \<Rightarrow> hm_op list \<Rightarrow> rc_hash_map \<Rightarrow> heap \<Rightarrow> (hm_result list \<times> rc_hash_map \<times> heap) option" where
  "hm_trace junk [] m h = Some ([], m, h)"
| "hm_trace junk (x # xs) m h = do {
     (r, m, h) \<leftarrow> hm_call junk m x h;
     (rs, m, h) \<leftarrow> hm_trace junk xs m h;
     Some (r # rs, m, h)
   }"

text \<open>
  What the elements of a history must be: a put returns an element, a retain of a live key the element of its
  put, and the release of the last reference hands that element to the callback. The state is the count and the
  element of every key; the list is what the callback gets.
\<close>

fun history_step :: "(u64 \<Rightarrow> nat) \<times> (u64 \<Rightarrow> addr) \<Rightarrow> hm_op \<Rightarrow> hm_result \<Rightarrow> (((u64 \<Rightarrow> nat) \<times> (u64 \<Rightarrow> addr)) \<times> addr list) option" where
  "history_step (c, el) (Put k d) (Element p) = (if p \<noteq> 0 then Some ((c(k := 1), el(k := p)), []) else None)"
| "history_step (c, el) (RetainKey k) (Element p) =
     (if c k = 0 then if p = 0 then Some ((c, el), []) else None
      else if p = el k then Some ((c(k := c k + 1), el), []) else None)"
| "history_step (c, el) (ReleaseKey k) (Status rv) =
     (if rv = 0 then Some ((c(k := c k - 1), el), if c k = 1 then [el k] else []) else None)"
| "history_step _ _ _ = None"

fun element_history :: "(u64 \<Rightarrow> nat) \<times> (u64 \<Rightarrow> addr) \<Rightarrow> (hm_op \<times> hm_result) list \<Rightarrow> addr list option" where
  "element_history st [] = Some []"
| "element_history st ((x, r) # tr) = do {
     (st, log) \<leftarrow> history_step st x r;
     log' \<leftarrow> element_history st tr;
     Some (log @ log')
   }"

fun hm_op_step :: "rc_map \<Rightarrow> rc_hash_map \<Rightarrow> hm_op \<Rightarrow> heap \<Rightarrow> (bool \<times> rc_hash_map \<times> heap) option" where
  "hm_op_step junk m (Put k d) h = map_option (\<lambda>(p, m, h). (p \<noteq> 0, m, h)) (cx_rc_hash_map_put junk m k d h)"
| "hm_op_step junk m (RetainKey k) h = map_option (\<lambda>(p, h). (p \<noteq> 0, m, h)) (cx_rc_hash_map_retain m k h)"
| "hm_op_step junk m (ReleaseKey k) h = map_option (\<lambda>(rv, h). (rv = 0, m, h)) (cx_rc_hash_map_release_key m k h)"

fun hm_run :: "rc_map \<Rightarrow> hm_op list \<Rightarrow> rc_hash_map \<Rightarrow> heap \<Rightarrow> (bool list \<times> rc_hash_map \<times> heap) option" where
  "hm_run junk [] m h = Some ([], m, h)"
| "hm_run junk (x # xs) m h = do {
     (b, m, h) \<leftarrow> hm_op_step junk m x h;
     (bs, m, h) \<leftarrow> hm_run junk xs m h;
     Some (b # bs, m, h)
   }"

text \<open>
  The specification: the count of every key and the list of the live keys, of which there
  may be up to \<open>lim\<close>. The last component counts the callbacks.
\<close>

fun key_step :: "nat \<Rightarrow> (u64 \<Rightarrow> nat) \<times> u64 list \<Rightarrow> hm_op \<Rightarrow> (bool \<times> ((u64 \<Rightarrow> nat) \<times> u64 list) \<times> nat) option" where
  "key_step lim (c, ks) (Put k d) =
     (if c k = 0 \<and> length ks < lim then Some (True, (c(k := 1), k # ks), 0) else None)"
| "key_step lim (c, ks) (RetainKey k) =
     (if c k = 0 then Some (False, (c, ks), 0)
      else if c k < 2 ^ 31 - 1 then Some (True, (c(k := c k + 1), ks), 0) else None)"
| "key_step lim (c, ks) (ReleaseKey k) =
     (if c k = 0 then None
      else if c k = 1 then Some (True, (c(k := 0), removeAll k ks), 1)
      else Some (True, (c(k := c k - 1), ks), 0))"

fun key_run :: "nat \<Rightarrow> (u64 \<Rightarrow> nat) \<times> u64 list \<Rightarrow> hm_op list \<Rightarrow> (bool list \<times> ((u64 \<Rightarrow> nat) \<times> u64 list) \<times> nat) option" where
  "key_run lim s [] = Some ([], s, 0)"
| "key_run lim s (x # xs) = do {
     (b, s, n) \<leftarrow> key_step lim s x;
     (bs, s, n') \<leftarrow> key_run lim s xs;
     Some (b # bs, s, n + n')
   }"

fun hm_readable :: "heap \<Rightarrow> rc_hash_map \<Rightarrow> hm_op \<Rightarrow> bool" where
  "hm_readable h m (Put k d) = readable h (own_hm m) d (unat (helement_size m))"
| "hm_readable h m _ = True"

definition key_state :: "heap \<Rightarrow> rc_hash_map \<Rightarrow> (u64 \<Rightarrow> nat) \<times> u64 list \<Rightarrow> bool" where
  "key_state h m s \<longleftrightarrow> hm_ok h m \<and> all_found h m \<and> hrefs h m = fst s \<and> (\<forall>k. 0 < fst s k \<longrightarrow> k \<in> set (snd s))"

lemma slot_stepD: "slot_step h m s c h' \<Longrightarrow> slot_ok m t \<Longrightarrow> slot_refs h' m t = (if t = s then c else slot_refs h m t)"
  unfolding slot_step_def by blast

lemma slot_step_found:
  assumes ok: "hm_ok h m" and found: "all_found h m" and st: "slot_step h m s c h'"
    and s: "lookup h m key = Some s"
  shows "all_found h' m"
  unfolding all_found_def
proof (intro allI impI)
  fix t assume t: "slot_ok m t" "0 < slot_refs h' m t"
  have k: "slot_key h' m t = slot_key h m t" and r: "slot_refs h' m t = (if t = s then c else slot_refs h m t)"
    using st t(1) unfolding slot_step_def by blast+
  show "lookup h' m (slot_key h' m t) = Some t"
  proof (cases "t = s")
    case True
    then show ?thesis using slot_step_lookup [OF ok st, of key] k lookup_Some(2) [OF ok s] s by simp
  next
    case False
    then show ?thesis using slot_step_lookup [OF ok st] k r t(2) all_foundD [OF found t(1)] by simp
  qed
qed

lemma slot_element_pos: "hm_ok h m \<Longrightarrow> slot_ok m s \<Longrightarrow> slot_element m s \<noteq> 0"
  using get_element_eq(2) [OF slot_map] by (simp add: slot_element_def)

lemma retain_log: "cx_rc_map_retain m k h = Some (p, h') \<Longrightarrow> cb_log h' = cb_log h"
  by (auto simp: cx_rc_map_retain_def retain_rc_def store_int_def store_bytes_def Let_def bind_Some_iff
      split: if_splits)

lemma hm_retain_log: "cx_rc_hash_map_retain m k h = Some (p, h') \<Longrightarrow> cb_log h' = cb_log h"
  by (auto simp: cx_rc_hash_map_retain_def bind_Some_iff retain_log split: option.splits)

fun went_well :: "hm_result \<Rightarrow> bool" where
  "went_well (Element p) \<longleftrightarrow> p \<noteq> 0"
| "went_well (Status rv) \<longleftrightarrow> rv = 0"

lemma hm_op_step_call: "hm_op_step junk m x h = map_option (\<lambda>(r, m, h). (went_well r, m, h)) (hm_call junk m x h)"
  by (cases x) (simp_all add: option.map_comp comp_def case_prod_unfold)

lemma hm_run_trace: "hm_run junk xs m h = map_option (\<lambda>(rs, m, h). (map went_well rs, m, h)) (hm_trace junk xs m h)"
proof (induction xs arbitrary: m h)
  case (Cons x xs)
  then show ?case by (cases "hm_call junk m x h") (auto simp: hm_op_step_call bind_map_option split: Option.bind_split)
qed simp

text \<open>The elements of the live keys.\<close>

definition elements_of :: "heap \<Rightarrow> rc_hash_map \<Rightarrow> (u64 \<Rightarrow> addr) \<Rightarrow> bool" where
  "elements_of h m el \<longleftrightarrow> (\<forall>k t. 0 < hrefs h m k \<longrightarrow> lookup h m k = Some t \<longrightarrow> slot_element m t = el k)"

lemma elements_ofD: "elements_of h m el \<Longrightarrow> 0 < hrefs h m k \<Longrightarrow> lookup h m k = Some t \<Longrightarrow> slot_element m t = el k"
  unfolding elements_of_def by blast

lemma slot_step_elements:
  "elements_of h m el \<Longrightarrow> hm_ok h m \<Longrightarrow> slot_step h m s c h' \<Longrightarrow> (\<And>k. 0 < hrefs h' m k \<Longrightarrow> 0 < hrefs h m k) \<Longrightarrow> elements_of h' m el"
  by (auto simp: elements_of_def slot_step_lookup)

lemma key_step_history:
  assumes st: "key_state h m s" and data: "hm_readable h m x" and el: "elements_of h m el"
    and run: "key_step (limit m) s x = Some (b, s', n)"
  shows "\<exists>r h' el' log. hm_call junk m x h = Some (r, m, h') \<and> went_well r = b \<and> key_state h' m s' \<and> elements_of h' m el' \<and>
    frame (own_hm m) (own_hm m) h h' \<and> history_step (fst s, el) x r = Some ((fst s', el'), log) \<and>
    cb_log h' = cb_log h @ log \<and> length log = n"
proof -
  obtain c ks where s: "s = (c, ks)" by force
  have ok: "hm_ok h m" and found: "all_found h m" and c: "hrefs h m = c" and live: "\<And>k. 0 < c k \<Longrightarrow> k \<in> set ks"
    using st s by (auto simp: key_state_def)
  show ?thesis
  proof (cases x)
    case (Put k d)
    then have r: "hrefs h m k = 0" "length ks < limit m" "b" "s' = (c(k := 1), k # ks)" "n = 0"
      using run s c by (auto split: if_splits)
    obtain t where t: "free_slot h m k = Some t"
      using free_slot_exists [OF ok found _ r(2)] live c by blast
    have tok: "slot_ok m t" using find_SomeD [OF t [unfolded free_slot_def]] probes_ok [OF ok] by blast
    have d: "readable h (own_hm m) d (unat (helement_size m))" using data Put by simp
    obtain h' where h': "cx_rc_hash_map_put junk m k d h = Some (slot_element m t, m, h')" "hm_ok h' m"
        "all_found h' m" "hrefs h' m = (hrefs h m)(k := 1)" "frame (own_hm m) (own_hm m) h h'" "cb_log h' = cb_log h"
        "lookup h' m k = Some t" "\<forall>j t. 0 < hrefs h m j \<longrightarrow> lookup h m j = Some t \<longrightarrow> lookup h' m j = Some t"
      using put_spec [OF ok found r(1) t d, of junk] by blast
    have "key_state h' m s'" using h'(2-4) live c r(4) by (auto simp: key_state_def)
    moreover have "elements_of h' m (el(k := slot_element m t))"
      unfolding elements_of_def
    proof (intro allI impI)
      fix j u assume j: "0 < hrefs h' m j" "lookup h' m j = Some u"
      show "slot_element m u = (el(k := slot_element m t)) j"
      proof (cases "j = k")
        case False
        then have l: "0 < hrefs h m j" using j(1) h'(4) by simp
        then obtain w where w: "lookup h m j = Some w" by (auto simp: hrefs_def split: option.splits)
        then have "lookup h' m j = Some w" using h'(8) l by blast
        then have "u = w" using j(2) by simp
        moreover have "slot_element m w = el j" by (rule elements_ofD [OF el l w])
        ultimately show ?thesis using False by simp
      qed (use j(2) h'(7) in simp)
    qed
    ultimately show ?thesis using h'(1,5,6) Put r(3-5) s slot_element_pos [OF ok tok] by simp
  next
    case (RetainKey k)
    show ?thesis
    proof (cases "c k = 0")
      case True
      then have "hm_call junk m x h = Some (Element 0, m, h)"
        using hm_retain_absent [OF ok] RetainKey c by simp
      then show ?thesis using run True RetainKey s st el frame_refl [OF hm_own_sub [OF ok]] by auto
    next
      case False
      then have r: "0 < hrefs h m k" "hrefs h m k < 2 ^ 31 - 1" "b" "s' = (c(k := c k + 1), ks)" "n = 0"
        using run s c RetainKey by (auto split: if_splits)
      obtain t h' where t: "lookup h m k = Some t" "cx_rc_hash_map_retain m k h = Some (slot_element m t, h')"
          "slot_step h m t (slot_refs h m t + 1) h'"
        using hm_retain_spec [OF ok r(1,2)] by blast
      note log = hm_retain_log [OF t(2)]
      have hr: "hrefs h' m = c(k := c k + 1)" using slot_step_hrefs [OF ok t(3,1)] t(1) c by (auto simp: hrefs_def)
      then have "key_state h' m s'"
        using slot_step_found [OF ok found t(3,1)] t(3) live r(4) False by (auto simp: key_state_def slot_step_def)
      moreover have "elements_of h' m el"
        by (rule slot_step_elements [OF el ok t(3)]) (use hr c False in \<open>simp split: if_splits\<close>)
      moreover have "slot_element m t = el k" by (rule elements_ofD [OF el r(1) t(1)])
      ultimately show ?thesis using t log r(3-5) s RetainKey False slot_element_pos [OF ok lookup_Some(1) [OF ok t(1)]]
        by (simp add: slot_step_def)
    qed
  next
    case (ReleaseKey k)
    then have r: "0 < hrefs h m k" "b" "s' = (c(k := c k - 1), if c k = 1 then removeAll k ks else ks)"
        "n = (if c k = 1 then 1 else 0)"
      using run s c by (auto split: if_splits)
    obtain t h' where t: "lookup h m k = Some t" "cx_rc_hash_map_release_key m k h = Some (0, h')"
        "slot_step h m t (slot_refs h m t - 1) h'"
        "cb_log h' = cb_log h @ (if slot_refs h m t = 1 then [slot_element m t] else [])"
      using hm_release_key_spec [OF ok r(1)] by blast
    have ct: "slot_refs h m t = c k" using t(1) c by (auto simp: hrefs_def)
    have hr: "hrefs h' m = c(k := c k - 1)" using slot_step_hrefs [OF ok t(3,1)] ct c by simp
    then have "key_state h' m s'"
      using slot_step_found [OF ok found t(3,1)] t(3) live r(3) by (auto simp: key_state_def slot_step_def)
    moreover have "elements_of h' m el"
      by (rule slot_step_elements [OF el ok t(3)]) (use hr c in \<open>simp split: if_splits\<close>)
    moreover have "slot_element m t = el k" by (rule elements_ofD [OF el r(1) t(1)])
    ultimately show ?thesis using t r(2-4) s ct ReleaseKey by (simp add: slot_step_def)
  qed
qed

lemma hm_readable_frame: "frame (own_hm m) (own_hm m) h h' \<Longrightarrow> hm_readable h m x \<Longrightarrow> hm_readable h' m x"
  by (cases x) (auto intro: readable_frame)

lemma key_run_history:
  assumes "key_state h m s" "list_all (hm_readable h m) xs" "elements_of h m el" "key_run (limit m) s xs = Some (bs, s', n)"
  shows "\<exists>rs h' log. hm_trace junk xs m h = Some (rs, m, h') \<and> map went_well rs = bs \<and> key_state h' m s' \<and>
    frame (own_hm m) (own_hm m) h h' \<and> element_history (fst s, el) (zip xs rs) = Some log \<and>
    cb_log h' = cb_log h @ log \<and> length log = n"
  using assms
proof (induction xs arbitrary: h s el bs n)
  case Nil
  then show ?case using frame_refl [OF hm_own_sub] by (auto simp: key_state_def)
next
  case (Cons x xs)
  obtain b s1 n1 bs2 n2 where r: "key_step (limit m) s x = Some (b, s1, n1)"
      "key_run (limit m) s1 xs = Some (bs2, s', n2)" "bs = b # bs2" "n = n1 + n2"
    using Cons.prems(4) by (auto simp: bind_Some_iff)
  have x: "hm_readable h m x" using Cons.prems(2) by simp
  obtain q h1 el1 l1 where h1: "hm_call junk m x h = Some (q, m, h1)" "went_well q = b" "key_state h1 m s1" "elements_of h1 m el1"
      "frame (own_hm m) (own_hm m) h h1" "history_step (fst s, el) x q = Some ((fst s1, el1), l1)"
      "cb_log h1 = cb_log h @ l1" "length l1 = n1"
    using key_step_history [OF Cons.prems(1) x Cons.prems(3) r(1), of junk] by blast
  have "list_all (hm_readable h1 m) xs"
    using Cons.prems(2) hm_readable_frame [OF h1(5)] by (auto simp: list_all_iff)
  then obtain rs h2 l2 where "hm_trace junk xs m h1 = Some (rs, m, h2)" "map went_well rs = bs2" "key_state h2 m s'"
      "frame (own_hm m) (own_hm m) h1 h2" "element_history (fst s1, el1) (zip xs rs) = Some l2"
      "cb_log h2 = cb_log h1 @ l2" "length l2 = n2"
    using Cons.IH [OF h1(3) _ h1(4) r(2)] by blast
  then show ?case using h1 frame_trans [OF h1(5)] r(3,4) by auto
qed

lemma key_run_refines:
  assumes "key_state h m s" "list_all (hm_readable h m) xs" "key_run (limit m) s xs = Some (bs, s', n)"
  shows "\<exists>h'. hm_run junk xs m h = Some (bs, m, h') \<and> key_state h' m s' \<and>
    frame (own_hm m) (own_hm m) h h' \<and> length (cb_log h') = length (cb_log h) + n"
proof -
  have "elements_of h m (\<lambda>k. slot_element m (the (lookup h m k)))" by (simp add: elements_of_def)
  from key_run_history [OF assms(1,2) this assms(3), of junk] show ?thesis by (auto simp: hm_run_trace)
qed

text \<open>Every put is followed by one callback, except for the keys that are live at the end.\<close>

fun is_put :: "hm_op \<Rightarrow> bool" where
  "is_put (Put k d) = True"
| "is_put _ = False"

lemma key_run_callbacks:
  assumes "key_run lim (c, ks) xs = Some (bs, (c', ks'), n)" "distinct ks" "set ks = {k. 0 < c k}"
  shows "distinct ks' \<and> set ks' = {k. 0 < c' k} \<and> n + length ks' = length (filter is_put xs) + length ks"
  using assms
proof (induction xs arbitrary: c ks bs n)
  case (Cons x xs)
  obtain b c1 ks1 n1 bs2 n2 where r: "key_step lim (c, ks) x = Some (b, (c1, ks1), n1)"
      "key_run lim (c1, ks1) xs = Some (bs2, (c', ks'), n2)" "n = n1 + n2"
    using Cons.prems(1) by (auto simp: bind_Some_iff)
  have "distinct ks1 \<and> set ks1 = {k. 0 < c1 k} \<and> n1 + length ks1 = length (filter is_put [x]) + length ks"
  proof (cases x)
    case (ReleaseKey k)
    have "Suc (length (removeAll k ks)) = length ks" if "c k = 1"
    proof -
      have "k \<in> set ks" using Cons.prems(3) that by simp
      then show ?thesis using Cons.prems(2) by (simp add: distinct_remove1_removeAll [symmetric] length_remove1)
        (metis Suc_pred length_pos_if_in_set)
    qed
    then show ?thesis using r(1) Cons.prems(2,3) ReleaseKey by (auto split: if_splits simp: distinct_removeAll)
  qed (use r(1) Cons.prems(2,3) in \<open>auto split: if_splits\<close>)
  then show ?case using Cons.IH [OF r(2)] r(3) by auto
qed simp

section \<open>Release by element\<close>

lemma element_in_block:
  assumes "map_ok h v" "k < rsize v" "relement_size v \<noteq> 0"
  shows "rdata v \<le> get_element v k" "get_element v k < rdata v + unat (rsize v) * unat (relement_size v)"
  using contains_element [OF assms] contains_iff [OF assms(1)] by auto

lemma release_in_table:
  assumes "j < length xs" "\<And>i. i < j \<Longrightarrow> \<not> cx_rc_map_contains (hvalues (xs ! i)) p"
    and "cx_rc_map_contains (hvalues (xs ! j)) p"
  shows "release_in xs p h = cx_rc_map_release (hvalues (xs ! j)) p h"
  using assms
proof (induction xs arbitrary: j)
  case (Cons x xs)
  show ?case
  proof (cases j)
    case 0
    then show ?thesis using Cons.prems(3) by simp
  next
    case (Suc i)
    have "\<not> cx_rc_map_contains (hvalues x) p" using Cons.prems(2) [of 0] Suc by simp
    moreover have "release_in xs p h = cx_rc_map_release (hvalues (xs ! i)) p h"
      by (rule Cons.IH) (use Cons.prems Suc in \<open>force+\<close>)
    ultimately show ?thesis using Suc by simp
  qed
qed simp

text \<open>The data arrays of different tables are different objects.\<close>

lemma element_of_one_table:
  assumes ok: "hm_ok h m" and s: "slot_ok m s" and e: "helement_size m \<noteq> 0"
    and i: "i < length (hinners m)" "i \<noteq> fst s"
  shows "\<not> cx_rc_map_contains (hvalues (hinners m ! i)) (slot_element m s)"
proof
  let ?u = "hvalues (hinners m ! i)" and ?v = "hvalues (hinners m ! fst s)"
  let ?U = "(rdata ?u, unat (rsize ?u) * unat (relement_size ?u))"
  let ?V = "(rdata ?v, unat (rsize ?v) * unat (relement_size ?v))"
  assume "cx_rc_map_contains ?u (slot_element m s)"
  then have in_u: "rdata ?u \<le> slot_element m s" "slot_element m s < rdata ?u + unat (rsize ?u) * unat (relement_size ?u)"
    using contains_iff [OF hm_inner(2) [OF ok i(1)]] by auto
  have j: "fst s < length (hinners m)" using s by (simp add: slot_ok_def)
  have "relement_size ?v \<noteq> 0" using hm_inner(4) [OF ok j] e by simp
  then have in_v: "rdata ?v \<le> slot_element m s" "slot_element m s < rdata ?v + unat (rsize ?v) * unat (relement_size ?v)"
    using element_in_block [OF slot_map [OF ok s]] by (simp_all add: slot_element_def)
  have "?U \<in> own_inner (hinners m ! i)" "?V \<in> own_inner (hinners m ! fst s)"
    by (auto simp: own_inner_def own_map_def)
  moreover have "own_inner (hinners m ! i) \<inter> own_inner (hinners m ! fst s) = {}"
    using ok i j by (simp add: hm_ok_def)
  ultimately have "?U \<noteq> ?V" "?U \<in> set (blocks h)" "?V \<in> set (blocks h)"
    using hm_inner(5) [OF ok i(1)] hm_inner(5) [OF ok j] by (metis disjoint_iff, metis subsetD, metis subsetD)
  moreover have "heap_ok h" using ok by (simp add: hm_ok_def)
  ultimately have "rdata ?u + unat (rsize ?u) * unat (relement_size ?u) \<le> rdata ?v \<or>
      rdata ?v + unat (rsize ?v) * unat (relement_size ?v) \<le> rdata ?u"
    using heap_ok_disjoint [of h ?U ?V] by fastforce
  then show False using in_u in_v by linarith
qed

lemma release_slot_element:
  assumes ok: "hm_ok h m" and s: "slot_ok m s" and e: "helement_size m \<noteq> 0"
  shows "cx_rc_hash_map_release m (slot_element m s) h =
    cx_rc_map_release_index (hvalues (hinners m ! fst s)) (snd s) h"
proof -
  have j: "fst s < length (hinners m)" using s by (simp add: slot_ok_def)
  have e': "relement_size (hvalues (hinners m ! fst s)) \<noteq> 0" using hm_inner(4) [OF ok j] e by simp
  have "release_in (hinners m) (slot_element m s) h = cx_rc_map_release (hvalues (hinners m ! fst s)) (slot_element m s) h"
  proof (rule release_in_table [OF j])
    show "\<not> cx_rc_map_contains (hvalues (hinners m ! i)) (slot_element m s)" if "i < fst s" for i
      using element_of_one_table [OF ok s e] that j by simp
    show "cx_rc_map_contains (hvalues (hinners m ! fst s)) (slot_element m s)"
      using contains_element [OF slot_map [OF ok s] e'] by (simp add: slot_element_def)
  qed
  then show ?thesis
    using release_element [OF slot_map [OF ok s] e'] by (simp add: cx_rc_hash_map_release_def slot_element_def)
qed

section \<open>Growth\<close>

lemma find_probe_extend:
  assumes "\<And>s. s \<in> set (probe (Suc t) n i k) \<Longrightarrow> P s \<Longrightarrow> fst s < t"
  shows "find P (probe (Suc t) n i k) = find P (probe t n i k)"
  using assms
proof (induction k arbitrary: i)
  case (Suc k)
  have "\<not> P (t, i mod n)" using Suc.prems [of "(t, i mod n)"] by auto
  moreover have "find P (probe (Suc t) n (i mod n + 1) k) = find P (probe t n (i mod n + 1) k)"
    by (rule Suc.IH, rule Suc.prems) auto
  ultimately show ?case by (simp add: find_append split: option.split)
qed simp

text \<open>
  A further table changes nothing for the keys in use, except for key zero, which a search
  finds in the zeroed slots of the new table.
\<close>

lemma extend_keeps:
  assumes ok: "hm_ok h m" and found: "all_found h m" and zero: "hrefs h m 0 = 0"
    and cb: "cb_local (hcleanup m) (unat (helement_size m))"
    and run: "extend_hash_map junk m h = Some (0, m', h')"
  shows "hm_ok h' m'" "all_found h' m'" "hrefs h' m' = hrefs h m" "frame (own_hm m) (own_hm m') h h'"
    "map_size m' = map_size m" "helement_size m' = helement_size m" "length (hinners m') = Suc (length (hinners m))"
    "\<And>s. slot_ok m s \<Longrightarrow> slot_key h' m' s = slot_key h m s \<and> slot_refs h' m' s = slot_refs h m s"
    "\<And>i. i < map_size m \<Longrightarrow> slot_key h' m' (length (hinners m), i) = 0 \<and> slot_refs h' m' (length (hinners m), i) = 0"
proof -
  have X: "hm_ok h' m'" "frame (own_tables m) (own_hm m') h h'" "map_size m' = map_size m" "helement_size m' = helement_size m"
      "\<exists>x. hinners m' = hinners m @ [x] \<and> fresh_table h' m' x"
      "\<And>s. slot_ok m s \<Longrightarrow> slot_key h' m' s = slot_key h m s \<and> slot_refs h' m' s = slot_refs h m s"
    using extend_spec [OF disjI2 [OF ok] cb run] by blast+
  show ok': "hm_ok h' m'" and ms: "map_size m' = map_size m" and "helement_size m' = helement_size m" by fact+
  show old: "slot_key h' m' s = slot_key h m s \<and> slot_refs h' m' s = slot_refs h m s" if "slot_ok m s" for s
    by (rule X(6) [OF that])
  obtain x where x: "hinners m' = hinners m @ [x]" "fresh_table h' m' x" using X(5) by blast
  then show len: "length (hinners m') = Suc (length (hinners m))" by simp
  have "hinners m \<noteq> []" using ok by (simp add: hm_ok_def)
  then show "frame (own_hm m) (own_hm m') h h'" using X(2) by (simp add: own_tables_def)
  show new: "slot_key h' m' (length (hinners m), i) = 0 \<and> slot_refs h' m' (length (hinners m), i) = 0"
    if "i < map_size m" for i
    using fresh_slots [OF ok' x(1,2), of "(length (hinners m), i)"] that ms len by (simp add: slot_ok_def)
  have split: "slot_ok m s \<or> (fst s = length (hinners m) \<and> slot_key h' m' s = 0 \<and> slot_refs h' m' s = 0)"
    if "slot_ok m' s" for s
    using that new [of "snd s"] ms len by (cases s) (auto simp: slot_ok_def less_Suc_eq)
  have lk: "lookup h' m' k = lookup h m k" if k: "k \<noteq> 0" for k
  proof -
    have "fst s < length (hinners m)" if s: "s \<in> set (probes m' k (limit m'))" "slot_key h' m' s = k" for s
      using split [OF probes_ok [OF ok' s(1)]] s(2) k by (auto simp: slot_ok_def)
    then have "lookup h' m' k = find (\<lambda>s. slot_key h' m' s = k) (probes m k (limit m))"
      unfolding lookup_def probes_def limit_def start_index_def ms len by (intro find_probe_extend) auto
    also have "\<dots> = find (\<lambda>s. slot_key h m s = k) (probes m k (limit m))"
      using old probes_ok [OF ok] by (intro find_cong) auto
    finally show ?thesis by (simp add: lookup_def)
  qed
  have live_nz: "slot_key h m s \<noteq> 0" if "slot_ok m s" "0 < slot_refs h m s" for s
    using all_foundD [OF found that] zero that(2) by (auto simp: hrefs_def)
  have live: "slot_ok m s \<and> slot_key h m s \<noteq> 0 \<and> slot_key h' m' s = slot_key h m s \<and> slot_refs h' m' s = slot_refs h m s"
    if "slot_ok m' s" "0 < slot_refs h' m' s" for s
  proof -
    have s: "slot_ok m s" using split [OF that(1)] that(2) by (metis less_irrefl)
    then show ?thesis using live_nz [OF s] old [OF s] that(2) by simp
  qed
  show "all_found h' m'"
    unfolding all_found_def using live lk all_foundD [OF found] by metis
  show "hrefs h' m' = hrefs h m"
  proof
    fix k
    show "hrefs h' m' k = hrefs h m k"
    proof (cases "k = 0")
      case True
      have "slot_refs h' m' s = 0" if "lookup h' m' 0 = Some s" for s
        using live [of s] lookup_Some(1,2) [OF ok' that] by force
      then show ?thesis using True zero by (simp add: hrefs_def split: option.split)
    next
      case False
      then show ?thesis using lk [OF False] old lookup_Some(1) [OF ok]
        by (auto simp: hrefs_def split: option.split)
    qed
  qed
qed

section \<open>Properties\<close>

text \<open>
  For the witnesses: a map with one table of two slots. Slot 0 holds the stale key 7, slot 1
  the live key 9. Every key of a map of this size starts at slot 0.
\<close>

definition demo_inner :: hash_inner where
  "demo_inner = \<lparr>hkeys = 2000, hvalues = \<lparr>rdata = 3000, rsize = 2, relement_size = 1, rref_count = 4000,
     rcleanup = test_deinit\<rparr>\<rparr>"

definition demo_hash :: rc_hash_map where
  "demo_hash = \<lparr>hash_maps = 1000, hinners = [demo_inner], hash_map_count = 1, map_size = 2, helement_size = 1,
     hcleanup = test_deinit\<rparr>"

definition demo_hash_heap :: heap where
  "demo_hash_heap = \<lparr>mem = (\<lambda>a. if a = 2000 then 7 else if a = 2008 then 9 else if a = 4004 then 1 else if a = 100 then 5
       else if 500 \<le> a \<and> a < 516 then 255 else 0),
     blocks = [(1000, 56), (2000, 16), (3000, 2), (4000, 8), (100, 1), (500, 16)],
     answers = [5000, 6000, 7000, 8000], cb_log = []\<rparr>"

lemma demo_hash_slots:
  "slot_ok demo_hash s \<longleftrightarrow> s = (0, 0) \<or> s = (0, 1)"
  "slot_key demo_hash_heap demo_hash (0, 0) = 7" "slot_key demo_hash_heap demo_hash (0, 1) = 9"
  "slot_refs demo_hash_heap demo_hash (0, 0) = 0" "slot_refs demo_hash_heap demo_hash (0, 1) = 1"
proof -
  have "i < 2 \<longleftrightarrow> i = 0 \<or> i = 1" for i :: u64 by (auto simp: word_less_nat_alt word_unat_eq_iff)
  then show "slot_ok demo_hash s \<longleftrightarrow> s = (0, 0) \<or> s = (0, 1)"
    by (cases s) (auto simp: slot_ok_def demo_hash_def)
qed (simp_all add: slot_key_def slot_refs_def refs_def count_at_def int_at_def u64_at_def read_mem_def demo_hash_def
    demo_inner_def demo_hash_heap_def upt_rec word_less_nat_alt)

lemma demo_hash_probes: "limit demo_hash = 2" "probes demo_hash key 2 = [(0, 0), (0, 1)]"
proof -
  have "start_index demo_hash key = 0"
    by (simp add: start_index_def demo_hash_def mod_2_eq_odd)
  then show "probes demo_hash key 2 = [(0, 0), (0, 1)]"
    by (simp add: probes_def demo_hash_def numeral_2_eq_2)
qed (simp add: limit_def MAX_COLLISIONS_def demo_hash_def)

lemma demo_hash_ok: "hm_ok demo_hash_heap demo_hash"
proof -
  have "i < 2 \<Longrightarrow> i = 0 \<or> i = 1" for i :: nat by linarith
  moreover have "count_at demo_hash_heap (hvalues demo_inner) 0 = 0" "count_at demo_hash_heap (hvalues demo_inner) 1 = 1"
    by (simp_all add: count_at_def int_at_def read_mem_def demo_inner_def demo_hash_heap_def upt_rec)
  ultimately have "\<forall>i < 2. 0 \<le> count_at demo_hash_heap (hvalues demo_inner) i" by force
  then show ?thesis using test_deinit_local
    by (simp add: hm_ok_def inner_ok_def map_ok_def own_map_def own_keys_def own_inner_def own_array_def demo_hash_def
        demo_inner_def demo_hash_heap_def heap_ok_def fits_def)
qed

lemma demo_hash_refs:
  "lookup demo_hash_heap demo_hash 9 = Some (0, 1)" "hrefs demo_hash_heap demo_hash = (\<lambda>k. if k = 9 then 1 else 0)"
  "all_found demo_hash_heap demo_hash"
proof -
  have l: "lookup demo_hash_heap demo_hash k = (if k = 7 then Some (0, 0) else if k = 9 then Some (0, 1) else None)" for k
    by (auto simp: lookup_def demo_hash_probes demo_hash_slots)
  then show "lookup demo_hash_heap demo_hash 9 = Some (0, 1)" by simp
  show "hrefs demo_hash_heap demo_hash = (\<lambda>k. if k = 9 then 1 else 0)"
    using l by (auto simp: hrefs_def demo_hash_slots)
  show "all_found demo_hash_heap demo_hash"
    unfolding all_found_def demo_hash_slots(1) using l by (auto simp: demo_hash_slots)
qed

lemma demo_hash_data: "readable demo_hash_heap (own_hm demo_hash) 100 (unat (helement_size demo_hash))"
  by (rule readableI [of 100 1])
    (auto simp: demo_hash_heap_def demo_hash_def demo_inner_def own_hm_def own_inner_def own_array_def own_keys_def own_map_def)

text \<open>
  C9. A hash map counts exactly. Any sequence of puts of keys that are not live, retains
  and releases by key does what the counting specification says, as long as the number of
  live keys stays below the reach of a search (the smaller of the size of a table and
  \<^verbatim>\<open>MAX_COLLISIONS\<close>): every put and every retain of a live key returns an
  element, a retain of a dead key returns null, the callback is called once whenever the
  last reference to a key goes, no memory is allocated and nothing outside the map changes.
\<close>

theorem hash_map_counts_exact:
  assumes "hm_ok h m" "all_found h m" "\<forall>k. 0 < hrefs h m k \<longrightarrow> k \<in> set ks"
    and "list_all (hm_readable h m) xs" "key_run (limit m) (hrefs h m, ks) xs = Some (bs, (c, ks'), n)"
  shows "\<exists>h'. hm_run junk xs m h = Some (bs, m, h') \<and> hm_ok h' m \<and> all_found h' m \<and> hrefs h' m = c \<and>
    frame (own_hm m) (own_hm m) h h' \<and> length (cb_log h') = length (cb_log h) + n"
proof -
  have "key_state h m (hrefs h m, ks)" using assms(1-3) by (simp add: key_state_def)
  from key_run_refines [OF this assms(4,5), of junk] show ?thesis by (auto simp: key_state_def)
qed

theorem hash_map_counts_exact_witness:
  "\<exists>h'. hm_run demo_map [Put 3 100, RetainKey 9, RetainKey 4, ReleaseKey 3, ReleaseKey 9, ReleaseKey 9, Put 4 100] demo_hash demo_hash_heap =
      Some ([True, True, False, True, True, True, True], demo_hash, h') \<and>
     hrefs h' demo_hash 4 = 1 \<and> hrefs h' demo_hash 9 = 0 \<and> length (cb_log h') = 2"
proof -
  let ?xs = "[Put 3 100, RetainKey 9, RetainKey 4, ReleaseKey 3, ReleaseKey 9, ReleaseKey 9, Put 4 100]"
  have r: "list_all (hm_readable demo_hash_heap demo_hash) ?xs" using demo_hash_data by simp
  have "\<exists>c. key_run (limit demo_hash) (hrefs demo_hash_heap demo_hash, [9]) ?xs =
      Some ([True, True, False, True, True, True, True], (c, [4]), 2) \<and> c 4 = 1 \<and> c 9 = 0"
    by (simp add: demo_hash_refs(2) demo_hash_probes(1))
  then obtain c where c: "key_run (limit demo_hash) (hrefs demo_hash_heap demo_hash, [9]) ?xs =
      Some ([True, True, False, True, True, True, True], (c, [4]), 2)" "c 4 = 1" "c 9 = 0" by blast
  have live: "\<forall>k. 0 < hrefs demo_hash_heap demo_hash k \<longrightarrow> k \<in> set [9]" by (simp add: demo_hash_refs(2))
  have "cb_log demo_hash_heap = []" by (simp add: demo_hash_heap_def)
  then show ?thesis
    using hash_map_counts_exact [OF demo_hash_ok demo_hash_refs(3) live r c(1), of demo_map] c(2,3) by auto
qed

text \<open>The log of callbacks changes only where a callback is called.\<close>

lemma free_log: "free p h = Some h' \<Longrightarrow> cb_log h' = cb_log h"
  by (auto simp: free_def split: if_splits)

lemma cleanup_inners_log: "cleanup_inners xs h = Some h' \<Longrightarrow> cb_log h' = cb_log h"
proof (induction xs arbitrary: h)
  case (Cons x xs)
  obtain h1 rv v h2 where "free (hkeys x) h = Some h1" "cx_rc_map_cleanup (hvalues x) h1 = Some (rv, v, h2)" "cleanup_inners xs h2 = Some h'"
    using Cons.prems by (auto simp: bind_Some_iff)
  moreover from this(2) have "cb_log h2 = cb_log h1"
    by (auto simp: cx_rc_map_cleanup_def bind_Some_iff Let_def free_log split: if_splits)
  ultimately show ?case using Cons.IH free_log by metis
qed simp

lemma hm_cleanup_log: "cx_rc_hash_map_cleanup m h = Some (rv, h') \<Longrightarrow> cb_log h' = cb_log h"
  by (auto simp: cx_rc_hash_map_cleanup_def bind_Some_iff dest!: cleanup_inners_log free_log)

lemma malloc_log: "cb_log (snd (malloc n h)) = cb_log h"
  by (auto simp: malloc_def split: list.splits)

lemma calloc_log: "calloc n sz h = (p, h') \<Longrightarrow> cb_log h' = cb_log h"
  using malloc_log [of "unat n * unat sz" h] by (auto simp: calloc_def split: if_splits prod.splits)

lemma hm_init_log:
  assumes "cx_rc_hash_map_init junk m0 n e cb h = Some (0, m, h')"
  shows "cb_log h' = cb_log h"
proof -
  obtain N p h1 keys h2 v where a: "malloc N h = (p, h1)" "calloc n 8 h1 = (keys, h2)"
      "cx_rc_map_init junk n e cb h2 = Some (0, v, h')"
    using assms by (auto simp: cx_rc_hash_map_init_def extend_hash_map_def Let_def bind_Some_iff split: prod.splits if_splits)
  have "cb_log h' = cb_log h2"
    using a(3) by (auto simp: cx_rc_map_init_def Let_def bind_Some_iff dest!: calloc_log split: prod.splits if_splits)
  then show ?thesis using calloc_log [OF a(2)] malloc_log [of N h] a(1) by simp
qed

text \<open>
  C19. The whole life of a hash map: after a successful \<^verbatim>\<open>cx_rc_hash_map_init\<close>, whatever the
  memory of its table held before, any sequence of puts of dead keys, retains and releases that keeps the number
  of live keys within the reach of a search and gives all references back, and \<^verbatim>\<open>cx_rc_hash_map_cleanup\<close>:
  every put returned an element, retains of a live key return the element of its put, the release of its last reference hands that
  element to the callback, which is called at no other time and as often as there were puts, and the heap has the
  objects and contents it had before.
\<close>

theorem hash_map_lifetime:
  assumes "heap_ok h" "n \<noteq> 0" "cb_local cb (unat e)"
    and "cx_rc_hash_map_init junk m0 n e cb h = Some (0, m, h1)"
    and "\<forall>k d. Put k d \<in> set xs \<longrightarrow> readable h {} d (unat e)"
    and "key_run (min (unat n) MAX_COLLISIONS) (\<lambda>_. 0, []) xs = Some (bs, (c, ks), cleaned)" "\<forall>k. c k = 0"
  shows "\<exists>rs h2 h3 log. hm_trace junk xs m h1 = Some (rs, m, h2) \<and> map went_well rs = bs \<and>
    cx_rc_hash_map_cleanup m h2 = Some (0, h3) \<and>
    element_history (\<lambda>_. 0, \<lambda>_. 0) (zip xs rs) = Some log \<and> cb_log h3 = cb_log h @ log \<and>
    length log = length (filter is_put xs) \<and> frame {} {} h h3"
proof -
  have i: "hm_ok h1 m" "frame {} (own_hm m) h h1" "map_size m = n" "helement_size m = e" "all_found h1 m" "hrefs h1 m = (\<lambda>_. 0)"
    using hm_init_spec [OF assms(1-4)] by auto
  have "hm_readable h1 m x" if "x \<in> set xs" for x
    using assms(5) that readable_frame(1) [OF i(2)] i(4) by (cases x) auto
  then have data: "list_all (hm_readable h1 m) xs" by (simp add: list_all_iff)
  have "limit m = min (unat n) MAX_COLLISIONS" by (simp add: limit_def i(3))
  then have spec: "key_run (limit m) ((\<lambda>_. 0), []) xs = Some (bs, (c, ks), cleaned)" using assms(6) by simp
  have el: "elements_of h1 m (\<lambda>_. 0)" by (simp add: elements_of_def i(6))
  have "key_state h1 m ((\<lambda>_. 0), [])" using i by (simp add: key_state_def)
  from key_run_history [OF this data el spec, of junk]
  obtain rs h2 log where h2: "hm_trace junk xs m h1 = Some (rs, m, h2)" "map went_well rs = bs" "key_state h2 m (c, ks)"
      "frame (own_hm m) (own_hm m) h1 h2" "element_history (\<lambda>_. 0, \<lambda>_. 0) (zip xs rs) = Some log"
      "cb_log h2 = cb_log h1 @ log" "length log = cleaned" by auto
  have st: "hm_ok h2 m" "all_found h2 m" "hrefs h2 m = c" using h2(3) by (simp_all add: key_state_def)
  have "slot_refs h2 m s = 0" if s: "slot_ok m s" for s
  proof (rule ccontr)
    assume "slot_refs h2 m s \<noteq> 0"
    then have "hrefs h2 m (slot_key h2 m s) \<noteq> 0" using all_foundD [OF st(2) s] by (simp add: hrefs_def)
    then show False using st(3) assms(7) by simp
  qed
  then obtain h3 where h3: "cx_rc_hash_map_cleanup m h2 = Some (0, h3)" "frame (own_hm m) {} h2 h3"
    using hm_cleanup_spec [OF st(1)] by blast
  have "cleaned = length (filter is_put xs)" using key_run_callbacks [OF spec] assms(7) by auto
  moreover have "cb_log h3 = cb_log h @ log" using h2(6) hm_cleanup_log [OF h3(1)] hm_init_log [OF assms(4)] by simp
  ultimately show ?thesis using h2(1,2,5,7) h3(1) frame_trans [OF i(2) frame_trans [OF h2(4) h3(2)]] by blast
qed

definition empty_hash_heap :: heap where
  "empty_hash_heap = \<lparr>mem = (\<lambda>a. 0), blocks = [(100, 1)], answers = [1000, 2000, 3000, 4000], cb_log = []\<rparr>"

lemma empty_hash_init:
  "\<exists>m h1. cx_rc_hash_map_init demo_map demo_hash 2 1 test_deinit empty_hash_heap = Some (0, m, h1)"
  by (simp add: cx_rc_hash_map_init_def extend_hash_map_def add_overflow_def mul_overflow_def Let_def empty_hash_heap_def
      malloc_def calloc_def fits_def cx_rc_map_init_def)

theorem hash_map_lifetime_witness:
  "\<exists>m h1 rs h2 h3 p q. cx_rc_hash_map_init demo_map demo_hash 2 1 test_deinit empty_hash_heap = Some (0, m, h1) \<and>
     hm_trace demo_map [Put 3 100, RetainKey 3, Put 8 100, ReleaseKey 8, ReleaseKey 3, ReleaseKey 3] m h1 = Some (rs, m, h2) \<and>
     rs ! 0 = Element p \<and> rs ! 1 = Element p \<and> rs ! 2 = Element q \<and>
     cx_rc_hash_map_cleanup m h2 = Some (0, h3) \<and> cb_log h3 = [q, p] \<and> frame {} {} empty_hash_heap h3"
proof -
  let ?xs = "[Put 3 100, RetainKey 3, Put 8 100, ReleaseKey 8, ReleaseKey 3, ReleaseKey 3]"
  obtain m h1 where i: "cx_rc_hash_map_init demo_map demo_hash 2 1 test_deinit empty_hash_heap = Some (0, m, h1)"
    using empty_hash_init by blast
  have d: "\<forall>k d. Put k d \<in> set ?xs \<longrightarrow> readable empty_hash_heap {} d (unat (1 :: u64))"
    by (auto intro: readableI [of 100 1] simp: empty_hash_heap_def)
  have "heap_ok empty_hash_heap" by (simp add: heap_ok_def empty_hash_heap_def fits_def)
  moreover have "\<exists>c ks. key_run 2 (\<lambda>_. 0, []) ?xs = Some ([True, True, True, True, True, True], (c, ks), 2) \<and> (\<forall>k. c k = 0)"
    by simp
  moreover have "min (unat (2 :: u64)) MAX_COLLISIONS = 2" by (simp add: MAX_COLLISIONS_def)
  ultimately obtain c ks where a: "heap_ok empty_hash_heap"
      "key_run (min (unat (2 :: u64)) MAX_COLLISIONS) (\<lambda>_. 0, []) ?xs = Some ([True, True, True, True, True, True], (c, ks), 2)"
      "\<forall>k. c k = 0" by auto
  have "cb_local test_deinit (unat (1 :: u64))" using test_deinit_local by simp
  moreover have "(2 :: u64) \<noteq> 0" by simp
  ultimately have "\<exists>rs h2 h3 log. hm_trace demo_map ?xs m h1 = Some (rs, m, h2) \<and> map went_well rs = [True, True, True, True, True, True] \<and>
      cx_rc_hash_map_cleanup m h2 = Some (0, h3) \<and> element_history (\<lambda>_. 0, \<lambda>_. 0) (zip ?xs rs) = Some log \<and>
      cb_log h3 = cb_log empty_hash_heap @ log \<and> length log = length (filter is_put ?xs) \<and> frame {} {} empty_hash_heap h3"
    using hash_map_lifetime [OF a(1) _ _ i d a(2,3)] by blast
  then
  obtain rs h2 h3 log where r: "hm_trace demo_map ?xs m h1 = Some (rs, m, h2)" "length rs = 6"
      "cx_rc_hash_map_cleanup m h2 = Some (0, h3)" "element_history (\<lambda>_. 0, \<lambda>_. 0) (zip ?xs rs) = Some log"
      "cb_log h3 = cb_log empty_hash_heap @ log" "frame {} {} empty_hash_heap h3"
  proof (elim exE conjE)
    fix rs h2 h3 log
    assume a: "hm_trace demo_map ?xs m h1 = Some (rs, m, h2)" "map went_well rs = [True, True, True, True, True, True]"
      "cx_rc_hash_map_cleanup m h2 = Some (0, h3)" "element_history (\<lambda>_. 0, \<lambda>_. 0) (zip ?xs rs) = Some log"
      "cb_log h3 = cb_log empty_hash_heap @ log" "frame {} {} empty_hash_heap h3"
    have "length rs = 6" using arg_cong [OF a(2), of length] by simp
    then show thesis using that a(1,3-6) by blast
  qed
  then obtain r0 r1 r2 r3 r4 r5 where rs: "rs = [r0, r1, r2, r3, r4, r5]"
    by (auto simp: length_Suc_conv numeral_eq_Suc)
  obtain p q where "r0 = Element p" "r1 = Element p" "r2 = Element q" "log = [q, p]"
    using r(4) unfolding rs
    by (cases r0; cases r1; cases r2; cases r3; cases r4; cases r5) (auto split: if_splits)
  then show ?thesis using i r rs by (auto simp: empty_hash_heap_def)
qed

text \<open>
  \<^verbatim>\<open>cx_rc_hash_map_put\<close> of a key that is not live stores a copy of the caller's bytes
  with one reference: a retain of the key returns the same element, every other key keeps its count,
  and the callback is not called.
\<close>

theorem hash_map_put_correct:
  assumes "hm_ok h m" "all_found h m" "hrefs h m key = 0" "free_slot h m key = Some s"
    and "readable h (own_hm m) data (unat (helement_size m))"
  shows "\<exists>p h' h''. cx_rc_hash_map_put junk m key data h = Some (p, m, h') \<and> p \<noteq> 0 \<and>
    hm_ok h' m \<and> all_found h' m \<and> hrefs h' m = (hrefs h m)(key := 1) \<and>
    bytes_at h' p (unat (helement_size m)) = bytes_at h data (unat (helement_size m)) \<and>
    frame (own_hm m) (own_hm m) h h' \<and> cb_log h' = cb_log h \<and>
    cx_rc_hash_map_retain m key h' = Some (p, h'') \<and> hrefs h'' m = (hrefs h m)(key := 2)"
proof -
  have s: "slot_ok m s" using find_SomeD [OF assms(4) [unfolded free_slot_def]] probes_ok [OF assms(1)] by blast
  obtain h' where h': "cx_rc_hash_map_put junk m key data h = Some (slot_element m s, m, h')" "hm_ok h' m" "all_found h' m"
      "hrefs h' m = (hrefs h m)(key := 1)" "lookup h' m key = Some s" "frame (own_hm m) (own_hm m) h h'" "cb_log h' = cb_log h"
      "bytes_at h' (slot_element m s) (unat (helement_size m)) = bytes_at h data (unat (helement_size m))"
    using put_spec [OF assms, of junk] by blast
  obtain h'' where h'': "cx_rc_hash_map_retain m key h' = Some (slot_element m s, h'')" "slot_step h' m s (slot_refs h' m s + 1) h''"
    using hm_retain_spec [OF h'(2), of key] h'(4,5) by auto
  have "slot_refs h' m s = 1" using h'(4,5) by (auto simp: hrefs_def dest: fun_cong [of _ _ key])
  then have "hrefs h'' m = (hrefs h m)(key := 2)" using slot_step_hrefs [OF h'(2) h''(2) h'(5)] h'(4) by (simp add: numeral_2_eq_2)
  then show ?thesis using h' h''(1) slot_element_pos [OF assms(1) s] by blast
qed

lemma demo_free: "k \<noteq> 9 \<Longrightarrow> free_slot demo_hash_heap demo_hash k = Some (0, 0)"
  by (simp add: free_slot_def demo_hash_probes demo_hash_slots)

theorem hash_map_put_correct_witness:
  "\<exists>p h' h''. cx_rc_hash_map_put demo_map demo_hash 3 100 demo_hash_heap = Some (p, demo_hash, h') \<and>
     bytes_at h' p 1 = [5] \<and> cx_rc_hash_map_retain demo_hash 3 h' = Some (p, h'')"
proof -
  have "bytes_at demo_hash_heap 100 1 = [5]" "helement_size demo_hash = 1"
    by (simp_all add: bytes_at_def read_mem_def demo_hash_heap_def demo_hash_def)
  then show ?thesis
    using hash_map_put_correct [OF demo_hash_ok demo_hash_refs(3) _ demo_free demo_hash_data, of 3 demo_map]
    by (fastforce simp: demo_hash_refs(2))
qed

text \<open>
  C20. When key zero is not live, every slot in the reach of a key is taken by other live keys and the
  allocations of \<^verbatim>\<open>extend_hash_map\<close> succeed, whatever the new memory holds, the key goes to the
  new table and is found there; every other key keeps its count. Key zero must not be live because a search
  for it ends in the zeroed slots of the new table.
\<close>

theorem hash_map_put_extends:
  assumes "hm_ok h m" "all_found h m" "hrefs h m 0 = 0" "hrefs h m key = 0" "free_slot h m key = None"
    and "cb_local (hcleanup m) (unat (helement_size m))"
    and "readable h (own_hm m) data (unat (helement_size m))"
    and ext: "extend_hash_map junk m h = Some (0, m', h1)"
  shows "\<exists>p h'. cx_rc_hash_map_put junk m key data h = Some (p, m', h') \<and> p \<noteq> 0 \<and>
    hm_ok h' m' \<and> all_found h' m' \<and> hrefs h' m' = (hrefs h m)(key := 1) \<and>
    bytes_at h' p (unat (helement_size m)) = bytes_at h data (unat (helement_size m)) \<and>
    length (hinners m') = Suc (length (hinners m)) \<and> frame (own_hm m) (own_hm m') h h'"
proof -
  let ?t = "length (hinners m)" and ?i = "start_index m key"
  note E = extend_keeps [OF assms(1-3,6) ext]
  have st: "start_index m' key = ?i" "?i mod map_size m = ?i" "?i < map_size m"
    using hm_starts(4) [OF assms(1)] E(5) by (simp_all add: start_index_def word_unat_eq_iff unat_mod)
  have ok: "slot_ok m' (?t, ?i)" using st(3) E(5,7) by (simp add: slot_ok_def)
  obtain l where l: "limit m' = Suc l" "limit m = Suc l"
    using hm_starts(3) [OF assms(1)] E(5)
    by (cases "limit m") (auto simp: limit_def MAX_COLLISIONS_def unat_eq_zero min_def split: if_splits)
  have "slot_refs h1 m' (j, ?i) \<noteq> 0 \<and> slot_key h1 m' (j, ?i) \<noteq> key" if j: "j < ?t" for j
  proof -
    have "(j, ?i) \<in> set (probes m key (limit m))" using j st(2) by (simp add: probes_def l)
    moreover have "\<forall>s \<in> set (probes m key (limit m)). slot_refs h m s \<noteq> 0 \<and> slot_key h m s \<noteq> key"
      using assms(5) unfolding free_slot_def find_None_iff by auto
    ultimately have "slot_refs h m (j, ?i) \<noteq> 0 \<and> slot_key h m (j, ?i) \<noteq> key" by blast
    then show ?thesis using E(8) [of "(j, ?i)"] j st(3) by (simp add: slot_ok_def)
  qed
  then have "find (\<lambda>s. slot_refs h1 m' s = 0 \<or> slot_key h1 m' s = key) (map (\<lambda>j. (j, ?i)) [0..<?t]) = None"
    unfolding find_None_iff by auto
  then have f: "free_slot h1 m' key = Some (?t, ?i)"
    using E(9) [OF st(3)] by (simp add: free_slot_def probes_def l E(5,7) st(1,2) find_append)
  have d: "readable h1 (own_hm m') data (unat (helement_size m'))"
      "bytes_at h1 data (unat (helement_size m)) = bytes_at h data (unat (helement_size m))"
    using readable_frame [OF E(4) assms(7)] E(6) by simp_all
  have "hrefs h1 m' key = 0" using E(3) assms(4) by simp
  then obtain h' where h': "cx_rc_hash_map_put junk m' key data h1 = Some (slot_element m' (?t, ?i), m', h')" "hm_ok h' m'"
      "all_found h' m'" "hrefs h' m' = (hrefs h1 m')(key := 1)" "frame (own_hm m') (own_hm m') h1 h'"
      "bytes_at h' (slot_element m' (?t, ?i)) (unat (helement_size m')) = bytes_at h1 data (unat (helement_size m'))"
    using put_spec [OF E(1,2) _ f d(1), of junk] by blast
  have "length (hinners m') = unat (hash_map_count m')" using E(1) unfolding hm_ok_def by blast
  then have "unat (hash_map_count m') - 1 = ?t" using E(7) by simp
  then have "cx_rc_hash_map_put junk m key data h = cx_rc_hash_map_put junk m' key data h1"
    using hm_starts(1,2) [OF assms(1)] find_free_eq [OF assms(1), of key "limit m"] assms(5) ext put_free_eq [OF E(1) f]
    by (simp add: cx_rc_hash_map_put_def free_slot_def limit_def Let_def)
  then show ?thesis
    using h' E(3,6,7) d(2) frame_trans [OF E(4) h'(5)] slot_element_pos [OF E(1) ok] by auto
qed

text \<open>The map with both slots in use.\<close>

definition full_hash_heap :: heap where
  "full_hash_heap = demo_hash_heap\<lparr>mem := (mem demo_hash_heap)(4000 := 1)\<rparr>"

lemma full_hash_slots:
  "slot_key full_hash_heap demo_hash (0, 0) = 7" "slot_key full_hash_heap demo_hash (0, 1) = 9"
  "slot_refs full_hash_heap demo_hash (0, 0) = 1" "slot_refs full_hash_heap demo_hash (0, 1) = 1"
  by (simp_all add: slot_key_def slot_refs_def refs_def count_at_def int_at_def u64_at_def read_mem_def demo_hash_def
    demo_inner_def full_hash_heap_def demo_hash_heap_def upt_rec word_less_nat_alt)

lemma full_hash:
  "hm_ok full_hash_heap demo_hash" "all_found full_hash_heap demo_hash"
  "hrefs full_hash_heap demo_hash = (\<lambda>k. if k = 7 \<or> k = 9 then 1 else 0)" "free_slot full_hash_heap demo_hash 3 = None"
  "readable full_hash_heap (own_hm demo_hash) 100 (unat (helement_size demo_hash))"
proof -
  have "i < 2 \<Longrightarrow> i = 0 \<or> i = 1" for i :: nat by linarith
  moreover have "count_at full_hash_heap (hvalues demo_inner) 0 = 1" "count_at full_hash_heap (hvalues demo_inner) 1 = 1"
    by (simp_all add: count_at_def int_at_def read_mem_def demo_inner_def full_hash_heap_def demo_hash_heap_def upt_rec)
  ultimately have "\<forall>i < 2. 0 \<le> count_at full_hash_heap (hvalues demo_inner) i" by force
  then show "hm_ok full_hash_heap demo_hash" using test_deinit_local
    by (simp add: hm_ok_def inner_ok_def map_ok_def own_map_def own_keys_def own_inner_def own_array_def demo_hash_def
        demo_inner_def full_hash_heap_def demo_hash_heap_def heap_ok_def fits_def)
  have l: "lookup full_hash_heap demo_hash k = (if k = 7 then Some (0, 0) else if k = 9 then Some (0, 1) else None)" for k
    by (auto simp: lookup_def demo_hash_probes full_hash_slots)
  then show "hrefs full_hash_heap demo_hash = (\<lambda>k. if k = 7 \<or> k = 9 then 1 else 0)"
    by (auto simp: hrefs_def full_hash_slots)
  show "all_found full_hash_heap demo_hash"
    unfolding all_found_def demo_hash_slots(1) using l by (auto simp: full_hash_slots)
  show "free_slot full_hash_heap demo_hash 3 = None"
    by (simp add: free_slot_def demo_hash_probes full_hash_slots)
  show "readable full_hash_heap (own_hm demo_hash) 100 (unat (helement_size demo_hash))"
    using demo_hash_data by (simp add: readable_def full_hash_heap_def)
qed

lemma full_hash_extend: "\<exists>m' h1. extend_hash_map demo_map demo_hash full_hash_heap = Some (0, m', h1)"
  by (simp add: extend_hash_map_def add_overflow_def mul_overflow_def Let_def full_hash_heap_def demo_hash_heap_def
      demo_hash_def realloc_def malloc_def calloc_def fits_def cx_rc_map_init_def)

theorem hash_map_put_extends_witness:
  "\<exists>p m' h'. cx_rc_hash_map_put demo_map demo_hash 3 100 full_hash_heap = Some (p, m', h') \<and>
     p \<noteq> 0 \<and> length (hinners m') = 2 \<and> hrefs h' m' 3 = 1 \<and> hrefs h' m' 7 = 1 \<and> hrefs h' m' 9 = 1"
proof -
  obtain m' h1 where ext: "extend_hash_map demo_map demo_hash full_hash_heap = Some (0, m', h1)" using full_hash_extend by blast
  have z: "hrefs full_hash_heap demo_hash 0 = 0" "hrefs full_hash_heap demo_hash 3 = 0" by (simp_all add: full_hash(3))
  have c: "cb_local (hcleanup demo_hash) (unat (helement_size demo_hash))"
    using test_deinit_local by (simp_all add: demo_hash_def)
  have "length (hinners demo_hash) = 1" by (simp add: demo_hash_def)
  then show ?thesis
    using hash_map_put_extends [OF full_hash(1,2) z full_hash(4) c full_hash(5) ext] by (auto simp: full_hash(3))
qed

text \<open>
  \<^verbatim>\<open>cx_rc_hash_map_release\<close> finds the table of an element by its address: releasing
  the address of a live element gives exactly that element's reference back, with the callback
  on the last one.
\<close>

theorem hash_map_release_element:
  assumes "hm_ok h m" "slot_ok m s" "0 < slot_refs h m s" "helement_size m \<noteq> 0"
  shows "\<exists>h'. cx_rc_hash_map_release m (slot_element m s) h = Some (0, h') \<and> hm_ok h' m \<and>
    frame (own_hm m) (own_hm m) h h' \<and>
    (\<forall>t. slot_ok m t \<longrightarrow> slot_key h' m t = slot_key h m t \<and>
       slot_refs h' m t = (if t = s then slot_refs h m s - 1 else slot_refs h m t)) \<and>
    cb_log h' = cb_log h @ (if slot_refs h m s = 1 then [slot_element m s] else [])"
  using hm_release_slot [OF assms(1-3)] release_slot_element [OF assms(1,2,4)]
  unfolding slot_step_def by auto

theorem hash_map_release_element_witness:
  "\<exists>h'. cx_rc_hash_map_release demo_hash 3001 demo_hash_heap = Some (0, h') \<and>
     slot_refs h' demo_hash (0, 1) = 0 \<and> cb_log h' = [3001]"
proof -
  have e: "slot_element demo_hash (0, 1) = 3001"
    by (simp add: slot_element_def get_element_def mul_overflow_def demo_hash_def demo_inner_def)
  have s: "slot_ok demo_hash (0, 1)" by (simp add: demo_hash_slots)
  have "helement_size demo_hash \<noteq> 0" "cb_log demo_hash_heap = []" by (simp_all add: demo_hash_def demo_hash_heap_def)
  then obtain h' where h': "cx_rc_hash_map_release demo_hash 3001 demo_hash_heap = Some (0, h')"
      "\<forall>t. slot_ok demo_hash t \<longrightarrow> slot_key h' demo_hash t = slot_key demo_hash_heap demo_hash t \<and>
        slot_refs h' demo_hash t = (if t = (0, 1) then slot_refs demo_hash_heap demo_hash (0, 1) - 1 else slot_refs demo_hash_heap demo_hash t)"
      "cb_log h' = [3001]"
    using hash_map_release_element [OF demo_hash_ok s] by (auto simp: demo_hash_slots e)
  then show ?thesis using s by (auto simp: demo_hash_slots)
qed

text \<open>
  C37. A put of a key that is live duplicates it when an earlier slot of its search has become
  free: the put returns another element with one reference. After its release the key is
  dead for every operation by key, although the references to the first element are still counted.
\<close>

theorem hash_map_put_live_duplicates:
  assumes "hm_ok h m" "lookup h m key = Some t" "0 < slot_refs h m t"
    and "free_slot h m key = Some s" "s \<noteq> t"
    and "readable h (own_hm m) data (unat (helement_size m))"
  shows "\<exists>h' h''. cx_rc_hash_map_put junk m key data h = Some (slot_element m s, m, h') \<and>
    hrefs h' m key = 1 \<and> slot_refs h' m t = slot_refs h m t \<and>
    cx_rc_hash_map_release_key m key h' = Some (0, h'') \<and>
    hrefs h'' m key = 0 \<and> cx_rc_hash_map_retain m key h'' = Some (0, h'') \<and> slot_refs h'' m t = slot_refs h m t"
proof -
  note F = find_SomeD [OF assms(4) [unfolded free_slot_def]]
  have s: "slot_ok m s" and t: "slot_ok m t" using F probes_ok [OF assms(1)] lookup_Some(1) [OF assms(1,2)] by blast+
  have "slot_refs h m s = 0"
  proof (rule ccontr)
    assume "slot_refs h m s \<noteq> 0"
    then have "slot_key h m s = key" using F by simp
    then have "lookup h m key = Some s" unfolding lookup_def
      by (rule find_stronger [OF assms(4) [unfolded free_slot_def]]) simp
    then show False using assms(2,5) by simp
  qed
  then obtain h1 h' where r: "store_u64 (hkeys (hinners m ! fst s) + 8 * unat (snd s)) key h = Some h1"
      "cx_rc_map_set (hvalues (hinners m ! fst s)) (snd s) data h1 = Some (slot_element m s, h')" "put_done h m s key 1 h'"
    using put_at_free [OF assms(1) s _ assms(6)] by blast
  note D = put_doneD [OF r(3)]
  have p: "cx_rc_hash_map_put junk m key data h = Some (slot_element m s, m, h')"
    using put_free_eq [OF assms(1,4)] r(1,2) by simp
  have l: "lookup h' m key = Some s" by (rule put_lookup [OF assms(1) r(3) assms(4)])
  then have c: "hrefs h' m key = 1" using D(3) [OF s] by (simp add: hrefs_def)
  obtain h'' where h'': "cx_rc_hash_map_release_key m key h' = Some (0, h'')" "slot_step h' m s (slot_refs h' m s - 1) h''"
    using hm_release_key_spec [OF D(1), of key] l c by auto
  have ok: "hm_ok h'' m" using h''(2) by (simp add: slot_step_def)
  have z: "hrefs h'' m key = 0" using slot_step_hrefs [OF D(1) h''(2) l] D(3) [OF s] by simp
  have "slot_refs h'' m t = slot_refs h' m t" using slot_stepD [OF h''(2) t] assms(5) by simp
  then show ?thesis using p c h''(1) z hm_retain_absent [OF ok z] D(3) [OF t] assms(5) by auto
qed

theorem hash_map_put_live_duplicates_witness:
  "\<exists>h' h''. cx_rc_hash_map_put demo_map demo_hash 9 100 demo_hash_heap = Some (slot_element demo_hash (0, 0), demo_hash, h') \<and>
     cx_rc_hash_map_release_key demo_hash 9 h' = Some (0, h'') \<and> cx_rc_hash_map_retain demo_hash 9 h'' = Some (0, h'') \<and>
     slot_refs h'' demo_hash (0, 1) = 1"
proof -
  have "free_slot demo_hash_heap demo_hash 9 = Some (0, 0)"
    by (simp add: free_slot_def demo_hash_probes demo_hash_slots)
  from hash_map_put_live_duplicates [OF demo_hash_ok demo_hash_refs(1) _ this _ demo_hash_data, of demo_map]
  show ?thesis by (fastforce simp: demo_hash_slots)
qed

section \<open>The LRU cache on a hash map\<close>

abbreviation hash_inv :: "heap \<Rightarrow> rc_hash_map lru \<Rightarrow> rc_hash_map \<Rightarrow> bool" where
  "hash_inv \<equiv> lru_inv hm_ok own_hm hrefs"

text \<open>
  On a hash map \<^verbatim>\<open>cx_lru_touch\<close> works as on the other containers: the ring is the
  queue of the specification, the evicted key loses the cache's reference and the touched key
  gains it. \<^verbatim>\<open>cx_lru_touch_value\<close> does not: the backend has no
  \<^verbatim>\<open>retain_value\<close>, and every touch that is not ignored calls a null pointer.
\<close>

theorem hash_map_lru_touch:
  assumes "hash_inv h l m" "limpl l = cx_lru_rc_hash_map" "0 < hrefs h m k" "hrefs h m k < 2 ^ 31 - 1"
  shows "\<exists>l' m' h'. cx_lru_touch l k m h = Some (0, l', m', h') \<and> hash_inv h' l' m' \<and>
    queue h' l' = touch_queue k (queue h l) \<and> hrefs h' m' = touched k (queue h l) (hrefs h m) \<and>
    frame (own_lru l \<union> own_hm m) (own_lru l' \<union> own_hm m') h h' \<and>
    (touch_queue k (queue h l) \<noteq> queue h l \<longrightarrow> cx_lru_touch_value l k p m h = None)"
proof -
  obtain l' m' h' where t: "cx_lru_touch l k m h = Some (0, l', m', h')" "touch_done hm_ok own_hm hrefs k h l m h' l' m'"
    using rhm.touch_spec [OF assms] by blast
  have "cx_lru_touch_value l k p m h = None" if a: "touch_queue k (queue h l) \<noteq> queue h l"
  proof -
    obtain l1 m1 h1 where "try_touch l k m h = Some (True, l1, m1, h1)" "limpl l1 = cx_lru_rc_hash_map"
      using rhm.try_touch_accepted [OF assms(1,2) a] by blast
    then show ?thesis by (simp add: cx_lru_touch_value_def cx_lru_rc_hash_map_def)
  qed
  then show ?thesis using t by (auto simp: touch_done_def)
qed

definition demo_hash_ring :: "rc_hash_map lru" where
  "demo_hash_ring = \<lparr>limpl = cx_lru_rc_hash_map, litems = 500, lring_index = 0, lsize = 2\<rparr>"

lemma demo_hash_ring_inv:
  "hash_inv demo_hash_heap demo_hash_ring demo_hash" "queue demo_hash_heap demo_hash_ring = [EMPTY_MARKER, EMPTY_MARKER]"
proof -
  have "le_word [255, 255, 255, 255, 255, 255, 255, 255 :: u8] = (- 1 :: u64)" by code_simp
  then have it: "items demo_hash_heap demo_hash_ring = [EMPTY_MARKER, EMPTY_MARKER]"
    by (simp add: items_def u64_at_def read_mem_def demo_hash_heap_def demo_hash_ring_def EMPTY_MARKER_def upt_rec)
  then show "queue demo_hash_heap demo_hash_ring = [EMPTY_MARKER, EMPTY_MARKER]" by (simp add: queue_def demo_hash_ring_def)
  have "held demo_hash_heap demo_hash_ring k = 0" for k by (simp add: held_def it)
  moreover have "heap_ok demo_hash_heap" using demo_hash_ok by (simp add: hm_ok_def)
  ultimately show "hash_inv demo_hash_heap demo_hash_ring demo_hash"
    using demo_hash_ok
    by (simp add: lru_inv_def ring_ok_def own_lru_def demo_hash_ring_def)
      (simp add: demo_hash_heap_def demo_hash_def demo_inner_def own_hm_def own_inner_def own_array_def own_keys_def own_map_def)
qed

theorem hash_map_lru_touch_witness:
  "\<exists>l' m' h'. cx_lru_touch demo_hash_ring 9 demo_hash demo_hash_heap = Some (0, l', m', h') \<and>
     queue h' l' = [EMPTY_MARKER, 9] \<and> hrefs h' m' 9 = 2 \<and>
     cx_lru_touch_value demo_hash_ring 9 3001 demo_hash demo_hash_heap = None"
proof -
  have i: "limpl demo_hash_ring = cx_lru_rc_hash_map" by (simp add: demo_hash_ring_def)
  have r: "0 < hrefs demo_hash_heap demo_hash 9" "hrefs demo_hash_heap demo_hash 9 < 2 ^ 31 - 1"
    by (simp_all add: demo_hash_refs(2))
  have q: "touch_queue 9 [EMPTY_MARKER, EMPTY_MARKER] = [EMPTY_MARKER, 9]"
    by (simp add: touch_queue_def EMPTY_MARKER_def)
  then have t: "touched 9 [EMPTY_MARKER, EMPTY_MARKER] (hrefs demo_hash_heap demo_hash) 9 = 2"
    by (simp add: touched_def evicted_def demo_hash_refs(2) EMPTY_MARKER_def)
  have "[EMPTY_MARKER, 9] \<noteq> [EMPTY_MARKER, EMPTY_MARKER]" by (simp add: EMPTY_MARKER_def)
  then show ?thesis
    using hash_map_lru_touch [OF demo_hash_ring_inv(1) i r, of 3001] t
    unfolding demo_hash_ring_inv(2) q by auto
qed

end
