(* ===== verification/Pool.thy ===== *)
theory Pool
  imports Memory
begin

text \<open>
  \<^verbatim>\<open>lib/memory/prealloc_pool.c\<close>: \<^verbatim>\<open>struct CxPreallocPool\<close>, an allocator of
  elements of one size. Elements are cut from chunks, each twice as large as the one
  before; recycled elements form a linked list through their own first bytes and are
  given out again, the last one first. The build without the address sanitizer is modelled.
  \<^verbatim>\<open>lib/memory/rc.c\<close> and \<^verbatim>\<open>lib/memory/utils.c\<close> are in here too.
\<close>

section \<open>State and operations\<close>

record prealloc_pool =
  pool_pools :: addr
  pool_chunk_size :: u64
  pool_element_size :: u64
  pool_next_offset :: u64
  pool_count :: u64
  pool_current :: addr
  pool_reuse :: addr

definition reuse_node :: "prealloc_pool \<Rightarrow> heap \<Rightarrow> (addr \<times> prealloc_pool \<times> heap) option" where
  "reuse_node pool h = do {
     let element = pool_reuse pool;
     next_node \<leftarrow> load_u64 element h;
     let pool = pool\<lparr>pool_reuse := unat next_node\<rparr>;
     h \<leftarrow> store_bytes element (replicate 8 0) h;
     Some (element, pool, h)
   }"

definition add_chunk :: "prealloc_pool \<Rightarrow> heap \<Rightarrow> (int \<times> prealloc_pool \<times> heap) option" where
  "add_chunk pool h =
     (let pool = pool\<lparr>pool_count := pool_count pool + 1, pool_chunk_size := pool_chunk_size pool * 2\<rparr> in
      do {
        (p, h) \<leftarrow> realloc (pool_pools pool) (unat (pool_count pool * 8)) h;
        let pool = pool\<lparr>pool_pools := p\<rparr>;
        if p = 0 then Some (- 1, pool, h)
        else do {
          let (new_chunk, h) = calloc (pool_chunk_size pool) 1 h;
          if new_chunk = 0 then Some (- 1, pool, h)
          else do {
            h \<leftarrow> store_u64 (p + 8 * unat (pool_count pool - 1)) (of_nat new_chunk) h;
            Some (0, pool\<lparr>pool_current := new_chunk, pool_next_offset := 0\<rparr>, h)
          }
        }
      })"

text \<open>The asserts abort. The struct is cleared, whatever it held.\<close>

definition cx_prealloc_pool_init2 :: "u64 \<Rightarrow> u64 \<Rightarrow> prealloc_pool option" where
  "cx_prealloc_pool_init2 element_count element_size =
     (if element_size < 8 \<or> element_count = 0 then None
      else Some \<lparr>pool_pools = 0, pool_chunk_size = element_count * element_size, pool_element_size = element_size,
        pool_next_offset = 0, pool_count = 0, pool_current = 0, pool_reuse = 0\<rparr>)"

definition cx_prealloc_pool_init :: "u64 \<Rightarrow> prealloc_pool option" where
  "cx_prealloc_pool_init element_size = cx_prealloc_pool_init2 8 element_size"

definition cx_prealloc_pool_get :: "prealloc_pool \<Rightarrow> heap \<Rightarrow> (addr \<times> prealloc_pool \<times> heap) option" where
  "cx_prealloc_pool_get pool h =
     (let bump = (\<lambda>pool h. Some (pool_current pool + unat (pool_next_offset pool),
            pool\<lparr>pool_next_offset := pool_next_offset pool + pool_element_size pool\<rparr>, h))
      in if pool_reuse pool \<noteq> 0 then reuse_node pool h
         else if pool_pools pool = 0 \<or> pool_chunk_size pool < pool_next_offset pool + pool_element_size pool
         then do {
           (rv, pool, h) \<leftarrow> add_chunk pool h;
           if rv < 0 then Some (0, pool, h) else bump pool h
         }
         else bump pool h)"

definition cx_prealloc_pool_recycle :: "prealloc_pool \<Rightarrow> addr \<Rightarrow> heap \<Rightarrow> (prealloc_pool \<times> heap) option" where
  "cx_prealloc_pool_recycle pool element h =
     (if element \<noteq> 0
      then do {
        h \<leftarrow> store_u64 element (of_nat (pool_reuse pool)) h;
        Some (pool\<lparr>pool_reuse := element\<rparr>, h)
      }
      else Some (pool, h))"

fun free_chunks :: "addr \<Rightarrow> nat \<Rightarrow> nat \<Rightarrow> heap \<Rightarrow> heap option" where
  "free_chunks pools i 0 h = Some h"
| "free_chunks pools i (Suc n) h = do {
     p \<leftarrow> load_u64 (pools + 8 * i) h;
     h \<leftarrow> free (unat p) h;
     free_chunks pools (Suc i) n h
   }"

definition cx_prealloc_pool_cleanup :: "prealloc_pool \<Rightarrow> heap \<Rightarrow> heap option" where
  "cx_prealloc_pool_cleanup pool h = do {
     h \<leftarrow> free_chunks (pool_pools pool) 0 (unat (pool_count pool)) h;
     free (pool_pools pool) h
   }"

text \<open>\<^verbatim>\<open>struct CxRc\<close>: one atomic counter.\<close>

type_synonym rc = u32

definition cx_rc_init :: rc where
  "cx_rc_init = 1"

definition cx_rc_retain :: "rc \<Rightarrow> rc" where
  "cx_rc_retain count = count + 1"

definition cx_rc_release :: "rc \<Rightarrow> bool \<times> rc" where
  "cx_rc_release count = (count = 1, count - 1)"

text \<open>\<^verbatim>\<open>cx_memdup\<close>: a copy with one zero byte behind it.\<close>

definition cx_memdup :: "addr \<Rightarrow> u64 \<Rightarrow> heap \<Rightarrow> (addr \<times> heap) option" where
  "cx_memdup source n h =
     (if source = 0 then Some (0, h)
      else let (target, h) = calloc (n + 1) 1 h
        in if target = 0 then Some (0, h)
           else do {
             h \<leftarrow> memcpy target source (unat n) h;
             Some (target, h)
           })"

section \<open>Invariant\<close>

text \<open>
  The chunks \<open>cs\<close>, the recycled elements \<open>F\<close> in the order of the list, and the elements
  \<open>L\<close> that are in use. An element lies in a chunk, in the current one below
  \<open>next_offset\<close>; elements do not overlap; the current chunk is zero behind \<open>next_offset\<close>.
\<close>

fun chain :: "heap \<Rightarrow> addr \<Rightarrow> addr list \<Rightarrow> bool" where
  "chain h p [] = (p = 0)"
| "chain h p (a # as) = (p = a \<and> a \<noteq> 0 \<and> chain h (unat (u64_at h a)) as)"

definition placed :: "nat \<Rightarrow> (addr \<times> nat) list \<Rightarrow> nat \<Rightarrow> addr \<Rightarrow> bool" where
  "placed n cs lim e \<longleftrightarrow> (\<exists>c \<in> set cs. fst c \<le> e \<and> e + n \<le> fst c + (if c = last cs then lim else snd c))"

definition apart :: "nat \<Rightarrow> addr set \<Rightarrow> bool" where
  "apart n S \<longleftrightarrow> (\<forall>x \<in> S. \<forall>y \<in> S. x \<noteq> y \<longrightarrow> x + n \<le> y \<or> y + n \<le> x)"

abbreviation esize :: "prealloc_pool \<Rightarrow> nat" where
  "esize p \<equiv> unat (pool_element_size p)"

definition elements_ok :: "heap \<Rightarrow> prealloc_pool \<Rightarrow> (addr \<times> nat) list \<Rightarrow> addr list \<Rightarrow> addr list \<Rightarrow> bool" where
  "elements_ok h p cs F L \<longleftrightarrow>
     (\<forall>e \<in> set F \<union> set L. placed (esize p) cs (unat (pool_next_offset p)) e) \<and>
     distinct (F @ L) \<and> apart (esize p) (set F \<union> set L) \<and> chain h (pool_reuse p) F"

definition current_ok :: "heap \<Rightarrow> prealloc_pool \<Rightarrow> (addr \<times> nat) list \<Rightarrow> bool" where
  "current_ok h p cs \<longleftrightarrow> (cs \<noteq> [] \<longrightarrow> last cs = (pool_current p, unat (pool_chunk_size p)) \<and>
     pool_next_offset p \<le> pool_chunk_size p \<and>
     bytes_at h (pool_current p + unat (pool_next_offset p)) (unat (pool_chunk_size p) - unat (pool_next_offset p)) =
       replicate (unat (pool_chunk_size p) - unat (pool_next_offset p)) 0)"

definition own_ptrs :: "prealloc_pool \<Rightarrow> (addr \<times> nat) list \<Rightarrow> addr \<times> nat" where
  "own_ptrs p cs = (pool_pools p, 8 * length cs)"

definition array_ok :: "heap \<Rightarrow> prealloc_pool \<Rightarrow> (addr \<times> nat) list \<Rightarrow> bool" where
  "array_ok h p cs \<longleftrightarrow> unat (pool_count p) = length cs \<and>
     (if cs = [] then pool_pools p = 0
      else own_ptrs p cs \<in> set (blocks h) \<and> own_ptrs p cs \<notin> set cs \<and>
        (\<forall>i < length cs. u64_at h (pool_pools p + 8 * i) = of_nat (fst (cs ! i))))"

definition pool_inv :: "heap \<Rightarrow> prealloc_pool \<Rightarrow> (addr \<times> nat) list \<Rightarrow> addr list \<Rightarrow> addr list \<Rightarrow> bool" where
  "pool_inv h p cs F L \<longleftrightarrow> heap_ok h \<and> 8 \<le> esize p \<and> pool_element_size p \<le> pool_chunk_size p \<and>
     unat (pool_chunk_size p) < 2 ^ 63 \<and> set cs \<subseteq> set (blocks h) \<and> distinct cs \<and>
     elements_ok h p cs F L \<and> current_ok h p cs \<and> array_ok h p cs"

definition own_pool :: "prealloc_pool \<Rightarrow> (addr \<times> nat) list \<Rightarrow> (addr \<times> nat) set" where
  "own_pool p cs = (if cs = [] then {} else insert (own_ptrs p cs) (set cs))"

lemma reuse_irrelevant [simp]:
  "own_ptrs (p\<lparr>pool_reuse := x\<rparr>) cs = own_ptrs p cs" "own_pool (p\<lparr>pool_reuse := x\<rparr>) cs = own_pool p cs"
  "array_ok h (p\<lparr>pool_reuse := x\<rparr>) cs = array_ok h p cs" "current_ok h (p\<lparr>pool_reuse := x\<rparr>) cs = current_ok h p cs"
  by (simp_all add: own_ptrs_def own_pool_def array_ok_def current_ok_def)

lemma offset_irrelevant [simp]:
  "own_ptrs (p\<lparr>pool_next_offset := x\<rparr>) cs = own_ptrs p cs" "own_pool (p\<lparr>pool_next_offset := x\<rparr>) cs = own_pool p cs"
  "array_ok h (p\<lparr>pool_next_offset := x\<rparr>) cs = array_ok h p cs"
  by (simp_all add: own_ptrs_def own_pool_def array_ok_def)

lemma chain_cong: "(\<And>x. x \<in> set F \<Longrightarrow> u64_at h' x = u64_at h x) \<Longrightarrow> chain h' p F = chain h p F"
  by (induction F arbitrary: p) auto

lemma apartD: "apart n S \<Longrightarrow> x \<in> S \<Longrightarrow> y \<in> S \<Longrightarrow> x \<noteq> y \<Longrightarrow> x + n \<le> y \<or> y + n \<le> x"
  unfolding apart_def by blast

lemma elements_apart:
  "elements_ok h p cs F L \<Longrightarrow> x \<in> set F \<union> set L \<Longrightarrow> y \<in> set F \<union> set L \<Longrightarrow> x \<noteq> y \<Longrightarrow>
    x + esize p \<le> y \<or> y + esize p \<le> x"
  unfolding elements_ok_def using apartD by blast

lemma pool_own_sub: "pool_inv h p cs F L \<Longrightarrow> own_pool p cs \<subseteq> set (blocks h)"
  by (auto simp: pool_inv_def own_pool_def array_ok_def)

lemma element_chunk:
  assumes inv: "pool_inv h p cs F L" and e: "e \<in> set F \<union> set L"
  shows "\<exists>c \<in> set cs. fst c \<le> e \<and> e + esize p \<le> fst c + snd c \<and>
    (c = last cs \<longrightarrow> e + esize p \<le> pool_current p + unat (pool_next_offset p)) \<and> c \<in> set (blocks h) \<and> c \<in> own_pool p cs"
proof -
  obtain c where c: "c \<in> set cs" "fst c \<le> e" "e + esize p \<le> fst c + (if c = last cs then unat (pool_next_offset p) else snd c)"
    using inv e unfolding pool_inv_def elements_ok_def placed_def by blast
  have ne: "cs \<noteq> []" using c(1) by auto
  then have l: "last cs = (pool_current p, unat (pool_chunk_size p))" "unat (pool_next_offset p) \<le> unat (pool_chunk_size p)"
    using inv by (auto simp: pool_inv_def current_ok_def word_le_nat_alt)
  have "e + esize p \<le> fst c + snd c \<and> (c = last cs \<longrightarrow> e + esize p \<le> pool_current p + unat (pool_next_offset p))"
    using c(3) l by (cases "c = last cs") auto
  moreover have "c \<in> set (blocks h)" using inv c(1) by (auto simp: pool_inv_def)
  moreover have "c \<in> own_pool p cs" using c(1) ne by (auto simp: own_pool_def)
  ultimately show ?thesis using c(1,2) by blast
qed

section \<open>Writing to an element\<close>

lemma bytes_at_set_prefix:
  "length bs \<le> n \<Longrightarrow> bytes_at (set_bytes p bs h) p n = bs @ drop (length bs) (bytes_at h p n)"
  by (rule nth_equalityI) (auto simp: bytes_at_def heap_simps write_mem_def nth_append)

text \<open>
  A write to an element in use, by the client or by the pool, leaves the pool, the other
  elements and everything else as it is.
\<close>

lemma pool_write_at:
  assumes inv: "pool_inv h p cs F L" and e: "e \<in> set L" and len: "k + length bs \<le> esize p"
  shows "valid h (e + k) (length bs)" "pool_inv (set_bytes (e + k) bs h) p cs F L"
    "frame (own_pool p cs) (own_pool p cs) h (set_bytes (e + k) bs h)"
    "\<And>x. x \<in> set F \<union> set L \<Longrightarrow> x \<noteq> e \<Longrightarrow> bytes_at (set_bytes (e + k) bs h) x (esize p) = bytes_at h x (esize p)"
proof -
  let ?h = "set_bytes (e + k) bs h"
  note I = inv [unfolded pool_inv_def]
  obtain c where c: "c \<in> set cs" "fst c \<le> e" "e + esize p \<le> fst c + snd c" "c \<in> set (blocks h)" "c \<in> own_pool p cs"
      "c = last cs \<longrightarrow> e + esize p \<le> pool_current p + unat (pool_next_offset p)"
    using element_chunk [OF inv, of e] e by blast
  have cin: "(fst c, snd c) \<in> set (blocks h)" "(fst c, snd c) \<in> own_pool p cs" using c(4,5) by simp_all
  have bound: "fst c \<le> e + k" "e + k + length bs \<le> fst c + snd c" using c(2,3) len by linarith+
  show "valid h (e + k) (length bs)" by (rule valid_block [OF cin(1) bound])
  show "frame (own_pool p cs) (own_pool p cs) h ?h"
    by (rule frame_set_bytes [OF _ cin(2) pool_own_sub [OF inv] bound]) (use I in simp)
  have sep: "x + esize p \<le> e + k \<or> e + k + length bs \<le> x" if "x \<in> set F \<union> set L" "x \<noteq> e" for x
  proof -
    have "x + esize p \<le> e \<or> e + esize p \<le> x" using I that e by (intro elements_apart) auto
    then show ?thesis using len by linarith
  qed
  show "bytes_at ?h x (esize p) = bytes_at h x (esize p)" if "x \<in> set F \<union> set L" "x \<noteq> e" for x
    by (rule bytes_at_set_other) (rule sep [OF that])
  have "chain ?h (pool_reuse p) F"
  proof (rule chain_cong [THEN iffD2])
    show "chain h (pool_reuse p) F" using I by (simp add: elements_ok_def)
    fix x assume x: "x \<in> set F"
    then have "x \<noteq> e" using I e by (auto simp: elements_ok_def)
    then have "x + esize p \<le> e + k \<or> e + k + length bs \<le> x" using sep x by blast
    then show "u64_at ?h x = u64_at h x" using I by (intro u64_at_set_other) linarith
  qed
  then have "elements_ok ?h p cs F L" using I by (simp add: elements_ok_def)
  moreover have "current_ok ?h p cs"
  proof (cases "cs = []")
    case False
    let ?o = "unat (pool_next_offset p)" and ?n = "unat (pool_chunk_size p)"
    have l: "last cs = (pool_current p, ?n)" "?o \<le> ?n" using I False by (auto simp: current_ok_def word_le_nat_alt)
    have "pool_current p + ?o + (?n - ?o) \<le> e + k \<or> e + k + length bs \<le> pool_current p + ?o"
    proof (cases "c = last cs")
      case True
      then show ?thesis using c(6) len by linarith
    next
      case other: False
      have "last cs \<in> set (blocks h)" using I False by auto
      then have "fst c + max (snd c) 1 \<le> fst (last cs) \<or> fst (last cs) + max (snd (last cs)) 1 \<le> fst c"
        using heap_ok_disjoint [OF _ c(4) _ other] I by blast
      then show ?thesis using l bound by auto
    qed
    then show ?thesis using I False by (simp add: current_ok_def bytes_at_set_other)
  qed (simp add: current_ok_def)
  moreover have "array_ok ?h p cs"
  proof (cases "cs = []")
    case False
    then have a: "own_ptrs p cs \<in> set (blocks h)" "own_ptrs p cs \<noteq> c" using I c(1) by (auto simp: array_ok_def)
    then have d: "fst c + max (snd c) 1 \<le> pool_pools p \<or> pool_pools p + max (8 * length cs) 1 \<le> fst c"
      using heap_ok_disjoint [OF _ c(4) a(1)] I by (auto simp: own_ptrs_def)
    have "u64_at ?h (pool_pools p + 8 * i) = u64_at h (pool_pools p + 8 * i)" if "i < length cs" for i
      by (rule u64_at_set_other) (use d that bound in linarith)
    then show ?thesis using I by (simp add: array_ok_def heap_simps)
  qed (use I in \<open>simp add: array_ok_def\<close>)
  ultimately show "pool_inv ?h p cs F L" using I by (simp add: pool_inv_def heap_simps)
qed

lemma pool_write:
  assumes "pool_inv h p cs F L" "e \<in> set L" "length bs \<le> esize p"
  shows "valid h e (length bs)" "pool_inv (set_bytes e bs h) p cs F L"
    "frame (own_pool p cs) (own_pool p cs) h (set_bytes e bs h)"
    "\<And>x. x \<in> set F \<union> set L \<Longrightarrow> x \<noteq> e \<Longrightarrow> bytes_at (set_bytes e bs h) x (esize p) = bytes_at h x (esize p)"
  using pool_write_at [OF assms(1,2), of 0 bs] assms(3) by simp_all

section \<open>Get and recycle\<close>

lemma element_pos: "pool_inv h p cs F L \<Longrightarrow> e \<in> set F \<union> set L \<Longrightarrow> 0 < e \<and> e < 2 ^ 64"
proof -
  assume inv: "pool_inv h p cs F L" and e: "e \<in> set F \<union> set L"
  obtain c where c: "fst c \<le> e" "e + esize p \<le> fst c + snd c" "c \<in> set (blocks h)"
    using element_chunk [OF inv e] by blast
  have "0 < fst c \<and> fst c + max (snd c) 1 \<le> 2 ^ 64"
    using heap_ok_range [of h "fst c" "snd c"] inv c(3) by (simp add: pool_inv_def)
  moreover have "8 \<le> esize p" using inv by (simp add: pool_inv_def)
  ultimately show "0 < e \<and> e < 2 ^ 64" using c(1,2) by linarith
qed

lemma elements_move:
  assumes "elements_ok h p cs F L" "set F' \<union> set L' = set F \<union> set L" "distinct (F' @ L')"
    and "chain h (pool_reuse q) F'" "pool_element_size q = pool_element_size p" "pool_next_offset q = pool_next_offset p"
  shows "elements_ok h q cs F' L'"
  using assms by (simp add: elements_ok_def)

lemma get_reused:
  assumes inv: "pool_inv h p cs (f # F) L"
  shows "\<exists>p' h'. cx_prealloc_pool_get p h = Some (f, p', h') \<and> pool_inv h' p' cs F (L @ [f]) \<and>
    pool_element_size p' = pool_element_size p \<and> own_pool p' cs = own_pool p cs \<and> frame (own_pool p cs) (own_pool p cs) h h' \<and>
    bytes_at h' f (esize p) = replicate 8 0 @ drop 8 (bytes_at h f (esize p)) \<and>
    (\<forall>x \<in> set F \<union> set L. bytes_at h' x (esize p) = bytes_at h x (esize p))"
proof -
  note I = inv [unfolded pool_inv_def]
  let ?p = "p\<lparr>pool_reuse := unat (u64_at h f)\<rparr>"
  have r: "pool_reuse p = f" "f \<noteq> 0" "chain h (unat (u64_at h f)) F" "distinct (F @ L @ [f])" "f \<notin> set F \<union> set L"
    using I by (auto simp: elements_ok_def)
  have "elements_ok h ?p cs F (L @ [f])"
    by (rule elements_move [of h p cs "f # F" L]) (use I r in auto)
  then have inv1: "pool_inv h ?p cs F (L @ [f])"
    using I by (simp add: pool_inv_def)
  have len: "length (replicate 8 0 :: u8 list) \<le> esize ?p" using I by simp
  have fin: "f \<in> set (L @ [f])" by simp
  note W = pool_write [OF inv1 fin len]
  have v: "valid h f 8" using W(1) by simp
  have "cx_prealloc_pool_get p h = Some (f, ?p, set_bytes f (replicate 8 0) h)"
    using r(1,2) v by (simp add: cx_prealloc_pool_get_def reuse_node_def mem_step Let_def)
  moreover have "bytes_at (set_bytes f (replicate 8 0) h) f (esize p) = replicate 8 0 @ drop 8 (bytes_at h f (esize p))"
    using I by (simp add: bytes_at_set_prefix)
  ultimately show ?thesis using W(2-4) r(5) by auto
qed

lemma recycle_spec:
  assumes inv: "pool_inv h p cs F L" and e: "e \<in> set L"
  shows "\<exists>p' h'. cx_prealloc_pool_recycle p e h = Some (p', h') \<and> pool_inv h' p' cs (e # F) (remove1 e L) \<and>
    pool_element_size p' = pool_element_size p \<and> own_pool p' cs = own_pool p cs \<and> frame (own_pool p cs) (own_pool p cs) h h' \<and>
    drop 8 (bytes_at h' e (esize p)) = drop 8 (bytes_at h e (esize p)) \<and>
    (\<forall>x \<in> set F \<union> set L. x \<noteq> e \<longrightarrow> bytes_at h' x (esize p) = bytes_at h x (esize p))"
proof -
  note I = inv [unfolded pool_inv_def]
  let ?w = "of_nat (pool_reuse p) :: u64"
  let ?h = "set_bytes e (le_bytes 8 ?w) h" and ?p = "p\<lparr>pool_reuse := e\<rparr>"
  have len: "length (le_bytes 8 ?w) \<le> esize p" using I by simp
  note W = pool_write [OF inv e len]
  note J = W(2) [unfolded pool_inv_def]
  have pos: "0 < e" using element_pos [OF inv] e by blast
  have "pool_reuse p < 2 ^ 64"
  proof (cases F)
    case (Cons a as)
    then show ?thesis using I element_pos [OF inv, of a] by (auto simp: elements_ok_def)
  qed (use I in \<open>simp add: elements_ok_def\<close>)
  then have u: "unat (u64_at ?h e) = pool_reuse p" by (simp add: heap_simps unat_of_nat64)
  have "chain ?h (pool_reuse p) F" using J unfolding elements_ok_def by blast
  then have chain: "chain ?h (pool_reuse ?p) (e # F)" unfolding chain.simps u using pos by simp
  have "distinct (F @ L)" using I by (simp add: elements_ok_def)
  then have sets: "set (e # F) \<union> set (remove1 e L) = set F \<union> set L" "distinct ((e # F) @ remove1 e L)"
    using e by (auto simp: set_remove1_eq)
  have "elements_ok ?h p cs F L" using J by blast
  then have "elements_ok ?h ?p cs (e # F) (remove1 e L)" by (rule elements_move [OF _ sets chain]) simp_all
  then have "pool_inv ?h ?p cs (e # F) (remove1 e L)"
    using J by (simp add: pool_inv_def)
  moreover have "cx_prealloc_pool_recycle p e h = Some (?p, ?h)"
    using pos W(1) by (simp add: cx_prealloc_pool_recycle_def mem_step)
  moreover have "drop 8 (bytes_at ?h e (esize p)) = drop 8 (bytes_at h e (esize p))"
    using len by (simp add: bytes_at_set_prefix)
  ultimately show ?thesis using W(3,4) by auto
qed

text \<open>The pool knows where its elements are through the frame of a step outside of it.\<close>

lemma u64_at_prefix:
  assumes "bytes_at h' q n = bytes_at h p n" "k + 8 \<le> n"
  shows "u64_at h' (q + k) = u64_at h (p + k)"
proof -
  have "read_mem (mem h') (q + k) 8 = read_mem (mem h) (p + k) 8"
  proof (rule nth_equalityI)
    fix j assume "j < length (read_mem (mem h') (q + k) 8)"
    then have "k + j < n" using assms(2) by simp
    then have "bytes_at h' q n ! (k + j) = bytes_at h p n ! (k + j)" "k + j < n" using assms(1) by simp_all
    then show "read_mem (mem h') (q + k) 8 ! j = read_mem (mem h) (p + k) 8 ! j"
      using \<open>j < _\<close> by (simp add: bytes_at_def add.assoc)
  qed simp
  then show ?thesis by (simp add: u64_at_def)
qed

lemma elements_frame:
  assumes inv: "pool_inv h p cs F L" and f: "frame A B h h'" and dis: "set cs \<inter> A = {}"
  shows "chain h' (pool_reuse p) F" "\<And>x. x \<in> set F \<union> set L \<Longrightarrow> bytes_at h' x (esize p) = bytes_at h x (esize p)"
proof -
  show same: "bytes_at h' x (esize p) = bytes_at h x (esize p)" if x: "x \<in> set F \<union> set L" for x
  proof -
    obtain c where c: "c \<in> set cs" "fst c \<le> x" "x + esize p \<le> fst c + snd c" "c \<in> set (blocks h)"
      using element_chunk [OF inv x] by blast
    have "c \<notin> A" using c(1) dis by blast
    then show ?thesis using frame_bytes [OF f, of "fst c" "snd c" x "esize p"] c by simp
  qed
  have "8 \<le> esize p" using inv by (simp add: pool_inv_def)
  then have "u64_at h' x = u64_at h x" if "x \<in> set F" for x
    using u64_at_prefix [OF same, of x 0] that by simp
  moreover have "chain h (pool_reuse p) F" using inv by (simp add: pool_inv_def elements_ok_def)
  ultimately show "chain h' (pool_reuse p) F" using chain_cong by blast
qed

lemma placed_mono: "placed n cs lim x \<Longrightarrow> lim \<le> lim' \<Longrightarrow> placed n cs lim' x"
proof -
  assume "placed n cs lim x" and le: "lim \<le> lim'"
  then obtain c where c: "c \<in> set cs" "fst c \<le> x" "x + n \<le> fst c + (if c = last cs then lim else snd c)"
    unfolding placed_def by blast
  then have "x + n \<le> fst c + (if c = last cs then lim' else snd c)" using le by (cases "c = last cs") simp_all
  then show "placed n cs lim' x" unfolding placed_def using c(1,2) by blast
qed

lemma apart_insert: "apart n S \<Longrightarrow> (\<And>x. x \<in> S \<Longrightarrow> x + n \<le> e \<or> e + n \<le> x) \<Longrightarrow> apart n (insert e S)"
  unfolding apart_def by blast

lemma get_bump:
  assumes inv: "pool_inv h p cs F L" and ne: "cs \<noteq> []"
    and room: "unat (pool_next_offset p) + esize p \<le> unat (pool_chunk_size p)"
  defines "e \<equiv> pool_current p + unat (pool_next_offset p)"
    and "p' \<equiv> p\<lparr>pool_next_offset := pool_next_offset p + pool_element_size p\<rparr>"
  shows "pool_inv h p' cs F (L @ [e])" "0 < e" "bytes_at h e (esize p) = replicate (esize p) 0"
proof -
  note I = inv [unfolded pool_inv_def]
  let ?o = "unat (pool_next_offset p)" and ?n = "unat (pool_chunk_size p)"
  have l: "last cs \<in> set cs" using ne by (rule last_in_set)
  have cur: "last cs = (pool_current p, ?n)" and z: "bytes_at h (pool_current p + ?o) (?n - ?o) = replicate (?n - ?o) 0"
    using I ne by (simp_all add: current_ok_def)
  have lb: "(pool_current p, ?n) \<in> set (blocks h)" using I l cur by (metis subsetD)
  then show pos: "0 < e" using I heap_ok_range [of h "pool_current p" ?n] unfolding e_def by auto
  have no: "unat (pool_next_offset p') = ?o + esize p"
  proof -
    have "?o + esize p < 2 ^ 64" using room unat_lt64 [of "pool_chunk_size p"] by linarith
    then show ?thesis unfolding p'_def by (simp add: unat_add_no_wrap)
  qed
  have take: "bytes_at h e (esize p) = take (esize p) (bytes_at h e (?n - ?o))"
    using room read_mem_take [of "esize p" "?n - ?o" "mem h" e] by (simp add: bytes_at_def)
  then show "bytes_at h e (esize p) = replicate (esize p) 0" using z room by (simp add: e_def min_absorb2)
  have rest: "bytes_at h (pool_current p + (?o + esize p)) (?n - (?o + esize p)) = replicate (?n - (?o + esize p)) 0"
  proof -
    have "?n - ?o = esize p + (?n - (?o + esize p))" using room by simp
    then have "read_mem (mem h) e (?n - ?o) = read_mem (mem h) e (esize p) @ read_mem (mem h) (e + esize p) (?n - (?o + esize p))"
      by (metis read_mem_add)
    then have "bytes_at h (e + esize p) (?n - (?o + esize p)) = drop (esize p) (bytes_at h e (?n - ?o))"
      by (simp add: bytes_at_def)
    then show ?thesis using z by (simp add: e_def add.assoc)
  qed
  have sep: "x + esize p \<le> e \<or> e + esize p \<le> x" if x: "x \<in> set F \<union> set L" for x
  proof -
    obtain c where c: "c \<in> set cs" "fst c \<le> x" "x + esize p \<le> fst c + snd c" "c \<in> set (blocks h)"
        "c = last cs \<longrightarrow> x + esize p \<le> pool_current p + ?o"
      using element_chunk [OF inv x] by blast
    show ?thesis
    proof (cases "c = last cs")
      case False
      then have "fst c + max (snd c) 1 \<le> pool_current p \<or> pool_current p + max ?n 1 \<le> fst c"
        using heap_ok_disjoint [OF _ c(4) lb] I cur by auto
      then show ?thesis using c(2,3) room unfolding e_def by linarith
    qed (use c(5) in \<open>simp add: e_def\<close>)
  qed
  have new: "e \<notin> set F \<union> set L" using sep [of e] I by (metis add_le_same_cancel1 le_zero_eq not_numeral_le_zero)
  have mono: "placed (esize p) cs (unat (pool_next_offset p')) x" if "placed (esize p) cs ?o x" for x
    by (rule placed_mono [OF that]) (simp add: no)
  have "elements_ok h p' cs F (L @ [e])"
  proof -
    have E: "elements_ok h p cs F L" using I by blast
    have "placed (esize p) cs (unat (pool_next_offset p')) e"
      unfolding placed_def no e_def using l cur by (intro bexI [of _ "last cs"]) auto
    moreover have "apart (esize p) (insert e (set F \<union> set L))"
      by (rule apart_insert) (use E sep in \<open>simp_all add: elements_ok_def\<close>)
    ultimately show ?thesis
      using E mono new by (auto simp: elements_ok_def p'_def)
  qed
  moreover have "current_ok h p' cs"
    using I cur rest no room by (simp add: current_ok_def p'_def word_le_nat_alt)
  moreover have "array_ok h p' cs" using I by (simp add: p'_def)
  ultimately show "pool_inv h p' cs F (L @ [e])" using I by (simp add: pool_inv_def p'_def)
qed

section \<open>A new chunk\<close>

lemma grow_pointers:
  assumes inv: "pool_inv h p cs F L" and r: "realloc (pool_pools p) (8 * (length cs + 1)) h = Some (q, h1)" "q \<noteq> 0"
  shows "\<exists>A. frame A {(q, 8 * (length cs + 1))} h h1 \<and> A \<union> set cs = own_pool p cs \<and> set cs \<inter> A = {} \<and>
    (\<forall>i < length cs. u64_at h1 (q + 8 * i) = of_nat (fst (cs ! i)))"
proof -
  note I = inv [unfolded pool_inv_def array_ok_def]
  show ?thesis
  proof (cases "cs = []")
    case True
    then have "malloc (8 * (length cs + 1)) h = (q, h1)" using r(1) I by simp
    then show ?thesis using malloc_cases [of "8 * (length cs + 1)" h q h1] I r(2) True
      by (intro exI [of _ "{}"]) (auto simp: own_pool_def)
  next
    case False
    then have a: "(pool_pools p, 8 * length cs) \<in> set (blocks h)" "own_ptrs p cs \<notin> set cs" using I by (auto simp: own_ptrs_def)
    have h: "heap_ok h" using I by blast
    from realloc_cases [OF h a(1), of "8 * (length cs + 1)"] r
    have f: "frame {own_ptrs p cs} {(q, 8 * (length cs + 1))} h h1" "bytes_at h1 q (8 * length cs) = bytes_at h (pool_pools p) (8 * length cs)"
      by (auto simp: own_ptrs_def)
    have "u64_at h1 (q + 8 * i) = of_nat (fst (cs ! i))" if "i < length cs" for i
      using u64_at_prefix [OF f(2), of "8 * i"] that I False by simp
    then show ?thesis using f(1) a(2) False by (intro exI [of _ "{own_ptrs p cs}"]) (auto simp: own_pool_def)
  qed
qed

lemma pool_counts:
  assumes inv: "pool_inv h p cs F L"
  shows "unat (pool_count p + 1) = length cs + 1" "unat ((pool_count p + 1) * 8) = 8 * (length cs + 1)"
    "unat (pool_chunk_size p * 2) = unat (pool_chunk_size p) * 2"
proof -
  note I = inv [unfolded pool_inv_def array_ok_def]
  have "8 * length cs < 2 ^ 63"
    using I heap_ok_size [of h "pool_pools p" "8 * length cs"] by (cases "cs = []") (auto simp: own_ptrs_def)
  then have "8 * (length cs + 1) < 2 ^ 64" by simp
  then show c: "unat (pool_count p + 1) = length cs + 1" using I by (subst unat_add_no_wrap) simp_all
  then show "unat ((pool_count p + 1) * 8) = 8 * (length cs + 1)"
    using \<open>8 * (length cs + 1) < 2 ^ 64\<close> by (subst unat_mult_no_wrap) simp_all
  show "unat (pool_chunk_size p * 2) = unat (pool_chunk_size p) * 2"
    using I by (subst unat_mult_no_wrap) simp_all
qed

lemma add_chunk_spec:
  assumes inv: "pool_inv h p cs F L"
  shows "\<exists>rv p' h'. add_chunk p h = Some (rv, p', h') \<and> (rv = 0 \<or> rv = - 1) \<and> (rv = 0 \<longrightarrow> (\<exists>c.
    pool_inv h' p' (cs @ [c]) F L \<and> pool_next_offset p' = 0 \<and> pool_element_size p' = pool_element_size p \<and>
    frame (own_pool p cs) (own_pool p' (cs @ [c])) h h' \<and>
    (\<forall>x \<in> set F \<union> set L. bytes_at h' x (esize p) = bytes_at h x (esize p))))"
proof -
  note I = inv [unfolded pool_inv_def] and N = pool_counts [OF inv]
  let ?n = "unat (pool_chunk_size p)" and ?l = "length cs"
  have h: "heap_ok h" using I by blast
  have "\<exists>q h1. realloc (pool_pools p) (8 * (?l + 1)) h = Some (q, h1)"
  proof (cases "cs = []")
    case True
    then show ?thesis using I by (cases "malloc 8 h") (simp add: array_ok_def)
  next
    case False
    then show ?thesis using realloc_cases [OF h, of "pool_pools p" "8 * ?l" "8 * (?l + 1)"] I by (auto simp: array_ok_def own_ptrs_def)
  qed
  then obtain q h1 where r: "realloc (pool_pools p) (8 * (?l + 1)) h = Some (q, h1)" by blast
  obtain c h2 where k: "calloc (pool_chunk_size p * 2) 1 h1 = (c, h2)" by fastforce
  let ?p0 = "p\<lparr>pool_count := pool_count p + 1, pool_chunk_size := pool_chunk_size p * 2, pool_pools := q\<rparr>"
  let ?p = "?p0\<lparr>pool_current := c, pool_next_offset := 0\<rparr>"
  let ?h3 = "set_bytes (q + 8 * ?l) (le_bytes 8 (of_nat c :: u64)) h2"
  let ?Q = "(q, 8 * (?l + 1))" and ?C = "(c, ?n * 2)"
  consider (no_array) "q = 0" | (no_chunk) "q \<noteq> 0" "c = 0" | (ok) "q \<noteq> 0" "c \<noteq> 0" by blast
  then show ?thesis
  proof cases
    case no_array
    then show ?thesis using r N(2) by (simp add: add_chunk_def Let_def)
  next
    case no_chunk
    then show ?thesis using r k N(2) by (simp add: add_chunk_def Let_def)
  next
    case ok
    obtain A where A: "frame A {?Q} h h1" "A \<union> set cs = own_pool p cs" "set cs \<inter> A = {}"
        "\<forall>i < ?l. u64_at h1 (q + 8 * i) = of_nat (fst (cs ! i))"
      using grow_pointers [OF inv r ok(1)] by blast
    have cnt: "unat (pool_count p) = ?l" using I by (simp add: array_ok_def)
    have h1: "heap_ok h1" by (rule frame_heap_ok [OF A(1) h])
    have f2: "frame {} {?C} h1 h2" and z: "bytes_at h2 c (?n * 2) = replicate (?n * 2) 0"
      using calloc_cases [OF k h1] ok(2) N(3) by auto
    have h2: "heap_ok h2" by (rule frame_heap_ok [OF f2 h1])
    have Q1: "?Q \<in> set (blocks h1)" using frame_sub [OF A(1)] by simp
    then have Q: "?Q \<in> set (blocks h2)" "?Q \<noteq> ?C" using frame_mem [OF f2 Q1] by auto
    have C: "?C \<in> set (blocks h2)" using frame_sub [OF f2] by simp
    have "frame ({} \<union> {?Q}) ({?C} \<union> {?Q}) h1 h2" by (rule frame_extend [OF f2]) (use Q1 in auto)
    then have "frame A ({?C} \<union> {?Q}) h h2" using frame_trans [OF A(1)] by simp
    moreover have "frame ({?C} \<union> {?Q}) ({?C} \<union> {?Q}) h2 ?h3"
      by (rule frame_set_bytes [OF h2, where b = q and m = "8 * (?l + 1)"]) (use Q(1) C in auto)
    ultimately have f: "frame A ({?C} \<union> {?Q}) h ?h3" by (rule frame_trans)
    have cs: "set cs \<subseteq> set (blocks h)" using I by blast
    have old: "x \<in> set (blocks ?h3) \<and> x \<notin> {?C} \<union> {?Q}" if "x \<in> set cs" for x
      using frame_mem [OF f, of x] that cs A(3) by blast
    have d: "fst ?Q + max (snd ?Q) 1 \<le> c \<or> c + max (?n * 2) 1 \<le> fst ?Q"
      using heap_ok_disjoint [OF h2 Q(1) C Q(2)] by simp
    have v: "valid h2 (q + 8 * ?l) 8" by (rule valid_block [OF Q(1)]) auto
    have cs': "set (cs @ [?C]) \<subseteq> set (blocks ?h3)" "distinct (cs @ [?C])" "last (cs @ [?C]) = ?C"
      using old C I by (auto simp: heap_simps)
    have "placed (esize p) (cs @ [?C]) 0 x" if x: "x \<in> set F \<union> set L" for x
    proof -
      obtain b where "b \<in> set cs" "fst b \<le> x" "x + esize p \<le> fst b + snd b" using element_chunk [OF inv x] by blast
      moreover have "b \<noteq> ?C" using old calculation(1) by auto
      ultimately show ?thesis unfolding placed_def cs'(3) by (intro bexI [of _ b]) auto
    qed
    then have el: "elements_ok ?h3 ?p (cs @ [?C]) F L"
      using I elements_frame(1) [OF inv f A(3)] by (simp add: elements_ok_def)
    have "bytes_at ?h3 c (?n * 2) = bytes_at h2 c (?n * 2)" by (rule bytes_at_set_other) (use d in auto)
    then have cur: "current_ok ?h3 ?p (cs @ [?C])" using z N(3) by (simp add: current_ok_def)
    have "u64_at ?h3 (q + 8 * i) = of_nat (fst ((cs @ [?C]) ! i))" if i: "i < ?l + 1" for i
    proof (cases "i = ?l")
      case True
      then show ?thesis by (simp add: heap_simps)
    next
      case False
      then have "u64_at ?h3 (q + 8 * i) = u64_at h2 (q + 8 * i)" using i by (intro u64_at_set_other) simp
      also have "\<dots> = u64_at h1 (q + 8 * i)"
        by (rule bytes_at_u64, rule frame_bytes [OF f2 Q1]) (use i in auto)
      finally show ?thesis using A(4) False i by (simp add: nth_append)
    qed
    moreover have "own_ptrs ?p (cs @ [?C]) = ?Q" by (simp add: own_ptrs_def)
    moreover have "?Q \<notin> set (cs @ [?C])" using old Q(2) by auto
    ultimately have arr: "array_ok ?h3 ?p (cs @ [?C])" using N(1) Q(1) by (simp add: array_ok_def heap_simps)
    have "8 \<le> esize ?p \<and> pool_element_size ?p \<le> pool_chunk_size ?p \<and> unat (pool_chunk_size ?p) < 2 ^ 63"
      using I N(3) heap_ok_size [OF h2 C] by (simp add: word_le_nat_alt)
    then have inv': "pool_inv ?h3 ?p (cs @ [?C]) F L"
      using el cur arr cs' h2 by (simp add: pool_inv_def heap_simps)
    have "own_pool ?p (cs @ [?C]) = {?C} \<union> {?Q} \<union> set cs" by (auto simp: own_pool_def own_ptrs_def)
    then have "frame (own_pool p cs) (own_pool ?p (cs @ [?C])) h ?h3"
      using frame_extend [OF f cs A(3)] A(2) by simp
    moreover have "add_chunk p h = Some (0, ?p, ?h3)"
      using r k ok v N(2) cnt by (simp add: add_chunk_def Let_def mem_step)
    ultimately show ?thesis using inv' elements_frame(2) [OF inv f A(3)] by auto
  qed
qed

text \<open>What the client finds in a new element.\<close>

fun initial :: "nat \<Rightarrow> u8 list list \<Rightarrow> u8 list" where
  "initial n [] = replicate n 0"
| "initial n (bs # _) = replicate 8 0 @ drop 8 bs"

definition contents :: "heap \<Rightarrow> nat \<Rightarrow> addr list \<Rightarrow> u8 list list" where
  "contents h n es = map (\<lambda>e. bytes_at h e n) es"

definition got :: "heap \<Rightarrow> prealloc_pool \<Rightarrow> (addr \<times> nat) list \<Rightarrow> addr list \<Rightarrow> addr list \<Rightarrow>
    addr \<Rightarrow> prealloc_pool \<Rightarrow> heap \<Rightarrow> (addr \<times> nat) list \<Rightarrow> bool" where
  "got h p cs F L e p' h' cs' \<longleftrightarrow> pool_inv h' p' cs' (tl F) (L @ [e]) \<and> e \<noteq> 0 \<and>
     pool_element_size p' = pool_element_size p \<and> frame (own_pool p cs) (own_pool p' cs') h h' \<and>
     bytes_at h' e (esize p) = initial (esize p) (contents h (esize p) F) \<and>
     (\<forall>x \<in> set (tl F) \<union> set L. bytes_at h' x (esize p) = bytes_at h x (esize p))"

lemma bump_got:
  assumes inv: "pool_inv h' p' cs' [] L" and ne: "cs' \<noteq> []"
    and room: "unat (pool_next_offset p') + esize p' \<le> unat (pool_chunk_size p')"
    and es: "pool_element_size p' = pool_element_size p" and f: "frame (own_pool p cs) (own_pool p' cs') h h'"
    and same: "\<forall>x \<in> set L. bytes_at h' x (esize p) = bytes_at h x (esize p)"
  shows "got h p cs [] L (pool_current p' + unat (pool_next_offset p'))
    (p'\<lparr>pool_next_offset := pool_next_offset p' + pool_element_size p'\<rparr>) h' cs'"
  using get_bump [OF inv ne room] es f same by (simp add: got_def contents_def)

lemma pools_null: "pool_inv h p cs F L \<Longrightarrow> pool_pools p = 0 \<longleftrightarrow> cs = []"
  using heap_ok_range [of h "pool_pools p" "8 * length cs"]
  by (cases "cs = []") (auto simp: pool_inv_def array_ok_def own_ptrs_def)

lemma pool_full_iff:
  assumes inv: "pool_inv h p cs F L" and ne: "cs \<noteq> []"
  shows "pool_chunk_size p < pool_next_offset p + pool_element_size p \<longleftrightarrow>
    unat (pool_chunk_size p) < unat (pool_next_offset p) + esize p"
proof -
  have "unat (pool_next_offset p) + esize p < 2 ^ 64"
    using inv ne by (auto simp: pool_inv_def current_ok_def word_le_nat_alt)
  then show ?thesis by (simp add: word_less_nat_alt unat_add_no_wrap)
qed

text \<open>A get does not allocate when an element is recycled or the current chunk has room.\<close>

definition pool_room :: "prealloc_pool \<Rightarrow> (addr \<times> nat) list \<Rightarrow> addr list \<Rightarrow> bool" where
  "pool_room p cs F \<longleftrightarrow> F \<noteq> [] \<or> (cs \<noteq> [] \<and> unat (pool_next_offset p) + esize p \<le> unat (pool_chunk_size p))"

lemma get_spec:
  assumes inv: "pool_inv h p cs F L"
  shows "\<exists>e p' h'. cx_prealloc_pool_get p h = Some (e, p', h') \<and>
    (e = 0 \<and> \<not> pool_room p cs F \<or> (\<exists>cs'. got h p cs F L e p' h' cs' \<and> (pool_room p cs F \<longrightarrow> cs' = cs)))"
proof (cases F)
  case (Cons f G)
  obtain p' h' where g: "cx_prealloc_pool_get p h = Some (f, p', h')" "pool_inv h' p' cs G (L @ [f])"
      "pool_element_size p' = pool_element_size p" "own_pool p' cs = own_pool p cs" "frame (own_pool p cs) (own_pool p cs) h h'"
      "bytes_at h' f (esize p) = replicate 8 0 @ drop 8 (bytes_at h f (esize p))"
      "\<forall>x \<in> set G \<union> set L. bytes_at h' x (esize p) = bytes_at h x (esize p)"
    using get_reused [OF inv [unfolded Cons]] by blast
  have "f \<noteq> 0" using element_pos [OF inv, of f] Cons by auto
  then have "got h p cs F L f p' h' cs" using g(2-7) Cons by (simp add: got_def contents_def)
  then show ?thesis using g(1) by blast
next
  case Nil
  have r0: "pool_reuse p = 0" using inv Nil by (simp add: pool_inv_def elements_ok_def)
  show ?thesis
  proof (cases "pool_room p cs F")
    case True
    then have room: "cs \<noteq> []" "unat (pool_next_offset p) + esize p \<le> unat (pool_chunk_size p)" using Nil by (auto simp: pool_room_def)
    have "got h p cs [] L (pool_current p + unat (pool_next_offset p))
        (p\<lparr>pool_next_offset := pool_next_offset p + pool_element_size p\<rparr>) h cs"
      by (rule bump_got) (use inv Nil room frame_refl [OF pool_own_sub [OF inv]] in auto)
    moreover have "\<not> pool_chunk_size p < pool_next_offset p + pool_element_size p"
      using pool_full_iff [OF inv room(1)] room(2) by simp
    ultimately show ?thesis using r0 pools_null [OF inv] room(1) Nil
      by (auto simp: cx_prealloc_pool_get_def Let_def)
  next
    case False
    obtain rv p' h' where a: "add_chunk p h = Some (rv, p', h')" "rv = 0 \<or> rv = - 1"
        "rv = 0 \<longrightarrow> (\<exists>c. pool_inv h' p' (cs @ [c]) F L \<and> pool_next_offset p' = 0 \<and> pool_element_size p' = pool_element_size p \<and>
          frame (own_pool p cs) (own_pool p' (cs @ [c])) h h' \<and>
          (\<forall>x \<in> set F \<union> set L. bytes_at h' x (esize p) = bytes_at h x (esize p)))"
      using add_chunk_spec [OF inv] by blast
    have full: "pool_pools p = 0 \<or> pool_chunk_size p < pool_next_offset p + pool_element_size p"
      using False Nil pools_null [OF inv] pool_full_iff [OF inv] by (auto simp: pool_room_def)
    show ?thesis
    proof (cases "rv = 0")
      case True
      then obtain c where c: "pool_inv h' p' (cs @ [c]) [] L" "pool_next_offset p' = 0" "pool_element_size p' = pool_element_size p"
          "frame (own_pool p cs) (own_pool p' (cs @ [c])) h h'" "\<forall>x \<in> set L. bytes_at h' x (esize p) = bytes_at h x (esize p)"
        using a(3) Nil by auto
      have "got h p cs [] L (pool_current p' + unat (pool_next_offset p'))
          (p'\<lparr>pool_next_offset := pool_next_offset p' + pool_element_size p'\<rparr>) h' (cs @ [c])"
        by (rule bump_got [OF c(1) _ _ c(3-5)]) (use c(1,2) in \<open>simp_all add: pool_inv_def word_le_nat_alt\<close>)
      then show ?thesis using r0 full a(1) True False Nil
        by (auto simp: cx_prealloc_pool_get_def Let_def)
    next
      case rv: False
      then show ?thesis using r0 full a(1,2) False by (auto simp: cx_prealloc_pool_get_def Let_def)
    qed
  qed
qed

section \<open>The pool as its clients see it\<close>

text \<open>
  \<open>pool_at h p F L X\<close>: a pool with the recycled elements \<open>F\<close>, the elements \<open>L\<close> in use and
  the memory objects \<open>X\<close>, whatever its chunks are.
\<close>

definition pool_at :: "heap \<Rightarrow> prealloc_pool \<Rightarrow> addr list \<Rightarrow> addr list \<Rightarrow> (addr \<times> nat) set \<Rightarrow> bool" where
  "pool_at h p F L X \<longleftrightarrow> (\<exists>cs. pool_inv h p cs F L \<and> X = own_pool p cs)"

lemma pool_atD:
  assumes "pool_at h p F L X"
  shows "heap_ok h" "X \<subseteq> set (blocks h)" "distinct L" "8 \<le> esize p"
    "e \<in> set L \<Longrightarrow> 0 < e \<and> e < 2 ^ 64"
    "e \<in> set L \<Longrightarrow> \<exists>c \<in> X. fst c \<le> e \<and> e + esize p \<le> fst c + snd c"
    "x \<in> set L \<Longrightarrow> e \<in> set L \<Longrightarrow> x \<noteq> e \<Longrightarrow> x + esize p \<le> e \<or> e + esize p \<le> x"
proof -
  obtain cs where inv: "pool_inv h p cs F L" "X = own_pool p cs" using assms by (auto simp: pool_at_def)
  note I = inv(1) [unfolded pool_inv_def]
  show "heap_ok h" "distinct L" "8 \<le> esize p" using I by (simp_all add: elements_ok_def)
  show "X \<subseteq> set (blocks h)" using pool_own_sub [OF inv(1)] inv(2) by simp
  show "0 < e \<and> e < 2 ^ 64" if "e \<in> set L" using element_pos [OF inv(1)] that by blast
  show "\<exists>c \<in> X. fst c \<le> e \<and> e + esize p \<le> fst c + snd c" if "e \<in> set L"
    using element_chunk [OF inv(1), of e] that inv(2) by blast
  show "x + esize p \<le> e \<or> e + esize p \<le> x" if "x \<in> set L" "e \<in> set L" "x \<noteq> e"
    using elements_apart [of h p cs F L x e] I that by blast
qed

lemma pool_at_get:
  assumes "pool_at h p F L X"
  shows "\<exists>e p' h'. cx_prealloc_pool_get p h = Some (e, p', h') \<and>
    (e = 0 \<or> (e \<noteq> 0 \<and> e \<notin> set L \<and> pool_element_size p' = pool_element_size p \<and>
      bytes_at h' e (esize p) = initial (esize p) (contents h (esize p) F) \<and>
      (\<forall>x \<in> set (tl F) \<union> set L. bytes_at h' x (esize p) = bytes_at h x (esize p)) \<and>
      (\<exists>X'. pool_at h' p' (tl F) (L @ [e]) X' \<and> frame X X' h h')))"
proof -
  obtain cs where inv: "pool_inv h p cs F L" "X = own_pool p cs" using assms by (auto simp: pool_at_def)
  obtain e p' h' where g: "cx_prealloc_pool_get p h = Some (e, p', h')" "e = 0 \<or> (\<exists>cs'. got h p cs F L e p' h' cs')"
    using get_spec [OF inv(1)] by blast
  show ?thesis
  proof (cases "e = 0")
    case False
    then obtain cs' where G: "got h p cs F L e p' h' cs'" using g(2) by blast
    then have "pool_at h' p' (tl F) (L @ [e]) (own_pool p' cs')" by (auto simp: got_def pool_at_def)
    moreover have "e \<notin> set L" using pool_atD(3) [OF calculation] by simp
    ultimately show ?thesis using g(1) G inv(2) by (auto simp: got_def)
  qed (use g(1) in auto)
qed

lemma pool_at_write:
  assumes "pool_at h p F L X" "e \<in> set L" "k + length bs \<le> esize p"
  shows "valid h (e + k) (length bs)" "pool_at (set_bytes (e + k) bs h) p F L X" "frame X X h (set_bytes (e + k) bs h)"
    "\<And>x. x \<in> set F \<union> set L \<Longrightarrow> x \<noteq> e \<Longrightarrow> bytes_at (set_bytes (e + k) bs h) x (esize p) = bytes_at h x (esize p)"
proof -
  obtain cs where inv: "pool_inv h p cs F L" "X = own_pool p cs" using assms(1) by (auto simp: pool_at_def)
  note W = pool_write_at [OF inv(1) assms(2,3)]
  show "valid h (e + k) (length bs)" "frame X X h (set_bytes (e + k) bs h)" using W(1,3) inv(2) by simp_all
  show "pool_at (set_bytes (e + k) bs h) p F L X" using W(2) inv(2) by (auto simp: pool_at_def)
  show "\<And>x. x \<in> set F \<union> set L \<Longrightarrow> x \<noteq> e \<Longrightarrow> bytes_at (set_bytes (e + k) bs h) x (esize p) = bytes_at h x (esize p)"
    by (rule W(4))
qed

lemma pool_at_recycle:
  assumes "pool_at h p F L X" "e \<in> set L"
  shows "\<exists>p' h'. cx_prealloc_pool_recycle p e h = Some (p', h') \<and> pool_at h' p' (e # F) (remove1 e L) X \<and>
    pool_element_size p' = pool_element_size p \<and> frame X X h h' \<and>
    (\<forall>x \<in> set L. x \<noteq> e \<longrightarrow> bytes_at h' x (esize p) = bytes_at h x (esize p))"
proof -
  obtain cs where inv: "pool_inv h p cs F L" "X = own_pool p cs" using assms(1) by (auto simp: pool_at_def)
  then show ?thesis using recycle_spec [OF inv(1) assms(2)] unfolding pool_at_def by blast
qed

lemma pool_at_outside:
  assumes "pool_at h p F L X" and f: "frame A B h h'" and dis: "X \<inter> A = {}"
  shows "pool_at h' p F L X" "\<And>x. x \<in> set L \<Longrightarrow> bytes_at h' x (esize p) = bytes_at h x (esize p)"
proof -
  obtain cs where inv: "pool_inv h p cs F L" "X = own_pool p cs" using assms(1) by (auto simp: pool_at_def)
  note I = inv(1) [unfolded pool_inv_def]
  have cs: "set cs \<inter> A = {}" using dis inv(2) by (cases "cs = []") (auto simp: own_pool_def)
  note E = elements_frame [OF inv(1) f cs]
  show "\<And>x. x \<in> set L \<Longrightarrow> bytes_at h' x (esize p) = bytes_at h x (esize p)" using E(2) by blast
  have "current_ok h' p cs"
  proof (cases "cs = []")
    case False
    then have l: "(pool_current p, unat (pool_chunk_size p)) \<in> set (blocks h)" "(pool_current p, unat (pool_chunk_size p)) \<notin> A"
        "unat (pool_next_offset p) \<le> unat (pool_chunk_size p)"
      using I cs last_in_set [OF False] by (auto simp: current_ok_def word_le_nat_alt)
    then have "bytes_at h' (pool_current p + unat (pool_next_offset p)) (unat (pool_chunk_size p) - unat (pool_next_offset p)) =
        bytes_at h (pool_current p + unat (pool_next_offset p)) (unat (pool_chunk_size p) - unat (pool_next_offset p))"
      by (intro frame_bytes [OF f l(1,2)]) auto
    then show ?thesis using I by (simp add: current_ok_def)
  qed (simp add: current_ok_def)
  moreover have "array_ok h' p cs"
  proof (cases "cs = []")
    case False
    then have a: "(pool_pools p, 8 * length cs) \<in> set (blocks h)" "(pool_pools p, 8 * length cs) \<notin> A"
      using I dis inv(2) by (auto simp: array_ok_def own_pool_def own_ptrs_def)
    have "u64_at h' (pool_pools p + 8 * i) = u64_at h (pool_pools p + 8 * i)" if "i < length cs" for i
      by (rule bytes_at_u64, rule frame_bytes [OF f a]) (use that in auto)
    moreover have "own_ptrs p cs \<in> set (blocks h')" using frame_mem [OF f a] by (simp add: own_ptrs_def)
    ultimately show ?thesis using I by (simp add: array_ok_def)
  qed (use I in \<open>simp add: array_ok_def\<close>)
  moreover have "set cs \<subseteq> set (blocks h')" using I cs frame_mem [OF f] by blast
  moreover have "heap_ok h'" using frame_heap_ok [OF f] I by blast
  ultimately have "pool_inv h' p cs F L" using I E(1) by (simp add: pool_inv_def elements_ok_def)
  then show "pool_at h' p F L X" using inv(2) by (auto simp: pool_at_def)
qed

section \<open>Cleanup\<close>

lemma free_chunks_spec:
  assumes "heap_ok h" "set cs \<subseteq> set (blocks h)" "distinct cs"
    and "(a, n) \<in> set (blocks h)" "(a, n) \<notin> set cs" "8 * (i + length cs) \<le> n"
    and "\<And>j. j < length cs \<Longrightarrow> u64_at h (a + 8 * (i + j)) = of_nat (fst (cs ! j))"
  shows "\<exists>h'. free_chunks a i (length cs) h = Some h' \<and> frame (set cs) {} h h'"
  using assms
proof (induction cs arbitrary: i h)
  case Nil
  then show ?case by (simp add: frame_refl)
next
  case (Cons c cs)
  have c: "(fst c, snd c) \<in> set (blocks h)" using Cons.prems(2) by simp
  then have small: "fst c < 2 ^ 64" using heap_ok_range [OF Cons.prems(1) c] by linarith
  have v: "valid h (a + 8 * i) 8" by (rule valid_block [OF Cons.prems(4)]) (use Cons.prems(6) in auto)
  have w: "u64_at h (a + 8 * i) = of_nat (fst c)" using Cons.prems(7) [of 0] by simp
  obtain h1 where h1: "free (fst c) h = Some h1" "frame {c} {} h h1" using free_block [OF Cons.prems(1) c] by auto
  have keep: "x \<in> set (blocks h1)" if "x \<in> set (blocks h)" "x \<noteq> c" for x using frame_mem [OF h1(2) that(1)] that(2) by simp
  have an: "(a, n) \<noteq> c" using Cons.prems(5) by auto
  have "\<exists>h'. free_chunks a (Suc i) (length cs) h1 = Some h' \<and> frame (set cs) {} h1 h'"
  proof (rule Cons.IH)
    show "heap_ok h1" by (rule frame_heap_ok [OF h1(2) Cons.prems(1)])
    show "set cs \<subseteq> set (blocks h1)" using Cons.prems(2,3) keep by auto
    show "u64_at h1 (a + 8 * (Suc i + j)) = of_nat (fst (cs ! j))" if j: "j < length cs" for j
    proof -
      have "bytes_at h1 (a + 8 * (Suc i + j)) 8 = bytes_at h (a + 8 * (Suc i + j)) 8"
        by (rule frame_bytes [OF h1(2) Cons.prems(4)]) (use an j Cons.prems(6) in auto)
      then have "u64_at h1 (a + 8 * (Suc i + j)) = u64_at h (a + 8 * (Suc i + j))" by (rule bytes_at_u64)
      then show ?thesis using Cons.prems(7) [of "Suc j"] j by simp
    qed
  qed (use Cons.prems keep an in auto)
  then obtain h2 where h2: "free_chunks a (Suc i) (length cs) h1 = Some h2" "frame (set cs) {} h1 h2" by blast
  have "frame ({c} \<union> set cs) ({} \<union> set cs) h h1" by (rule frame_extend [OF h1(2)]) (use Cons.prems in auto)
  then have "frame (set (c # cs)) {} h h2" using frame_trans [OF _ h2(2)] by simp
  then show ?case using v w h1(1) h2(1) small by (simp add: mem_step unat_of_nat64)
qed

lemma pool_cleanup_spec:
  assumes inv: "pool_inv h p cs F L"
  shows "\<exists>h'. cx_prealloc_pool_cleanup p h = Some h' \<and> frame (own_pool p cs) {} h h'"
proof (cases "cs = []")
  case True
  then show ?thesis using inv
    by (simp add: cx_prealloc_pool_cleanup_def pool_inv_def array_ok_def own_pool_def frame_refl)
next
  case False
  note I = inv [unfolded pool_inv_def array_ok_def]
  have a: "(pool_pools p, 8 * length cs) \<in> set (blocks h)" "(pool_pools p, 8 * length cs) \<notin> set cs"
    using I False by (auto simp: own_ptrs_def)
  obtain h1 where h1: "free_chunks (pool_pools p) 0 (length cs) h = Some h1" "frame (set cs) {} h h1"
    using free_chunks_spec [of h cs "pool_pools p" "8 * length cs" 0] I False a by auto
  have "(pool_pools p, 8 * length cs) \<in> set (blocks h1)" using frame_mem [OF h1(2) a(1)] a(2) by simp
  moreover have "heap_ok h1" using frame_heap_ok [OF h1(2)] I by blast
  ultimately obtain h2 where h2: "free (pool_pools p) h1 = Some h2" "frame {own_ptrs p cs} {} h1 h2"
    using free_block by (fastforce simp: own_ptrs_def)
  have "frame (set cs \<union> {own_ptrs p cs}) ({} \<union> {own_ptrs p cs}) h h1"
    by (rule frame_extend [OF h1(2)]) (use a in \<open>auto simp: own_ptrs_def\<close>)
  then have "frame (own_pool p cs) {} h h2" using frame_trans [OF _ h2(2)] False by (simp add: own_pool_def)
  then show ?thesis using h1(1) h2(1) I by (simp add: cx_prealloc_pool_cleanup_def)
qed

lemma pool_at_cleanup: "pool_at h p F L X \<Longrightarrow> \<exists>h'. cx_prealloc_pool_cleanup p h = Some h' \<and> frame X {} h h'"
  using pool_cleanup_spec by (auto simp: pool_at_def)

section \<open>Histories\<close>

text \<open>
  A client that gets elements, writes to them and recycles them, in any order. It stops at
  the first get that fails. The list holds the elements in use.
\<close>

datatype pool_op = PGet | PWrite nat "u8 list" | PRecycle nat

definition drop_nth :: "nat \<Rightarrow> 'a list \<Rightarrow> 'a list" where
  "drop_nth i xs = take i xs @ drop (Suc i) xs"

fun pool_step :: "pool_op \<Rightarrow> addr list \<Rightarrow> prealloc_pool \<Rightarrow> heap \<Rightarrow> (bool \<times> addr list \<times> prealloc_pool \<times> heap) option" where
  "pool_step PGet L p h = do {
     (e, p, h) \<leftarrow> cx_prealloc_pool_get p h;
     Some (e \<noteq> 0, if e \<noteq> 0 then L @ [e] else L, p, h)
   }"
| "pool_step (PWrite i bs) L p h = do { h \<leftarrow> store_bytes (L ! i) bs h; Some (True, L, p, h) }"
| "pool_step (PRecycle i) L p h = do {
     (p, h) \<leftarrow> cx_prealloc_pool_recycle p (L ! i) h;
     Some (True, drop_nth i L, p, h)
   }"

fun pool_run :: "pool_op list \<Rightarrow> addr list \<Rightarrow> prealloc_pool \<Rightarrow> heap \<Rightarrow> (bool \<times> addr list \<times> prealloc_pool \<times> heap) option" where
  "pool_run [] L p h = Some (True, L, p, h)"
| "pool_run (x # xs) L p h = do {
     (ok, L, p, h) \<leftarrow> pool_step x L p h;
     if ok then pool_run xs L p h else Some (False, L, p, h)
   }"

text \<open>The specification: a stack of recycled contents and the contents of the elements in use.\<close>

fun content_step :: "nat \<Rightarrow> pool_op \<Rightarrow> u8 list list \<times> u8 list list \<Rightarrow> (u8 list list \<times> u8 list list) option" where
  "content_step n PGet (F, L) = Some (tl F, L @ [initial n F])"
| "content_step n (PWrite i bs) (F, L) = (if i < length L \<and> length bs = n then Some (F, L[i := bs]) else None)"
| "content_step n (PRecycle i) (F, L) = (if i < length L then Some (L ! i # F, drop_nth i L) else None)"

fun content_run :: "nat \<Rightarrow> pool_op list \<Rightarrow> u8 list list \<times> u8 list list \<Rightarrow> (u8 list list \<times> u8 list list) option" where
  "content_run n [] s = Some s"
| "content_run n (x # xs) s = Option.bind (content_step n x s) (content_run n xs)"

definition pool_sim :: "heap \<Rightarrow> prealloc_pool \<Rightarrow> (addr \<times> nat) list \<Rightarrow> addr list \<Rightarrow> addr list \<Rightarrow> u8 list list \<times> u8 list list \<Rightarrow> bool" where
  "pool_sim h p cs F L s \<longleftrightarrow> pool_inv h p cs F L \<and> contents h (esize p) L = snd s \<and>
     map (drop 8) (contents h (esize p) F) = map (drop 8) (fst s)"

lemma initial_cong: "map (drop 8) F = map (drop 8) G \<Longrightarrow> initial n F = initial n G"
  by (cases F; cases G) auto

lemma map_drop_nth: "map f (drop_nth i xs) = drop_nth i (map f xs)"
  by (simp add: drop_nth_def take_map drop_map)

lemma drop_nth_remove1: "distinct xs \<Longrightarrow> i < length xs \<Longrightarrow> drop_nth i xs = remove1 (xs ! i) xs"
proof (induction xs arbitrary: i)
  case (Cons x xs)
  then show ?case by (cases i) (auto simp: drop_nth_def)
qed simp

lemma contents_cong: "(\<And>x. x \<in> set L \<Longrightarrow> bytes_at h' x n = bytes_at h x n) \<Longrightarrow> contents h' n L = contents h n L"
  by (simp add: contents_def)

lemma contents_simps [simp]:
  "contents h n (L @ [e]) = contents h n L @ [bytes_at h e n]"
  "contents h n (e # L) = bytes_at h e n # contents h n L"
  "i < length L \<Longrightarrow> contents h n L ! i = bytes_at h (L ! i) n"
  by (simp_all add: contents_def)

lemma length_contents [simp]: "length (contents h n L) = length L"
  by (simp add: contents_def)

lemma pool_sim_step:
  assumes sim: "pool_sim h p cs F L s" and spec: "content_step (esize p) x s = Some s'"
  shows "\<exists>ok L' p' h'. pool_step x L p h = Some (ok, L', p', h') \<and>
    (ok \<longrightarrow> (\<exists>cs' F'. pool_sim h' p' cs' F' L' s' \<and> pool_element_size p' = pool_element_size p \<and>
      frame (own_pool p cs) (own_pool p' cs') h h'))"
proof -
  have inv: "pool_inv h p cs F L" and c: "contents h (esize p) L = snd s"
      "map (drop 8) (contents h (esize p) F) = map (drop 8) (fst s)" using sim by (simp_all add: pool_sim_def)
  have dist: "distinct L" "\<And>e. e \<in> set L \<Longrightarrow> e \<notin> set F" using inv by (auto simp: pool_inv_def elements_ok_def)
  have len: "length L = length (snd s)" using c(1) by (metis length_contents)
  show ?thesis
  proof (cases x)
    case PGet
    obtain e p' h' where g: "cx_prealloc_pool_get p h = Some (e, p', h')" "e = 0 \<or> (\<exists>cs'. got h p cs F L e p' h' cs')"
      using get_spec [OF inv] by blast
    show ?thesis
    proof (cases "e = 0")
      case True
      then show ?thesis using g(1) PGet by auto
    next
      case False
      then obtain cs' where G: "got h p cs F L e p' h' cs'" using g(2) by blast
      have "contents h' (esize p) L = contents h (esize p) L" "contents h' (esize p) (tl F) = contents h (esize p) (tl F)"
        using G by (auto simp: got_def intro: contents_cong)
      moreover have "initial (esize p) (contents h (esize p) F) = initial (esize p) (fst s)" by (rule initial_cong [OF c(2)])
      moreover have "map (drop 8) (contents h (esize p) (tl F)) = map (drop 8) (tl (fst s))"
        using arg_cong [OF c(2), of tl] by (simp add: contents_def map_tl)
      ultimately have "pool_sim h' p' cs' (tl F) (L @ [e]) s'"
        using G c(1) spec PGet by (cases s) (auto simp: pool_sim_def got_def)
      then show ?thesis using g(1) False PGet G by (auto simp: got_def)
    qed
  next
    case (PWrite i bs)
    then have i: "i < length L" "length bs = esize p" "s' = (fst s, (snd s)[i := bs])"
      using spec len by (cases s; auto split: if_splits)+
    then have e: "L ! i \<in> set L" by simp
    note W = pool_write [OF inv e, of bs]
    let ?h = "set_bytes (L ! i) bs h"
    have "contents ?h (esize p) L = (contents h (esize p) L)[i := bs]"
    proof (rule nth_equalityI)
      fix j assume "j < length (contents ?h (esize p) L)"
      then have j: "j < length L" by simp
      then have "L ! j = L ! i \<longleftrightarrow> j = i" using dist(1) i(1) nth_eq_iff_index_eq by blast
      then show "contents ?h (esize p) L ! j = (contents h (esize p) L)[i := bs] ! j"
        using W(4) [of "L ! j"] i j by (cases "j = i") (simp_all add: contents_def heap_simps)
    qed simp
    moreover have "contents ?h (esize p) F = contents h (esize p) F"
      by (rule contents_cong, rule W(4)) (use i dist(2) [OF e] in auto)
    ultimately have "pool_sim ?h p cs F L s'" using W(2) c i(2,3) by (simp add: pool_sim_def)
    then show ?thesis using W(1,3) i PWrite by (auto simp: mem_step)
  next
    case (PRecycle i)
    then have i: "i < length L" "s' = (snd s ! i # fst s, drop_nth i (snd s))"
      using spec len by (cases s; auto split: if_splits)+
    then have e: "L ! i \<in> set L" by simp
    obtain p' h' where r: "cx_prealloc_pool_recycle p (L ! i) h = Some (p', h')" "pool_inv h' p' cs (L ! i # F) (remove1 (L ! i) L)"
        "pool_element_size p' = pool_element_size p" "own_pool p' cs = own_pool p cs" "frame (own_pool p cs) (own_pool p cs) h h'"
        "drop 8 (bytes_at h' (L ! i) (esize p)) = drop 8 (bytes_at h (L ! i) (esize p))"
        "\<forall>x \<in> set F \<union> set L. x \<noteq> L ! i \<longrightarrow> bytes_at h' x (esize p) = bytes_at h x (esize p)"
      using recycle_spec [OF inv e] by blast
    have e_i: "snd s ! i = bytes_at h (L ! i) (esize p)" using c(1) i(1) by (metis contents_simps(3))
    have d: "drop_nth i L = remove1 (L ! i) L" by (rule drop_nth_remove1 [OF dist(1) i(1)])
    have "contents h' (esize p) (drop_nth i L) = contents h (esize p) (drop_nth i L)"
      by (rule contents_cong) (use r(7) dist(1) d in auto)
    then have "contents h' (esize p) (drop_nth i L) = drop_nth i (snd s)"
      using c(1) by (simp add: contents_def map_drop_nth)
    moreover have "contents h' (esize p) F = contents h (esize p) F"
      using r(7) dist(2) [OF e] by (intro contents_cong) (metis UnI1)
    then have "map (drop 8) (contents h' (esize p) (L ! i # F)) = map (drop 8) (snd s ! i # fst s)"
      using c(2) r(6) e_i by simp
    ultimately have "pool_sim h' p' cs (L ! i # F) (drop_nth i L) s'"
      using r(2,3) d i(2) by (simp add: pool_sim_def)
    moreover have "pool_step x L p h = Some (True, drop_nth i L, p', h')" using r(1) PRecycle by simp
    moreover have "frame (own_pool p cs) (own_pool p' cs) h h'" using r(4,5) by simp
    ultimately show ?thesis using r(3) by blast
  qed
qed

lemma pool_sim_run:
  assumes "pool_sim h p cs F L s" "content_run (esize p) xs s = Some s'"
  shows "\<exists>ok L' p' h'. pool_run xs L p h = Some (ok, L', p', h') \<and>
    (ok \<longrightarrow> (\<exists>cs' F'. pool_sim h' p' cs' F' L' s' \<and> pool_element_size p' = pool_element_size p \<and>
      frame (own_pool p cs) (own_pool p' cs') h h'))"
  using assms
proof (induction xs arbitrary: h p cs F L s)
  case Nil
  then have "pool_sim h p cs F L s'" by simp
  moreover have "frame (own_pool p cs) (own_pool p cs) h h"
    using frame_refl [OF pool_own_sub] Nil.prems(1) unfolding pool_sim_def by blast
  moreover have "pool_run [] L p h = Some (True, L, p, h)" by simp
  ultimately show ?case by blast
next
  case (Cons x xs)
  obtain s1 where s1: "content_step (esize p) x s = Some s1" "content_run (esize p) xs s1 = Some s'"
    using Cons.prems(2) by (auto simp: bind_Some_iff)
  obtain ok L1 p1 h1 where r: "pool_step x L p h = Some (ok, L1, p1, h1)"
      "ok \<longrightarrow> (\<exists>cs' F'. pool_sim h1 p1 cs' F' L1 s1 \<and> pool_element_size p1 = pool_element_size p \<and>
        frame (own_pool p cs) (own_pool p1 cs') h h1)"
    using pool_sim_step [OF Cons.prems(1) s1(1)] by blast
  show ?case
  proof (cases ok)
    case False
    then show ?thesis using r(1) by auto
  next
    case True
    then obtain cs1 F1 where t: "pool_sim h1 p1 cs1 F1 L1 s1" "pool_element_size p1 = pool_element_size p"
        "frame (own_pool p cs) (own_pool p1 cs1) h h1" using r(2) by blast
    obtain ok2 L2 p2 h2 where q: "pool_run xs L1 p1 h1 = Some (ok2, L2, p2, h2)"
        "ok2 \<longrightarrow> (\<exists>cs' F'. pool_sim h2 p2 cs' F' L2 s' \<and> pool_element_size p2 = pool_element_size p1 \<and>
          frame (own_pool p1 cs1) (own_pool p2 cs') h1 h2)"
      using Cons.IH [OF t(1)] s1(2) t(2) by fastforce
    have "pool_run (x # xs) L p h = Some (ok2, L2, p2, h2)" using r(1) q(1) True by simp
    moreover have "ok2 \<longrightarrow> (\<exists>cs' F'. pool_sim h2 p2 cs' F' L2 s' \<and> pool_element_size p2 = pool_element_size p \<and>
        frame (own_pool p cs) (own_pool p2 cs') h h2)"
      using q(2) t(2) frame_trans [OF t(3)] by fastforce
    ultimately show ?thesis by blast
  qed
qed

section \<open>Properties\<close>

lemma init_inv:
  assumes "heap_ok h" "cx_prealloc_pool_init2 n es = Some p" "unat n * unat es < 2 ^ 63"
  shows "pool_inv h p [] [] []" "pool_element_size p = es"
proof -
  have a: "\<not> es < 8" "n \<noteq> 0" and p: "p = \<lparr>pool_pools = 0, pool_chunk_size = n * es, pool_element_size = es,
        pool_next_offset = 0, pool_count = 0, pool_current = 0, pool_reuse = 0\<rparr>"
    using assms(2) by (auto simp: cx_prealloc_pool_init2_def split: if_splits)
  have m: "unat (n * es) = unat n * unat es" using assms(3) by (subst unat_mult_no_wrap) simp_all
  have "unat n \<noteq> 0" using a(2) by (simp add: unat_eq_zero)
  then have "unat es \<le> unat n * unat es" by simp
  moreover have "8 \<le> unat es" using a(1) by (simp add: word_less_nat_alt not_less)
  ultimately show "pool_inv h p [] [] []" "pool_element_size p = es"
    using assms(1,3) m
    by (simp_all add: p pool_inv_def elements_ok_def current_ok_def array_ok_def apart_def word_le_nat_alt)
qed


definition fresh_heap :: heap where
  "fresh_heap = \<lparr>mem = (\<lambda>a. 7), blocks = [(50, 4)], answers = [100, 200], cb_log = []\<rparr>"


text \<open>
  \<^verbatim>\<open>cx_prealloc_pool_get\<close> never touches the elements in use and never hands one out
  twice; it fails only when no element is recycled, the current chunk is full and the allocation of
  the next one failed.
\<close>

theorem pool_get_correct:
  assumes "pool_inv h p cs F L"
  shows "\<exists>e p' h'. cx_prealloc_pool_get p h = Some (e, p', h') \<and>
    (e = 0 \<longrightarrow> F = [] \<and> (cs = [] \<or> unat (pool_chunk_size p) < unat (pool_next_offset p) + esize p)) \<and>
    (e \<noteq> 0 \<longrightarrow> e \<notin> set L \<and> (\<forall>x \<in> set L. x + esize p \<le> e \<or> e + esize p \<le> x) \<and>
      (\<forall>x \<in> set L. bytes_at h' x (esize p) = bytes_at h x (esize p)) \<and>
      (\<exists>cs'. pool_inv h' p' cs' (tl F) (L @ [e]) \<and> frame (own_pool p cs) (own_pool p' cs') h h'))"
proof -
  obtain e p' h' where g: "cx_prealloc_pool_get p h = Some (e, p', h')"
      "e = 0 \<and> \<not> pool_room p cs F \<or> (\<exists>cs'. got h p cs F L e p' h' cs')"
    using get_spec [OF assms] by blast
  show ?thesis
  proof (cases "e = 0")
    case True
    then have "\<not> pool_room p cs F" using g(2) by (auto simp: got_def)
    then show ?thesis using g(1) True by (auto simp: pool_room_def not_le)
  next
    case False
    then obtain cs' where G: "got h p cs F L e p' h' cs'" using g(2) by blast
    then have E: "elements_ok h' p' cs' (tl F) (L @ [e])" "esize p' = esize p" by (simp_all add: got_def pool_inv_def)
    have new: "e \<notin> set L" using E(1) by (simp add: elements_ok_def)
    have "x + esize p \<le> e \<or> e + esize p \<le> x" if "x \<in> set L" for x
      using elements_apart [OF E(1), of x e] that new E(2) by auto
    then show ?thesis using g(1) False G new by (auto simp: got_def)
  qed
qed

definition one_chunk :: prealloc_pool where
  "one_chunk = \<lparr>pool_pools = 100, pool_chunk_size = 16, pool_element_size = 8, pool_next_offset = 16, pool_count = 1,
     pool_current = 200, pool_reuse = 0\<rparr>"

definition one_chunk_heap :: heap where
  "one_chunk_heap = \<lparr>mem = (\<lambda>a. if a = 100 then 200 else 0), blocks = [(100, 8), (200, 16)], answers = [300], cb_log = []\<rparr>"

lemma one_chunk_inv: "pool_inv one_chunk_heap one_chunk [(200, 16)] [] [200, 208]"
proof -
  have "u64_at one_chunk_heap 100 = 200"
    by (simp add: u64_at_def read_mem_def one_chunk_heap_def upt_rec)
  then show ?thesis
    by (simp add: pool_inv_def elements_ok_def current_ok_def array_ok_def apart_def placed_def own_ptrs_def
        one_chunk_def heap_ok_def fits_def one_chunk_heap_def)
qed

theorem pool_get_correct_witness:
  "\<exists>e p' h'. cx_prealloc_pool_get one_chunk one_chunk_heap = Some (e, p', h') \<and> (e \<noteq> 0 \<longrightarrow> e \<notin> {200, 208})"
  using pool_get_correct [OF one_chunk_inv] by auto

lemma current_pos: "pool_inv h p cs F L \<Longrightarrow> cs \<noteq> [] \<Longrightarrow> 0 < pool_current p"
  using heap_ok_range [of h "pool_current p" "unat (pool_chunk_size p)"] last_in_set [of cs]
  by (force simp: pool_inv_def current_ok_def)

text \<open>
  C40. A get that fails in the allocation of a further chunk breaks the pool:
  \<^verbatim>\<open>add_chunk\<close> has already doubled \<^verbatim>\<open>chunk_size\<close>, so the next get takes the old
  chunk for one of the new size and returns an element that reaches beyond its end.
\<close>

theorem pool_get_after_failure_overruns:
  assumes inv: "pool_inv h p cs [] L" and ne: "cs \<noteq> []"
    and fail: "cx_prealloc_pool_get p h = Some (0, p1, h1)" and array: "pool_pools p1 \<noteq> 0"
  shows "\<exists>e p2. cx_prealloc_pool_get p1 h1 = Some (e, p2, h1) \<and>
    last cs = (pool_current p, unat (pool_chunk_size p)) \<and> pool_current p \<le> e \<and>
    pool_current p + unat (pool_chunk_size p) < e + esize p"
proof -
  note I = inv [unfolded pool_inv_def]
  have r0: "pool_reuse p = 0" using I by (simp add: elements_ok_def)
  have l: "last cs = (pool_current p, unat (pool_chunk_size p))" "pool_next_offset p \<le> pool_chunk_size p"
    using I ne by (auto simp: current_ok_def)
  have "\<not> pool_room p cs []" using get_spec [OF inv] fail by (fastforce simp: got_def)
  then have full: "unat (pool_chunk_size p) < unat (pool_next_offset p) + esize p" using ne by (simp add: pool_room_def not_le)
  then have "pool_chunk_size p < pool_next_offset p + pool_element_size p" using pool_full_iff [OF inv ne] by simp
  then obtain rv p2 h2 where a2: "add_chunk p h = Some (rv, p2, h2)"
      "(if rv < 0 then Some (0, p2, h2) else Some (pool_current p2 + unat (pool_next_offset p2),
         p2\<lparr>pool_next_offset := pool_next_offset p2 + pool_element_size p2\<rparr>, h2)) = Some (0, p1, h1)"
    using fail r0 by (auto simp: cx_prealloc_pool_get_def Let_def bind_Some_iff)
  have "\<not> 0 \<le> rv"
  proof
    assume "0 \<le> rv"
    then have "rv = 0" "pool_current p2 = 0" using a2 add_chunk_spec [OF inv] by auto
    then show False using a2(1) add_chunk_spec [OF inv] current_pos by fastforce
  qed
  then have a: "add_chunk p h = Some (rv, p1, h1)" "rv < 0" using a2 by auto
  have p1: "pool_chunk_size p1 = pool_chunk_size p * 2" "pool_reuse p1 = 0" "pool_current p1 = pool_current p"
      "pool_next_offset p1 = pool_next_offset p" "pool_element_size p1 = pool_element_size p"
    using a r0 by (auto simp: add_chunk_def Let_def bind_Some_iff split: if_splits prod.splits)
  have "unat (pool_next_offset p) + esize p \<le> unat (pool_chunk_size p) * 2" using l(2) I by (auto simp: word_le_nat_alt)
  moreover have "unat (pool_chunk_size p) < 9223372036854775808" using I by simp
  then have "unat (pool_next_offset p) + esize p < 18446744073709551616" using calculation by linarith
  ultimately have "\<not> pool_chunk_size p1 < pool_next_offset p1 + pool_element_size p1"
    using pool_counts(3) [OF inv] p1 by (simp add: word_less_nat_alt unat_add_no_wrap)
  then show ?thesis using p1 array l(1) full by (simp add: cx_prealloc_pool_get_def Let_def)
qed

lemma one_chunk_fails:
  "\<exists>p1 h1. cx_prealloc_pool_get one_chunk one_chunk_heap = Some (0, p1, h1) \<and> pool_pools p1 = 300"
proof -
  have "\<exists>h'. realloc 100 16 one_chunk_heap = Some (300, h') \<and> answers h' = []"
    by (simp add: realloc_def one_chunk_heap_def fits_def)
  then obtain h' where r: "realloc 100 16 one_chunk_heap = Some (300, h')" "answers h' = []" by blast
  then have "calloc 32 1 h' = (0, h')" by (simp add: calloc_def malloc_def)
  then show ?thesis using r
    by (simp add: cx_prealloc_pool_get_def add_chunk_def one_chunk_def Let_def)
qed

theorem pool_get_after_failure_overruns_witness:
  "\<exists>p1 h1 e p2. cx_prealloc_pool_get one_chunk one_chunk_heap = Some (0, p1, h1) \<and>
     cx_prealloc_pool_get p1 h1 = Some (e, p2, h1) \<and> 200 \<le> e \<and> 216 < e + 8"
proof -
  obtain p1 h1 where f: "cx_prealloc_pool_get one_chunk one_chunk_heap = Some (0, p1, h1)" "pool_pools p1 = 300"
    using one_chunk_fails by blast
  have "pool_current one_chunk = 200" "unat (pool_chunk_size one_chunk) = 16" "esize one_chunk = 8" by (simp_all add: one_chunk_def)
  then show ?thesis
    using pool_get_after_failure_overruns [OF one_chunk_inv _ f(1)] f by fastforce
qed

text \<open>
  \<^verbatim>\<open>cx_memdup\<close> returns null for null or when the allocation fails, else a fresh object
  with the bytes of the source and one zero byte; nothing else changes.
\<close>

theorem memdup_correct:
  assumes "heap_ok h" "unat n + 1 < 2 ^ 64" "source \<noteq> 0 \<Longrightarrow> readable h {} source (unat n)"
  shows "\<exists>p h'. cx_memdup source n h = Some (p, h') \<and> (source = 0 \<longrightarrow> p = 0) \<and>
    (if p = 0 then frame {} {} h h'
     else frame {} {(p, unat n + 1)} h h' \<and> bytes_at h' p (unat n + 1) = bytes_at h source (unat n) @ [0])"
proof (cases "source = 0")
  case True
  then show ?thesis by (simp add: cx_memdup_def frame_refl)
next
  case False
  have n1: "unat (n + 1) = unat n + 1" using assms(2) by (subst unat_add_no_wrap) simp_all
  obtain p h1 where k: "calloc (n + 1) 1 h = (p, h1)" by fastforce
  show ?thesis
  proof (cases "p = 0")
    case True
    then have "frame {} {} h h1" using calloc_cases [OF k assms(1)] by auto
    then show ?thesis using k True False by (auto simp: cx_memdup_def)
  next
    case p: False
    then have f: "frame {} {(p, unat n + 1)} h h1" and z: "bytes_at h1 p (unat n + 1) = replicate (unat n + 1) 0"
      using calloc_cases [OF k assms(1)] n1 by auto
    note R = readable_frame [OF f assms(3) [OF False]]
    have P: "(p, unat n + 1) \<in> set (blocks h1)" using frame_sub [OF f] by simp
    have ok: "heap_ok h1" by (rule frame_heap_ok [OF f assms(1)])
    have v: "valid h1 source (unat n)" "valid h1 p (unat n)"
      using readable_valid [OF R(1)] valid_block [OF P, of p "unat n"] by simp_all
    have d: "unat n = 0 \<or> p + unat n \<le> source \<or> source + unat n \<le> p"
    proof (cases "unat n = 0")
      case False
      then obtain s m where s: "(s, m) \<in> set (blocks h1)" "(s, m) \<noteq> (p, unat n + 1)" "s \<le> source" "source + unat n \<le> s + m"
        using R(1) by (auto simp: readable_def)
      then show ?thesis using heap_ok_disjoint [OF ok s(1) P s(2)] by auto
    qed simp
    let ?h = "set_bytes p (bytes_at h source (unat n)) h1"
    have "cx_memdup source n h = Some (p, ?h)"
      using k p False memcpy_valid [OF v d] R(2) by (simp add: cx_memdup_def)
    moreover have "frame {(p, unat n + 1)} {(p, unat n + 1)} h1 ?h"
      by (rule frame_set_bytes [OF ok, where b = p and m = "unat n + 1"]) (use P in auto)
    then have "frame {} {(p, unat n + 1)} h ?h" by (rule frame_trans [OF f])
    moreover have "bytes_at ?h p (unat n + 1) = bytes_at h source (unat n) @ [0]"
    proof -
      have "bytes_at ?h p (unat n + 1) = bytes_at h source (unat n) @ drop (unat n) (bytes_at h1 p (unat n + 1))"
        using bytes_at_set_prefix [of "bytes_at h source (unat n)" "unat n + 1" p h1] by simp
      also have "drop (unat n) (bytes_at h1 p (unat n + 1)) = [0]" unfolding z drop_replicate by simp
      finally show ?thesis .
    qed
    ultimately show ?thesis using p False by auto
  qed
qed

theorem memdup_correct_witness:
  "\<exists>p h'. cx_memdup 50 4 fresh_heap = Some (p, h') \<and> (p \<noteq> 0 \<longrightarrow> bytes_at h' p 5 = [7, 7, 7, 7, 0])"
proof -
  have "heap_ok fresh_heap" by (simp add: heap_ok_def fresh_heap_def fits_def)
  moreover have "readable fresh_heap {} 50 (unat (4 :: u64))"
    by (rule readableI [of 50 4]) (simp_all add: fresh_heap_def)
  moreover have "bytes_at fresh_heap 50 (unat (4 :: u64)) = [7, 7, 7, 7]"
    by (simp add: bytes_at_def read_mem_def fresh_heap_def upt_rec)
  ultimately show ?thesis using memdup_correct [of fresh_heap 4 50] by auto
qed

text \<open>Retains and releases of one \<^verbatim>\<open>CxRc\<close>, each one atomic step, in the order they take effect.\<close>

datatype rc_event = RcRetain | RcRelease

fun rc_events :: "rc_event list \<Rightarrow> rc \<Rightarrow> bool list \<times> rc" where
  "rc_events [] c = ([], c)"
| "rc_events (RcRetain # xs) c = (let (bs, c) = rc_events xs (cx_rc_retain c) in (False # bs, c))"
| "rc_events (RcRelease # xs) c = (let (b, c) = cx_rc_release c; (bs, c) = rc_events xs c in (b # bs, c))"

text \<open>The number of references: only who holds one retains or releases.\<close>

fun rc_holders :: "nat \<Rightarrow> rc_event list \<Rightarrow> nat option" where
  "rc_holders n [] = Some n"
| "rc_holders n (x # xs) = (if n = 0 then None else rc_holders (if x = RcRetain then n + 1 else n - 1) xs)"

text \<open>What the calls return: true only for the last one, when no reference is left.\<close>

definition rc_results :: "nat \<Rightarrow> nat \<Rightarrow> bool list" where
  "rc_results k n = (if k = 0 \<and> 0 < n then replicate (n - 1) False @ [True] else replicate n False)"

lemma rc_results_Suc: "0 < k \<or> 0 < n \<Longrightarrow> rc_results k (Suc n) = False # rc_results k n"
  by (cases n) (auto simp: rc_results_def)

lemma rc_release_eq:
  assumes "0 < n" "n < 2 ^ 32"
  shows "cx_rc_release (of_nat n) = (n = 1, of_nat (n - 1))"
proof -
  have "unat (of_nat n :: u32) = n" using assms(2) by (simp add: unat_of_nat)
  then have "(of_nat n :: u32) = 1 \<longleftrightarrow> n = 1" by (metis of_nat_1 unat_1)
  then show ?thesis using assms(1) by (simp add: cx_rc_release_def of_nat_diff)
qed

lemma rc_events_spec:
  assumes "rc_holders n xs = Some k" "n + length xs < 2 ^ 32"
  shows "rc_events xs (of_nat n) = (rc_results k (length xs), of_nat k)"
  using assms
proof (induction xs arbitrary: n)
  case Nil
  then show ?case by (simp add: rc_results_def)
next
  case (Cons x xs)
  let ?m = "if x = RcRetain then n + 1 else n - 1"
  have n: "0 < n" and h: "rc_holders ?m xs = Some k" using Cons.prems(1) by (simp_all split: if_splits)
  have IH: "rc_events xs (of_nat ?m) = (rc_results k (length xs), of_nat k)"
    by (rule Cons.IH [OF h]) (use Cons.prems(2) in auto)
  have last: "xs = [] \<Longrightarrow> k = ?m" using h by simp
  show ?case
  proof (cases x)
    case RcRetain
    then have "0 < k \<or> 0 < length xs" using last by (cases xs) auto
    then show ?thesis using IH RcRetain by (simp add: cx_rc_retain_def rc_results_Suc add.commute)
  next
    case RcRelease
    have r: "cx_rc_release (of_nat n) = (n = 1, of_nat (n - 1))" by (rule rc_release_eq [OF n]) (use Cons.prems(2) in simp)
    have "(n = 1) # rc_results k (length xs) = rc_results k (Suc (length xs))"
    proof (cases "n = 1")
      case True
      then have "xs = [] \<and> k = 0" using h RcRelease by (cases xs) auto
      then show ?thesis using True by (simp add: rc_results_def)
    next
      case False
      then have "0 < k \<or> 0 < length xs" using last RcRelease n by (cases xs) auto
      then show ?thesis using False by (simp add: rc_results_Suc)
    qed
    then show ?thesis using IH RcRelease r by simp
  qed
qed

text \<open>
  C34. In every interleaving of retains and releases of a \<^verbatim>\<open>CxRc\<close> by holders of a
  reference, exactly the release of the last reference returns true; before it all releases
  return false, and the counter is the number of references.
\<close>

theorem rc_last_release:
  assumes "rc_holders 1 xs = Some k" "length xs < 2 ^ 32 - 1"
  shows "rc_events xs cx_rc_init =
    (if k = 0 then replicate (length xs - 1) False @ [True] else replicate (length xs) False, of_nat k)"
proof -
  have "k = 0 \<Longrightarrow> 0 < length xs" using assms(1) by (cases xs) auto
  moreover have "rc_events xs (of_nat 1) = (rc_results k (length xs), of_nat k)"
    by (rule rc_events_spec [OF assms(1)]) (use assms(2) in simp)
  ultimately show ?thesis by (auto simp: cx_rc_init_def rc_results_def)
qed

theorem rc_last_release_witness:
  "rc_events [RcRetain, RcRelease, RcRetain, RcRelease, RcRelease] cx_rc_init = ([False, False, False, False, True], 0)"
proof -
  let ?xs = "[RcRetain, RcRelease, RcRetain, RcRelease, RcRelease]"
  have "rc_holders 1 ?xs = Some 0" "length ?xs < 2 ^ 32 - 1" by simp_all
  from rc_last_release [OF this] show ?thesis by (simp add: numeral_eq_Suc)
qed

end
