(* ===== verification/RadixTree.thy ===== *)
theory RadixTree
  imports Pool
begin

text \<open>
  \<^verbatim>\<open>lib/collection/radix_tree.c\<close>: \<^verbatim>\<open>struct CxRadixTree\<close>, a trie with 256 children
  per branch over the bytes of a 64-bit key, the most significant byte first. Its depth grows with
  the largest key. Branches and leaves are elements of two pools; a branch is an array of pointers
  on the heap.
\<close>

section \<open>State and operations\<close>

record radix_tree =
  rcapacity :: u64
  branch_pool :: prealloc_pool
  leaf_pool :: prealloc_pool
  rroot :: addr

definition CX_RADIX_MASK :: u64 where
  "CX_RADIX_MASK = 255"

lemma unat_drop8: "unat (drop_bit 8 (w :: u64)) = unat w div 256"
  using drop_bit_eq_div [of 8 "unat w"] by (simp add: unat_drop_bit_eq)

lemma drop_bit_less: "w \<noteq> 0 \<Longrightarrow> unat (drop_bit 8 (w :: u64)) < unat w"
  by (simp add: unat_drop8 unat_gt_0)

text \<open>\<^verbatim>\<open>prepare_key\<close> reverses the bytes of a key, as many as the capacity has.\<close>

function prepare_loop :: "u64 \<Rightarrow> u64 \<Rightarrow> u64 \<Rightarrow> u64" where
  "prepare_loop capacity result key =
     (if capacity \<noteq> 0
      then prepare_loop (drop_bit 8 capacity) (push_bit 8 result OR (key AND CX_RADIX_MASK)) (drop_bit 8 key)
      else result)"
  by pat_completeness auto
termination
  by (relation "measure (\<lambda>(c, _, _). unat c)") (simp_all add: drop_bit_less)

declare prepare_loop.simps [simp del]

definition prepare_key :: "radix_tree \<Rightarrow> u64 \<Rightarrow> u64" where
  "prepare_key tree key = prepare_loop (rcapacity tree) 0 key"

text \<open>
  The root becomes the first child of a new root until the capacity holds the key. A
  result of false is the error return.
\<close>

partial_function (option) resize :: "u64 \<Rightarrow> radix_tree \<Rightarrow> heap \<Rightarrow> (bool \<times> radix_tree \<times> heap) option" where
  "resize key tree h =
     (if rcapacity tree < key
      then do {
        let old_root = rroot tree;
        let tree = tree\<lparr>rcapacity := push_bit 8 (rcapacity tree) OR CX_RADIX_MASK\<rparr>;
        (new_root, pool, h) \<leftarrow> cx_prealloc_pool_get (branch_pool tree) h;
        let tree = tree\<lparr>branch_pool := pool\<rparr>;
        if new_root = 0 then Some (False, tree, h)
        else do {
          h \<leftarrow> store_u64 new_root (of_nat old_root) h;
          resize key (tree\<lparr>rroot := new_root\<rparr>) h
        }
      }
      else Some (True, tree, h))"

text \<open>\<^verbatim>\<open>sizeof(struct CxRadixBranch)\<close> is 2048.\<close>

definition cx_radix_tree_init :: "u64 \<Rightarrow> radix_tree option" where
  "cx_radix_tree_init element_size = do {
     bp \<leftarrow> cx_prealloc_pool_init 2048;
     lp \<leftarrow> cx_prealloc_pool_init element_size;
     Some \<lparr>rcapacity = 0, branch_pool = bp, leaf_pool = lp, rroot = 0\<rparr>
   }"

text \<open>An access through a null pointer is undefined.\<close>

definition load_child :: "addr \<Rightarrow> u64 \<Rightarrow> heap \<Rightarrow> addr option" where
  "load_child branch key h =
     (if branch = 0 then None else map_option unat (load_u64 (branch + 8 * unat (key AND CX_RADIX_MASK)) h))"

definition store_child :: "addr \<Rightarrow> u64 \<Rightarrow> addr \<Rightarrow> heap \<Rightarrow> heap option" where
  "store_child branch key child h =
     (if branch = 0 then None else store_u64 (branch + 8 * unat (key AND CX_RADIX_MASK)) (of_nat child) h)"

function descend :: "u64 \<Rightarrow> u64 \<Rightarrow> addr \<Rightarrow> heap \<Rightarrow> addr option" where
  "descend remaining_capacity remaining_key node h =
     (if remaining_capacity \<noteq> 0 \<and> node \<noteq> 0
      then do {
        node \<leftarrow> load_child node remaining_key h;
        descend (drop_bit 8 remaining_capacity) (drop_bit 8 remaining_key) node h
      }
      else Some node)"
  by pat_completeness auto
termination
  by (relation "measure (\<lambda>(c, _, _, _). unat c)") (simp_all add: drop_bit_less)

declare descend.simps [simp del]

definition cx_radix_tree_get :: "radix_tree \<Rightarrow> u64 \<Rightarrow> heap \<Rightarrow> addr option" where
  "cx_radix_tree_get tree key h =
     (if rcapacity tree < key then Some 0
      else descend (rcapacity tree) (prepare_key tree key) (rroot tree) h)"

text \<open>
  The loop of \<^verbatim>\<open>cx_radix_tree_new_leaf\<close>. An access through the null pointer that a failed
  allocation of a branch leaves is undefined, as every access outside of an object.
\<close>

function grow_path :: "u64 \<Rightarrow> u64 \<Rightarrow> addr \<Rightarrow> bool \<Rightarrow> radix_tree \<Rightarrow> heap \<Rightarrow> (addr \<times> bool \<times> radix_tree \<times> heap) option" where
  "grow_path remaining_capacity remaining_key node occupied tree h =
     (if remaining_capacity \<noteq> 0
      then do {
        child \<leftarrow> load_child node remaining_key h;
        let occupied = (child \<noteq> 0);
        (node, tree, h) \<leftarrow>
          (if drop_bit 8 remaining_capacity = 0
           then do {
             (leaf, pool, h) \<leftarrow> cx_prealloc_pool_get (leaf_pool tree) h;
             h \<leftarrow> store_child node remaining_key leaf h;
             Some (leaf, tree\<lparr>leaf_pool := pool\<rparr>, h)
           }
           else if \<not> occupied
           then do {
             (branch, pool, h) \<leftarrow> cx_prealloc_pool_get (branch_pool tree) h;
             h \<leftarrow> store_child node remaining_key branch h;
             Some (branch, tree\<lparr>branch_pool := pool\<rparr>, h)
           }
           else Some (child, tree, h));
        grow_path (drop_bit 8 remaining_capacity) (drop_bit 8 remaining_key) node occupied tree h
      }
      else Some (node, occupied, tree, h))"
  by pat_completeness auto
termination
  by (relation "measure (\<lambda>(c, _, _, _, _, _). unat c)") (simp_all add: drop_bit_less)

declare grow_path.simps [simp del]

definition cx_radix_tree_new_leaf :: "radix_tree \<Rightarrow> u64 \<Rightarrow> heap \<Rightarrow> (addr \<times> radix_tree \<times> heap) option" where
  "cx_radix_tree_new_leaf tree key h = do {
     (ok, tree, h) \<leftarrow> resize key tree h;
     if \<not> ok then Some (0, tree, h)
     else if rroot tree = 0
     then do {
       (leaf, pool, h) \<leftarrow> cx_prealloc_pool_get (leaf_pool tree) h;
       Some (leaf, tree\<lparr>leaf_pool := pool, rroot := leaf\<rparr>, h)
     }
     else do {
       (node, occupied, tree, h) \<leftarrow> grow_path (rcapacity tree) (prepare_key tree key) (rroot tree) False tree h;
       Some (if occupied then 0 else node, tree, h)
     }
   }"

definition cx_radix_tree_put :: "radix_tree \<Rightarrow> u64 \<Rightarrow> addr \<Rightarrow> heap \<Rightarrow> (addr \<times> radix_tree \<times> heap) option" where
  "cx_radix_tree_put tree key value h = do {
     (leaf, tree, h) \<leftarrow> cx_radix_tree_new_leaf tree key h;
     if leaf \<noteq> 0
     then do {
       h \<leftarrow> memcpy leaf value (unat (pool_element_size (leaf_pool tree))) h;
       Some (leaf, tree, h)
     }
     else Some (leaf, tree, h)
   }"

text \<open>
  The loop of \<^verbatim>\<open>cx_radix_tree_delete\<close> walks with a pointer to the slot; the root slot is \<open>None\<close>.
  The result is the remaining capacity, the slot and the node in it.
\<close>

function find_node :: "u64 \<Rightarrow> u64 \<Rightarrow> addr option \<Rightarrow> addr \<Rightarrow> heap \<Rightarrow> (u64 \<times> addr option \<times> addr) option" where
  "find_node remaining_capacity remaining_key slot node h =
     (if remaining_capacity \<noteq> 0 \<and> node \<noteq> 0
      then do {
        child \<leftarrow> load_child node remaining_key h;
        find_node (drop_bit 8 remaining_capacity) (drop_bit 8 remaining_key)
          (Some (node + 8 * unat (remaining_key AND CX_RADIX_MASK))) child h
      }
      else Some (remaining_capacity, slot, node))"
  by pat_completeness auto
termination
  by (relation "measure (\<lambda>(c, _, _, _, _). unat c)") (simp_all add: drop_bit_less)

declare find_node.simps [simp del]

definition cx_radix_tree_delete :: "radix_tree \<Rightarrow> u64 \<Rightarrow> heap \<Rightarrow> (int \<times> radix_tree \<times> heap) option" where
  "cx_radix_tree_delete tree key h = do {
     (remaining_capacity, slot, node) \<leftarrow> find_node (rcapacity tree) (prepare_key tree key) None (rroot tree) h;
     if remaining_capacity = 0
     then do {
       (pool, h) \<leftarrow> cx_prealloc_pool_recycle (leaf_pool tree) node h;
       let tree = tree\<lparr>leaf_pool := pool\<rparr>;
       case slot of
         None \<Rightarrow> Some (0, tree\<lparr>rroot := 0\<rparr>, h)
       | Some p \<Rightarrow> do { h \<leftarrow> store_u64 p 0 h; Some (0, tree, h) }
     }
     else Some (- 1, tree, h)
   }"

definition cx_radix_tree_cleanup :: "radix_tree \<Rightarrow> heap \<Rightarrow> heap option" where
  "cx_radix_tree_cleanup tree h = do {
     h \<leftarrow> cx_prealloc_pool_cleanup (branch_pool tree) h;
     cx_prealloc_pool_cleanup (leaf_pool tree) h
   }"

section \<open>Keys and paths\<close>

text \<open>The capacity of a tree of depth \<open>d\<close>, and the bytes of a key, the lowest first.\<close>

definition cap :: "nat \<Rightarrow> u64" where
  "cap d = mask (8 * d)"

fun digits :: "nat \<Rightarrow> u64 \<Rightarrow> nat list" where
  "digits 0 key = []"
| "digits (Suc d) key = unat (key AND CX_RADIX_MASK) # digits d (drop_bit 8 key)"

definition key_path :: "nat \<Rightarrow> u64 \<Rightarrow> nat list" where
  "key_path d key = rev (digits d key)"

lemma length_digits [simp]: "length (digits d key) = d"
  by (induction d arbitrary: key) auto

lemma length_key_path [simp]: "length (key_path d key) = d"
  by (simp add: key_path_def)

lemma mask_byte: "CX_RADIX_MASK = mask 8"
  by (simp add: CX_RADIX_MASK_def mask_eq_exp_minus_1)

lemma mask_unat: "unat (key AND CX_RADIX_MASK) = unat key mod 256"
  by (simp add: mask_byte flip: take_bit_eq_mask) (simp add: take_bit_eq_mod unat_mod)

lemma digits_less: "b \<in> set (digits d key) \<Longrightarrow> b < 256"
  by (induction d arbitrary: key) (auto simp: mask_unat)

lemma key_path_less: "b \<in> set (key_path d key) \<Longrightarrow> b < 256"
  using digits_less by (simp add: key_path_def)

lemma cap_simps:
  "cap 0 = 0" "d < 8 \<Longrightarrow> drop_bit 8 (cap (Suc d)) = cap d" "push_bit 8 (cap d) OR CX_RADIX_MASK = cap (Suc d)"
proof -
  show "cap 0 = 0" by (simp add: cap_def)
  show "push_bit 8 (cap d) OR CX_RADIX_MASK = cap (Suc d)"
    unfolding cap_def mask_byte by (rule bit_word_eqI) (auto simp: bit_simps)
  show "d < 8 \<Longrightarrow> drop_bit 8 (cap (Suc d)) = cap d"
    unfolding cap_def by (rule bit_word_eqI) (auto simp: bit_simps)
qed

lemma unat_cap: "d \<le> 8 \<Longrightarrow> unat (cap d) + 1 = 256 ^ d"
proof -
  assume "d \<le> 8"
  then have "unat (cap d) = mask (8 * d)" unfolding cap_def by (intro bit_eqI) (auto simp: bit_simps)
  moreover have "(256 :: nat) ^ d = 2 ^ (8 * d)" by (simp add: power_mult)
  ultimately show ?thesis by (simp add: mask_eq_exp_minus_1)
qed

lemma cap_pos: "0 < d \<Longrightarrow> d \<le> 8 \<Longrightarrow> cap d \<noteq> 0"
  using unat_cap [of d] one_less_power [of "256 :: nat" d] by auto

lemma le_cap: "d \<le> 8 \<Longrightarrow> key \<le> cap d \<longleftrightarrow> unat key < 256 ^ d"
  using unat_cap [of d] by (simp add: word_le_nat_alt) linarith

lemma digits_inj: "unat k < 256 ^ d \<Longrightarrow> unat k' < 256 ^ d \<Longrightarrow> digits d k = digits d k' \<Longrightarrow> k = k'"
proof (induction d arbitrary: k k')
  case 0
  then have "unat k = unat k'" by simp
  then show ?case by (rule unsigned_word_eqI)
next
  case (Suc d)
  have "drop_bit 8 k = drop_bit 8 k'"
    by (rule Suc.IH) (use Suc.prems in \<open>auto simp: unat_drop8 less_mult_imp_div_less mult.commute\<close>)
  then have "unat k div 256 = unat k' div 256" by (simp flip: unat_drop8)
  moreover have "unat k mod 256 = unat k' mod 256" using Suc.prems(3) by (simp add: mask_unat)
  ultimately have "unat k = unat k'" by (metis div_mult_mod_eq)
  then show ?case by (rule unsigned_word_eqI)
qed

lemma digits_snoc: "digits (Suc d) key = digits d key @ [unat key div 256 ^ d mod 256]"
proof (induction d arbitrary: key)
  case (Suc d)
  have "digits (Suc (Suc d)) key = unat key mod 256 # digits (Suc d) (drop_bit 8 key)" by (simp add: mask_unat)
  also have "digits (Suc d) (drop_bit 8 key) = digits d (drop_bit 8 key) @ [unat key div 256 div 256 ^ d mod 256]"
    using Suc [of "drop_bit 8 key"] by (simp add: unat_drop8)
  finally show ?case by (simp add: mask_unat div_mult2_eq)
qed (simp add: mask_unat)

lemma key_path_Suc: "key_path (Suc d) key = (unat key div 256 ^ d mod 256) # key_path d key"
  unfolding key_path_def digits_snoc by simp

lemma key_path_small: "d < 8 \<Longrightarrow> key \<le> cap d \<Longrightarrow> key_path (Suc d) key = 0 # key_path d key"
  by (simp add: key_path_Suc le_cap)

lemma key_path_large:
  assumes "d < 8" "\<not> key \<le> cap d" "key \<le> cap (Suc d)"
  shows "\<exists>b. key_path (Suc d) key = b # key_path d key \<and> b \<noteq> 0 \<and> b < 256"
proof -
  have "256 ^ d \<le> unat key" "unat key < 256 * 256 ^ d" using assms le_cap [of d key] le_cap [of "Suc d" key] by auto
  then have "1 \<le> unat key div 256 ^ d" "unat key div 256 ^ d < 256"
    by (simp_all add: Suc_le_eq div_greater_zero_iff less_mult_imp_div_less)
  then show ?thesis by (simp add: key_path_Suc)
qed

lemma key_path_inj: "d \<le> 8 \<Longrightarrow> k \<le> cap d \<Longrightarrow> k' \<le> cap d \<Longrightarrow> key_path d k = key_path d k' \<Longrightarrow> k = k'"
  using digits_inj [of k d k'] by (simp add: key_path_def le_cap)

lemma digits_take: "8 * m \<le> n \<Longrightarrow> digits m (take_bit n r) = digits m r"
proof (induction m arbitrary: n r)
  case (Suc m)
  have "take_bit n r AND CX_RADIX_MASK = r AND CX_RADIX_MASK"
    unfolding mask_byte by (rule bit_word_eqI) (use Suc.prems in \<open>auto simp: bit_simps\<close>)
  then show ?case using Suc.IH [of "n - 8" "drop_bit 8 r"] Suc.prems by (simp add: drop_bit_take_bit)
qed simp

lemma prepare_digits:
  "d + m \<le> 8 \<Longrightarrow> digits (d + m) (prepare_loop (cap d) r key) = rev (digits d key) @ digits m r"
proof (induction d arbitrary: m r key)
  case 0
  then show ?case by (simp add: prepare_loop.simps [of 0] cap_simps(1))
next
  case (Suc d)
  let ?x = "push_bit 8 r OR (key AND CX_RADIX_MASK)"
  have x: "?x AND CX_RADIX_MASK = key AND CX_RADIX_MASK" "drop_bit 8 ?x = take_bit 56 r"
    unfolding mask_byte by (rule bit_word_eqI; auto simp: bit_simps)+
  have "prepare_loop (cap (Suc d)) r key = prepare_loop (cap d) ?x (drop_bit 8 key)"
    using cap_pos [of "Suc d"] cap_simps(2) [of d] Suc.prems by (subst prepare_loop.simps) simp
  then have "digits (Suc d + m) (prepare_loop (cap (Suc d)) r key) = rev (digits d (drop_bit 8 key)) @ digits (Suc m) ?x"
    using Suc.IH [of "Suc m" ?x "drop_bit 8 key"] Suc.prems by simp
  moreover have "digits m (take_bit 56 r) = digits m r" using Suc.prems by (intro digits_take) simp
  then have "digits (Suc m) ?x = unat (key AND CX_RADIX_MASK) # digits m r" unfolding digits.simps x by simp
  ultimately show ?case by simp
qed

lemma prepare_key_digits:
  assumes "d \<le> 8" "rcapacity t = cap d"
  shows "digits d (prepare_key t key) = key_path d key"
  using prepare_digits [of d 0 0 key] assms by (simp add: prepare_key_def key_path_def)

section \<open>Walking down the tree\<close>

text \<open>The node at the end of a path of bytes, null where the path leaves the tree.\<close>

fun walk :: "heap \<Rightarrow> addr \<Rightarrow> nat list \<Rightarrow> addr" where
  "walk h p [] = p"
| "walk h p (b # bs) = (if p = 0 then 0 else walk h (unat (u64_at h (p + 8 * b))) bs)"

definition is_path :: "nat list \<Rightarrow> bool" where
  "is_path bs \<longleftrightarrow> (\<forall>b \<in> set bs. b < 256)"

lemma is_path_simps [simp]:
  "is_path []" "is_path (b # bs) \<longleftrightarrow> b < 256 \<and> is_path bs" "is_path (bs @ cs) \<longleftrightarrow> is_path bs \<and> is_path cs"
  by (auto simp: is_path_def)

lemma is_path_key [simp]: "is_path (key_path d key)" "is_path (digits d key)"
  using key_path_less digits_less by (auto simp: is_path_def)

lemma is_path_take: "is_path bs \<Longrightarrow> is_path (take n bs)"
  using set_take_subset [of n bs] by (auto simp: is_path_def)

lemma walk_null [simp]: "walk h 0 bs = 0"
  by (cases bs) auto

lemma walk_append: "walk h p (bs @ cs) = walk h (walk h p bs) cs"
  by (induction bs arbitrary: p) auto

lemma walk_cong:
  assumes "\<And>k. k < length bs \<Longrightarrow> walk h p (take k bs) \<noteq> 0 \<Longrightarrow>
    u64_at h' (walk h p (take k bs) + 8 * bs ! k) = u64_at h (walk h p (take k bs) + 8 * bs ! k)"
  shows "walk h' p bs = walk h p bs"
  using assms
proof (induction bs arbitrary: p)
  case (Cons b bs)
  show ?case
  proof (cases "p = 0")
    case False
    have "walk h' (unat (u64_at h (p + 8 * b))) bs = walk h (unat (u64_at h (p + 8 * b))) bs"
      by (rule Cons.IH) (use Cons.prems [of "Suc _"] False in auto)
    then show ?thesis using Cons.prems [of 0] False by simp
  qed simp
qed simp

text \<open>
  The nodes of a tree of depth \<open>d\<close>: \<open>W\<close> gives the node of a path. Branches are elements of
  \<open>B\<close>, leaves of \<open>L\<close>, and no node is shared.
\<close>

definition nodes_ok :: "(nat list \<Rightarrow> addr) \<Rightarrow> nat \<Rightarrow> addr set \<Rightarrow> addr set \<Rightarrow> bool" where
  "nodes_ok W d B L \<longleftrightarrow>
     (\<forall>bs. is_path bs \<longrightarrow> length bs < d \<longrightarrow> W bs \<noteq> 0 \<longrightarrow> W bs \<in> B) \<and>
     (\<forall>bs. is_path bs \<longrightarrow> length bs = d \<longrightarrow> W bs \<noteq> 0 \<longrightarrow> W bs \<in> L) \<and>
     (\<forall>bs cs. is_path bs \<longrightarrow> is_path cs \<longrightarrow> (length bs < d \<and> length cs < d) \<or> (length bs = d \<and> length cs = d) \<longrightarrow>
        W bs \<noteq> 0 \<longrightarrow> W bs = W cs \<longrightarrow> bs = cs)"

lemma nodesD:
  assumes "nodes_ok W d B L" "is_path bs" "W bs \<noteq> 0"
  shows "length bs < d \<Longrightarrow> W bs \<in> B" "length bs = d \<Longrightarrow> W bs \<in> L"
    "length bs < d \<Longrightarrow> length cs < d \<Longrightarrow> is_path cs \<Longrightarrow> W bs = W cs \<Longrightarrow> bs = cs"
    "length bs = d \<Longrightarrow> length cs = d \<Longrightarrow> is_path cs \<Longrightarrow> W bs = W cs \<Longrightarrow> bs = cs"
  using assms unfolding nodes_ok_def by blast+

lemma nodes_cong:
  assumes "nodes_ok W d B L" "\<And>bs. is_path bs \<Longrightarrow> length bs \<le> d \<Longrightarrow> W' bs = W bs"
  shows "nodes_ok W' d B L"
  unfolding nodes_ok_def
proof (intro conjI allI impI)
  fix bs assume b: "is_path bs" "length bs < d" "W' bs \<noteq> 0"
  then have "W' bs = W bs" using assms(2) by simp
  then show "W' bs \<in> B" using nodesD(1) [OF assms(1) b(1)] b by simp
next
  fix bs assume b: "is_path bs" "length bs = d" "W' bs \<noteq> 0"
  then have "W' bs = W bs" using assms(2) by simp
  then show "W' bs \<in> L" using nodesD(2) [OF assms(1) b(1)] b by simp
next
  fix bs cs
  assume b: "is_path bs" "is_path cs" "W' bs \<noteq> 0" "W' bs = W' cs"
    and l: "(length bs < d \<and> length cs < d) \<or> (length bs = d \<and> length cs = d)"
  have "W' bs = W bs" "W' cs = W cs" by (rule assms(2); use b l in auto)+
  then show "bs = cs" using nodesD(3,4) [OF assms(1) b(1)] b l by auto
qed

lemma nodes_add_branch:
  "nodes_ok W d B L \<Longrightarrow> c \<notin> B \<Longrightarrow> length p < d \<Longrightarrow> nodes_ok (W(p := c)) d (insert c B) L"
  unfolding nodes_ok_def by (auto split: if_splits)

lemma nodes_add_leaf:
  "nodes_ok W d B L \<Longrightarrow> c \<notin> L \<Longrightarrow> length p = d \<Longrightarrow> nodes_ok (W(p := c)) d B (insert c L)"
  unfolding nodes_ok_def by (auto split: if_splits)

lemma nodes_delete_leaf:
  assumes n: "nodes_ok W d B L" and p: "length p = d" "is_path p"
  shows "nodes_ok (W(p := 0)) d B (L - {W p})"
proof -
  have "W bs \<noteq> W p" if "is_path bs" "length bs = d" "W bs \<noteq> 0" "bs \<noteq> p" for bs
    using nodesD(4) [OF n that(1,3,2) p] that(4) by blast
  then show ?thesis using n p unfolding nodes_ok_def by (auto split: if_splits)
qed

lemma walks_same:
  assumes n: "nodes_ok (walk h r) d B L" and same: "\<And>x. x \<in> B \<Longrightarrow> bytes_at h' x 2048 = bytes_at h x 2048"
    and bs: "is_path bs" "length bs \<le> d"
  shows "walk h' r bs = walk h r bs"
proof (rule walk_cong)
  fix k assume k: "k < length bs" "walk h r (take k bs) \<noteq> 0"
  then have "walk h r (take k bs) \<in> B" using bs by (intro nodesD(1) [OF n]) (auto intro: is_path_take)
  moreover have "bs ! k < 256" using bs(1) k(1) by (simp add: is_path_def)
  ultimately show "u64_at h' (walk h r (take k bs) + 8 * bs ! k) = u64_at h (walk h r (take k bs) + 8 * bs ! k)"
    by (intro u64_at_prefix [OF same]) auto
qed

text \<open>
  Storing a child in a slot: the node of exactly one path changes, when the old child was null
  or a leaf and a new branch is empty.
\<close>

lemma walk_store:
  assumes n: "nodes_ok (walk h r) d B L"
    and apart: "\<And>x y. x \<in> B \<Longrightarrow> y \<in> B \<Longrightarrow> x \<noteq> y \<Longrightarrow> x + 2048 \<le> y \<or> y + 2048 \<le> x"
    and p: "is_path p" "length p < d" "walk h r p \<noteq> 0" and i: "i < 256" and c: "c < 2 ^ 64"
    and leaf: "Suc (length p) = d \<or> (walk h r (p @ [i]) = 0 \<and>
      (\<forall>b < 256. u64_at (set_bytes (walk h r p + 8 * i) (le_bytes 8 (of_nat c :: u64)) h) (c + 8 * b) = 0))"
    and bs: "is_path bs" "length bs \<le> d"
  shows "walk (set_bytes (walk h r p + 8 * i) (le_bytes 8 (of_nat c :: u64)) h) r bs =
    (if bs = p @ [i] then c else walk h r bs)"
proof -
  let ?q = "walk h r p" and ?h = "set_bytes (walk h r p + 8 * i) (le_bytes 8 (of_nat c :: u64)) h"
  have q: "?q \<in> B" by (rule nodesD(1) [OF n p(1,3,2)])
  have keep: "walk ?h r cs = walk h r cs"
    if cs: "is_path cs" "length cs \<le> d" and no: "take (Suc (length p)) cs \<noteq> p @ [i]" for cs
  proof (rule walk_cong)
    fix k assume k: "k < length cs" "walk h r (take k cs) \<noteq> 0"
    let ?x = "walk h r (take k cs)"
    have tk: "is_path (take k cs)" "length (take k cs) < d" using cs k(1) by (auto intro: is_path_take)
    have x: "?x \<in> B" by (rule nodesD(1) [OF n tk(1) k(2) tk(2)])
    have b: "cs ! k < 256" using cs(1) k(1) by (simp add: is_path_def)
    have "?x + 8 * cs ! k + 8 \<le> ?q + 8 * i \<or> ?q + 8 * i + 8 \<le> ?x + 8 * cs ! k"
    proof (cases "?x = ?q")
      case True
      then have "take k cs = p" using nodesD(3) [OF n tk(1) k(2) tk(2) p(2,1)] by simp
      then have "cs ! k \<noteq> i" using no k(1) take_Suc_conv_app_nth [of k cs] by auto
      then show ?thesis using True by auto
    next
      case False
      then show ?thesis using apart [OF x q] b i by auto
    qed
    then show "u64_at ?h (?x + 8 * cs ! k) = u64_at h (?x + 8 * cs ! k)" by (intro u64_at_set_other) auto
  qed
  show ?thesis
  proof (cases "take (Suc (length p)) bs = p @ [i]")
    case False
    then have "bs \<noteq> p @ [i]" by auto
    then show ?thesis using keep [OF bs False] by simp
  next
    case True
    then obtain cs where cs: "bs = (p @ [i]) @ cs" by (metis append_take_drop_id)
    have "walk ?h r p = ?q" by (rule keep) (use p in auto)
    then have pi: "walk ?h r (p @ [i]) = c"
      using p(3) c by (simp add: walk_append heap_simps unat_of_nat64)
    show ?thesis
    proof (cases cs)
      case Nil
      then show ?thesis using cs pi by simp
    next
      case (Cons b es)
      then have z: "walk h r (p @ [i]) = 0" "\<forall>b < 256. u64_at ?h (c + 8 * b) = 0" and b: "b < 256"
        using leaf cs bs by auto
      have "walk ?h r bs = walk ?h c cs" unfolding cs walk_append [of _ _ "p @ [i]"] pi ..
      also have "\<dots> = 0" using Cons z(2) b by simp
      also have "\<dots> = walk h r bs" unfolding cs walk_append [of _ _ "p @ [i]"] z(1) by simp
      finally show ?thesis using cs Cons by simp
    qed
  qed
qed

section \<open>Invariant\<close>

definition radix_at :: "heap \<Rightarrow> radix_tree \<Rightarrow> nat \<Rightarrow> addr list \<Rightarrow> addr list \<Rightarrow> addr list \<Rightarrow>
    (addr \<times> nat) set \<Rightarrow> (addr \<times> nat) set \<Rightarrow> bool" where
  "radix_at h t d B F L X Y \<longleftrightarrow> d \<le> 8 \<and> rcapacity t = cap d \<and> pool_at h (branch_pool t) [] B X \<and>
     pool_at h (leaf_pool t) F L Y \<and> X \<inter> Y = {} \<and> pool_element_size (branch_pool t) = 2048 \<and>
     (0 < d \<longrightarrow> rroot t \<noteq> 0) \<and> nodes_ok (walk h (rroot t)) d (set B) (set L)"

lemma radix_atD:
  assumes "radix_at h t d B F L X Y"
  shows "d \<le> 8" "rcapacity t = cap d" "pool_at h (branch_pool t) [] B X" "pool_at h (leaf_pool t) F L Y" "X \<inter> Y = {}"
    "esize (branch_pool t) = 2048" "0 < d \<Longrightarrow> rroot t \<noteq> 0" "nodes_ok (walk h (rroot t)) d (set B) (set L)" "heap_ok h"
    "rroot t < 2 ^ 64"
proof -
  show a: "d \<le> 8" "rcapacity t = cap d" "pool_at h (branch_pool t) [] B X" "pool_at h (leaf_pool t) F L Y" "X \<inter> Y = {}"
    "esize (branch_pool t) = 2048" "0 < d \<Longrightarrow> rroot t \<noteq> 0" "nodes_ok (walk h (rroot t)) d (set B) (set L)"
    using assms by (auto simp: radix_at_def)
  show "heap_ok h" by (rule pool_atD(1) [OF a(3)])
  show "rroot t < 2 ^ 64"
  proof (cases "rroot t = 0")
    case False
    then have "rroot t \<in> set B \<or> rroot t \<in> set L"
      using nodesD(1,2) [OF a(8), of "[]"] by (cases "d = 0") auto
    then show ?thesis using pool_atD(5) [OF a(3)] pool_atD(5) [OF a(4)] by blast
  qed simp
qed

text \<open>The element of a key: what \<^verbatim>\<open>cx_radix_tree_get\<close> returns.\<close>

definition radix_map :: "heap \<Rightarrow> radix_tree \<Rightarrow> nat \<Rightarrow> u64 \<Rightarrow> addr" where
  "radix_map h t d key = (if key \<le> cap d then walk h (rroot t) (key_path d key) else 0)"

lemma load_child_eq:
  assumes "pool_at h p F B X" "esize p = 2048" "q \<in> set B"
  shows "load_child q w h = Some (unat (u64_at h (q + 8 * (unat w mod 256))))"
proof -
  have "valid h (q + 8 * (unat w mod 256)) (length (replicate 8 0 :: u8 list))"
    by (rule pool_at_write(1) [OF assms(1,3)]) (use mod_less_divisor [of 256 "unat w"] assms(2) in simp)
  moreover have "q \<noteq> 0" using pool_atD(5) [OF assms(1,3)] by simp
  ultimately show ?thesis by (simp add: load_child_def mask_unat mem_step)
qed

lemma descend_eq:
  assumes at: "radix_at h t d B F L X Y"
  shows "is_path p \<Longrightarrow> length p + k = d \<Longrightarrow>
    descend (cap k) w (walk h (rroot t) p) h = Some (walk h (rroot t) (p @ digits k w))"
proof (induction k arbitrary: p w)
  case 0
  then show ?case by (simp add: descend.simps [of 0] cap_simps(1))
next
  case (Suc k)
  note R = radix_atD [OF at]
  let ?q = "walk h (rroot t) p" and ?b = "unat w mod 256"
  show ?case
  proof (cases "?q = 0")
    case True
    then show ?thesis by (simp add: descend.simps [of "cap (Suc k)"] walk_append)
  next
    case False
    then have q: "?q \<in> set B" using Suc.prems by (intro nodesD(1) [OF R(8)]) auto
    have c: "cap (Suc k) \<noteq> 0" "drop_bit 8 (cap (Suc k)) = cap k"
      using cap_pos [of "Suc k"] cap_simps(2) [of k] Suc.prems R(1) by auto
    have "walk h (rroot t) (p @ [?b]) = unat (u64_at h (?q + 8 * ?b))" using False by (simp add: walk_append)
    then have "descend (cap (Suc k)) w ?q h = descend (cap k) (drop_bit 8 w) (walk h (rroot t) (p @ [?b])) h"
      using c False load_child_eq [OF R(3,6) q] by (subst descend.simps) simp
    also have "\<dots> = Some (walk h (rroot t) ((p @ [?b]) @ digits k (drop_bit 8 w)))"
      by (rule Suc.IH) (use Suc.prems in auto)
    finally show ?thesis by (simp add: mask_unat)
  qed
qed

lemma radix_get_eq:
  assumes at: "radix_at h t d B F L X Y"
  shows "cx_radix_tree_get t key h = Some (radix_map h t d key)"
proof -
  note R = radix_atD [OF at]
  have "descend (cap d) (prepare_key t key) (rroot t) h = Some (walk h (rroot t) (key_path d key))"
    using descend_eq [OF at, of "[]" d "prepare_key t key"] prepare_key_digits [OF R(1,2)] by simp
  then show ?thesis by (auto simp: cx_radix_tree_get_def R(2) radix_map_def not_le)
qed

section \<open>Steps on the two pools\<close>

lemma nodes_mono: "nodes_ok W d B L \<Longrightarrow> B \<subseteq> B' \<Longrightarrow> L \<subseteq> L' \<Longrightarrow> nodes_ok W d B' L'"
  unfolding nodes_ok_def by blast

lemma frame_disjoint: "frame X X' h h' \<Longrightarrow> Y \<subseteq> set (blocks h) \<Longrightarrow> X \<inter> Y = {} \<Longrightarrow> X' \<inter> Y = {}"
  unfolding frame_def by blast

lemma frame_left: "frame X X' h h' \<Longrightarrow> Y \<subseteq> set (blocks h) \<Longrightarrow> X \<inter> Y = {} \<Longrightarrow> frame (X \<union> Y) (X' \<union> Y) h h'"
  by (rule frame_extend) auto

text \<open>What a step keeps: the paths and the contents of the leaves.\<close>

definition same_tree :: "heap \<Rightarrow> addr \<Rightarrow> nat \<Rightarrow> prealloc_pool \<Rightarrow> addr set \<Rightarrow> heap \<Rightarrow> bool" where
  "same_tree h r d lp L h' \<longleftrightarrow> (\<forall>bs. is_path bs \<longrightarrow> length bs \<le> d \<longrightarrow> walk h' r bs = walk h r bs) \<and>
     (\<forall>x \<in> L. bytes_at h' x (esize lp) = bytes_at h x (esize lp))"

lemma same_treeD:
  assumes "same_tree h r d lp L h'"
  shows "is_path bs \<Longrightarrow> length bs \<le> d \<Longrightarrow> walk h' r bs = walk h r bs"
    "x \<in> L \<Longrightarrow> bytes_at h' x (esize lp) = bytes_at h x (esize lp)"
  using assms unfolding same_tree_def by blast+

lemma same_nodes:
  assumes "same_tree h r d lp L h'" "nodes_ok (walk h r) d B M"
  shows "nodes_ok (walk h' r) d B M"
  by (rule nodes_cong [OF assms(2)]) (rule same_treeD(1) [OF assms(1)])

lemma radix_outside:
  assumes at: "radix_at h t d B F L X Y" and f: "frame A A' h h'" and dis: "(X \<union> Y) \<inter> A = {}"
  shows "radix_at h' t d B F L X Y" "same_tree h (rroot t) d (leaf_pool t) (set L) h'"
proof -
  note R = radix_atD [OF at]
  have d: "X \<inter> A = {}" "Y \<inter> A = {}" using dis by auto
  note b = pool_at_outside [OF R(3) f d(1)] and l = pool_at_outside [OF R(4) f d(2)]
  have "walk h' (rroot t) bs = walk h (rroot t) bs" if "is_path bs" "length bs \<le> d" for bs
    by (rule walks_same [OF R(8) _ that]) (use b(2) R(6) in auto)
  then show s: "same_tree h (rroot t) d (leaf_pool t) (set L) h'" using l(2) by (simp add: same_tree_def)
  show "radix_at h' t d B F L X Y"
    using at b(1) l(1) same_nodes [OF s R(8)] by (simp add: radix_at_def)
qed

lemma branch_get:
  assumes at: "radix_at h t d B F L X Y"
  shows "\<exists>e p h'. cx_prealloc_pool_get (branch_pool t) h = Some (e, p, h') \<and> (e = 0 \<or> (e \<noteq> 0 \<and> e < 2 ^ 64 \<and> e \<notin> set B \<and>
    bytes_at h' e 2048 = replicate 2048 0 \<and> nodes_ok (walk h' (rroot t)) d (set B) (set L) \<and>
    same_tree h (rroot t) d (leaf_pool t) (set L) h' \<and>
    (\<exists>X'. radix_at h' (t\<lparr>branch_pool := p\<rparr>) d (B @ [e]) F L X' Y \<and> frame (X \<union> Y) (X' \<union> Y) h h')))"
proof -
  note R = radix_atD [OF at]
  obtain e p h' where g: "cx_prealloc_pool_get (branch_pool t) h = Some (e, p, h')"
      "e = 0 \<or> (e \<noteq> 0 \<and> e \<notin> set B \<and> pool_element_size p = pool_element_size (branch_pool t) \<and>
        bytes_at h' e 2048 = initial 2048 (contents h 2048 []) \<and>
        (\<forall>x \<in> set (tl []) \<union> set B. bytes_at h' x 2048 = bytes_at h x 2048) \<and>
        (\<exists>X'. pool_at h' p (tl []) (B @ [e]) X' \<and> frame X X' h h'))"
    using pool_at_get [OF R(3)] unfolding R(6) by blast
  show ?thesis
  proof (cases "e = 0")
    case False
    then obtain X' where n: "e \<notin> set B" "pool_element_size p = pool_element_size (branch_pool t)"
        "bytes_at h' e 2048 = replicate 2048 0" "\<And>x. x \<in> set B \<Longrightarrow> bytes_at h' x 2048 = bytes_at h x 2048"
        "pool_at h' p [] (B @ [e]) X'" "frame X X' h h'"
      using g(2) by (auto simp: contents_def)
    have YX: "Y \<inter> X = {}" "Y \<subseteq> set (blocks h)" using R(5) pool_atD(2) [OF R(4)] by auto
    note l = pool_at_outside [OF R(4) n(6) YX(1)]
    have X': "X' \<inter> Y = {}" using frame_disjoint [OF n(6) YX(2) R(5)] .
    have "walk h' (rroot t) bs = walk h (rroot t) bs" if "is_path bs" "length bs \<le> d" for bs
      by (rule walks_same [OF R(8) n(4) that])
    then have s: "same_tree h (rroot t) d (leaf_pool t) (set L) h'" using l(2) by (simp add: same_tree_def)
    note ok = same_nodes [OF s R(8)]
    have "nodes_ok (walk h' (rroot t)) d (set (B @ [e])) (set L)" by (rule nodes_mono [OF ok]) auto
    then have "radix_at h' (t\<lparr>branch_pool := p\<rparr>) d (B @ [e]) F L X' Y"
      using at n(2,5) l(1) X' by (simp add: radix_at_def)
    moreover have "e < 2 ^ 64" using pool_atD(5) [OF n(5)] by simp
    ultimately show ?thesis using g(1) False n(1,3) ok s frame_left [OF n(6) YX(2) R(5)] by blast
  qed (use g(1) in auto)
qed

lemma leaf_get:
  assumes at: "radix_at h t d B F L X Y"
  shows "\<exists>e p h'. cx_prealloc_pool_get (leaf_pool t) h = Some (e, p, h') \<and> (e = 0 \<or> (e \<noteq> 0 \<and> e < 2 ^ 64 \<and> e \<notin> set L \<and>
    pool_element_size p = pool_element_size (leaf_pool t) \<and> nodes_ok (walk h' (rroot t)) d (set B) (set L) \<and>
    same_tree h (rroot t) d (leaf_pool t) (set L) h' \<and>
    (\<exists>Y'. radix_at h' (t\<lparr>leaf_pool := p\<rparr>) d B (tl F) (L @ [e]) X Y' \<and> frame (X \<union> Y) (X \<union> Y') h h')))"
proof -
  note R = radix_atD [OF at]
  obtain e p h' where g: "cx_prealloc_pool_get (leaf_pool t) h = Some (e, p, h')"
      "e = 0 \<or> (e \<noteq> 0 \<and> e \<notin> set L \<and> pool_element_size p = pool_element_size (leaf_pool t) \<and>
        (\<forall>x \<in> set (tl F) \<union> set L. bytes_at h' x (esize (leaf_pool t)) = bytes_at h x (esize (leaf_pool t))) \<and>
        (\<exists>Y'. pool_at h' p (tl F) (L @ [e]) Y' \<and> frame Y Y' h h'))"
    using pool_at_get [OF R(4)] by blast
  show ?thesis
  proof (cases "e = 0")
    case False
    then obtain Y' where n: "e \<notin> set L" "pool_element_size p = pool_element_size (leaf_pool t)"
        "\<And>x. x \<in> set L \<Longrightarrow> bytes_at h' x (esize (leaf_pool t)) = bytes_at h x (esize (leaf_pool t))"
        "pool_at h' p (tl F) (L @ [e]) Y'" "frame Y Y' h h'"
      using g(2) by auto
    have XY: "Y \<inter> X = {}" "X \<subseteq> set (blocks h)" using R(5) pool_atD(2) [OF R(3)] by auto
    note b = pool_at_outside [OF R(3) n(5) R(5)]
    have Y': "X \<inter> Y' = {}" using frame_disjoint [OF n(5) XY(2,1)] by auto
    have "walk h' (rroot t) bs = walk h (rroot t) bs" if "is_path bs" "length bs \<le> d" for bs
      by (rule walks_same [OF R(8) _ that]) (use b(2) R(6) in auto)
    then have s: "same_tree h (rroot t) d (leaf_pool t) (set L) h'" using n(3) by (simp add: same_tree_def)
    note ok = same_nodes [OF s R(8)]
    have "nodes_ok (walk h' (rroot t)) d (set B) (set (L @ [e]))" by (rule nodes_mono [OF ok]) auto
    then have "radix_at h' (t\<lparr>leaf_pool := p\<rparr>) d B (tl F) (L @ [e]) X Y'"
      using at n(2,4) b(1) Y' by (simp add: radix_at_def)
    moreover have "e < 2 ^ 64" using pool_atD(5) [OF n(4)] by simp
    moreover have "frame (X \<union> Y) (X \<union> Y') h h'" using frame_left [OF n(5) XY(2,1)] by (simp add: Un_commute)
    ultimately show ?thesis using g(1) False n(1,2) ok s by blast
  qed (use g(1) in auto)
qed

text \<open>A write to a branch keeps both pools; what it does to the paths is \<open>walk_store\<close>.\<close>

lemma slot_write:
  fixes w :: u64
  assumes at: "radix_at h t d B F L X Y" and q: "q \<in> set B" and b: "b < 256"
  defines "h' \<equiv> set_bytes (q + 8 * b) (le_bytes 8 w) h"
  shows "store_u64 (q + 8 * b) w h = Some h'" "pool_at h' (branch_pool t) [] B X" "pool_at h' (leaf_pool t) F L Y"
    "frame (X \<union> Y) (X \<union> Y) h h'" "\<And>x. x \<in> set L \<Longrightarrow> bytes_at h' x (esize (leaf_pool t)) = bytes_at h x (esize (leaf_pool t))"
    "\<And>x. x \<in> set B \<Longrightarrow> x \<noteq> q \<Longrightarrow> bytes_at h' x 2048 = bytes_at h x 2048"
proof -
  note R = radix_atD [OF at]
  have len: "8 * b + length (le_bytes 8 w) \<le> esize (branch_pool t)" using b R(6) by simp
  note W = pool_at_write [OF R(3) q len]
  have XY: "X \<inter> Y = {}" "Y \<subseteq> set (blocks h)" "Y \<inter> X = {}" using R(5) pool_atD(2) [OF R(4)] by auto
  show "store_u64 (q + 8 * b) w h = Some h'" using W(1) by (simp add: h'_def mem_step)
  show "pool_at h' (branch_pool t) [] B X" using W(2) by (simp add: h'_def)
  show "pool_at h' (leaf_pool t) F L Y"
    "\<And>x. x \<in> set L \<Longrightarrow> bytes_at h' x (esize (leaf_pool t)) = bytes_at h x (esize (leaf_pool t))"
    using pool_at_outside [OF R(4) W(3) XY(3)] by (simp_all add: h'_def)
  show "frame (X \<union> Y) (X \<union> Y) h h'" unfolding h'_def by (rule frame_left [OF W(3) XY(2,1)])
  show "\<And>x. x \<in> set B \<Longrightarrow> x \<noteq> q \<Longrightarrow> bytes_at h' x 2048 = bytes_at h x 2048"
    using W(4) R(6) by (simp add: h'_def)
qed

lemma u64_zero:
  assumes "bytes_at h p (n * 8) = replicate (n * 8) 0" "i < n"
  shows "u64_at h (p + 8 * i) = 0"
proof -
  have "read_mem (mem h) (p + 8 * i) 8 = replicate 8 0"
  proof (rule nth_equalityI)
    fix j assume "j < length (read_mem (mem h) (p + 8 * i) 8)"
    then have j: "j < 8" by simp
    have b: "8 * i + j < n * 8" using assms(2) j by linarith
    then have "bytes_at h p (n * 8) ! (8 * i + j) = 0" unfolding assms(1) by simp
    then show "read_mem (mem h) (p + 8 * i) 8 ! j = replicate 8 0 ! j"
      using b j by (simp add: bytes_at_def add.assoc)
  qed simp
  moreover have "le_word (replicate 8 0) = (0 :: u64)" by code_simp
  ultimately show ?thesis by (simp add: u64_at_def)
qed

text \<open>Storing a child, with the node map updated.\<close>

lemma set_child:
  assumes at: "radix_at h t d B F L X Y"
    and p: "is_path p" "length p < d" "walk h (rroot t) p \<noteq> 0" and i: "i < 256" and c: "c < 2 ^ 64"
    and leaf: "Suc (length p) = d \<or> (walk h (rroot t) (p @ [i]) = 0 \<and> c \<noteq> walk h (rroot t) p \<and> c \<in> set B \<and>
      bytes_at h c 2048 = replicate 2048 0)"
    and new: "nodes_ok ((walk h (rroot t))(p @ [i] := c)) d (set B) (set L)"
  shows "\<exists>h'. store_u64 (walk h (rroot t) p + 8 * i) (of_nat c) h = Some h' \<and> radix_at h' t d B F L X Y \<and>
    (\<forall>bs. is_path bs \<longrightarrow> length bs \<le> d \<longrightarrow> walk h' (rroot t) bs = ((walk h (rroot t))(p @ [i] := c)) bs) \<and>
    frame (X \<union> Y) (X \<union> Y) h h' \<and> (\<forall>x \<in> set L. bytes_at h' x (esize (leaf_pool t)) = bytes_at h x (esize (leaf_pool t)))"
proof -
  note R = radix_atD [OF at]
  let ?q = "walk h (rroot t) p"
  let ?h = "set_bytes (?q + 8 * i) (le_bytes 8 (of_nat c :: u64)) h"
  have q: "?q \<in> set B" by (rule nodesD(1) [OF R(8) p(1,3,2)])
  note W = slot_write [OF at q i, where w = "of_nat c"]
  have apart: "x + 2048 \<le> y \<or> y + 2048 \<le> x" if "x \<in> set B" "y \<in> set B" "x \<noteq> y" for x y
    using pool_atD(7) [OF R(3) that] R(6) by simp
  have leaf': "Suc (length p) = d \<or> (walk h (rroot t) (p @ [i]) = 0 \<and> (\<forall>b < 256. u64_at ?h (c + 8 * b) = 0))"
    using leaf
  proof (elim disjE conjE)
    assume z: "walk h (rroot t) (p @ [i]) = 0" "c \<noteq> ?q" "c \<in> set B" "bytes_at h c 2048 = replicate 2048 0"
    then have "bytes_at ?h c 2048 = replicate (256 * 8) 0" using W(6) by simp
    then have "u64_at ?h (c + 8 * b) = 0" if "b < 256" for b
      using u64_zero [of ?h c 256 b] that by simp
    then show ?thesis using z(1) by simp
  qed simp
  have walks: "walk ?h (rroot t) bs = ((walk h (rroot t))(p @ [i] := c)) bs" if "is_path bs" "length bs \<le> d" for bs
    using walk_store [OF R(8) apart p i c leaf' that] by simp
  have "nodes_ok (walk ?h (rroot t)) d (set B) (set L)" by (rule nodes_cong [OF new]) (rule walks)
  then have "radix_at ?h t d B F L X Y" using at W(2,3) by (simp add: radix_at_def)
  moreover have "\<forall>x \<in> set L. bytes_at ?h x (esize (leaf_pool t)) = bytes_at h x (esize (leaf_pool t))"
    using W(5) by blast
  ultimately show ?thesis using W(1,4) walks by blast
qed

section \<open>A new root\<close>

text \<open>The elements that a pool can hand out before it allocates.\<close>

definition pool_spare :: "prealloc_pool \<Rightarrow> addr list \<Rightarrow> nat" where
  "pool_spare p F = length F + (if pool_pools p = 0 then 0 else (unat (pool_chunk_size p) - unat (pool_next_offset p)) div esize p)"

lemma pool_spare_get:
  assumes at: "pool_at h p F L X" and g: "cx_prealloc_pool_get p h = Some (e, p', h')" and spare: "0 < pool_spare p F"
  shows "e \<noteq> 0" "pool_spare p F \<le> Suc (pool_spare p' (tl F))"
proof -
  obtain cs where inv: "pool_inv h p cs F L" using at by (auto simp: pool_at_def)
  have es: "0 < esize p" using pool_atD(4) [OF at] by simp
  have room: "pool_room p cs F"
  proof (cases "F = []")
    case True
    then have "cs \<noteq> []" "0 < (unat (pool_chunk_size p) - unat (pool_next_offset p)) div esize p"
      using spare pools_null [OF inv] by (auto simp: pool_spare_def split: if_splits)
    then show ?thesis using es by (auto simp: pool_room_def div_greater_zero_iff)
  qed (simp add: pool_room_def)
  then show "e \<noteq> 0" using get_spec [OF inv] g by (auto simp: got_def)
  show "pool_spare p F \<le> Suc (pool_spare p' (tl F))"
  proof (cases F)
    case (Cons a G)
    then have "pool_reuse p \<noteq> 0" using inv by (auto simp: pool_inv_def elements_ok_def)
    then have "\<exists>x. p' = p\<lparr>pool_reuse := x\<rparr>"
      using g by (auto simp: cx_prealloc_pool_get_def Let_def reuse_node_def bind_Some_iff)
    then show ?thesis using Cons by (auto simp: pool_spare_def)
  next
    case Nil
    then have ne: "cs \<noteq> []" and r: "unat (pool_next_offset p) + esize p \<le> unat (pool_chunk_size p)" and r0: "pool_reuse p = 0"
      using room inv by (auto simp: pool_room_def pool_inv_def elements_ok_def)
    have "p' = p\<lparr>pool_next_offset := pool_next_offset p + pool_element_size p\<rparr>"
      using g r0 r ne pools_null [OF inv] pool_full_iff [OF inv ne] by (auto simp: cx_prealloc_pool_get_def Let_def)
    moreover have "unat (pool_next_offset p + pool_element_size p) = unat (pool_next_offset p) + esize p"
      by (rule unat_add_no_wrap) (use r unat_lt64 [of "pool_chunk_size p"] in linarith)
    moreover have "(c - o') div s \<le> Suc ((c - (o' + s)) div s)" if "0 < s" for c o' s :: nat
    proof (cases "s \<le> c - o'")
      case True
      then show ?thesis using le_div_geq [OF that True] by simp
    next
      case False
      then show ?thesis by simp
    qed
    ultimately show ?thesis using Nil es by (simp add: pool_spare_def)
  qed
qed

abbreviation branch_spare :: "radix_tree \<Rightarrow> nat" where
  "branch_spare t \<equiv> pool_spare (branch_pool t) []"

lemma nodes_new_root:
  assumes n: "nodes_ok W d B L" and e: "e \<notin> B" and W': "W' [] = e" "\<And>b bs. b < 256 \<Longrightarrow> W' (b # bs) = (if b = 0 then W bs else 0)"
  shows "nodes_ok W' (Suc d) (insert e B) L"
  unfolding nodes_ok_def
proof (intro conjI allI impI)
  fix bs assume b: "is_path bs" "length bs < Suc d" "W' bs \<noteq> 0"
  show "W' bs \<in> insert e B" using b W' nodesD(1) [OF n] by (cases bs) (auto split: if_splits)
next
  fix bs assume b: "is_path bs" "length bs = Suc d" "W' bs \<noteq> 0"
  show "W' bs \<in> L" using b W' nodesD(2) [OF n] by (cases bs) (auto split: if_splits)
next
  fix bs cs
  assume b: "is_path bs" "is_path cs" "W' bs \<noteq> 0" "W' bs = W' cs"
    and l: "(length bs < Suc d \<and> length cs < Suc d) \<or> (length bs = Suc d \<and> length cs = Suc d)"
  have one: "x = 0 \<and> W' (x # xs) = W xs \<and> (length xs < d \<longrightarrow> W xs \<in> B)" if "is_path (x # xs)" "W' (x # xs) \<noteq> 0" for x xs
    using that W'(2) nodesD(1) [OF n, of xs] by (auto split: if_splits)
  show "bs = cs"
  proof (cases bs)
    case Nil
    then have "W' cs \<noteq> 0" "W' cs = e" "length cs < Suc d" using b W'(1) l by auto
    then show ?thesis using Nil one [of "hd cs" "tl cs"] b(2) e by (cases cs) auto
  next
    case (Cons x xs)
    note O = one [of x xs] 
    have O': "x = 0" "W' bs = W xs" "length xs < d \<longrightarrow> W xs \<in> B" using O b(1,3) Cons by auto
    show ?thesis
    proof (cases cs)
      case Nil
      then show ?thesis using O' Cons l e b(4) W'(1) by auto
    next
      case (Cons y ys)
      then have y: "y = 0" "W' cs = W ys" using one [of y ys] b by auto
      have "xs = ys"
        using nodesD(3,4) [OF n, of xs ys] O' y b l Cons \<open>bs = x # xs\<close> by auto
      then show ?thesis using O'(1) y(1) Cons \<open>bs = x # xs\<close> by simp
    qed
  qed
qed

text \<open>One round of \<^verbatim>\<open>resize\<close>: the tree is a level deeper and has the same elements.\<close>

definition same_leaves :: "heap \<Rightarrow> prealloc_pool \<Rightarrow> addr list \<Rightarrow> heap \<Rightarrow> bool" where
  "same_leaves h lp L h' \<longleftrightarrow> (\<forall>x \<in> set L. bytes_at h' x (esize lp) = bytes_at h x (esize lp))"

lemma same_leaves_trans:
  "same_leaves h lp L h' \<Longrightarrow> same_leaves h' lp' L h'' \<Longrightarrow> esize lp' = esize lp \<Longrightarrow> same_leaves h lp L h''"
  by (simp add: same_leaves_def)

lemma same_tree_leaves: "same_tree h r d lp (set L) h' \<Longrightarrow> same_leaves h lp L h'"
  by (simp add: same_tree_def same_leaves_def)

lemma add_root:
  assumes at: "radix_at h t d B F L X Y" and d: "d < 8"
    and g: "cx_prealloc_pool_get (branch_pool t) h = Some (e, p, h1)" and e: "e \<noteq> 0"
  shows "\<exists>h2 X'. store_u64 e (of_nat (rroot t)) h1 = Some h2 \<and>
    radix_at h2 (t\<lparr>rcapacity := cap (Suc d), branch_pool := p, rroot := e\<rparr>) (Suc d) (B @ [e]) F L X' Y \<and>
    radix_map h2 (t\<lparr>rcapacity := cap (Suc d), branch_pool := p, rroot := e\<rparr>) (Suc d) = radix_map h t d \<and>
    same_leaves h (leaf_pool t) L h2 \<and> frame (X \<union> Y) (X' \<union> Y) h h2"
proof -
  let ?t = "t\<lparr>rcapacity := cap (Suc d), branch_pool := p, rroot := e\<rparr>" and ?t1 = "t\<lparr>branch_pool := p\<rparr>"
  obtain X' where G: "e < 2 ^ 64" "e \<notin> set B" "bytes_at h1 e 2048 = replicate 2048 0"
      "nodes_ok (walk h1 (rroot t)) d (set B) (set L)" "same_tree h (rroot t) d (leaf_pool t) (set L) h1"
      "radix_at h1 ?t1 d (B @ [e]) F L X' Y" "frame (X \<union> Y) (X' \<union> Y) h h1"
    using branch_get [OF at] g e by auto
  note R1 = radix_atD [OF G(6)]
  have ein: "e \<in> set (B @ [e])" by simp
  let ?h = "set_bytes (e + 8 * 0) (le_bytes 8 (of_nat (rroot t) :: u64)) h1"
  note W = slot_write [OF G(6) ein, where b = 0 and w = "of_nat (rroot t)"]
  have same: "walk ?h (rroot t) bs = walk h1 (rroot t) bs" if "is_path bs" "length bs \<le> d" for bs
    by (rule walks_same [OF G(4) _ that]) (use W(6) G(2) in auto)
  have child: "unat (u64_at ?h (e + 8 * b)) = (if b = 0 then rroot t else 0)" if "b < 256" for b
  proof (cases "b = 0")
    case True
    then show ?thesis using radix_atD(10) [OF at] by (simp add: heap_simps unat_of_nat64)
  next
    case False
    then have "u64_at ?h (e + 8 * b) = u64_at h1 (e + 8 * b)" by (intro u64_at_set_other) auto
    also have "\<dots> = 0" using u64_zero [of h1 e 256 b] G(3) that by simp
    finally show ?thesis using False by simp
  qed
  have walks: "walk ?h e (b # bs) = (if b = 0 then walk ?h (rroot t) bs else 0)" if "b < 256" for b bs
    using child [OF that] e by simp
  have "nodes_ok (walk ?h (rroot t)) d (set B) (set L)" by (rule nodes_cong [OF G(4) same])
  then have "nodes_ok (walk ?h e) (Suc d) (insert e (set B)) (set L)"
    by (rule nodes_new_root) (use G(2) walks in auto)
  then have "radix_at ?h ?t (Suc d) (B @ [e]) F L X' Y"
    using W(2,3) d R1 e G(6) by (simp add: radix_at_def insert_commute)
  moreover have "radix_map ?h ?t (Suc d) k = radix_map h t d k" for k
  proof (cases "k \<le> cap d")
    case True
    then have "k \<le> cap (Suc d)" using le_cap [of d k] le_cap [of "Suc d" k] d by auto
    then have "radix_map ?h ?t (Suc d) k = walk ?h (rroot t) (key_path d k)"
      using walks [of 0] by (simp add: radix_map_def key_path_small [OF d True])
    also have "\<dots> = walk h (rroot t) (key_path d k)" using same same_treeD(1) [OF G(5)] by simp
    finally show ?thesis using True by (simp add: radix_map_def)
  next
    case False
    have "walk ?h e (key_path (Suc d) k) = 0" if le: "k \<le> cap (Suc d)"
    proof -
      obtain b where b: "key_path (Suc d) k = b # key_path d k" "b \<noteq> 0" "b < 256"
        using key_path_large [OF d False le] by blast
      then show ?thesis using walks [of b] by simp
    qed
    then show ?thesis using False by (simp add: radix_map_def)
  qed
  then have "radix_map ?h ?t (Suc d) = radix_map h t d" by blast
  moreover have "same_leaves h (leaf_pool t) L ?h"
    using same_treeD(2) [OF G(5)] W(5) by (simp add: same_leaves_def)
  moreover have "frame (X \<union> Y) (X' \<union> Y) h ?h" by (rule frame_trans [OF G(7)]) (use W(4) in simp)
  moreover have "store_u64 e (of_nat (rroot t)) h1 = Some ?h" using W(1) by simp
  ultimately show ?thesis by blast
qed

lemma resize_spec:
  assumes "radix_at h t d B F L X Y"
  shows "\<exists>ok t' h'. resize key t h = Some (ok, t', h') \<and> (8 - d \<le> branch_spare t \<longrightarrow> ok) \<and>
    (ok \<longrightarrow> (\<exists>d' B' X'. d \<le> d' \<and> key \<le> cap d' \<and> radix_at h' t' d' B' F L X' Y \<and> radix_map h' t' d' = radix_map h t d \<and>
      same_leaves h (leaf_pool t) L h' \<and> frame (X \<union> Y) (X' \<union> Y) h h' \<and> leaf_pool t' = leaf_pool t \<and>
      branch_spare t \<le> branch_spare t' + (d' - d)))"
  using assms
proof (induction "8 - d" arbitrary: d h t B X)
  case 0
  then have "d = 8" using radix_atD(1) [OF 0(2)] by simp
  then have "key \<le> cap d" using unat_lt64 [of key] by (subst le_cap) simp_all
  moreover from this have "resize key t h = Some (True, t, h)" using radix_atD(2) [OF 0(2)] by (subst resize.simps) auto
  moreover have "frame (X \<union> Y) (X \<union> Y) h h"
    using pool_atD(2) [OF radix_atD(3) [OF 0(2)]] pool_atD(2) [OF radix_atD(4) [OF 0(2)]] by (intro frame_refl) auto
  ultimately show ?case using 0(2) by (auto simp: same_leaves_def)
next
  case (Suc n)
  note R = radix_atD [OF Suc(3)]
  have d: "d < 8" using Suc(2) by simp
  show ?case
  proof (cases "key \<le> cap d")
    case True
    then have "resize key t h = Some (True, t, h)" using R(2) by (subst resize.simps) auto
    moreover have "frame (X \<union> Y) (X \<union> Y) h h"
      using pool_atD(2) [OF R(3)] pool_atD(2) [OF R(4)] by (intro frame_refl) auto
    ultimately show ?thesis using Suc(3) True by (auto simp: same_leaves_def)
  next
    case False
    then have more: "rcapacity t < key" using R(2) by (simp add: not_le)
    obtain e p h1 where g: "cx_prealloc_pool_get (branch_pool t) h = Some (e, p, h1)" using branch_get [OF Suc(3)] by blast
    show ?thesis
    proof (cases "e = 0")
      case True
      have "resize key t h = Some (False, t\<lparr>rcapacity := cap (Suc d), branch_pool := p\<rparr>, h1)"
        using more g True R(2) cap_simps(3) [of d] by (simp add: resize.simps Let_def)
      moreover have "\<not> 8 - d \<le> branch_spare t" using pool_spare_get(1) [OF R(3) g] True d by (cases "branch_spare t") auto
      ultimately show ?thesis by simp blast
    next
      case False
      let ?t = "t\<lparr>rcapacity := cap (Suc d), branch_pool := p, rroot := e\<rparr>"
      obtain h2 X1 where S: "store_u64 e (of_nat (rroot t)) h1 = Some h2" "radix_at h2 ?t (Suc d) (B @ [e]) F L X1 Y"
          "radix_map h2 ?t (Suc d) = radix_map h t d" "same_leaves h (leaf_pool t) L h2" "frame (X \<union> Y) (X1 \<union> Y) h h2"
        using add_root [OF Suc(3) d g False] by blast
      have eq: "resize key t h = resize key ?t h2"
        using more g False R(2) cap_simps(3) [of d] S(1) by (subst resize.simps) (simp add: Let_def)
      have n: "n = 8 - Suc d" using Suc(2) by simp
      obtain ok t' h' where r: "resize key ?t h2 = Some (ok, t', h')" "8 - Suc d \<le> branch_spare ?t \<longrightarrow> ok"
          "ok \<longrightarrow> (\<exists>d' B' X'. Suc d \<le> d' \<and> key \<le> cap d' \<and> radix_at h' t' d' B' F L X' Y \<and> radix_map h' t' d' = radix_map h2 ?t (Suc d) \<and>
            same_leaves h2 (leaf_pool ?t) L h' \<and> frame (X1 \<union> Y) (X' \<union> Y) h2 h' \<and> leaf_pool t' = leaf_pool ?t \<and>
            branch_spare ?t \<le> branch_spare t' + (d' - Suc d))"
        using Suc(1) [OF n S(2)] by blast
      have sp: "branch_spare t \<le> Suc (branch_spare ?t)"
        using pool_spare_get(2) [OF R(3) g] by (cases "branch_spare t") auto
      have "\<exists>d' B' X'. d \<le> d' \<and> key \<le> cap d' \<and> radix_at h' t' d' B' F L X' Y \<and> radix_map h' t' d' = radix_map h t d \<and>
          same_leaves h (leaf_pool t) L h' \<and> frame (X \<union> Y) (X' \<union> Y) h h' \<and> leaf_pool t' = leaf_pool t \<and>
          branch_spare t \<le> branch_spare t' + (d' - d)" if ok: ok
      proof -
        obtain d' B' X' where D: "Suc d \<le> d'" "key \<le> cap d'" "radix_at h' t' d' B' F L X' Y" "radix_map h' t' d' = radix_map h t d"
            "same_leaves h2 (leaf_pool t) L h'" "frame (X1 \<union> Y) (X' \<union> Y) h2 h'" "leaf_pool t' = leaf_pool t"
            "branch_spare ?t \<le> branch_spare t' + (d' - Suc d)"
          using r(3) ok S(3) by auto
        have "branch_spare t \<le> branch_spare t' + (d' - d)" using D(1,8) sp by linarith
        moreover have "same_leaves h (leaf_pool t) L h'" by (rule same_leaves_trans [OF S(4) D(5)]) simp
        moreover have "d \<le> d'" using D(1) by simp
        ultimately show ?thesis using D(2-4,7) frame_trans [OF S(5) D(6)] by blast
      qed
      moreover have "8 - d \<le> branch_spare t \<longrightarrow> ok" using r(2) sp by auto
      ultimately show ?thesis using eq r(1) by auto
    qed
  qed
qed

section \<open>A new leaf\<close>

text \<open>
  What the walk of \<^verbatim>\<open>cx_radix_tree_new_leaf\<close> leaves: the node of the path \<open>p\<close> is a new
  leaf, every other leaf is in its place with its contents.
\<close>

definition leaf_added :: "heap \<Rightarrow> radix_tree \<Rightarrow> nat \<Rightarrow> addr list \<Rightarrow> addr list \<Rightarrow> (addr \<times> nat) set \<Rightarrow>
    nat list \<Rightarrow> addr \<Rightarrow> radix_tree \<Rightarrow> heap \<Rightarrow> bool" where
  "leaf_added h t d F L Z p leaf t' h' \<longleftrightarrow> (\<exists>B' X' Y'. radix_at h' t' d B' (tl F) (L @ [leaf]) X' Y' \<and>
     frame Z (X' \<union> Y') h h' \<and> leaf \<notin> set L \<and> leaf < 2 ^ 64 \<and> rroot t' = rroot t \<and>
     (\<forall>bs. is_path bs \<longrightarrow> length bs = d \<longrightarrow> walk h' (rroot t) bs = (if bs = p then leaf else walk h (rroot t) bs)) \<and>
     same_leaves h (leaf_pool t) L h' \<and> pool_element_size (leaf_pool t') = pool_element_size (leaf_pool t))"

lemma store_child_eq:
  assumes "q \<noteq> 0" shows "store_child q w c h = store_u64 (q + 8 * (unat w mod 256)) (of_nat c) h"
  using assms by (simp add: store_child_def mask_unat)

text \<open>The last round: the leaf.\<close>

lemma add_leaf:
  assumes at: "radix_at h t d B F L X Y" and p: "is_path p" "Suc (length p) = d" "walk h (rroot t) p \<noteq> 0"
    and g: "cx_prealloc_pool_get (leaf_pool t) h = Some (e, lp, h1)" and e: "e \<noteq> 0"
  shows "\<exists>h2. store_child (walk h (rroot t) p) w e h1 = Some h2 \<and>
    leaf_added h t d F L (X \<union> Y) (p @ [unat w mod 256]) e (t\<lparr>leaf_pool := lp\<rparr>) h2"
proof -
  let ?t = "t\<lparr>leaf_pool := lp\<rparr>" and ?i = "unat w mod 256"
  obtain Y' where G: "e < 2 ^ 64" "e \<notin> set L" "pool_element_size lp = pool_element_size (leaf_pool t)"
      "nodes_ok (walk h1 (rroot t)) d (set B) (set L)" "same_tree h (rroot t) d (leaf_pool t) (set L) h1"
      "radix_at h1 ?t d B (tl F) (L @ [e]) X Y'" "frame (X \<union> Y) (X \<union> Y') h h1"
    using leaf_get [OF at] g e by auto
  have q: "walk h1 (rroot t) p = walk h (rroot t) p" by (rule same_treeD(1) [OF G(5)]) (use p in auto)
  have new: "nodes_ok ((walk h1 (rroot ?t))(p @ [?i] := e)) d (set B) (set (L @ [e]))"
    using nodes_add_leaf [OF G(4,2), of "p @ [?i]"] p(2) by simp
  obtain h2 where S: "store_u64 (walk h1 (rroot t) p + 8 * ?i) (of_nat e) h1 = Some h2" "radix_at h2 ?t d B (tl F) (L @ [e]) X Y'"
      "\<forall>bs. is_path bs \<longrightarrow> length bs \<le> d \<longrightarrow> walk h2 (rroot t) bs = ((walk h1 (rroot t))(p @ [?i] := e)) bs"
      "frame (X \<union> Y') (X \<union> Y') h1 h2" "\<forall>x \<in> set (L @ [e]). bytes_at h2 x (esize lp) = bytes_at h1 x (esize lp)"
    using set_child [OF G(6) p(1) _ _ _ G(1) _ new] p q by auto
  have "walk h2 (rroot t) bs = (if bs = p @ [?i] then e else walk h (rroot t) bs)" if "is_path bs" "length bs = d" for bs
    using S(3) same_treeD(1) [OF G(5)] that by simp
  moreover have "same_leaves h (leaf_pool t) L h2"
    using same_treeD(2) [OF G(5)] S(5) G(3) by (simp add: same_leaves_def)
  ultimately have "leaf_added h t d F L (X \<union> Y) (p @ [?i]) e ?t h2"
    unfolding leaf_added_def using S(2) frame_trans [OF G(7) S(4)] G(1-3) by force
  then show ?thesis using S(1) store_child_eq [OF p(3)] q by simp
qed

text \<open>A round that adds a branch.\<close>

lemma add_branch:
  assumes at: "radix_at h t d B F L X Y" and p: "is_path p" "Suc (length p) < d" "walk h (rroot t) p \<noteq> 0"
    and none: "walk h (rroot t) (p @ [unat w mod 256]) = 0"
    and g: "cx_prealloc_pool_get (branch_pool t) h = Some (e, bp, h1)" and e: "e \<noteq> 0"
  shows "\<exists>h2 X'. store_child (walk h (rroot t) p) w e h1 = Some h2 \<and>
    radix_at h2 (t\<lparr>branch_pool := bp\<rparr>) d (B @ [e]) F L X' Y \<and> walk h2 (rroot t) (p @ [unat w mod 256]) = e \<and>
    (\<forall>bs. is_path bs \<longrightarrow> length bs = d \<longrightarrow> walk h2 (rroot t) bs = walk h (rroot t) bs) \<and>
    same_leaves h (leaf_pool t) L h2 \<and> frame (X \<union> Y) (X' \<union> Y) h h2"
proof -
  let ?t = "t\<lparr>branch_pool := bp\<rparr>" and ?i = "unat w mod 256"
  obtain X' where G: "e < 2 ^ 64" "e \<notin> set B" "bytes_at h1 e 2048 = replicate 2048 0"
      "nodes_ok (walk h1 (rroot t)) d (set B) (set L)" "same_tree h (rroot t) d (leaf_pool t) (set L) h1"
      "radix_at h1 ?t d (B @ [e]) F L X' Y" "frame (X \<union> Y) (X' \<union> Y) h h1"
    using branch_get [OF at] g e by auto
  have q: "walk h1 (rroot t) p = walk h (rroot t) p" "walk h1 (rroot t) (p @ [?i]) = 0"
    using same_treeD(1) [OF G(5), of p] same_treeD(1) [OF G(5), of "p @ [?i]"] p none by auto
  have "walk h (rroot t) p \<in> set B" using nodesD(1) [OF radix_atD(8) [OF at] p(1,3)] p(2) by simp
  then have ne: "e \<noteq> walk h1 (rroot t) p" using G(2) q(1) by auto
  have new: "nodes_ok ((walk h1 (rroot ?t))(p @ [?i] := e)) d (set (B @ [e])) (set L)"
    using nodes_add_branch [OF G(4,2), of "p @ [?i]"] p(2) by simp
  obtain h2 where S: "store_u64 (walk h1 (rroot t) p + 8 * ?i) (of_nat e) h1 = Some h2" "radix_at h2 ?t d (B @ [e]) F L X' Y"
      "\<forall>bs. is_path bs \<longrightarrow> length bs \<le> d \<longrightarrow> walk h2 (rroot t) bs = ((walk h1 (rroot t))(p @ [?i] := e)) bs"
      "frame (X' \<union> Y) (X' \<union> Y) h1 h2" "\<forall>x \<in> set L. bytes_at h2 x (esize (leaf_pool t)) = bytes_at h1 x (esize (leaf_pool t))"
    using set_child [OF G(6) p(1) _ _ _ G(1) _ new] p q ne G(3) by auto
  have "walk h2 (rroot t) bs = walk h (rroot t) bs" if "is_path bs" "length bs = d" for bs
    using S(3) same_treeD(1) [OF G(5)] that p(2) by auto
  moreover have "walk h2 (rroot t) (p @ [?i]) = e" using S(3) p by simp
  moreover have "same_leaves h (leaf_pool t) L h2"
    using same_treeD(2) [OF G(5)] S(5) by (simp add: same_leaves_def)
  ultimately show ?thesis using S(1,2) store_child_eq [OF p(3)] q(1) frame_trans [OF G(7) S(4)] by auto
qed

lemma leaf_added_after:
  assumes a: "leaf_added h1 t1 d F L Z1 p e t' h'" and f: "frame Z Z1 h h1" and s: "same_leaves h (leaf_pool t) L h1"
    and w: "\<forall>bs. is_path bs \<longrightarrow> length bs = d \<longrightarrow> walk h1 (rroot t) bs = walk h (rroot t) bs"
    and t: "rroot t1 = rroot t" "leaf_pool t1 = leaf_pool t"
  shows "leaf_added h t d F L Z p e t' h'"
proof -
  obtain B' X' Y' where A: "radix_at h' t' d B' (tl F) (L @ [e]) X' Y'" "frame Z1 (X' \<union> Y') h1 h'" "e \<notin> set L" "e < 2 ^ 64"
      "rroot t' = rroot t" "\<forall>bs. is_path bs \<longrightarrow> length bs = d \<longrightarrow> walk h' (rroot t) bs = (if bs = p then e else walk h1 (rroot t) bs)"
      "same_leaves h1 (leaf_pool t) L h'" "pool_element_size (leaf_pool t') = pool_element_size (leaf_pool t)"
    using a t unfolding leaf_added_def by auto
  have "same_leaves h (leaf_pool t) L h'" by (rule same_leaves_trans [OF s A(7)]) simp
  then show ?thesis
    unfolding leaf_added_def using A(1,3-6,8) frame_trans [OF f A(2)] w by (intro exI conjI) auto
qed

lemma grow_path_spec:
  assumes "radix_at h t d B F L X Y" "is_path p" "length p + Suc k = d" "walk h (rroot t) p \<noteq> 0"
  shows "(case grow_path (cap (Suc k)) w (walk h (rroot t) p) occupied t h of
      None \<Rightarrow> branch_spare t < k \<or> pool_spare (leaf_pool t) F = 0
    | Some (leaf, occ, t', h') \<Rightarrow> occ = (walk h (rroot t) (p @ digits (Suc k) w) \<noteq> 0) \<and>
        (leaf = 0 \<longrightarrow> pool_spare (leaf_pool t) F = 0) \<and>
        (leaf \<noteq> 0 \<longrightarrow> leaf_added h t d F L (X \<union> Y) (p @ digits (Suc k) w) leaf t' h'))"
  using assms
proof (induction k arbitrary: h t B X p w occupied)
  case 0
  note at = 0(1)
  note R = radix_atD [OF at]
  let ?q = "walk h (rroot t) p" and ?i = "unat w mod 256"
  have q: "?q \<in> set B" by (rule nodesD(1) [OF R(8) 0(2,4)]) (use 0(3) in simp)
  have l: "load_child ?q w h = Some (walk h (rroot t) (p @ [?i]))"
    using load_child_eq [OF R(3,6) q] 0(4) by (simp add: walk_append)
  obtain e lp h1 where g: "cx_prealloc_pool_get (leaf_pool t) h = Some (e, lp, h1)" using leaf_get [OF at] by blast
  have c: "cap 1 \<noteq> 0" "drop_bit 8 (cap 1) = 0"
    using cap_pos [of 1] cap_simps(2) [of 0] cap_simps(1) by simp_all
  show ?case
  proof (cases "e = 0")
    case True
    have sp: "pool_spare (leaf_pool t) F = 0" using pool_spare_get(1) [OF R(4) g] True by auto
    have "grow_path (cap 1) w ?q occupied t h =
        map_option (\<lambda>h2. (0, walk h (rroot t) (p @ [?i]) \<noteq> 0, t\<lparr>leaf_pool := lp\<rparr>, h2)) (store_child ?q w 0 h1)"
      using l g c True by (subst grow_path.simps) (simp add: grow_path.simps [of 0] bind_map_option split: Option.bind_split)
    then show ?thesis using sp by (cases "store_child ?q w 0 h1") (simp_all add: mask_unat)
  next
    case False
    obtain h2 where S: "store_child ?q w e h1 = Some h2" "leaf_added h t d F L (X \<union> Y) (p @ [?i]) e (t\<lparr>leaf_pool := lp\<rparr>) h2"
      using add_leaf [OF at 0(2) _ 0(4) g False] 0(3) by auto
    have "grow_path (cap 1) w ?q occupied t h = Some (e, walk h (rroot t) (p @ [?i]) \<noteq> 0, t\<lparr>leaf_pool := lp\<rparr>, h2)"
      using l g c S(1) by (subst grow_path.simps) (simp add: grow_path.simps [of 0])
    then show ?thesis using False S(2) by (simp add: mask_unat)
  qed
next
  case (Suc k)
  note at = Suc(2)
  note R = radix_atD [OF at]
  let ?q = "walk h (rroot t) p" and ?i = "unat w mod 256" and ?w = "drop_bit 8 w"
  have q: "?q \<in> set B" by (rule nodesD(1) [OF R(8) Suc(3,5)]) (use Suc(4) in simp)
  have l: "load_child ?q w h = Some (walk h (rroot t) (p @ [?i]))"
    using load_child_eq [OF R(3,6) q] Suc(5) by (simp add: walk_append)
  have c: "cap (Suc (Suc k)) \<noteq> 0" "drop_bit 8 (cap (Suc (Suc k))) = cap (Suc k)" "cap (Suc k) \<noteq> 0"
    using cap_pos [of "Suc (Suc k)"] cap_pos [of "Suc k"] cap_simps(2) [of "Suc k"] Suc(4) R(1) by simp_all
  have p: "is_path (p @ [?i])" "length (p @ [?i]) + Suc k = d" using Suc(3,4) by simp_all
  show ?case
  proof (cases "walk h (rroot t) (p @ [?i]) = 0")
    case False
    have "grow_path (cap (Suc (Suc k))) w ?q occupied t h = grow_path (cap (Suc k)) ?w (walk h (rroot t) (p @ [?i])) True t h"
      using l c False by (subst grow_path.simps) simp
    then show ?thesis using Suc.IH [OF at p False, of ?w True] by (auto simp: mask_unat split: option.splits)
  next
    case none: True
    obtain e bp h1 where g: "cx_prealloc_pool_get (branch_pool t) h = Some (e, bp, h1)" using branch_get [OF at] by blast
    show ?thesis
    proof (cases "e = 0")
      case True
      then have "branch_spare t < Suc k" using pool_spare_get(1) [OF R(3) g] by (cases "branch_spare t") auto
      moreover have "grow_path (cap (Suc k)) ?w 0 False (t\<lparr>branch_pool := bp\<rparr>) h2 = None" for h2
        using c(3) by (subst grow_path.simps) (simp add: load_child_def)
      then have "grow_path (cap (Suc (Suc k))) w ?q occupied t h = None"
        using l g c none True by (subst grow_path.simps) (simp split: Option.bind_split)
      ultimately show ?thesis by simp
    next
      case False
      let ?t = "t\<lparr>branch_pool := bp\<rparr>"
      obtain h2 X' where S: "store_child ?q w e h1 = Some h2" "radix_at h2 ?t d (B @ [e]) F L X' Y" "walk h2 (rroot t) (p @ [?i]) = e"
          "\<forall>bs. is_path bs \<longrightarrow> length bs = d \<longrightarrow> walk h2 (rroot t) bs = walk h (rroot t) bs"
          "same_leaves h (leaf_pool t) L h2" "frame (X \<union> Y) (X' \<union> Y) h h2"
        using add_branch [OF at Suc(3) _ Suc(5) none g False] Suc(4) by auto
      have eq: "grow_path (cap (Suc (Suc k))) w ?q occupied t h = grow_path (cap (Suc k)) ?w e False ?t h2"
        using l g c none False S(1) by (subst grow_path.simps) simp
      have sp: "branch_spare t \<le> Suc (branch_spare ?t)"
        using pool_spare_get(2) [OF R(3) g] by (cases "branch_spare t") auto
      have e: "walk h2 (rroot ?t) (p @ [?i]) \<noteq> 0" using S(3) False by simp
      have full: "walk h2 (rroot t) ((p @ [?i]) @ digits (Suc k) ?w) = walk h (rroot t) ((p @ [?i]) @ digits (Suc k) ?w)"
        using S(4) Suc(3,4) by (simp add: mask_unat del: digits.simps)
      have dig: "p @ digits (Suc (Suc k)) w = (p @ [?i]) @ digits (Suc k) ?w" by (simp add: mask_unat)
      note IH = Suc.IH [OF S(2) p e, of ?w False]
      show ?thesis
      proof (cases "grow_path (cap (Suc k)) ?w e False ?t h2")
        case None
        then show ?thesis using IH eq S(3) sp by auto
      next
        case (Some r)
        obtain leaf occ t' h' where r: "r = (leaf, occ, t', h')" by (cases r)
        have "occ = (walk h (rroot t) ((p @ [?i]) @ digits (Suc k) ?w) \<noteq> 0)" "leaf = 0 \<longrightarrow> pool_spare (leaf_pool t) F = 0"
            "leaf \<noteq> 0 \<longrightarrow> leaf_added h2 ?t d F L (X' \<union> Y) ((p @ [?i]) @ digits (Suc k) ?w) leaf t' h'"
          using IH Some r S(3) full by auto
        moreover from this(3) have "leaf \<noteq> 0 \<longrightarrow> leaf_added h t d F L (X \<union> Y) ((p @ [?i]) @ digits (Suc k) ?w) leaf t' h'"
          using leaf_added_after [OF _ S(6,5,4), of ?t] by (simp del: digits.simps)
        ultimately show ?thesis unfolding eq Some r dig by simp
      qed
    qed
  qed
qed

section \<open>The tree as its clients see it\<close>

text \<open>
  \<open>radix_tree_at h t m F L Z\<close>: the tree maps each key \<open>k\<close> to its element \<open>m k\<close>, null when it has none.
  \<open>F\<close> are the recycled leaves, \<open>L\<close> the leaves handed out, \<open>Z\<close> the memory objects of the tree.
\<close>

definition radix_tree_at :: "heap \<Rightarrow> radix_tree \<Rightarrow> (u64 \<Rightarrow> addr) \<Rightarrow> addr list \<Rightarrow> addr list \<Rightarrow> (addr \<times> nat) set \<Rightarrow> bool" where
  "radix_tree_at h t m F L Z \<longleftrightarrow> (\<exists>d B X Y. radix_at h t d B F L X Y \<and> m = radix_map h t d \<and> Z = X \<union> Y)"

lemma radix_tree_atI: "radix_at h t d B F L X Y \<Longrightarrow> radix_tree_at h t (radix_map h t d) F L (X \<union> Y)"
  unfolding radix_tree_at_def by blast

lemma radix_tree_atD:
  assumes "radix_tree_at h t m F L Z"
  shows "heap_ok h" "Z \<subseteq> set (blocks h)" "m k \<noteq> 0 \<Longrightarrow> m k \<in> set L" "m k \<noteq> 0 \<Longrightarrow> m k = m k' \<Longrightarrow> k = k'" "distinct L"
    "8 \<le> esize (leaf_pool t)" "e \<in> set L \<Longrightarrow> \<exists>c \<in> Z. fst c \<le> e \<and> e + esize (leaf_pool t) \<le> fst c + snd c"
    "e \<in> set L \<Longrightarrow> 0 < e \<and> e < 2 ^ 64" "rcapacity t < k \<Longrightarrow> m k = 0"
proof -
  obtain d B X Y where at: "radix_at h t d B F L X Y" "m = radix_map h t d" "Z = X \<union> Y"
    using assms by (auto simp: radix_tree_at_def)
  note R = radix_atD [OF at(1)] and P = pool_atD [OF radix_atD(4) [OF at(1)]]
  show "heap_ok h" "distinct L" "8 \<le> esize (leaf_pool t)" by (rule R(9) P(3,4))+
  show "Z \<subseteq> set (blocks h)" using pool_atD(2) [OF R(3)] P(2) at(3) by blast
  show "m k \<noteq> 0 \<Longrightarrow> m k \<in> set L"
    using nodesD(2) [OF R(8), of "key_path d k"] by (auto simp: at(2) radix_map_def split: if_splits)
  show "m k \<noteq> 0 \<Longrightarrow> m k = m k' \<Longrightarrow> k = k'"
    using nodesD(4) [OF R(8), of "key_path d k" "key_path d k'"] key_path_inj [OF R(1), of k k']
    by (auto simp: at(2) radix_map_def split: if_splits)
  show "e \<in> set L \<Longrightarrow> \<exists>c \<in> Z. fst c \<le> e \<and> e + esize (leaf_pool t) \<le> fst c + snd c" using P(6) at(3) by blast
  show "e \<in> set L \<Longrightarrow> 0 < e \<and> e < 2 ^ 64" by (rule P(5))
  show "rcapacity t < k \<Longrightarrow> m k = 0" by (auto simp: at(2) radix_map_def R(2))
qed

lemma radix_tree_get: "radix_tree_at h t m F L Z \<Longrightarrow> cx_radix_tree_get t key h = Some (m key)"
  using radix_get_eq unfolding radix_tree_at_def by blast

lemma radix_tree_outside:
  assumes "radix_tree_at h t m F L Z" and f: "frame A A' h h'" and dis: "Z \<inter> A = {}"
  shows "radix_tree_at h' t m F L Z" "same_leaves h (leaf_pool t) L h'"
proof -
  obtain d B X Y where at: "radix_at h t d B F L X Y" "m = radix_map h t d" "Z = X \<union> Y"
    using assms(1) by (auto simp: radix_tree_at_def)
  note O = radix_outside [OF at(1) f, unfolded at(3) [symmetric], OF dis]
  have "radix_map h' t d k = radix_map h t d k" for k using same_treeD(1) [OF O(2)] by (simp add: radix_map_def)
  then have "m = radix_map h' t d" using at(2) by auto
  then show "radix_tree_at h' t m F L Z" using radix_tree_atI [OF O(1)] at(3) by simp
  show "same_leaves h (leaf_pool t) L h'" by (rule same_tree_leaves [OF O(2)])
qed

text \<open>A new element for a key.\<close>

definition element_added :: "heap \<Rightarrow> radix_tree \<Rightarrow> (u64 \<Rightarrow> addr) \<Rightarrow> addr list \<Rightarrow> addr list \<Rightarrow> (addr \<times> nat) set \<Rightarrow>
    u64 \<Rightarrow> addr \<Rightarrow> radix_tree \<Rightarrow> heap \<Rightarrow> (addr \<times> nat) set \<Rightarrow> bool" where
  "element_added h t m F L Z key e t' h' Z' \<longleftrightarrow> radix_tree_at h' t' (m(key := e)) (tl F) (L @ [e]) Z' \<and> e \<notin> set L \<and>
     same_leaves h (leaf_pool t) L h' \<and> frame Z Z' h h' \<and> pool_element_size (leaf_pool t') = pool_element_size (leaf_pool t)"

text \<open>Room for the worst case: eight new roots, seven new branches and a leaf.\<close>

definition radix_room :: "radix_tree \<Rightarrow> addr list \<Rightarrow> bool" where
  "radix_room t F \<longleftrightarrow> 15 \<le> branch_spare t \<and> 1 \<le> pool_spare (leaf_pool t) F"

lemma leaf_added_element:
  assumes a: "leaf_added h1 t1 d F L (X1 \<union> Y) (key_path d key) e t' h'" and key: "key \<le> cap d" and d: "rcapacity t' = cap d"
    and m: "radix_map h1 t1 d = m" and s: "same_leaves h (leaf_pool t) L h1" and f: "frame Z (X1 \<union> Y) h h1" and lp: "leaf_pool t1 = leaf_pool t"
  shows "\<exists>Z'. element_added h t m F L Z key e t' h' Z'"
proof -
  obtain B' X' Y' where A: "radix_at h' t' d B' (tl F) (L @ [e]) X' Y'" "frame (X1 \<union> Y) (X' \<union> Y') h1 h'" "e \<notin> set L"
      "rroot t' = rroot t1" "\<forall>bs. is_path bs \<longrightarrow> length bs = d \<longrightarrow> walk h' (rroot t1) bs = (if bs = key_path d key then e else walk h1 (rroot t1) bs)"
      "same_leaves h1 (leaf_pool t) L h'" "pool_element_size (leaf_pool t') = pool_element_size (leaf_pool t)"
    using a lp unfolding leaf_added_def by auto
  have "radix_map h' t' d k = (m(key := e)) k" for k
    using A(4,5) key m key_path_inj [OF radix_atD(1) [OF A(1)], of k key] by (auto simp: radix_map_def)
  then have "radix_map h' t' d = m(key := e)" by blast
  then have "radix_tree_at h' t' (m(key := e)) (tl F) (L @ [e]) (X' \<union> Y')" using radix_tree_atI [OF A(1)] by simp
  moreover have "same_leaves h (leaf_pool t) L h'" by (rule same_leaves_trans [OF s A(6)]) simp
  ultimately show ?thesis using A(3,7) frame_trans [OF f A(2)] unfolding element_added_def by blast
qed

lemma new_leaf_spec:
  assumes "radix_tree_at h t m F L Z"
  shows "case cx_radix_tree_new_leaf t key h of
      None \<Rightarrow> \<not> radix_room t F
    | Some (leaf, t', h') \<Rightarrow>
        if rcapacity t = 0 \<and> m key \<noteq> 0 then leaf = m key \<and> t' = t \<and> h' = h
        else (\<exists>e. leaf = (if m key \<noteq> 0 then 0 else e) \<and> (radix_room t F \<longrightarrow> e \<noteq> 0) \<and>
          (e \<noteq> 0 \<longrightarrow> (\<exists>Z'. element_added h t m F L Z key e t' h' Z')))"
proof -
  obtain d B X Y where at: "radix_at h t d B F L X Y" "m = radix_map h t d" "Z = X \<union> Y"
    using assms by (auto simp: radix_tree_at_def)
  note R = radix_atD [OF at(1)]
  show ?thesis
  proof (cases "rcapacity t = 0 \<and> m key \<noteq> 0")
    case True
    then have d: "d = 0" using R(1,2) cap_pos [of d] by auto
    then have k: "key = 0" "m key = rroot t" using True at(2) by (auto simp: radix_map_def key_path_def cap_simps(1) split: if_splits)
    moreover have "resize key t h = Some (True, t, h)" using k(1) by (subst resize.simps) auto
    ultimately have "cx_radix_tree_new_leaf t key h = Some (m key, t, h)"
      using True by (simp add: cx_radix_tree_new_leaf_def grow_path.simps [of 0])
    then show ?thesis using True by simp
  next
    case False
    obtain ok t1 h1 where r: "resize key t h = Some (ok, t1, h1)" "8 - d \<le> branch_spare t \<longrightarrow> ok"
        "ok \<longrightarrow> (\<exists>d' B' X'. d \<le> d' \<and> key \<le> cap d' \<and> radix_at h1 t1 d' B' F L X' Y \<and> radix_map h1 t1 d' = radix_map h t d \<and>
          same_leaves h (leaf_pool t) L h1 \<and> frame (X \<union> Y) (X' \<union> Y) h h1 \<and> leaf_pool t1 = leaf_pool t \<and>
          branch_spare t \<le> branch_spare t1 + (d' - d))"
      using resize_spec [OF at(1), of key] by blast
    show ?thesis
    proof (cases ok)
      case False
      then have "\<not> radix_room t F" using r(2) by (auto simp: radix_room_def)
      then show ?thesis using r(1) False \<open>\<not> (rcapacity t = 0 \<and> m key \<noteq> 0)\<close> by (auto simp: cx_radix_tree_new_leaf_def)
    next
      case True
      then obtain d' B' X' where D: "d \<le> d'" "key \<le> cap d'" "radix_at h1 t1 d' B' F L X' Y" "radix_map h1 t1 d' = m"
          "same_leaves h (leaf_pool t) L h1" "frame Z (X' \<union> Y) h h1" "leaf_pool t1 = leaf_pool t"
          "branch_spare t \<le> branch_spare t1 + (d' - d)"
        using r(3) at(2,3) by blast
      note R1 = radix_atD [OF D(3)]
      show ?thesis
      proof (cases "rroot t1 = 0")
        case root: True
        then have d': "d' = 0" using R1(7) by auto
        obtain e lp h2 where g: "cx_prealloc_pool_get (leaf_pool t1) h1 = Some (e, lp, h2)" using leaf_get [OF D(3)] by blast
        let ?t = "t1\<lparr>leaf_pool := lp, rroot := e\<rparr>"
        have eq: "cx_radix_tree_new_leaf t key h = Some (e, ?t, h2)"
          using r(1) True root g by (simp add: cx_radix_tree_new_leaf_def)
        have m0: "m key = 0" using root D(4) by (auto simp: radix_map_def)
        have "\<exists>Z'. element_added h t m F L Z key e ?t h2 Z'" if e: "e \<noteq> 0"
        proof -
          obtain Y' where G: "e < 2 ^ 64" "e \<notin> set L" "pool_element_size lp = pool_element_size (leaf_pool t1)"
              "same_tree h1 (rroot t1) d' (leaf_pool t1) (set L) h2"
              "radix_at h2 (t1\<lparr>leaf_pool := lp\<rparr>) d' B' (tl F) (L @ [e]) X' Y'" "frame (X' \<union> Y) (X' \<union> Y') h1 h2"
            using leaf_get [OF D(3)] g e by auto
          have "nodes_ok (walk h2 e) 0 (set B') (set (L @ [e]))" unfolding nodes_ok_def by auto
          then have A: "radix_at h2 ?t 0 B' (tl F) (L @ [e]) X' Y'" using G(5) d' by (simp add: radix_at_def)
          have "radix_map h2 ?t 0 k = (m(key := e)) k" for k
            using D(2,4) d' root by (auto simp: radix_map_def cap_simps(1) key_path_def)
          then have "radix_map h2 ?t 0 = m(key := e)" by blast
          moreover have "same_leaves h (leaf_pool t) L h2"
            using same_leaves_trans [OF D(5) same_tree_leaves [OF G(4)]] D(7) by simp
          ultimately show ?thesis
            using radix_tree_atI [OF A] G(2,3) D(7) frame_trans [OF D(6) G(6)] unfolding element_added_def by auto
        qed
        moreover have "e \<noteq> 0" if "radix_room t F"
          using pool_spare_get(1) [OF R1(4) g] that D(7) by (auto simp: radix_room_def)
        ultimately show ?thesis using eq m0 by auto
      next
        case root: False
        have "d' \<noteq> 0"
        proof
          assume "d' = 0"
          then have "rcapacity t = 0" "m key \<noteq> 0"
            using D(1,2,4) R(2) root by (auto simp: radix_map_def cap_simps(1) key_path_def)
          then show False using False by simp
        qed
        then obtain k where k: "d' = Suc k" by (cases d') auto
        have path: "digits (Suc k) (prepare_key t1 key) = key_path d' key" using prepare_key_digits [OF R1(1,2)] k by simp
        have occ: "(walk h1 (rroot t1) (key_path d' key) \<noteq> 0) = (m key \<noteq> 0)"
          using D(2,4) by (auto simp: radix_map_def)
        have sp: "\<not> radix_room t F" if "branch_spare t1 < k \<or> pool_spare (leaf_pool t1) F = 0"
          using that D(7,8) k R1(1) by (auto simp: radix_room_def)
        note G = grow_path_spec [OF D(3), of "[]" k "prepare_key t1 key" False, unfolded path append_Nil walk.simps occ]
        have new: "cx_radix_tree_new_leaf t key h =
            map_option (\<lambda>(node, occ, t, h). (if occ then 0 else node, t, h)) (grow_path (cap (Suc k)) (prepare_key t1 key) (rroot t1) False t1 h1)"
          using r(1) True root R1(2) k
          by (cases "grow_path (cap (Suc k)) (prepare_key t1 key) (rroot t1) False t1 h1") (auto simp: cx_radix_tree_new_leaf_def)
        show ?thesis
        proof (cases "grow_path (cap (Suc k)) (prepare_key t1 key) (rroot t1) False t1 h1")
          case None
          then show ?thesis using G root k new sp by auto
        next
          case (Some x)
          obtain e occ t' h' where x: "x = (e, occ, t', h')" by (cases x)
          have G': "occ = (m key \<noteq> 0)" "e = 0 \<longrightarrow> pool_spare (leaf_pool t1) F = 0"
              "e \<noteq> 0 \<longrightarrow> leaf_added h1 t1 d' F L (X' \<union> Y) (key_path d' key) e t' h'"
            using G root k Some x by simp_all
          have "\<exists>Z'. element_added h t m F L Z key e t' h' Z'" if "e \<noteq> 0"
          proof -
            have l: "leaf_added h1 t1 d' F L (X' \<union> Y) (key_path d' key) e t' h'" using G'(3) that by simp
            then have "rcapacity t' = cap d'" using radix_atD(2) unfolding leaf_added_def by blast
            then show ?thesis by (rule leaf_added_element [OF l D(2) _ D(4-7)])
          qed
          then show ?thesis using new Some x G'(1,2) sp False by auto
        qed
      qed
    qed
  qed
qed

lemma radix_tree_write:
  assumes "radix_tree_at h t m F L Z" "e \<in> set L" "k + length bs \<le> esize (leaf_pool t)"
  shows "valid h (e + k) (length bs)" "radix_tree_at (set_bytes (e + k) bs h) t m F L Z" "frame Z Z h (set_bytes (e + k) bs h)"
    "\<And>x. x \<in> set L \<Longrightarrow> x \<noteq> e \<Longrightarrow>
      bytes_at (set_bytes (e + k) bs h) x (esize (leaf_pool t)) = bytes_at h x (esize (leaf_pool t))"
proof -
  obtain d B X Y where at: "radix_at h t d B F L X Y" "m = radix_map h t d" "Z = X \<union> Y"
    using assms(1) by (auto simp: radix_tree_at_def)
  note R = radix_atD [OF at(1)]
  note W = pool_at_write [OF R(4) assms(2,3)]
  let ?h = "set_bytes (e + k) bs h"
  show "valid h (e + k) (length bs)" by (rule W(1))
  show "\<And>x. x \<in> set L \<Longrightarrow> x \<noteq> e \<Longrightarrow> bytes_at ?h x (esize (leaf_pool t)) = bytes_at h x (esize (leaf_pool t))"
    using W(4) by simp
  have XY: "X \<subseteq> set (blocks h)" "Y \<inter> X = {}" using R(5) pool_atD(2) [OF R(3)] by auto
  show "frame Z Z h ?h" using frame_left [OF W(3) XY] at(3) by (simp add: Un_commute)
  note b = pool_at_outside [OF R(3) W(3) R(5)]
  have w: "walk ?h (rroot t) bs = walk h (rroot t) bs" if "is_path bs" "length bs \<le> d" for bs
    by (rule walks_same [OF R(8) _ that]) (use b(2) R(6) in auto)
  have "nodes_ok (walk ?h (rroot t)) d (set B) (set L)" by (rule nodes_cong [OF R(8) w])
  then have "radix_at ?h t d B F L X Y" using at(1) b(1) W(2) by (simp add: radix_at_def)
  moreover have "radix_map ?h t d k = radix_map h t d k" for k using w by (simp add: radix_map_def)
  then have "radix_map ?h t d = m" using at(2) by blast
  ultimately show "radix_tree_at ?h t m F L Z" using radix_tree_atI at(3) by metis
qed

section \<open>Deleting a leaf\<close>

lemma find_node_spec:
  assumes at: "radix_at h t d B F L X Y"
  shows "is_path p \<Longrightarrow> length p + k = d \<Longrightarrow>
    \<exists>c s n. find_node (cap k) w slot (walk h (rroot t) p) h = Some (c, s, n) \<and>
      (if c \<noteq> 0 then walk h (rroot t) (p @ digits k w) = 0
       else n = walk h (rroot t) (p @ digits k w) \<and>
         (if k = 0 then s = slot
          else (\<exists>q i. p @ digits k w = q @ [i] \<and> walk h (rroot t) q \<noteq> 0 \<and> s = Some (walk h (rroot t) q + 8 * i))))"
proof (induction k arbitrary: p w slot)
  case 0
  then show ?case by (simp add: find_node.simps [of 0] cap_simps(1))
next
  case (Suc k)
  note R = radix_atD [OF at]
  let ?q = "walk h (rroot t) p" and ?b = "unat w mod 256" and ?w = "drop_bit 8 w"
  have c: "cap (Suc k) \<noteq> 0" "drop_bit 8 (cap (Suc k)) = cap k"
    using cap_pos [of "Suc k"] cap_simps(2) [of k] Suc.prems R(1) by auto
  show ?case
  proof (cases "?q = 0")
    case True
    then show ?thesis using c(1) by (simp add: find_node.simps [of "cap (Suc k)"] walk_append)
  next
    case False
    then have q: "?q \<in> set B" using Suc.prems by (intro nodesD(1) [OF R(8)]) auto
    have w: "walk h (rroot t) (p @ [?b]) = unat (u64_at h (?q + 8 * ?b))" using False by (simp add: walk_append)
    have eq: "find_node (cap (Suc k)) w slot ?q h = find_node (cap k) ?w (Some (?q + 8 * ?b)) (walk h (rroot t) (p @ [?b])) h"
      using c False load_child_eq [OF R(3,6) q] w by (subst find_node.simps) (simp add: mask_unat)
    obtain c' s n where IH: "find_node (cap k) ?w (Some (?q + 8 * ?b)) (walk h (rroot t) (p @ [?b])) h = Some (c', s, n)"
        "if c' \<noteq> 0 then walk h (rroot t) ((p @ [?b]) @ digits k ?w) = 0
         else n = walk h (rroot t) ((p @ [?b]) @ digits k ?w) \<and>
           (if k = 0 then s = Some (?q + 8 * ?b)
            else (\<exists>q i. (p @ [?b]) @ digits k ?w = q @ [i] \<and> walk h (rroot t) q \<noteq> 0 \<and> s = Some (walk h (rroot t) q + 8 * i)))"
      using Suc.IH [of "p @ [?b]" ?w "Some (?q + 8 * ?b)"] Suc.prems by auto
    show ?thesis
    proof (cases "k = 0")
      case True
      then show ?thesis using eq IH False by (auto simp: mask_unat)
    next
      case k: False
      then show ?thesis using eq IH by (cases "c' = 0") (simp_all add: mask_unat)
    qed
  qed
qed

lemma digits_AND_cap: "d \<le> 8 \<Longrightarrow> key_path d (key AND cap d) = key_path d key"
  using digits_take [of d "8 * d" key] by (simp add: key_path_def cap_def take_bit_eq_mask)

lemma AND_cap: "d \<le> 8 \<Longrightarrow> key AND cap d \<le> cap d"
  by (rule word_and_le1)

lemma recycle_leaf:
  assumes "pool_at h p F L X" "e \<noteq> 0 \<Longrightarrow> e \<in> set L"
  shows "\<exists>p' h'. cx_prealloc_pool_recycle p e h = Some (p', h') \<and>
    pool_at h' p' (if e = 0 then F else e # F) (if e = 0 then L else remove1 e L) X \<and>
    pool_element_size p' = pool_element_size p \<and> frame X X h h' \<and>
    (\<forall>x \<in> set L. x \<noteq> e \<longrightarrow> bytes_at h' x (esize p) = bytes_at h x (esize p))"
proof (cases "e = 0")
  case True
  then show ?thesis using assms(1) frame_refl [OF pool_atD(2) [OF assms(1)]] by (simp add: cx_prealloc_pool_recycle_def)
next
  case False
  then show ?thesis using pool_at_recycle [OF assms(1) assms(2)] by simp
qed

lemma delete_spec:
  fixes key :: u64
  assumes "radix_tree_at h t m F L Z"
  defines "k \<equiv> key AND rcapacity t"
  shows "\<exists>rv t' h'. cx_radix_tree_delete t key h = Some (rv, t', h') \<and> (rv = 0 \<or> rv = - 1 \<and> m k = 0) \<and>
    radix_tree_at h' t' (m(k := 0)) (if m k = 0 then F else m k # F) (if m k = 0 then L else remove1 (m k) L) Z \<and>
    frame Z Z h h' \<and> rcapacity t' = rcapacity t \<and> pool_element_size (leaf_pool t') = pool_element_size (leaf_pool t) \<and>
    (\<forall>x \<in> set L. x \<noteq> m k \<longrightarrow> bytes_at h' x (esize (leaf_pool t)) = bytes_at h x (esize (leaf_pool t)))"
proof -
  obtain d B X Y where at: "radix_at h t d B F L X Y" "m = radix_map h t d" "Z = X \<union> Y"
    using assms(1) by (auto simp: radix_tree_at_def)
  note R = radix_atD [OF at(1)]
  let ?p = "key_path d key"
  have k: "k \<le> cap d" "key_path d k = ?p" using R(1,2) AND_cap digits_AND_cap by (auto simp: k_def)
  have mk: "m k = walk h (rroot t) ?p" using k at(2) by (simp add: radix_map_def)
  have Zb: "X \<subseteq> set (blocks h)" "Y \<subseteq> set (blocks h)" using pool_atD(2) [OF R(3)] pool_atD(2) [OF R(4)] by auto
  obtain c s n where f: "find_node (cap d) (prepare_key t key) None (rroot t) h = Some (c, s, n)"
      "if c \<noteq> 0 then m k = 0
       else n = m k \<and> (if d = 0 then s = None
         else (\<exists>q i. ?p = q @ [i] \<and> walk h (rroot t) q \<noteq> 0 \<and> s = Some (walk h (rroot t) q + 8 * i)))"
    using find_node_spec [OF at(1), of "[]" d "prepare_key t key" None]
    unfolding prepare_key_digits [OF R(1,2)] mk append_Nil walk.simps by auto
  show ?thesis
  proof (cases "c = 0")
    case False
    then have "cx_radix_tree_delete t key h = Some (- 1, t, h)" "m k = 0" "m(k := 0) = m"
      using f R(2) by (auto simp: cx_radix_tree_delete_def)
    then show ?thesis using assms(1) frame_refl [of Z h] Zb at(3) by simp
  next
    case True
    have n: "n = m k" using f(2) True by simp
    have mL: "m k \<in> set L" if "m k \<noteq> 0" using radix_tree_atD(3) [OF assms(1) that] .
    obtain lp h1 where r: "cx_prealloc_pool_recycle (leaf_pool t) (m k) h = Some (lp, h1)"
        "pool_at h1 lp (if m k = 0 then F else m k # F) (if m k = 0 then L else remove1 (m k) L) Y"
        "pool_element_size lp = pool_element_size (leaf_pool t)" "frame Y Y h h1"
        "\<forall>x \<in> set L. x \<noteq> m k \<longrightarrow> bytes_at h1 x (esize (leaf_pool t)) = bytes_at h x (esize (leaf_pool t))"
      using recycle_leaf [OF R(4) mL] by blast
    let ?F = "if m k = 0 then F else m k # F" and ?L = "if m k = 0 then L else remove1 (m k) L"
    note b = pool_at_outside [OF R(3) r(4) R(5)]
    have XY: "Y \<inter> X = {}" using R(5) by blast
    have f1: "frame Z Z h h1" using frame_left [OF r(4) Zb(1) XY] at(3) by (simp add: Un_commute)
    have w1: "walk h1 (rroot t) bs = walk h (rroot t) bs" if "is_path bs" "length bs \<le> d" for bs
      by (rule walks_same [OF R(8) _ that]) (use b(2) R(6) in auto)
    have L': "set L - {m k} \<subseteq> set ?L" using pool_atD(3) [OF R(4)] by auto
    show ?thesis
    proof (cases "d = 0")
      case True
      let ?t = "t\<lparr>leaf_pool := lp, rroot := 0\<rparr>"
      have eq: "cx_radix_tree_delete t key h = Some (0, ?t, h1)"
        using f True \<open>c = 0\<close> R(2) r(1) n by (simp add: cx_radix_tree_delete_def)
      have "nodes_ok (walk h1 0) 0 (set B) (set ?L)" unfolding nodes_ok_def by auto
      then have "radix_at h1 ?t d B ?F ?L X Y" using at(1) b(1) r(2) True by (simp add: radix_at_def)
      moreover have "radix_map h1 ?t d j = (m(k := 0)) j" for j
        using at(2) k(1) True by (auto simp: radix_map_def cap_simps(1))
      then have "radix_map h1 ?t d = m(k := 0)" by blast
      ultimately have "radix_tree_at h1 ?t (m(k := 0)) ?F ?L Z" using radix_tree_atI at(3) by metis
      then show ?thesis using eq f1 r(3,5) by auto
    next
      case d: False
      then obtain q i where q: "?p = q @ [i]" "walk h (rroot t) q \<noteq> 0" "s = Some (walk h (rroot t) q + 8 * i)"
        using f(2) \<open>c = 0\<close> by auto
      let ?t = "t\<lparr>leaf_pool := lp\<rparr>" and ?q = "walk h1 (rroot t) q"
      have ip: "is_path q" "i < 256" "Suc (length q) = d"
        using is_path_key(1) [of d key] length_key_path [of d key] unfolding q(1) by auto
      have wq: "?q = walk h (rroot t) q" using w1 ip by simp
      then have qB: "?q \<in> set B" using nodesD(1) [OF R(8) ip(1) q(2)] ip(3) by simp
      let ?h = "set_bytes (?q + 8 * i) (le_bytes 8 (0 :: u64)) h1"
      have len: "8 * i + length (le_bytes 8 (0 :: u64)) \<le> esize (branch_pool t)" using ip(2) R(6) by simp
      note W = pool_at_write [OF b(1) qB len]
      note l = pool_at_outside [OF r(2) W(3) XY]
      have "store_u64 (?q + 8 * i) 0 h1 = Some ?h" using W(1) by (simp add: mem_step)
      then have eq: "cx_radix_tree_delete t key h = Some (0, ?t, ?h)"
        using f \<open>c = 0\<close> R(2) r(1) n q(3) wq by (simp add: cx_radix_tree_delete_def)
      have f2: "frame Z Z h ?h"
        using frame_trans [OF f1 [unfolded at(3)] frame_left [OF W(3) pool_atD(2) [OF r(2)] R(5)]] at(3) by (simp add: add.assoc)
      have n1: "nodes_ok (walk h1 (rroot t)) d (set B) (set L)" by (rule nodes_cong [OF R(8) w1])
      have apart: "x + 2048 \<le> y \<or> y + 2048 \<le> x" if "x \<in> set B" "y \<in> set B" "x \<noteq> y" for x y
        using pool_atD(7) [OF R(3) that] R(6) by simp
      have w2: "walk ?h (rroot t) bs = ((walk h1 (rroot t))(?p := 0)) bs" if "is_path bs" "length bs \<le> d" for bs
        using walk_store [OF n1 apart ip(1) _ _ ip(2), of 0] ip(3) that q wq by simp
      have "nodes_ok ((walk h1 (rroot t))(?p := 0)) d (set B) (set L - {m k})"
        using nodes_delete_leaf [OF n1, of ?p] w1 [of ?p] mk by simp
      then have "nodes_ok ((walk h1 (rroot t))(?p := 0)) d (set B) (set ?L)" by (rule nodes_mono [OF _ order_refl L'])
      then have "nodes_ok (walk ?h (rroot t)) d (set B) (set ?L)" by (rule nodes_cong [OF _ w2])
      then have "radix_at ?h ?t d B ?F ?L X Y" using at(1) W(2) l(1) by (simp add: radix_at_def)
      moreover have "radix_map ?h ?t d j = (m(k := 0)) j" for j
      proof (cases "j \<le> cap d")
        case True
        have "walk ?h (rroot t) (key_path d j) = ((walk h1 (rroot t))(?p := 0)) (key_path d j)" by (rule w2) simp_all
        moreover have "walk h1 (rroot t) (key_path d j) = walk h (rroot t) (key_path d j)" by (rule w1) simp_all
        moreover have "key_path d j = ?p \<longleftrightarrow> j = k" using key_path_inj [OF R(1) True k(1)] k(2) by auto
        ultimately show ?thesis using True at(2) by (simp add: radix_map_def)
      next
        case False
        then show ?thesis using at(2) k(1) by (auto simp: radix_map_def)
      qed
      then have "radix_map ?h ?t d = m(k := 0)" by blast
      ultimately have "radix_tree_at ?h ?t (m(k := 0)) ?F ?L Z" using radix_tree_atI at(3) by metis
      moreover have "bytes_at ?h x (esize (leaf_pool t)) = bytes_at h x (esize (leaf_pool t))" if "x \<in> set L" "x \<noteq> m k" for x
        using l(2) [of x] r(3,5) that by auto
      ultimately show ?thesis using eq f2 r(3) by auto
    qed
  qed
qed

section \<open>Storing a value, initialisation, cleanup\<close>

lemma readable_apart:
  assumes ok: "heap_ok h" and r: "readable h Z v n" and c: "c \<in> Z" "Z \<subseteq> set (blocks h)" "fst c \<le> e" "e + n \<le> fst c + snd c"
  shows "n = 0 \<or> e + n \<le> v \<or> v + n \<le> e"
proof (cases "n = 0")
  case False
  then obtain s m where s: "(s, m) \<in> set (blocks h)" "(s, m) \<notin> Z" "s \<le> v" "v + n \<le> s + m"
    using r by (auto simp: readable_def)
  have "c \<in> set (blocks h)" "(s, m) \<noteq> c" using c(1,2) s(2) by auto
  then have "s + max m 1 \<le> fst c \<or> fst c + max (snd c) 1 \<le> s"
    using heap_ok_disjoint [OF ok s(1), of c] by simp
  then show ?thesis using s(3,4) c(3,4) by auto
qed simp

lemma leaf_memcpy:
  assumes at: "radix_tree_at h t m F L Z" and e: "e \<in> set L" and v: "readable h Z v n" and n: "k + n \<le> esize (leaf_pool t)"
  shows "memcpy (e + k) v n h = Some (set_bytes (e + k) (bytes_at h v n) h)"
proof -
  note D = radix_tree_atD [OF at]
  obtain c where c: "c \<in> Z" "fst c \<le> e" "e + esize (leaf_pool t) \<le> fst c + snd c" using D(7) [OF e] by blast
  have "valid h (e + k) n" using radix_tree_write(1) [OF at e, of k "bytes_at h v n"] n by simp
  moreover have "n = 0 \<or> e + k + n \<le> v \<or> v + n \<le> e + k"
    by (rule readable_apart [OF D(1) v c(1) D(2)]) (use c n in auto)
  ultimately show ?thesis using memcpy_valid [OF readable_valid [OF v]] by blast
qed

lemma radix_put_spec:
  assumes at: "radix_tree_at h t m F L Z" and absent: "m key = 0" and v: "readable h Z value (esize (leaf_pool t))"
  shows "case cx_radix_tree_put t key value h of
      None \<Rightarrow> \<not> radix_room t F
    | Some (leaf, t', h') \<Rightarrow> (radix_room t F \<longrightarrow> leaf \<noteq> 0) \<and>
        (leaf \<noteq> 0 \<longrightarrow> (\<exists>Z'. element_added h t m F L Z key leaf t' h' Z') \<and>
          bytes_at h' leaf (esize (leaf_pool t)) = bytes_at h value (esize (leaf_pool t)))"
proof (cases "cx_radix_tree_new_leaf t key h")
  case None
  then show ?thesis using new_leaf_spec [OF at, of key] by (simp add: cx_radix_tree_put_def)
next
  case (Some x)
  obtain leaf t1 h1 where x: "x = (leaf, t1, h1)" by (cases x)
  have N: "radix_room t F \<longrightarrow> leaf \<noteq> 0" "leaf \<noteq> 0 \<longrightarrow> (\<exists>Z'. element_added h t m F L Z key leaf t1 h1 Z')"
    using new_leaf_spec [OF at, of key] Some x absent by auto
  show ?thesis
  proof (cases "leaf = 0")
    case True
    then show ?thesis using Some x N(1) by (simp add: cx_radix_tree_put_def)
  next
    case False
    let ?n = "esize (leaf_pool t)" and ?bs = "bytes_at h value (esize (leaf_pool t))"
    obtain Z' where E: "radix_tree_at h1 t1 (m(key := leaf)) (tl F) (L @ [leaf]) Z'" "leaf \<notin> set L" "same_leaves h (leaf_pool t) L h1"
        "frame Z Z' h h1" "pool_element_size (leaf_pool t1) = pool_element_size (leaf_pool t)"
      using N(2) False unfolding element_added_def by blast
    note V = readable_frame [OF E(4) v]
    have l: "leaf \<in> set (L @ [leaf])" by simp
    let ?h = "set_bytes (leaf + 0) ?bs h1"
    have "memcpy leaf value ?n h1 = Some ?h"
      using leaf_memcpy [OF E(1) l V(1), of 0] V(2) E(5) by simp
    then have eq: "cx_radix_tree_put t key value h = Some (leaf, t1, ?h)"
      using Some x False E(5) by (simp add: cx_radix_tree_put_def)
    have len: "0 + length ?bs \<le> esize (leaf_pool t1)" using E(5) by simp
    note W = radix_tree_write [OF E(1) l len]
    have "bytes_at ?h y ?n = bytes_at h y ?n" if "y \<in> set L" for y
    proof -
      have "bytes_at ?h y ?n = bytes_at h1 y ?n" using W(4) [of y] that E(2,5) by auto
      then show ?thesis using E(3) that by (simp add: same_leaves_def)
    qed
    then have "element_added h t m F L Z key leaf t1 ?h Z'"
      using E(2,5) W(2) frame_trans [OF E(4) W(3)] by (simp add: element_added_def same_leaves_def)
    moreover have "bytes_at ?h leaf ?n = ?bs" using bytes_at_set_prefix [of ?bs ?n leaf h1] by simp
    ultimately show ?thesis using eq False by auto
  qed
qed

lemma radix_init_at:
  assumes ok: "heap_ok h" and i: "cx_radix_tree_init es = Some t" and es: "unat es < 2 ^ 60"
  shows "radix_tree_at h t (\<lambda>_. 0) [] [] {}" "pool_element_size (leaf_pool t) = es"
proof -
  obtain bp lp where b: "cx_prealloc_pool_init2 8 2048 = Some bp" and l: "cx_prealloc_pool_init2 8 es = Some lp"
      and t: "t = \<lparr>rcapacity = 0, branch_pool = bp, leaf_pool = lp, rroot = 0\<rparr>"
    using i by (auto simp: cx_radix_tree_init_def cx_prealloc_pool_init_def bind_Some_iff)
  have B: "pool_inv h bp [] [] []" "pool_element_size bp = 2048" by (rule init_inv [OF ok b]; simp)+
  have Lp: "pool_inv h lp [] [] []" "pool_element_size lp = es" by (rule init_inv [OF ok l]; use es in simp)+
  have "pool_at h bp [] [] {}" "pool_at h lp [] [] {}" using B(1) Lp(1) by (auto simp: pool_at_def own_pool_def)
  then have "radix_at h t 0 [] [] [] {} {}" using B(2) by (simp add: radix_at_def t cap_simps(1) nodes_ok_def)
  moreover have "radix_map h t 0 = (\<lambda>_. 0)" by (rule ext) (simp add: radix_map_def t)
  ultimately show "radix_tree_at h t (\<lambda>_. 0) [] [] {}" unfolding radix_tree_at_def by fastforce
  show "pool_element_size (leaf_pool t) = es" using Lp(2) t by simp
qed

lemma radix_cleanup_spec:
  assumes "radix_tree_at h t m F L Z"
  shows "\<exists>h'. cx_radix_tree_cleanup t h = Some h' \<and> frame Z {} h h'"
proof -
  obtain d B X Y where at: "radix_at h t d B F L X Y" "Z = X \<union> Y" using assms by (auto simp: radix_tree_at_def)
  note R = radix_atD [OF at(1)]
  obtain h1 where c1: "cx_prealloc_pool_cleanup (branch_pool t) h = Some h1" "frame X {} h h1" using pool_at_cleanup [OF R(3)] by blast
  have YX: "Y \<inter> X = {}" "Y \<subseteq> set (blocks h)" using R(5) pool_atD(2) [OF R(4)] by auto
  obtain h2 where c2: "cx_prealloc_pool_cleanup (leaf_pool t) h1 = Some h2" "frame Y {} h1 h2"
    using pool_at_cleanup [OF pool_at_outside(1) [OF R(4) c1(2) YX(1)]] by blast
  have "frame (X \<union> Y) Y h h1" using frame_left [OF c1(2) YX(2)] R(5) by simp
  then have "frame Z {} h h2" using frame_trans [OF _ c2(2)] at(2) by blast
  then show ?thesis using c1(1) c2(1) by (simp add: cx_radix_tree_cleanup_def)
qed

section \<open>Runs\<close>

text \<open>A client that stores values and deletes keys, and stops at the first call that reports a failure.\<close>

datatype radix_op = RPut u64 addr | RDelete u64

fun radix_run :: "radix_op list \<Rightarrow> radix_tree \<Rightarrow> heap \<Rightarrow> (bool \<times> radix_tree \<times> heap) option" where
  "radix_run [] t h = Some (True, t, h)"
| "radix_run (RPut k v # xs) t h = do {
     (leaf, t, h) \<leftarrow> cx_radix_tree_put t k v h;
     if leaf = 0 then Some (False, t, h) else radix_run xs t h
   }"
| "radix_run (RDelete k # xs) t h = do {
     (rv, t, h) \<leftarrow> cx_radix_tree_delete t k h;
     if rv \<noteq> 0 then Some (False, t, h) else radix_run xs t h
   }"

text \<open>
  The specification: a partial map from keys to bytes. A key is stored when it is absent and
  deleted when it is present; the values lie in objects of the client.
\<close>

fun map_run :: "nat \<Rightarrow> heap \<Rightarrow> radix_op list \<Rightarrow> (u64 \<Rightarrow> u8 list option) \<Rightarrow> (u64 \<Rightarrow> u8 list option) option" where
  "map_run n h [] M = Some M"
| "map_run n h (RPut k v # xs) M =
     (if M k = None \<and> readable h {} v n then map_run n h xs (M(k := Some (bytes_at h v n))) else None)"
| "map_run n h (RDelete k # xs) M = (if M k \<noteq> None then map_run n h xs (M(k := None)) else None)"

definition radix_sim :: "nat \<Rightarrow> heap \<Rightarrow> (u64 \<Rightarrow> addr) \<Rightarrow> (u64 \<Rightarrow> u8 list option) \<Rightarrow> bool" where
  "radix_sim n h m M \<longleftrightarrow> (\<forall>k. M k = (if m k = 0 then None else Some (bytes_at h (m k) n)))"

lemma within_capacity:
  assumes at: "radix_tree_at h t m F L Z" and k: "m k \<noteq> 0"
  shows "k AND rcapacity t = k"
proof -
  have "\<not> rcapacity t < k" using radix_tree_atD(9) [OF at, of k] k by auto
  then have c: "k \<le> rcapacity t" by simp
  obtain d where d: "d \<le> 8" "rcapacity t = cap d" using at radix_atD(1,2) unfolding radix_tree_at_def by metis
  then have "unat k < 2 ^ (8 * d)" using c le_cap [of d k] by (simp add: power_mult)
  then have "unat (take_bit (8 * d) k) = unat k" by (simp add: unsigned_take_bit_eq take_bit_nat_eq_self)
  then have "take_bit (8 * d) k = k" by (rule unsigned_word_eqI)
  then show ?thesis using d(2) by (simp add: cap_def take_bit_eq_mask)
qed

lemma radix_run_spec:
  assumes "radix_tree_at h t m F L Z" "frame {} Z h0 h" "esize (leaf_pool t) = n" "radix_sim n h m M" "map_run n h0 xs M = Some M'"
    "radix_run xs t h = Some (True, t', h')"
  shows "\<exists>m' F' L' Z'. radix_tree_at h' t' m' F' L' Z' \<and> frame {} Z' h0 h' \<and> radix_sim n h' m' M'"
  using assms
proof (induction xs arbitrary: h t m F L Z M)
  case (Cons x xs)
  note at = Cons.prems(1) and f = Cons.prems(2) and n = Cons.prems(3) and S = Cons.prems(4)
  have in_L: "m k \<in> set L" if "m k \<noteq> 0" for k using radix_tree_atD(3) [OF at that] .
  show ?case
  proof (cases x)
    case (RPut k v)
    then have k: "M k = None" "readable h0 {} v n" "map_run n h0 xs (M(k := Some (bytes_at h0 v n))) = Some M'"
      using Cons.prems(5) by (auto split: if_splits)
    note V = readable_frame [OF f k(2)]
    have m0: "m k = 0" using S k(1) by (auto simp: radix_sim_def split: if_splits)
    obtain leaf t1 h1 where p: "cx_radix_tree_put t k v h = Some (leaf, t1, h1)" "leaf \<noteq> 0" "radix_run xs t1 h1 = Some (True, t', h')"
      using Cons.prems(6) RPut by (auto simp: bind_Some_iff split: if_splits)
    obtain Z1 where E: "element_added h t m F L Z k leaf t1 h1 Z1" "bytes_at h1 leaf n = bytes_at h v n"
      using radix_put_spec [OF at m0, of v] V(1) p(1,2) n by auto
    have A: "radix_tree_at h1 t1 (m(k := leaf)) (tl F) (L @ [leaf]) Z1" "frame Z Z1 h h1" "esize (leaf_pool t1) = n"
        "same_leaves h (leaf_pool t) L h1"
      using E(1) n by (simp_all add: element_added_def)
    have "radix_sim n h1 (m(k := leaf)) (M(k := Some (bytes_at h0 v n)))"
      using S E(2) V(2) p(2) in_L A(4) n by (auto simp: radix_sim_def same_leaves_def)
    then show ?thesis by (rule Cons.IH [OF A(1) frame_trans [OF f A(2)] A(3) _ k(3) p(3)])
  next
    case (RDelete k)
    then have k: "M k \<noteq> None" "map_run n h0 xs (M(k := None)) = Some M'" using Cons.prems(5) by (auto split: if_splits)
    have mk: "m k \<noteq> 0" using S k(1) by (auto simp: radix_sim_def split: if_splits)
    have le: "k AND rcapacity t = k" by (rule within_capacity [OF at mk])
    obtain rv t1 h1 where D: "cx_radix_tree_delete t k h = Some (rv, t1, h1)" "rv = 0" "radix_tree_at h1 t1 (m(k := 0)) (m k # F) (remove1 (m k) L) Z"
        "frame Z Z h h1" "esize (leaf_pool t1) = n" "\<forall>y \<in> set L. y \<noteq> m k \<longrightarrow> bytes_at h1 y n = bytes_at h y n"
      using delete_spec [OF at, of k] mk n unfolding le by auto
    have r: "radix_run xs t1 h1 = Some (True, t', h')" using Cons.prems(6) RDelete D(1,2) by simp
    have "m j \<noteq> m k" if "j \<noteq> k" "m j \<noteq> 0" for j using radix_tree_atD(4) [OF at that(2), of k] that(1) by auto
    then have "radix_sim n h1 (m(k := 0)) (M(k := None))"
      using S in_L D(6) by (auto simp: radix_sim_def)
    then show ?thesis by (rule Cons.IH [OF D(3) frame_trans [OF f D(4)] D(5) _ k(2) r])
  qed
qed auto

section \<open>Properties\<close>

text \<open>A tree with one branch, one leaf of key 5 and room in the pools; a value of the client behind it.\<close>

definition demo_radix :: radix_tree where
  "demo_radix = \<lparr>rcapacity = 255,
     branch_pool = \<lparr>pool_pools = 8, pool_chunk_size = 32768, pool_element_size = 2048, pool_next_offset = 2048,
       pool_count = 1, pool_current = 64, pool_reuse = 0\<rparr>,
     leaf_pool = \<lparr>pool_pools = 16, pool_chunk_size = 27, pool_element_size = 9, pool_next_offset = 9,
       pool_count = 1, pool_current = 32, pool_reuse = 0\<rparr>,
     rroot = 64\<rparr>"

definition demo_radix_heap :: heap where
  "demo_radix_heap = \<lparr>mem = (\<lambda>a. if a = 8 then 64 else if a = 16 \<or> a = 104 then 32 else if a = 32 then 2 else if a = 40 then 7
       else if 50000 \<le> a then 255 else if 40000 \<le> a then 9 else 0),
     blocks = [(8, 8), (16, 8), (32, 27), (64, 32768), (40000, 9), (50000, 16)], answers = [], cb_log = []\<rparr>"

definition demo_radix_map :: "u64 \<Rightarrow> addr" where
  "demo_radix_map k = (if k = 5 then 32 else 0)"

lemma demo_bytes: "(\<And>a. p \<le> a \<Longrightarrow> a < p + n \<Longrightarrow> mem h a = c) \<Longrightarrow> bytes_at h p n = replicate n c"
  by (rule nth_equalityI) (auto simp: bytes_at_def)

lemma demo_u64:
  "u64_at demo_radix_heap 8 = 64" "u64_at demo_radix_heap 16 = 32"
  "b < 256 \<Longrightarrow> u64_at demo_radix_heap (64 + 8 * b) = (if b = 5 then 32 else 0)"
proof -
  show "u64_at demo_radix_heap 8 = 64" "u64_at demo_radix_heap 16 = 32"
    by (simp_all add: u64_at_def read_mem_def demo_radix_heap_def upt_rec)
  assume b: "b < 256"
  show "u64_at demo_radix_heap (64 + 8 * b) = (if b = 5 then 32 else 0)"
  proof (cases "b = 5")
    case True
    then show ?thesis by (simp add: u64_at_def read_mem_def demo_radix_heap_def upt_rec)
  next
    case False
    then have "mem demo_radix_heap a = 0" if "64 + 8 * b \<le> a" "a < 64 + 8 * b + 1 * 8" for a
      using that b by (simp add: demo_radix_heap_def)
    then have "bytes_at demo_radix_heap (64 + 8 * b) (1 * 8) = replicate (1 * 8) 0" by (rule demo_bytes)
    then show ?thesis using u64_zero [of demo_radix_heap "64 + 8 * b" 1 0] False by simp
  qed
qed

lemma demo_radix_at: "radix_tree_at demo_radix_heap demo_radix demo_radix_map [] [32] {(8, 8), (16, 8), (32, 27), (64, 32768)}"
proof -
  have z: "bytes_at demo_radix_heap 2112 30720 = replicate 30720 0" "bytes_at demo_radix_heap 41 18 = replicate 18 0"
    by (rule demo_bytes; simp add: demo_radix_heap_def)+
  have ok: "heap_ok demo_radix_heap" by (simp add: heap_ok_def demo_radix_heap_def fits_def)
  have B: "pool_inv demo_radix_heap (branch_pool demo_radix) [(64, 32768)] [] [64]"
    using z(1) ok demo_u64(1)
    by (simp add: pool_inv_def elements_ok_def current_ok_def array_ok_def apart_def placed_def own_ptrs_def demo_radix_def
        demo_radix_heap_def)
  have Lp: "pool_inv demo_radix_heap (leaf_pool demo_radix) [(32, 27)] [] [32]"
    using z(2) ok demo_u64(2)
    by (simp add: pool_inv_def elements_ok_def current_ok_def array_ok_def apart_def placed_def own_ptrs_def demo_radix_def
        demo_radix_heap_def)
  have "own_pool (branch_pool demo_radix) [(64, 32768)] = {(8, 8), (64, 32768)}" "own_pool (leaf_pool demo_radix) [(32, 27)] = {(16, 8), (32, 27)}"
    by (simp_all add: own_pool_def own_ptrs_def demo_radix_def)
  then have pools: "pool_at demo_radix_heap (branch_pool demo_radix) [] [64] {(8, 8), (64, 32768)}"
      "pool_at demo_radix_heap (leaf_pool demo_radix) [] [32] {(16, 8), (32, 27)}"
    using B Lp unfolding pool_at_def by metis+
  have w: "walk demo_radix_heap 64 [b] = (if b = 5 then 32 else 0)" if "b < 256" for b
    using demo_u64(3) [OF that] by simp
  have one: "\<exists>b < 256. bs = [b]" if "is_path bs" "length bs = 1" for bs using that by (cases bs) auto
  have zero: "cap 1 = 255" by (simp add: cap_def mask_eq_exp_minus_1)
  have "nodes_ok (walk demo_radix_heap 64) 1 {64} {32}"
    unfolding nodes_ok_def
  proof (intro conjI allI impI)
    fix bs :: "nat list"
    show "walk demo_radix_heap 64 bs \<in> {64}" if "length bs < 1" using that by simp
    show "walk demo_radix_heap 64 bs \<in> {32}" if "is_path bs" "length bs = 1" "walk demo_radix_heap 64 bs \<noteq> 0"
      using one [OF that(1,2)] that(3) w by (auto simp del: walk.simps split: if_splits)
  next
    fix bs cs
    assume b: "is_path bs" "is_path cs" "walk demo_radix_heap 64 bs \<noteq> 0" "walk demo_radix_heap 64 bs = walk demo_radix_heap 64 cs"
      "(length bs < 1 \<and> length cs < 1) \<or> (length bs = 1 \<and> length cs = 1)"
    show "bs = cs"
    proof (cases "length bs < 1")
      case False
      then obtain x y where "bs = [x]" "x < 256" "cs = [y]" "y < 256" using b(5) one [OF b(1)] one [OF b(2)] by blast
      then show ?thesis using b(3,4) w [of x] w [of y] by (simp del: walk.simps split: if_splits)
    qed (use b(5) in auto)
  qed
  then have at: "radix_at demo_radix_heap demo_radix 1 [64] [] [32] {(8, 8), (64, 32768)} {(16, 8), (32, 27)}"
    using pools zero by (simp add: radix_at_def demo_radix_def)
  have "radix_map demo_radix_heap demo_radix 1 k = demo_radix_map k" for k
  proof (cases "k \<le> cap 1")
    case True
    then have "unat k < 256" using le_cap [of 1 k] by simp
    then have "key_path 1 k = [unat k]" by (simp add: key_path_def mask_unat)
    moreover have "unat k = 5 \<longleftrightarrow> k = 5" using unsigned_word_eqI [of k 5] by auto
    ultimately show ?thesis using True w \<open>unat k < 256\<close>
      by (simp add: radix_map_def demo_radix_map_def demo_radix_def del: walk.simps)
  next
    case False
    then have "k \<noteq> 5" using zero by auto
    then show ?thesis using False by (simp add: radix_map_def demo_radix_map_def)
  qed
  then have "radix_map demo_radix_heap demo_radix 1 = demo_radix_map" by blast
  moreover have "{(8, 8), (64, 32768)} \<union> {(16, 8), (32, 27)} = {(8, 8), (16, 8), (32, 27), (64 :: nat, 32768 :: nat)}" by auto
  ultimately show ?thesis using radix_tree_atI [OF at] by simp
qed

lemma demo_room: "radix_room demo_radix []" "esize (leaf_pool demo_radix) = 9" "rcapacity demo_radix = 255"
  by (simp_all add: radix_room_def pool_spare_def demo_radix_def)


definition value_heap :: heap where
  "value_heap = \<lparr>mem = (\<lambda>a. 7), blocks = [(50, 8)], answers = [100, 200], cb_log = []\<rparr>"

lemma value_run: "\<exists>t' h'. radix_run [RPut 0 50] (the (cx_radix_tree_init 8)) value_heap = Some (True, t', h')"
  by (simp add: cx_radix_tree_init_def cx_prealloc_pool_init_def cx_prealloc_pool_init2_def cx_radix_tree_put_def
      cx_radix_tree_new_leaf_def resize.simps cx_prealloc_pool_get_def add_chunk_def calloc_def malloc_def value_heap_def
      fits_def Let_def mem_step heap_simps valid_def memcpy_def)


text \<open>
  C18. \<^verbatim>\<open>cx_radix_tree_put\<close> of an absent key: the element it returns holds the value, a get of
  the key finds it, a get of any other key finds what it found before, and no other element or object
  changes. With room left in the pools it does not fail.
\<close>

theorem radix_put_correct:
  assumes "radix_tree_at h t m F L Z" "m key = 0" "readable h Z value (esize (leaf_pool t))"
  shows "case cx_radix_tree_put t key value h of
      None \<Rightarrow> \<not> radix_room t F
    | Some (leaf, t', h') \<Rightarrow> (radix_room t F \<longrightarrow> leaf \<noteq> 0) \<and>
        (leaf \<noteq> 0 \<longrightarrow> bytes_at h' leaf (esize (leaf_pool t)) = bytes_at h value (esize (leaf_pool t)) \<and>
          cx_radix_tree_get t' key h' = Some leaf \<and>
          (\<forall>k. k \<noteq> key \<longrightarrow> cx_radix_tree_get t' k h' = cx_radix_tree_get t k h) \<and>
          (\<forall>x \<in> set L. bytes_at h' x (esize (leaf_pool t)) = bytes_at h x (esize (leaf_pool t))) \<and>
          (\<exists>Z'. radix_tree_at h' t' (m(key := leaf)) (tl F) (L @ [leaf]) Z' \<and> frame Z Z' h h'))"
proof (cases "cx_radix_tree_put t key value h")
  case None
  then show ?thesis using radix_put_spec [OF assms] by simp
next
  case (Some x)
  obtain leaf t' h' where x: "x = (leaf, t', h')" by (cases x)
  show ?thesis
  proof (cases "leaf = 0")
    case True
    then show ?thesis using radix_put_spec [OF assms] Some x by simp
  next
    case False
    then obtain Z' where E: "element_added h t m F L Z key leaf t' h' Z'"
        "bytes_at h' leaf (esize (leaf_pool t)) = bytes_at h value (esize (leaf_pool t))"
      using radix_put_spec [OF assms] Some x by auto
    then have A: "radix_tree_at h' t' (m(key := leaf)) (tl F) (L @ [leaf]) Z'" by (simp add: element_added_def)
    show ?thesis using E radix_tree_get [OF A] radix_tree_get [OF assms(1)] A Some x False
      by (auto simp: element_added_def same_leaves_def)
  qed
qed

theorem radix_put_correct_witness:
  "\<exists>leaf t' h'. cx_radix_tree_put demo_radix 6 40000 demo_radix_heap = Some (leaf, t', h') \<and> leaf \<noteq> 0 \<and>
     cx_radix_tree_get t' 6 h' = Some leaf \<and> bytes_at h' leaf 9 = replicate 9 9"
proof -
  have v: "readable demo_radix_heap {(8, 8), (16, 8), (32, 27), (64, 32768)} 40000 (esize (leaf_pool demo_radix))"
    by (rule readableI [of 40000 9]) (simp_all add: demo_radix_heap_def demo_room)
  have b: "bytes_at demo_radix_heap 40000 9 = replicate 9 9"
    by (rule demo_bytes) (simp add: demo_radix_heap_def)
  have m: "demo_radix_map 6 = 0" by (simp add: demo_radix_map_def)
  show ?thesis using radix_put_correct [OF demo_radix_at m v] demo_room b by (auto split: option.splits)
qed

text \<open>
  \<^verbatim>\<open>cx_radix_tree_delete\<close> of a key within the capacity removes the element of that key and
  of no other, and touches no other element.
\<close>

theorem radix_delete_correct:
  assumes at: "radix_tree_at h t m F L Z" and key: "m key \<noteq> 0"
  shows "\<exists>t' h'. cx_radix_tree_delete t key h = Some (0, t', h') \<and> cx_radix_tree_get t' key h' = Some 0 \<and>
    (\<forall>k. k \<noteq> key \<longrightarrow> cx_radix_tree_get t' k h' = cx_radix_tree_get t k h) \<and>
    (\<forall>x \<in> set L. x \<noteq> m key \<longrightarrow> bytes_at h' x (esize (leaf_pool t)) = bytes_at h x (esize (leaf_pool t))) \<and>
    radix_tree_at h' t' (m(key := 0)) (m key # F) (remove1 (m key) L) Z \<and> frame Z Z h h'"
proof -
  obtain rv t' h' where D: "cx_radix_tree_delete t key h = Some (rv, t', h')" "rv = 0"
      "radix_tree_at h' t' (m(key := 0)) (m key # F) (remove1 (m key) L) Z" "frame Z Z h h'"
      "\<forall>x \<in> set L. x \<noteq> m key \<longrightarrow> bytes_at h' x (esize (leaf_pool t)) = bytes_at h x (esize (leaf_pool t))"
    using delete_spec [OF at, of key] key unfolding within_capacity [OF at key] by auto
  show ?thesis using D radix_tree_get [OF D(3)] radix_tree_get [OF at] by auto
qed

theorem radix_delete_correct_witness:
  "\<exists>t' h'. cx_radix_tree_delete demo_radix 5 demo_radix_heap = Some (0, t', h') \<and> cx_radix_tree_get t' 5 h' = Some 0"
proof -
  have "demo_radix_map 5 \<noteq> 0" by (simp add: demo_radix_map_def)
  from radix_delete_correct [OF demo_radix_at this] show ?thesis by blast
qed

text \<open>
  C22. The loop of \<^verbatim>\<open>resize\<close> ends for every key, and unless an allocation fails the tree then
  covers the key and maps every key as before.
\<close>

theorem radix_resize_terminates:
  assumes "radix_tree_at h t m F L Z"
  shows "\<exists>ok t' h'. resize key t h = Some (ok, t', h') \<and> (radix_room t F \<longrightarrow> ok) \<and>
    (ok \<longrightarrow> key \<le> rcapacity t' \<and> same_leaves h (leaf_pool t) L h' \<and>
      (\<exists>Z'. radix_tree_at h' t' m F L Z' \<and> frame Z Z' h h'))"
proof -
  obtain d B X Y where at: "radix_at h t d B F L X Y" "m = radix_map h t d" "Z = X \<union> Y"
    using assms by (auto simp: radix_tree_at_def)
  obtain ok t' h' where r: "resize key t h = Some (ok, t', h')" "8 - d \<le> branch_spare t \<longrightarrow> ok"
      "ok \<longrightarrow> (\<exists>d' B' X'. key \<le> cap d' \<and> radix_at h' t' d' B' F L X' Y \<and> radix_map h' t' d' = m \<and>
        same_leaves h (leaf_pool t) L h' \<and> frame Z (X' \<union> Y) h h')"
    using resize_spec [OF at(1), of key] at(2,3) by blast
  have "key \<le> rcapacity t' \<and> same_leaves h (leaf_pool t) L h' \<and> (\<exists>Z'. radix_tree_at h' t' m F L Z' \<and> frame Z Z' h h')" if ok
  proof -
    obtain d' B' X' where D: "key \<le> cap d'" "radix_at h' t' d' B' F L X' Y" "radix_map h' t' d' = m"
        "same_leaves h (leaf_pool t) L h'" "frame Z (X' \<union> Y) h h'"
      using r(3) \<open>ok\<close> by blast
    then show ?thesis using radix_atD(2) [OF D(2)] radix_tree_atI [OF D(2)] by auto
  qed
  moreover have "radix_room t F \<longrightarrow> ok" using r(2) by (auto simp: radix_room_def)
  ultimately show ?thesis using r(1) by blast
qed

theorem radix_resize_terminates_witness:
  "\<exists>t' h'. resize (- 1) demo_radix demo_radix_heap = Some (True, t', h') \<and> rcapacity t' = - 1"
proof -
  obtain ok t' h' where r: "resize (- 1) demo_radix demo_radix_heap = Some (ok, t', h')"
      "radix_room demo_radix [] \<longrightarrow> ok" "ok \<longrightarrow> - 1 \<le> rcapacity t'"
    using radix_resize_terminates [OF demo_radix_at, of "- 1"] by blast
  then show ?thesis using demo_room(1) word_order.extremum_unique [of "rcapacity t'"] by auto
qed

text \<open>
  C36. A put of a key that is present, while the pools have room. In a tree with at least one branch it returns
  null and loses the old element: the loop of \<^verbatim>\<open>cx_radix_tree_new_leaf\<close> has already replaced it by a new one when
  it looks whether the slot was occupied. No key leads to the old element any more, and the pool still counts it as in
  use. In a tree that is a single leaf the put overwrites the element and returns it.
\<close>

theorem radix_put_present_loses_element:
  assumes at: "radix_tree_at h t m F L Z" and key: "m key \<noteq> 0" and room: "radix_room t F"
    and v: "readable h Z value (esize (leaf_pool t))"
  shows "if rcapacity t = 0
    then \<exists>h'. cx_radix_tree_put t key value h = Some (m key, t, h') \<and> cx_radix_tree_get t key h' = Some (m key) \<and>
      bytes_at h' (m key) (esize (leaf_pool t)) = bytes_at h value (esize (leaf_pool t)) \<and> radix_tree_at h' t m F L Z
    else \<exists>t' h' e Z'. cx_radix_tree_put t key value h = Some (0, t', h') \<and>
      cx_radix_tree_get t' key h' = Some e \<and> e \<noteq> 0 \<and> e \<noteq> m key \<and>
      (\<forall>k. cx_radix_tree_get t' k h' \<noteq> Some (m key)) \<and> m key \<in> set L \<and>
      radix_tree_at h' t' (m(key := e)) (tl F) (L @ [e]) Z'"
proof (cases "rcapacity t = 0")
  case True
  let ?bs = "bytes_at h value (esize (leaf_pool t))" and ?e = "m key"
  have l: "?e \<in> set L" by (rule radix_tree_atD(3) [OF at key])
  let ?h = "set_bytes (?e + 0) ?bs h"
  have n: "cx_radix_tree_new_leaf t key h = Some (?e, t, h)"
    using new_leaf_spec [OF at, of key] True key room by (auto split: option.splits)
  have "memcpy ?e value (esize (leaf_pool t)) h = Some ?h" using leaf_memcpy [OF at l v, of 0] by simp
  then have "cx_radix_tree_put t key value h = Some (?e, t, ?h)" using n key by (simp add: cx_radix_tree_put_def)
  moreover have A: "radix_tree_at ?h t m F L Z" by (rule radix_tree_write(2) [OF at l]) simp
  moreover have "bytes_at ?h ?e (esize (leaf_pool t)) = ?bs" using bytes_at_set_prefix [of ?bs _ ?e h] by simp
  ultimately show ?thesis using True radix_tree_get [OF A] by simp
next
  case cap: False
  show ?thesis
  proof (cases "cx_radix_tree_new_leaf t key h")
    case None
    then show ?thesis using new_leaf_spec [OF at, of key] room by simp
  next
    case (Some x)
    obtain leaf t' h' where x: "x = (leaf, t', h')" by (cases x)
    then obtain e Z' where E: "leaf = 0" "e \<noteq> 0" "element_added h t m F L Z key e t' h' Z'"
      using new_leaf_spec [OF at, of key] Some key cap room by auto
    then have A: "radix_tree_at h' t' (m(key := e)) (tl F) (L @ [e]) Z'" "e \<notin> set L" by (simp_all add: element_added_def)
    have l: "m key \<in> set L" by (rule radix_tree_atD(3) [OF at key])
    have "(m(key := e)) k \<noteq> m key" for k
      using l A(2) radix_tree_atD(4) [OF at key, of k] by auto
    moreover have "cx_radix_tree_put t key value h = Some (0, t', h')" using Some x E(1) by (simp add: cx_radix_tree_put_def)
    moreover have "e \<noteq> m key" using l A(2) by blast
    ultimately have "cx_radix_tree_put t key value h = Some (0, t', h') \<and> cx_radix_tree_get t' key h' = Some e \<and> e \<noteq> 0 \<and> e \<noteq> m key \<and>
        (\<forall>k. cx_radix_tree_get t' k h' \<noteq> Some (m key)) \<and> m key \<in> set L \<and> radix_tree_at h' t' (m(key := e)) (tl F) (L @ [e]) Z'"
      using A(1) E(2) radix_tree_get [OF A(1)] l by simp
    then show ?thesis using cap by (simp only: if_False) blast
  qed
qed

theorem radix_put_present_loses_element_witness:
  "\<exists>t' h' e. cx_radix_tree_put demo_radix 5 40000 demo_radix_heap = Some (0, t', h') \<and>
     cx_radix_tree_get t' 5 h' = Some e \<and> e \<noteq> 0 \<and> e \<noteq> 32"
proof -
  have m: "demo_radix_map 5 \<noteq> 0" "demo_radix_map 5 = 32" "rcapacity demo_radix \<noteq> 0" by (simp_all add: demo_radix_map_def demo_room)
  have v: "readable demo_radix_heap {(8, 8), (16, 8), (32, 27), (64, 32768)} 40000 (esize (leaf_pool demo_radix))"
    by (rule readableI [of 40000 9]) (simp_all add: demo_radix_heap_def demo_room)
  show ?thesis using radix_put_present_loses_element [OF demo_radix_at m(1) demo_room(1) v] m(2,3) by auto
qed

text \<open>
  \<^verbatim>\<open>cx_radix_tree_delete\<close> does not compare the key with the capacity, as
  \<^verbatim>\<open>cx_radix_tree_get\<close> does: deleting a key beyond the capacity, which the tree does not hold,
  removes the element of the key's low bytes and reports success.
\<close>

theorem radix_delete_beyond_capacity:
  assumes at: "radix_tree_at h t m F L Z" and key: "rcapacity t < key" "m (key AND rcapacity t) \<noteq> 0"
  shows "cx_radix_tree_get t key h = Some 0 \<and>
    (\<exists>t' h'. cx_radix_tree_delete t key h = Some (0, t', h') \<and> cx_radix_tree_get t' (key AND rcapacity t) h' = Some 0)"
proof -
  obtain rv t' h' where D: "cx_radix_tree_delete t key h = Some (rv, t', h')" "rv = 0"
      "radix_tree_at h' t' (m(key AND rcapacity t := 0)) (m (key AND rcapacity t) # F) (remove1 (m (key AND rcapacity t)) L) Z"
    using delete_spec [OF at, of key] key(2) by auto
  then show ?thesis using radix_tree_get [OF D(3)] by (simp add: cx_radix_tree_get_def key(1))
qed

theorem radix_delete_beyond_capacity_witness:
  "cx_radix_tree_get demo_radix 261 demo_radix_heap = Some 0 \<and>
   (\<exists>t' h'. cx_radix_tree_delete demo_radix 261 demo_radix_heap = Some (0, t', h') \<and> cx_radix_tree_get t' 5 h' = Some 0)"
proof -
  have m: "rcapacity demo_radix < 261" "demo_radix_map (261 AND rcapacity demo_radix) \<noteq> 0" "(261 :: u64) AND rcapacity demo_radix = 5"
    by (simp_all add: demo_radix_map_def demo_room)
  show ?thesis using radix_delete_beyond_capacity [OF demo_radix_at m(1,2)] m(3) by simp
qed

end
