(* ===== verification/RcRadixTree.thy ===== *)
theory RcRadixTree
  imports RadixTree LruCache
begin

text \<open>
  \<^verbatim>\<open>lib/collection/rc_radix_tree.c\<close>: \<^verbatim>\<open>struct CxRcRadixTree\<close>, a radix
  tree of reference-counted elements. A leaf holds the count, one \<^verbatim>\<open>size_t\<close>, and the
  data of the client behind it. It is the third container the LRU cache can sit on.
\<close>

section \<open>State and operations\<close>

record rc_radix_tree =
  rr_cleanup :: cleanup_fn
  rr_values :: radix_tree
  rr_element_size :: u64

text \<open>A call of the callback; the ghost log records the address it was given.\<close>

definition call_rr_cleanup :: "rc_radix_tree \<Rightarrow> addr \<Rightarrow> heap \<Rightarrow> heap option" where
  "call_rr_cleanup tree p h = rr_cleanup tree p (h\<lparr>cb_log := cb_log h @ [p]\<rparr>)"

definition cx_rc_radix_tree_init :: "u64 \<Rightarrow> cleanup_fn \<Rightarrow> (int \<times> rc_radix_tree) option" where
  "cx_rc_radix_tree_init element_size cleanup = do {
     t \<leftarrow> cx_radix_tree_init (8 + element_size);
     Some (0, \<lparr>rr_cleanup = cleanup, rr_values = t, rr_element_size = element_size\<rparr>)
   }"

definition radix_tree_retain :: "rc_radix_tree \<Rightarrow> u64 \<Rightarrow> heap \<Rightarrow> (addr \<times> heap) option" where
  "radix_tree_retain tree key h = do {
     obj \<leftarrow> cx_radix_tree_get (rr_values tree) key h;
     if obj = 0 then Some (0, h)
     else do {
       count \<leftarrow> load_u64 obj h;
       if \<not> 0 < count then None
       else do {
         h \<leftarrow> store_u64 obj (count + 1) h;
         Some (obj, h)
       }
     }
   }"

definition cx_rc_radix_tree_put :: "rc_radix_tree \<Rightarrow> u64 \<Rightarrow> addr \<Rightarrow> heap \<Rightarrow> (addr \<times> rc_radix_tree \<times> heap) option" where
  "cx_rc_radix_tree_put tree key value h = do {
     (obj, h) \<leftarrow> radix_tree_retain tree key h;
     if obj = 0
     then do {
       (obj, t, h) \<leftarrow> cx_radix_tree_new_leaf (rr_values tree) key h;
       if obj = 0 then None
       else do {
         h \<leftarrow> memcpy (obj + 8) value (unat (rr_element_size tree)) h;
         h \<leftarrow> store_u64 obj 1 h;
         Some (obj + 8, tree\<lparr>rr_values := t\<rparr>, h)
       }
     }
     else do {
       h \<leftarrow> call_rr_cleanup tree value h;
       Some (obj + 8, tree, h)
     }
   }"

definition cx_rc_radix_tree_release :: "rc_radix_tree \<Rightarrow> u64 \<Rightarrow> heap \<Rightarrow> (int \<times> rc_radix_tree \<times> heap) option" where
  "cx_rc_radix_tree_release tree key h = do {
     obj \<leftarrow> cx_radix_tree_get (rr_values tree) key h;
     if obj = 0 then Some (- 1, tree, h)
     else do {
       count \<leftarrow> load_u64 obj h;
       if \<not> 0 < count then None
       else if count = 1
       then do {
         h \<leftarrow> call_rr_cleanup tree (obj + 8) h;
         (rv, t, h) \<leftarrow> cx_radix_tree_delete (rr_values tree) key h;
         Some (rv, tree\<lparr>rr_values := t\<rparr>, h)
       }
       else do {
         h \<leftarrow> store_u64 obj (count - 1) h;
         Some (0, tree, h)
       }
     }
   }"

definition cx_rc_radix_tree_retain :: "rc_radix_tree \<Rightarrow> u64 \<Rightarrow> heap \<Rightarrow> (addr \<times> heap) option" where
  "cx_rc_radix_tree_retain tree key h = do {
     (obj, h) \<leftarrow> radix_tree_retain tree key h;
     Some (if obj = 0 then 0 else obj + 8, h)
   }"

definition cx_rc_radix_tree_retain_value :: "rc_radix_tree \<Rightarrow> addr \<Rightarrow> heap \<Rightarrow> heap option" where
  "cx_rc_radix_tree_retain_value tree value h = do {
     let obj = value - 8;
     count \<leftarrow> load_u64 obj h;
     store_u64 obj (count + 1) h
   }"

definition cx_rc_radix_tree_cleanup :: "rc_radix_tree \<Rightarrow> heap \<Rightarrow> (int \<times> heap) option" where
  "cx_rc_radix_tree_cleanup tree h = do {
     h \<leftarrow> cx_radix_tree_cleanup (rr_values tree) h;
     Some (0, h)
   }"

definition lru_rc_radix_tree_retain :: "rc_radix_tree \<Rightarrow> u64 \<Rightarrow> heap \<Rightarrow> (addr \<times> rc_radix_tree \<times> heap) option" where
  "lru_rc_radix_tree_retain backend index h = do {
     (p, h) \<leftarrow> cx_rc_radix_tree_retain backend index h;
     Some (p, backend, h)
   }"

definition lru_rc_radix_tree_retain_value :: "rc_radix_tree \<Rightarrow> addr \<Rightarrow> heap \<Rightarrow> (rc_radix_tree \<times> heap) option" where
  "lru_rc_radix_tree_retain_value backend value h = do {
     h \<leftarrow> cx_rc_radix_tree_retain_value backend value h;
     Some (backend, h)
   }"

definition lru_rc_radix_tree_release :: "rc_radix_tree \<Rightarrow> u64 \<Rightarrow> heap \<Rightarrow> (int \<times> rc_radix_tree \<times> heap) option" where
  "lru_rc_radix_tree_release backend index h = cx_rc_radix_tree_release backend index h"

definition cx_lru_rc_radix_tree :: "rc_radix_tree lru_impl" where
  "cx_lru_rc_radix_tree = \<lparr>impl_retain = lru_rc_radix_tree_retain,
     impl_retain_value = Some lru_rc_radix_tree_retain_value, impl_release = lru_rc_radix_tree_release\<rparr>"

section \<open>Invariant\<close>

text \<open>
  \<open>rc_tree_at h r m F L Z\<close>: the elements \<open>m\<close> of the tree have positive counts. \<open>rr_refs\<close> is the
  count of a key, zero when it has no element.
\<close>

definition rc_tree_at :: "heap \<Rightarrow> rc_radix_tree \<Rightarrow> (u64 \<Rightarrow> addr) \<Rightarrow> addr list \<Rightarrow> addr list \<Rightarrow> (addr \<times> nat) set \<Rightarrow> bool" where
  "rc_tree_at h r m F L Z \<longleftrightarrow> radix_tree_at h (rr_values r) m F L Z \<and> (\<forall>k. m k \<noteq> 0 \<longrightarrow> u64_at h (m k) \<noteq> 0) \<and>
     esize (leaf_pool (rr_values r)) = 8 + unat (rr_element_size r) \<and> cb_local (rr_cleanup r) (unat (rr_element_size r))"

definition rr_refs :: "heap \<Rightarrow> rc_radix_tree \<Rightarrow> u64 \<Rightarrow> nat" where
  "rr_refs h r k = (case cx_radix_tree_get (rr_values r) k h of
     None \<Rightarrow> 0 | Some e \<Rightarrow> if e = 0 then 0 else unat (u64_at h e))"

definition rr_data :: "heap \<Rightarrow> rc_radix_tree \<Rightarrow> addr \<Rightarrow> u8 list" where
  "rr_data h r e = bytes_at h (e + 8) (unat (rr_element_size r))"

lemma rc_tree_atD:
  assumes "rc_tree_at h r m F L Z"
  shows "radix_tree_at h (rr_values r) m F L Z" "m k \<noteq> 0 \<Longrightarrow> u64_at h (m k) \<noteq> 0"
    "esize (leaf_pool (rr_values r)) = 8 + unat (rr_element_size r)" "cb_local (rr_cleanup r) (unat (rr_element_size r))"
    "rr_refs h r k = (if m k = 0 then 0 else unat (u64_at h (m k)))" "0 < rr_refs h r k \<longleftrightarrow> m k \<noteq> 0"
    "m k \<noteq> 0 \<Longrightarrow> m k \<in> set L" "m k \<noteq> 0 \<Longrightarrow> valid h (m k) 8"
proof -
  show a: "radix_tree_at h (rr_values r) m F L Z" "m k \<noteq> 0 \<Longrightarrow> u64_at h (m k) \<noteq> 0"
    "esize (leaf_pool (rr_values r)) = 8 + unat (rr_element_size r)" "cb_local (rr_cleanup r) (unat (rr_element_size r))"
    using assms by (auto simp: rc_tree_at_def)
  show c: "rr_refs h r k = (if m k = 0 then 0 else unat (u64_at h (m k)))"
    using radix_tree_get [OF a(1)] by (simp add: rr_refs_def)
  show "0 < rr_refs h r k \<longleftrightarrow> m k \<noteq> 0" using a(2) unsigned_word_eqI [of "u64_at h (m k)" 0] unfolding c by auto
  show l: "m k \<noteq> 0 \<Longrightarrow> m k \<in> set L" by (rule radix_tree_atD(3) [OF a(1)])
  show "m k \<noteq> 0 \<Longrightarrow> valid h (m k) 8"
    using radix_tree_write(1) [OF a(1) l, of 0 "replicate 8 0"] a(3) by simp
qed

text \<open>A change of the bytes of one element.\<close>

lemma other_element:
  assumes "bytes_at h' x (8 + n) = bytes_at h x (8 + n)"
  shows "u64_at h' x = u64_at h x" "bytes_at h' (x + 8) n = bytes_at h (x + 8) n"
proof -
  show "u64_at h' x = u64_at h x" using u64_at_prefix [OF assms, of 0] by simp
  have "drop 8 (bytes_at h' x (8 + n)) = drop 8 (bytes_at h x (8 + n))" using assms by simp
  moreover have "drop 8 (bytes_at g x (8 + n)) = bytes_at g (x + 8) n" for g
    by (rule nth_equalityI) (simp_all add: bytes_at_def add.assoc)
  ultimately show "bytes_at h' (x + 8) n = bytes_at h (x + 8) n" by simp
qed

lemma count_write:
  assumes at: "rc_tree_at h r m F L Z" and k: "m k \<noteq> 0" and w: "w \<noteq> 0"
  defines "h' \<equiv> set_bytes (m k) (le_bytes 8 w) h"
  shows "store_u64 (m k) w h = Some h'" "rc_tree_at h' r m F L Z" "frame Z Z h h'"
    "rr_refs h' r = (rr_refs h r)(k := unat w)" "m j \<noteq> 0 \<Longrightarrow> rr_data h' r (m j) = rr_data h r (m j)"
proof -
  note A = rc_tree_atD [OF at]
  have len: "0 + length (le_bytes 8 w) \<le> esize (leaf_pool (rr_values r))" using A(3) by simp
  note W = radix_tree_write [OF A(1) A(7) [OF k] len, simplified]
  have h': "u64_at h' (m k) = w" by (simp add: h'_def heap_simps)
  have other: "bytes_at h' (m j) (8 + unat (rr_element_size r)) = bytes_at h (m j) (8 + unat (rr_element_size r))"
    if "m j \<noteq> 0" "j \<noteq> k" for j
  proof -
    have "m j \<noteq> m k" using radix_tree_atD(4) [OF A(1) that(1), of k] that(2) by auto
    then show ?thesis using W(4) [OF A(7) [OF that(1)]] A(3) by (simp add: h'_def)
  qed
  show "store_u64 (m k) w h = Some h'" using A(8) [OF k] by (simp add: mem_step h'_def)
  show "frame Z Z h h'" using W(3) by (simp add: h'_def)
  have cnt: "u64_at h' (m j) = (if j = k then w else u64_at h (m j))" if "m j \<noteq> 0" for j
    using h' other_element(1) [OF other [OF that]] by simp
  show at': "rc_tree_at h' r m F L Z"
    using W(2) A(2-4) cnt w by (simp add: rc_tree_at_def h'_def)
  show "rr_refs h' r = (rr_refs h r)(k := unat w)"
    using rc_tree_atD(5) [OF at'] A(5) cnt k by auto
  show "rr_data h' r (m j) = rr_data h r (m j)" if "m j \<noteq> 0"
  proof (cases "j = k")
    case True
    then show ?thesis unfolding rr_data_def h'_def by (intro bytes_at_set_other) simp
  qed (use other_element(2) [OF other [OF that]] in \<open>simp add: rr_data_def\<close>)
qed

lemma rc_tree_outside:
  assumes at: "rc_tree_at h r m F L Z" and f: "frame A A' h h'" and dis: "Z \<inter> A = {}"
  shows "rc_tree_at h' r m F L Z" "rr_refs h' r = rr_refs h r" "m k \<noteq> 0 \<Longrightarrow> rr_data h' r (m k) = rr_data h r (m k)"
proof -
  note A = rc_tree_atD [OF at]
  note O = radix_tree_outside [OF A(1) f dis]
  have same: "u64_at h' (m j) = u64_at h (m j)" "rr_data h' r (m j) = rr_data h r (m j)" if "m j \<noteq> 0" for j
    using other_element [of h' "m j" "unat (rr_element_size r)" h] O(2) A(3) A(7) [OF that]
    by (simp_all add: same_leaves_def rr_data_def)
  show "m k \<noteq> 0 \<Longrightarrow> rr_data h' r (m k) = rr_data h r (m k)" by (rule same(2))
  show at': "rc_tree_at h' r m F L Z" using O(1) A(2-4) same(1) by (simp add: rc_tree_at_def)
  show "rr_refs h' r = rr_refs h r" using rc_tree_atD(5) [OF at'] A(5) same(1) by auto
qed

lemma data_write:
  assumes at: "rc_tree_at h r m F L Z" and k: "m k \<noteq> 0" and len: "length bs = unat (rr_element_size r)"
  defines "h' \<equiv> set_bytes (m k + 8) bs h"
  shows "rc_tree_at h' r m F L Z" "frame Z Z h h'" "rr_refs h' r = rr_refs h r"
    "m j \<noteq> 0 \<Longrightarrow> j \<noteq> k \<Longrightarrow> rr_data h' r (m j) = rr_data h r (m j)" "valid h (m k + 8) (unat (rr_element_size r))"
proof -
  note A = rc_tree_atD [OF at]
  have len': "8 + length bs \<le> esize (leaf_pool (rr_values r))" using A(3) len by simp
  note W = radix_tree_write [OF A(1) A(7) [OF k] len']
  have other: "bytes_at h' (m j) (8 + unat (rr_element_size r)) = bytes_at h (m j) (8 + unat (rr_element_size r))"
    if "m j \<noteq> 0" "j \<noteq> k" for j
  proof -
    have "m j \<noteq> m k" using radix_tree_atD(4) [OF A(1) that(1), of k] that(2) by auto
    then show ?thesis using W(4) [OF A(7) [OF that(1)]] A(3) by (simp add: h'_def)
  qed
  show "frame Z Z h h'" "valid h (m k + 8) (unat (rr_element_size r))" using W(1,3) len by (simp_all add: h'_def)
  have cnt: "u64_at h' (m j) = u64_at h (m j)" if "m j \<noteq> 0" for j
  proof (cases "j = k")
    case True
    then show ?thesis unfolding h'_def by (intro u64_at_set_other) simp
  qed (use other_element(1) [OF other [OF that]] in simp)
  show at': "rc_tree_at h' r m F L Z" using W(2) A(2-4) cnt by (simp add: rc_tree_at_def h'_def)
  show "rr_refs h' r = rr_refs h r" using rc_tree_atD(5) [OF at'] A(5) cnt by auto
  show "m j \<noteq> 0 \<Longrightarrow> j \<noteq> k \<Longrightarrow> rr_data h' r (m j) = rr_data h r (m j)"
    using other_element(2) [OF other] by (simp add: rr_data_def)
qed

lemma rc_tree_log:
  assumes "rc_tree_at h r m F L Z"
  shows "rc_tree_at (h\<lparr>cb_log := l\<rparr>) r m F L Z" "rr_refs (h\<lparr>cb_log := l\<rparr>) r = rr_refs h r" "frame Z Z h (h\<lparr>cb_log := l\<rparr>)"
    "rr_data (h\<lparr>cb_log := l\<rparr>) r e = rr_data h r e"
  using rc_tree_outside [OF assms frame_log, of "{}"] radix_tree_atD(2) [OF rc_tree_atD(1) [OF assms]]
  by (simp_all add: frame_log rr_data_def bytes_at_def)

lemma call_rr_spec:
  assumes "cb_local (rr_cleanup r) (unat (rr_element_size r))" "valid h p (unat (rr_element_size r))"
  shows "\<exists>bs. length bs = unat (rr_element_size r) \<and> call_rr_cleanup r p h = Some (set_bytes p bs (h\<lparr>cb_log := cb_log h @ [p]\<rparr>))"
proof -
  have "valid (h\<lparr>cb_log := cb_log h @ [p]\<rparr>) p (unat (rr_element_size r))" using assms(2) by (simp add: valid_def)
  then show ?thesis using assms(1) by (auto simp: call_rr_cleanup_def cb_local_def)
qed

section \<open>Operations\<close>

lemma unat_inc64: "unat w < 2 ^ 64 - 1 \<Longrightarrow> unat (w + 1 :: u64) = unat w + 1 \<and> w + 1 \<noteq> 0"
proof -
  assume "unat w < 2 ^ 64 - 1"
  then have "unat w + unat (1 :: u64) < 2 ^ 64" by simp
  then have "unat (w + 1) = unat w + 1" using unat_add_no_wrap [of w 1] by simp
  then show ?thesis by (metis Zero_not_Suc Suc_eq_plus1 unat_0)
qed

lemma unat_dec64: "w \<noteq> 0 \<Longrightarrow> w \<noteq> 1 \<Longrightarrow> unat (w - 1 :: u64) = unat w - 1 \<and> w - 1 \<noteq> 0"
  by (simp add: unat_minus_one)

lemma retain_present:
  assumes at: "rc_tree_at h r m F L Z" and k: "m k \<noteq> 0" "rr_refs h r k < 2 ^ 64 - 1"
  shows "\<exists>h'. radix_tree_retain r k h = Some (m k, h') \<and> rc_tree_at h' r m F L Z \<and> frame Z Z h h' \<and>
    rr_refs h' r = (rr_refs h r)(k := rr_refs h r k + 1) \<and> (\<forall>j. m j \<noteq> 0 \<longrightarrow> rr_data h' r (m j) = rr_data h r (m j)) \<and>
    cb_log h' = cb_log h"
proof -
  note A = rc_tree_atD [OF at]
  have c: "unat (u64_at h (m k)) < 2 ^ 64 - 1" "u64_at h (m k) \<noteq> 0" using A(2,5) k by simp_all
  note U = unat_inc64 [OF c(1)]
  have w: "u64_at h (m k) + 1 \<noteq> 0" using U by blast
  note W = count_write [OF at k(1) w]
  have "radix_tree_retain r k h = Some (m k, set_bytes (m k) (le_bytes 8 (u64_at h (m k) + 1)) h)"
    using radix_tree_get [OF A(1)] k(1) A(8) [OF k(1)] W(1) c(2)
    by (simp add: radix_tree_retain_def mem_step word_neq_0_conv)
  then show ?thesis using W(2-5) U A(5) [of k] k(1) by (simp add: set_bytes_def)
qed

lemma retain_absent:
  assumes "rc_tree_at h r m F L Z" "m k = 0"
  shows "radix_tree_retain r k h = Some (0, h)"
  using radix_tree_get [OF rc_tree_atD(1) [OF assms(1)]] assms(2) by (simp add: radix_tree_retain_def)

lemma retain_value_spec:
  assumes at: "rc_tree_at h r m F L Z" and k: "m k \<noteq> 0" "rr_refs h r k < 2 ^ 64 - 1"
  shows "\<exists>h'. cx_rc_radix_tree_retain_value r (m k + 8) h = Some h' \<and> rc_tree_at h' r m F L Z \<and> frame Z Z h h' \<and>
    rr_refs h' r = (rr_refs h r)(k := rr_refs h r k + 1)"
proof -
  note A = rc_tree_atD [OF at]
  have c: "unat (u64_at h (m k)) < 2 ^ 64 - 1" using A(5) k by simp
  note U = unat_inc64 [OF c]
  have w: "u64_at h (m k) + 1 \<noteq> 0" using U by blast
  note W = count_write [OF at k(1) w]
  show ?thesis
    using W(1-4) U A(5) [of k] k(1) A(8) [OF k(1)] by (simp add: cx_rc_radix_tree_retain_value_def mem_step Let_def)
qed

text \<open>Deleting a leaf calls no callback.\<close>

lemma store_log: "store_u64 p w h = Some h' \<Longrightarrow> cb_log h' = cb_log h"
  by (auto simp: store_u64_def store_bytes_def split: if_splits)

lemma delete_log: "cx_radix_tree_delete t k h = Some (rv, t', h') \<Longrightarrow> cb_log h' = cb_log h"
  by (auto simp: cx_radix_tree_delete_def cx_prealloc_pool_recycle_def bind_Some_iff Let_def store_log
      split: if_splits option.splits dest!: store_log)

lemma release_spec:
  assumes at: "rc_tree_at h r m F L Z" and k: "m k \<noteq> 0"
  shows "\<exists>r' h' m' F' L'. cx_rc_radix_tree_release r k h = Some (0, r', h') \<and> rc_tree_at h' r' m' F' L' Z \<and> frame Z Z h h' \<and>
    rr_refs h' r' = (rr_refs h r)(k := rr_refs h r k - 1) \<and> m' = (if rr_refs h r k = 1 then m(k := 0) else m) \<and>
    (\<forall>j. m j \<noteq> 0 \<longrightarrow> j \<noteq> k \<or> rr_refs h r k \<noteq> 1 \<longrightarrow> rr_data h' r' (m j) = rr_data h r (m j)) \<and>
    cb_log h' = cb_log h @ (if rr_refs h r k = 1 then [m k + 8] else []) \<and>
    rr_element_size r' = rr_element_size r \<and> rr_cleanup r' = rr_cleanup r"
proof -
  note A = rc_tree_atD [OF at]
  let ?c = "u64_at h (m k)"
  have c: "?c \<noteq> 0" "rr_refs h r k = unat ?c" using A(2,5) k by simp_all
  have one: "unat ?c = 1 \<longleftrightarrow> ?c = 1" by (metis unat_1 unsigned_word_eqI)
  show ?thesis
  proof (cases "?c = 1")
    case False
    note U = unat_dec64 [OF c(1) False]
    have w: "?c - 1 \<noteq> 0" using U by blast
    note W = count_write [OF at k w]
    have "cx_rc_radix_tree_release r k h = Some (0, r, set_bytes (m k) (le_bytes 8 (?c - 1)) h)"
      using radix_tree_get [OF A(1)] k A(8) [OF k] W(1) c(1) False
      by (simp add: cx_rc_radix_tree_release_def mem_step word_neq_0_conv)
    moreover have "rr_refs h r k \<noteq> 1" using c(2) one False by simp
    ultimately show ?thesis using W(2-5) U c(2) by (simp add: set_bytes_def) blast
  next
    case True
    let ?l = "h\<lparr>cb_log := cb_log h @ [m k + 8]\<rparr>" and ?n = "unat (rr_element_size r)"
    note G = rc_tree_log [OF at, of "cb_log h @ [m k + 8]"]
    have "valid h (m k + 8) ?n" using data_write(5) [OF at k, of "replicate ?n 0"] by simp
    then obtain bs where bs: "length bs = ?n" "call_rr_cleanup r (m k + 8) h = Some (set_bytes (m k + 8) bs ?l)"
      using call_rr_spec [OF A(4)] by blast
    let ?h = "set_bytes (m k + 8) bs ?l"
    note D = data_write [OF G(1) k bs(1)]
    note A' = rc_tree_atD [OF D(1)]
    obtain rv t' h' where del: "cx_radix_tree_delete (rr_values r) k ?h = Some (rv, t', h')" "rv = 0"
        "radix_tree_at h' t' (m(k := 0)) (m k # F) (remove1 (m k) L) Z" "frame Z Z ?h h'"
        "pool_element_size (leaf_pool t') = pool_element_size (leaf_pool (rr_values r))"
        "\<forall>x \<in> set L. x \<noteq> m k \<longrightarrow> bytes_at h' x (esize (leaf_pool (rr_values r))) = bytes_at ?h x (esize (leaf_pool (rr_values r)))"
      using delete_spec [OF A'(1), of k] k unfolding within_capacity [OF A(1) k] by auto
    let ?r = "r\<lparr>rr_values := t'\<rparr>"
    have eq: "cx_rc_radix_tree_release r k h = Some (0, ?r, h')"
      using radix_tree_get [OF A(1)] k A(8) [OF k] bs(2) del(1,2) True by (simp add: cx_rc_radix_tree_release_def mem_step)
    have same: "u64_at h' (m j) = u64_at ?h (m j)" "rr_data h' ?r (m j) = rr_data ?h r (m j)" if j: "m j \<noteq> 0" "j \<noteq> k" for j
    proof -
      have "m j \<noteq> m k" using radix_tree_atD(4) [OF A(1) j(1), of k] j(2) by auto
      then have "bytes_at h' (m j) (8 + ?n) = bytes_at ?h (m j) (8 + ?n)" using del(6) A(3) A(7) [OF j(1)] by simp
      from other_element [OF this] show "u64_at h' (m j) = u64_at ?h (m j)" "rr_data h' ?r (m j) = rr_data ?h r (m j)"
        by (simp_all add: rr_data_def)
    qed
    have at': "rc_tree_at h' ?r (m(k := 0)) (m k # F) (remove1 (m k) L) Z"
      using del(3,5) A'(2,3,4) same(1) by (auto simp: rc_tree_at_def)
    have "rr_refs h' ?r j = ((rr_refs h r)(k := 0)) j" for j
    proof -
      have "rr_refs h' ?r j = (if (m(k := 0)) j = 0 then 0 else unat (u64_at ?h (m j)))"
        using rc_tree_atD(5) [OF at', of j] same(1) [of j] by auto
      also have "\<dots> = ((rr_refs ?h r)(k := 0)) j" using A'(5) [of j] by simp
      finally show ?thesis using D(3) G(2) by simp
    qed
    then have refs: "rr_refs h' ?r = (rr_refs h r)(k := 0)" by blast
    have "frame Z Z h h'" by (rule frame_trans [OF G(3) frame_trans [OF D(2) del(4)]])
    moreover have "cb_log h' = cb_log h @ [m k + 8]" using delete_log [OF del(1)] by (simp add: set_bytes_def)
    moreover have "rr_data h' ?r (m j) = rr_data h r (m j)" if "m j \<noteq> 0" "j \<noteq> k" for j
      using same(2) [OF that] D(4) [OF that] G(4) by simp
    moreover have "rr_refs h r k = 1" using c(2) True by simp
    ultimately show ?thesis using eq at' refs
      by - (rule exI [of _ ?r], rule exI [of _ h'], rule exI [of _ "m(k := 0)"], rule exI [of _ "m k # F"],
        rule exI [of _ "remove1 (m k) L"], simp)
  qed
qed

lemma put_present:
  assumes at: "rc_tree_at h r m F L Z" and k: "m k \<noteq> 0" "rr_refs h r k < 2 ^ 64 - 1"
    and v: "(s, b) \<in> set (blocks h)" "(s, b) \<notin> Z" "s \<le> value" "value + unat (rr_element_size r) \<le> s + b"
  shows "\<exists>h'. cx_rc_radix_tree_put r k value h = Some (m k + 8, r, h') \<and> rc_tree_at h' r m F L Z \<and>
    frame (insert (s, b) Z) (insert (s, b) Z) h h' \<and> rr_refs h' r = (rr_refs h r)(k := rr_refs h r k + 1) \<and>
    (\<forall>j. m j \<noteq> 0 \<longrightarrow> rr_data h' r (m j) = rr_data h r (m j)) \<and> cb_log h' = cb_log h @ [value]"
proof -
  obtain h1 where R: "radix_tree_retain r k h = Some (m k, h1)" "rc_tree_at h1 r m F L Z" "frame Z Z h h1"
      "rr_refs h1 r = (rr_refs h r)(k := rr_refs h r k + 1)" "\<forall>j. m j \<noteq> 0 \<longrightarrow> rr_data h1 r (m j) = rr_data h r (m j)"
      "cb_log h1 = cb_log h"
    using retain_present [OF at k] by blast
  have B: "(s, b) \<in> set (blocks h1)" "(s, b) \<notin> Z" using frame_mem [OF R(3) v(1,2)] by auto
  have ok: "heap_ok h1" by (rule radix_tree_atD(1) [OF rc_tree_atD(1) [OF R(2)]])
  obtain bs where bs: "length bs = unat (rr_element_size r)"
      "call_rr_cleanup r value h1 = Some (set_bytes value bs (h1\<lparr>cb_log := cb_log h1 @ [value]\<rparr>))"
    using call_rr_spec [OF rc_tree_atD(4) [OF at] valid_block [OF B(1) v(3,4)]] by blast
  let ?l = "h1\<lparr>cb_log := cb_log h1 @ [value]\<rparr>" and ?h = "set_bytes value bs (h1\<lparr>cb_log := cb_log h1 @ [value]\<rparr>)"
  note G = rc_tree_log [OF R(2), of "cb_log h1 @ [value]"]
  have f: "frame {(s, b)} {(s, b)} ?l ?h"
    by (rule frame_set_bytes [where b = s and m = b]) (use ok B v bs(1) in \<open>auto simp: heap_ok_def\<close>)
  have dis: "Z \<inter> {(s, b)} = {}" using B(2) by simp
  note O = rc_tree_outside [OF G(1) f dis]
  have Zl: "Z \<subseteq> set (blocks ?l)" "Z \<subseteq> set (blocks h)"
    using radix_tree_atD(2) [OF rc_tree_atD(1) [OF G(1)]] radix_tree_atD(2) [OF rc_tree_atD(1) [OF at]] by auto
  have "frame Z Z h ?l" by (rule frame_trans [OF R(3) G(3)])
  then have "frame (Z \<union> {(s, b)}) (Z \<union> {(s, b)}) h ?l" by (rule frame_extend) (use v(1,2) in auto)
  moreover have "frame ({(s, b)} \<union> Z) ({(s, b)} \<union> Z) ?l ?h" by (rule frame_extend [OF f Zl(1)]) (use dis in auto)
  ultimately have "frame (insert (s, b) Z) (insert (s, b) Z) h ?h" by (simp add: frame_trans)
  moreover have "cx_rc_radix_tree_put r k value h = Some (m k + 8, r, ?h)"
    using R(1) k(1) bs(2) by (simp add: cx_rc_radix_tree_put_def)
  moreover have "rr_refs ?h r = (rr_refs h r)(k := rr_refs h r k + 1)" using O(2) G(2) R(4) by simp
  moreover have "rr_data ?h r (m j) = rr_data h r (m j)" if "m j \<noteq> 0" for j using O(3) G(4) R(5) that by simp
  ultimately show ?thesis using O(1) R(6) by (simp add: set_bytes_def)
qed

lemma put_absent:
  assumes at: "rc_tree_at h r m F L Z" and k: "m k = 0" and v: "readable h Z value (unat (rr_element_size r))"
  shows "case cx_rc_radix_tree_put r k value h of
      None \<Rightarrow> \<not> radix_room (rr_values r) F
    | Some (p, r', h') \<Rightarrow> (\<exists>e Z'. p = e + 8 \<and> e \<noteq> 0 \<and> rc_tree_at h' r' (m(k := e)) (tl F) (L @ [e]) Z' \<and> frame Z Z' h h' \<and>
        rr_refs h' r' = (rr_refs h r)(k := 1) \<and> rr_data h' r' e = bytes_at h value (unat (rr_element_size r)) \<and>
        (\<forall>j. m j \<noteq> 0 \<longrightarrow> rr_data h' r' (m j) = rr_data h r (m j)) \<and>
        rr_element_size r' = rr_element_size r \<and> rr_cleanup r' = rr_cleanup r)"
proof (cases "cx_radix_tree_new_leaf (rr_values r) k h")
  case None
  then show ?thesis using new_leaf_spec [OF rc_tree_atD(1) [OF at], of k] retain_absent [OF at k]
    by (simp add: cx_rc_radix_tree_put_def)
next
  case (Some x)
  note A = rc_tree_atD [OF at]
  obtain e t h1 where x: "x = (e, t, h1)" by (cases x)
  have N: "radix_room (rr_values r) F \<longrightarrow> e \<noteq> 0" "e \<noteq> 0 \<longrightarrow> (\<exists>Z'. element_added h (rr_values r) m F L Z k e t h1 Z')"
    using new_leaf_spec [OF A(1), of k] Some x k by auto
  show ?thesis
  proof (cases "e = 0")
    case True
    then have "cx_rc_radix_tree_put r k value h = None"
      using Some x retain_absent [OF at k] by (simp add: cx_rc_radix_tree_put_def)
    then show ?thesis using N(1) True by simp
  next
    case False
    let ?n = "unat (rr_element_size r)" and ?bs = "bytes_at h value (unat (rr_element_size r))" and ?m = "m(k := e)"
    obtain Z' where E: "radix_tree_at h1 t ?m (tl F) (L @ [e]) Z'" "e \<notin> set L" "same_leaves h (leaf_pool (rr_values r)) L h1"
        "frame Z Z' h h1" "pool_element_size (leaf_pool t) = pool_element_size (leaf_pool (rr_values r))"
      using N(2) False unfolding element_added_def by blast
    note V = readable_frame [OF E(4) v]
    have e: "e \<in> set (L @ [e])" by simp
    have n: "8 + ?n = esize (leaf_pool t)" using A(3) E(5) by simp
    let ?h2 = "set_bytes (e + 8) ?bs h1" and ?h3 = "set_bytes e (le_bytes 8 (1 :: u64)) (set_bytes (e + 8) ?bs h1)"
    have cpy: "memcpy (e + 8) value ?n h1 = Some ?h2"
      using leaf_memcpy [OF E(1) e V(1), of 8] V(2) n by simp
    have len: "8 + length ?bs \<le> esize (leaf_pool t)" "0 + length (le_bytes 8 (1 :: u64)) \<le> esize (leaf_pool t)" using n by simp_all
    note W = radix_tree_write [OF E(1) e len(1)]
    note W2 = radix_tree_write [OF W(2) e len(2), simplified]
    have eq: "cx_rc_radix_tree_put r k value h = Some (e + 8, r\<lparr>rr_values := t\<rparr>, ?h3)"
      using Some x retain_absent [OF at k] False cpy W2(1) by (simp add: cx_rc_radix_tree_put_def mem_step)
    have others: "u64_at ?h3 (m j) = u64_at h (m j)" "rr_data ?h3 (r\<lparr>rr_values := t\<rparr>) (m j) = rr_data h r (m j)" if "m j \<noteq> 0" for j
    proof -
      have l: "m j \<in> set L" by (rule A(7) [OF that])
      then have "m j \<noteq> e" using E(2) by auto
      then have "bytes_at ?h3 (m j) (8 + ?n) = bytes_at h1 (m j) (8 + ?n)" using W2(4) [of "m j"] W(4) [of "m j"] l n by simp
      moreover have "bytes_at h1 (m j) (8 + ?n) = bytes_at h (m j) (8 + ?n)" using E(3) l A(3) by (simp add: same_leaves_def)
      ultimately have "bytes_at ?h3 (m j) (8 + ?n) = bytes_at h (m j) (8 + ?n)" by simp
      from other_element [OF this] show "u64_at ?h3 (m j) = u64_at h (m j)"
        "rr_data ?h3 (r\<lparr>rr_values := t\<rparr>) (m j) = rr_data h r (m j)" by (simp_all add: rr_data_def)
    qed
    have new: "u64_at ?h3 e = 1" by (simp add: heap_simps)
    have at': "rc_tree_at ?h3 (r\<lparr>rr_values := t\<rparr>) ?m (tl F) (L @ [e]) Z'"
      using W2(2) n A(2,4) others(1) new by (simp add: rc_tree_at_def)
    have "rr_refs ?h3 (r\<lparr>rr_values := t\<rparr>) = (rr_refs h r)(k := 1)"
      using rc_tree_atD(5) [OF at'] A(5) others(1) new False by auto
    moreover have "rr_data ?h3 (r\<lparr>rr_values := t\<rparr>) e = ?bs"
    proof -
      have "bytes_at ?h3 (e + 8) ?n = bytes_at ?h2 (e + 8) ?n" by (rule bytes_at_set_other) simp
      also have "\<dots> = ?bs" using bytes_at_set_prefix [of ?bs ?n "e + 8" h1] by simp
      finally show ?thesis by (simp add: rr_data_def)
    qed
    moreover have "frame Z Z' h ?h3" by (rule frame_trans [OF frame_trans [OF E(4) W(3)] W2(3)])
    ultimately show ?thesis unfolding eq using at' False others(2) by auto
  qed
qed

section \<open>The tree as the backend of a cache\<close>

definition rr_ok :: "(addr \<times> nat) set \<Rightarrow> heap \<Rightarrow> rc_radix_tree \<Rightarrow> bool" where
  "rr_ok Z h r \<longleftrightarrow> (\<exists>m F L. rc_tree_at h r m F L Z)"

definition rr_element :: "heap \<Rightarrow> rc_radix_tree \<Rightarrow> u64 \<Rightarrow> addr \<Rightarrow> bool" where
  "rr_element h r k p \<longleftrightarrow> (\<exists>e. cx_radix_tree_get (rr_values r) k h = Some e \<and> e \<noteq> 0 \<and> p = e + 8)"

lemma rr_element_eq: "rc_tree_at h r m F L Z \<Longrightarrow> rr_element h r k p \<longleftrightarrow> m k \<noteq> 0 \<and> p = m k + 8"
  using radix_tree_get [OF rc_tree_atD(1)] by (auto simp: rr_element_def)

text \<open>\<open>Z\<close>, the memory objects of the tree, stays the same under all calls of the cache.\<close>

interpretation rrt: lru_value_backend "rr_ok Z" "\<lambda>_. Z" rr_refs "2 ^ 64 - 1" cx_lru_rc_radix_tree rr_element
  for Z :: "(addr \<times> nat) set"
proof
  show "heap_ok h \<and> Z \<subseteq> set (blocks h)" if "rr_ok Z h b" for h b
    using that radix_tree_atD(1,2) [OF rc_tree_atD(1)] unfolding rr_ok_def by blast
next
  fix h b k assume a: "rr_ok Z h b" "0 < rr_refs h b k" "rr_refs h b k < 2 ^ 64 - 1"
  then obtain m F L where at: "rc_tree_at h b m F L Z" by (auto simp: rr_ok_def)
  have k: "m k \<noteq> 0" using rc_tree_atD(6) [OF at] a(2) by simp
  obtain h' where R: "radix_tree_retain b k h = Some (m k, h')" "rc_tree_at h' b m F L Z" "frame Z Z h h'"
      "rr_refs h' b = (rr_refs h b)(k := rr_refs h b k + 1)"
    using retain_present [OF at k a(3)] by blast
  then show "\<exists>p b' h'. impl_retain cx_lru_rc_radix_tree b k h = Some (p, b', h') \<and> rr_ok Z h' b' \<and>
      frame Z Z h h' \<and> rr_refs h' b' = (rr_refs h b)(k := rr_refs h b k + 1)"
    by (auto simp: cx_lru_rc_radix_tree_def lru_rc_radix_tree_retain_def cx_rc_radix_tree_retain_def rr_ok_def)
next
  fix h b k assume a: "rr_ok Z h b" "0 < rr_refs h b k"
  then obtain m F L where at: "rc_tree_at h b m F L Z" by (auto simp: rr_ok_def)
  have k: "m k \<noteq> 0" using rc_tree_atD(6) [OF at] a(2) by simp
  show "\<exists>rv b' h'. impl_release cx_lru_rc_radix_tree b k h = Some (rv, b', h') \<and> rr_ok Z h' b' \<and>
      frame Z Z h h' \<and> rr_refs h' b' = (rr_refs h b)(k := rr_refs h b k - 1)"
    using release_spec [OF at k] unfolding rr_ok_def cx_lru_rc_radix_tree_def lru_rc_radix_tree_release_def
    by simp blast
next
  show "rr_ok Z h' b \<and> rr_refs h' b = rr_refs h b" if "frame A B h h'" "rr_ok Z h b" "Z \<inter> A = {}" for A B h h' b
    using that rc_tree_outside(1,2) unfolding rr_ok_def by metis
next
  fix h b k p assume a: "rr_ok Z h b" "rr_element h b k p" "0 < rr_refs h b k" "rr_refs h b k < 2 ^ 64 - 1"
  then obtain m F L where at: "rc_tree_at h b m F L Z" by (auto simp: rr_ok_def)
  have k: "m k \<noteq> 0" "p = m k + 8" using rr_element_eq [OF at] a(2) by auto
  obtain h' where v: "cx_rc_radix_tree_retain_value b (m k + 8) h = Some h'" "\<exists>m F L. rc_tree_at h' b m F L Z" "frame Z Z h h'"
      "rr_refs h' b = (rr_refs h b)(k := rr_refs h b k + 1)"
    using retain_value_spec [OF at k(1) a(4)] by blast
  show "\<exists>f b' h'. impl_retain_value cx_lru_rc_radix_tree = Some f \<and> f b p h = Some (b', h') \<and> rr_ok Z h' b' \<and>
      frame Z Z h h' \<and> rr_refs h' b' = (rr_refs h b)(k := rr_refs h b k + 1)"
    using v k(2) unfolding rr_ok_def
    by (auto simp: cx_lru_rc_radix_tree_def lru_rc_radix_tree_retain_value_def simp del: fun_upd_apply)
next
  fix h b k p j rv b' h'
  assume a: "rr_ok Z h b" "rr_element h b k p" "j \<noteq> k" "0 < rr_refs h b j" "impl_release cx_lru_rc_radix_tree b j h = Some (rv, b', h')"
  then obtain m F L where at: "rc_tree_at h b m F L Z" by (auto simp: rr_ok_def)
  have j: "m j \<noteq> 0" using rc_tree_atD(6) [OF at] a(4) by simp
  obtain m' F' L' where R: "rc_tree_at h' b' m' F' L' Z" "m' = (if rr_refs h b j = 1 then m(j := 0) else m)"
    using release_spec [OF at j] a(5) by (auto simp: cx_lru_rc_radix_tree_def lru_rc_radix_tree_release_def)
  show "rr_element h' b' k p" using rr_element_eq [OF R(1)] rr_element_eq [OF at] a(2,3) R(2) by auto
next
  fix A B h h' b k p assume a: "frame A B h h'" "rr_ok Z h b" "Z \<inter> A = {}" "rr_element h b k p"
  then obtain m F L where at: "rc_tree_at h b m F L Z" by (auto simp: rr_ok_def)
  show "rr_element h' b k p" using rr_element_eq [OF at] rr_element_eq [OF rc_tree_outside(1) [OF at a(1,3)]] a(4) by simp
qed

section \<open>Runs\<close>

text \<open>
  The log of callbacks changes in the callbacks only.
\<close>

lemma alloc_log:
  "malloc n h = (p, h') \<Longrightarrow> cb_log h' = cb_log h" "calloc a b h = (p, h') \<Longrightarrow> cb_log h' = cb_log h"
  "realloc q n h = Some (p, h') \<Longrightarrow> cb_log h' = cb_log h" "free q h = Some h' \<Longrightarrow> cb_log h' = cb_log h"
proof -
  show m: "malloc n h = (p, h') \<Longrightarrow> cb_log h' = cb_log h" for n h p h'
    by (auto simp: malloc_def split: list.splits if_splits)
  show "calloc a b h = (p, h') \<Longrightarrow> cb_log h' = cb_log h"
    by (auto simp: calloc_def split: if_splits prod.splits dest!: m)
  show "realloc q n h = Some (p, h') \<Longrightarrow> cb_log h' = cb_log h"
    by (auto simp: realloc_def Let_def split: if_splits option.splits list.splits dest!: m)
  show "free q h = Some h' \<Longrightarrow> cb_log h' = cb_log h" by (auto simp: free_def split: if_splits)
qed

lemma store_bytes_log: "store_bytes p bs h = Some h' \<Longrightarrow> cb_log h' = cb_log h"
  by (auto simp: store_bytes_def split: if_splits)

lemma pool_get_log: "cx_prealloc_pool_get p h = Some (e, p', h') \<Longrightarrow> cb_log h' = cb_log h"
  by (auto simp: cx_prealloc_pool_get_def reuse_node_def add_chunk_def Let_def bind_Some_iff
      split: if_splits prod.splits dest!: alloc_log store_log store_bytes_log)

lemma resize_log: "resize k t h = Some (ok, t', h') \<Longrightarrow> cb_log h' = cb_log h"
proof -
  have "cb_log (snd (snd y)) = cb_log h" if r: "resize k t h = Some y" for y
  proof (rule resize.raw_induct [where P = "\<lambda>k t h y. cb_log (snd (snd y)) = cb_log h", OF _ r])
    fix f and key :: u64 and t h y
    assume IH: "\<And>k t h y. f k t h = Some y \<Longrightarrow> cb_log (snd (snd y)) = cb_log h"
      and body: "(if rcapacity t < key
        then let old_root = rroot t; tree = t\<lparr>rcapacity := push_bit 8 (rcapacity t) OR CX_RADIX_MASK\<rparr>
          in cx_prealloc_pool_get (branch_pool tree) h \<bind>
            (\<lambda>(new_root, pool, h). let tree = tree\<lparr>branch_pool := pool\<rparr>
              in if new_root = 0 then Some (False, tree, h)
                 else store_u64 new_root (word_of_nat old_root) h \<bind> f key (tree\<lparr>rroot := new_root\<rparr>))
        else Some (True, t, h)) = Some y"
    then show "cb_log (snd (snd y)) = cb_log h"
      by (auto simp: Let_def bind_Some_iff split: if_splits dest!: pool_get_log store_log IH)
  qed
  then show "resize k t h = Some (ok, t', h') \<Longrightarrow> cb_log h' = cb_log h" by fastforce
qed

lemma store_child_log: "store_child q w c h = Some h' \<Longrightarrow> cb_log h' = cb_log h"
  by (auto simp: store_child_def split: if_splits dest: store_log)

lemma grow_log: "grow_path c w n occ t h = Some (n', occ', t', h') \<Longrightarrow> cb_log h' = cb_log h"
proof (induction "unat c" arbitrary: c w n occ t h rule: less_induct)
  case less
  show ?case
  proof (cases "c = 0")
    case True
    then show ?thesis using less(2) by (simp add: grow_path.simps [of 0])
  next
    case False
    obtain child q node t1 h1 where s: "(if drop_bit 8 c = 0
          then cx_prealloc_pool_get (leaf_pool t) h \<bind> (\<lambda>(leaf, pool, h). store_child n w leaf h \<bind> (\<lambda>h. Some (leaf, t\<lparr>leaf_pool := pool\<rparr>, h)))
          else if \<not> q
          then cx_prealloc_pool_get (branch_pool t) h \<bind> (\<lambda>(branch, pool, h). store_child n w branch h \<bind> (\<lambda>h. Some (branch, t\<lparr>branch_pool := pool\<rparr>, h)))
          else Some (child, t, h)) = Some (node, t1, h1)"
        "grow_path (drop_bit 8 c) (drop_bit 8 w) node q t1 h1 = Some (n', occ', t', h')"
      using less(2) [unfolded grow_path.simps [of c w n occ t h]] False by (auto simp: Let_def bind_Some_iff)
    have "cb_log h1 = cb_log h"
      using s(1) by (auto simp: bind_Some_iff split: if_splits dest!: pool_get_log store_child_log)
    then show ?thesis using less(1) [OF drop_bit_less [OF False] s(2)] by simp
  qed
qed

lemma new_leaf_log: "cx_radix_tree_new_leaf t k h = Some (e, t', h') \<Longrightarrow> cb_log h' = cb_log h"
  by (auto simp: cx_radix_tree_new_leaf_def bind_Some_iff split: if_splits dest!: resize_log grow_log pool_get_log)

lemma radix_cleanup_log: "cx_radix_tree_cleanup t h = Some h' \<Longrightarrow> cb_log h' = cb_log h"
proof -
  have chunks: "free_chunks q i n h = Some h' \<Longrightarrow> cb_log h' = cb_log h" for q i n h h'
    by (induction n arbitrary: i h) (auto simp: bind_Some_iff dest: alloc_log(4))
  have pool: "cx_prealloc_pool_cleanup p h = Some h' \<Longrightarrow> cb_log h' = cb_log h" for p h h'
    by (auto simp: cx_prealloc_pool_cleanup_def bind_Some_iff dest!: chunks alloc_log(4))
  show "cx_radix_tree_cleanup t h = Some h' \<Longrightarrow> cb_log h' = cb_log h"
    by (auto simp: cx_radix_tree_cleanup_def bind_Some_iff dest!: pool)
qed

text \<open>A client that puts, retains and releases.\<close>

datatype rr_op = RrPut u64 addr | RrRetain u64 | RrRelease u64

fun rr_step :: "rr_op \<Rightarrow> rc_radix_tree \<Rightarrow> heap \<Rightarrow> (rc_radix_tree \<times> heap) option" where
  "rr_step (RrPut k v) r h = do { (p, r, h) \<leftarrow> cx_rc_radix_tree_put r k v h; Some (r, h) }"
| "rr_step (RrRetain k) r h = do { (p, h) \<leftarrow> cx_rc_radix_tree_retain r k h; Some (r, h) }"
| "rr_step (RrRelease k) r h = do { (rv, r, h) \<leftarrow> cx_rc_radix_tree_release r k h; Some (r, h) }"

fun rr_run :: "rr_op list \<Rightarrow> rc_radix_tree \<Rightarrow> heap \<Rightarrow> (rc_radix_tree \<times> heap) option" where
  "rr_run [] r h = Some (r, h)"
| "rr_run (x # xs) r h = do { (r, h) \<leftarrow> rr_step x r h; rr_run xs r h }"

text \<open>The specification: the references of each key and the number of callbacks.\<close>

fun count_step :: "rr_op \<Rightarrow> (u64 \<Rightarrow> nat) \<times> nat \<Rightarrow> (u64 \<Rightarrow> nat) \<times> nat" where
  "count_step (RrPut k v) (c, n) = (c(k := c k + 1), n + (if c k = 0 then 0 else 1))"
| "count_step (RrRetain k) (c, n) = (if c k = 0 then c else c(k := c k + 1), n)"
| "count_step (RrRelease k) (c, n) = (if c k = 0 then c else c(k := c k - 1), n + (if c k = 1 then 1 else 0))"

text \<open>The values that are put lie in the objects \<open>V\<close> of the client.\<close>

fun value_in :: "(addr \<times> nat) set \<Rightarrow> nat \<Rightarrow> rr_op \<Rightarrow> bool" where
  "value_in V n (RrPut k v) = (\<exists>(s, b) \<in> V. s \<le> v \<and> v + n \<le> s + b)"
| "value_in V n (RrRetain k) = True"
| "value_in V n (RrRelease k) = True"

text \<open>What one call leaves, beside the objects \<open>V\<close> of the client.\<close>

definition rr_stepped :: "(addr \<times> nat) set \<Rightarrow> (addr \<times> nat) set \<Rightarrow> rr_op \<Rightarrow> heap \<Rightarrow> rc_radix_tree \<Rightarrow> heap \<Rightarrow> rc_radix_tree \<Rightarrow> bool" where
  "rr_stepped V Z x h r h' r' \<longleftrightarrow> (\<exists>m' F' L' Z'. rc_tree_at h' r' m' F' L' Z' \<and> frame (Z \<union> V) (Z' \<union> V) h h' \<and>
     V \<subseteq> set (blocks h') \<and> Z' \<inter> V = {}) \<and> rr_element_size r' = rr_element_size r \<and>
     count_step x (rr_refs h r, length (cb_log h)) = (rr_refs h' r', length (cb_log h'))"

lemma rr_steppedI:
  assumes V: "V \<subseteq> set (blocks h)" "Z \<inter> V = {}" and f: "frame Z Z' h h'" and at: "rc_tree_at h' r' m' F' L' Z'"
    and es: "rr_element_size r' = rr_element_size r"
    and c: "count_step x (rr_refs h r, length (cb_log h)) = (rr_refs h' r', length (cb_log h'))"
  shows "rr_stepped V Z x h r h' r'"
proof -
  have "V \<inter> Z = {}" using V(2) by blast
  then have g: "frame (Z \<union> V) (Z' \<union> V) h h'" by (rule frame_extend [OF f V(1)])
  then have "V \<subseteq> set (blocks h')" "Z' \<inter> V = {}" using frame_sub [OF g] frame_disjoint [OF f V] by simp_all
  then show ?thesis using at g es c unfolding rr_stepped_def by blast
qed

lemma refs_zero: "rc_tree_at h r m F L Z \<Longrightarrow> rr_refs h r k = 0 \<longleftrightarrow> m k = 0"
  using rc_tree_atD(6) [of h r m F L Z k] by auto

lemma put_absent_log:
  assumes "rc_tree_at h r m F L Z" "m k = 0" "cx_rc_radix_tree_put r k v h = Some (p, r', h')"
  shows "cb_log h' = cb_log h"
proof -
  obtain e t h1 h2 h3 where "cx_radix_tree_new_leaf (rr_values r) k h = Some (e, t, h1)"
      "memcpy (e + 8) v (unat (rr_element_size r)) h1 = Some h2" "store_u64 e 1 h2 = Some h'"
    using assms(3) retain_absent [OF assms(1,2)] by (auto simp: cx_rc_radix_tree_put_def bind_Some_iff split: if_splits)
  moreover from this(2) have "cb_log h2 = cb_log h1"
    by (auto simp: memcpy_def bind_Some_iff split: if_splits dest: store_bytes_log)
  ultimately show ?thesis by (simp add: new_leaf_log store_log)
qed

lemma step_put:
  assumes at: "rc_tree_at h r m F L Z" and V: "V \<subseteq> set (blocks h)" "Z \<inter> V = {}" "value_in V (unat (rr_element_size r)) (RrPut k v)"
    and small: "rr_refs h r k < 2 ^ 64 - 1" and put: "cx_rc_radix_tree_put r k v h = Some (p, r', h')"
  shows "rr_stepped V Z (RrPut k v) h r h' r'"
proof -
  obtain sb b where v: "(sb, b) \<in> V" "sb \<le> v" "v + unat (rr_element_size r) \<le> sb + b" using V(3) by auto
  have sb: "(sb, b) \<in> set (blocks h)" "(sb, b) \<notin> Z" using v(1) V by auto
  show ?thesis
  proof (cases "m k = 0")
    case True
    obtain e Z' where P: "rc_tree_at h' r' (m(k := e)) (tl F) (L @ [e]) Z'" "frame Z Z' h h'" "rr_refs h' r' = (rr_refs h r)(k := 1)"
        "rr_element_size r' = rr_element_size r"
      using put_absent [OF at True readableI [OF sb v(2,3)]] unfolding put by auto
    show ?thesis by (rule rr_steppedI [OF V(1,2) P(2,1,4)])
      (use P(3) refs_zero [OF at, of k] True put_absent_log [OF at True put] in simp)
  next
    case False
    obtain h1 where "cx_rc_radix_tree_put r k v h = Some (m k + 8, r, h1)" "rc_tree_at h1 r m F L Z"
        "frame (insert (sb, b) Z) (insert (sb, b) Z) h h1" "rr_refs h1 r = (rr_refs h r)(k := rr_refs h r k + 1)" "cb_log h1 = cb_log h @ [v]"
      using put_present [OF at False small sb v(2,3)] by blast
    then have P: "rc_tree_at h' r m F L Z" "frame (insert (sb, b) Z) (insert (sb, b) Z) h h'"
        "rr_refs h' r = (rr_refs h r)(k := rr_refs h r k + 1)" "cb_log h' = cb_log h @ [v]" "r' = r"
      using put by simp_all
    have "frame (insert (sb, b) Z \<union> (V - {(sb, b)})) (insert (sb, b) Z \<union> (V - {(sb, b)})) h h'"
      by (rule frame_extend [OF P(2)]) (use V(1,2) in auto)
    moreover have "insert (sb, b) Z \<union> (V - {(sb, b)}) = Z \<union> V" using v(1) by auto
    ultimately have f: "frame (Z \<union> V) (Z \<union> V) h h'" by simp
    have "count_step (RrPut k v) (rr_refs h r, length (cb_log h)) = (rr_refs h' r', length (cb_log h'))"
      using P(3-5) refs_zero [OF at, of k] False by simp
    then show ?thesis unfolding rr_stepped_def using P(1,5) f V(2) frame_sub [OF f] by blast
  qed
qed

lemma step_retain:
  assumes at: "rc_tree_at h r m F L Z" and V: "V \<subseteq> set (blocks h)" "Z \<inter> V = {}"
    and small: "rr_refs h r k < 2 ^ 64 - 1" and ret: "cx_rc_radix_tree_retain r k h = Some (p, h')"
  shows "rr_stepped V Z (RrRetain k) h r h' r"
proof (cases "m k = 0")
  case True
  then have "h' = h" using ret retain_absent [OF at True] by (simp add: cx_rc_radix_tree_retain_def)
  then show ?thesis using rr_steppedI [OF V frame_refl at refl] radix_tree_atD(2) [OF rc_tree_atD(1) [OF at]]
      refs_zero [OF at, of k] True by simp
next
  case False
  obtain h1 where "radix_tree_retain r k h = Some (m k, h1)" "rc_tree_at h1 r m F L Z" "frame Z Z h h1"
      "rr_refs h1 r = (rr_refs h r)(k := rr_refs h r k + 1)" "cb_log h1 = cb_log h"
    using retain_present [OF at False small] by blast
  then have P: "rc_tree_at h' r m F L Z" "frame Z Z h h'" "rr_refs h' r = (rr_refs h r)(k := rr_refs h r k + 1)" "cb_log h' = cb_log h"
    using ret by (simp_all add: cx_rc_radix_tree_retain_def)
  show ?thesis by (rule rr_steppedI [OF V P(2,1) refl]) (use P(3,4) refs_zero [OF at, of k] False in simp)
qed

lemma step_release:
  assumes at: "rc_tree_at h r m F L Z" and V: "V \<subseteq> set (blocks h)" "Z \<inter> V = {}"
    and rel: "cx_rc_radix_tree_release r k h = Some (rv, r', h')"
  shows "rr_stepped V Z (RrRelease k) h r h' r'"
proof (cases "m k = 0")
  case True
  then have "h' = h" "r' = r" using rel radix_tree_get [OF rc_tree_atD(1) [OF at]] by (auto simp: cx_rc_radix_tree_release_def)
  then show ?thesis using rr_steppedI [OF V frame_refl at refl] radix_tree_atD(2) [OF rc_tree_atD(1) [OF at]]
      refs_zero [OF at, of k] True by simp
next
  case False
  obtain m' F' L' where P: "rc_tree_at h' r' m' F' L' Z" "frame Z Z h h'" "rr_refs h' r' = (rr_refs h r)(k := rr_refs h r k - 1)"
      "cb_log h' = cb_log h @ (if rr_refs h r k = 1 then [m k + 8] else [])" "rr_element_size r' = rr_element_size r"
    using release_spec [OF at False] unfolding rel by auto
  show ?thesis by (rule rr_steppedI [OF V P(2,1,5)]) (use P(3,4) refs_zero [OF at, of k] False in simp)
qed

lemma rr_step_spec:
  assumes at: "rc_tree_at h r m F L Z" and V: "V \<subseteq> set (blocks h)" "Z \<inter> V = {}" "value_in V (unat (rr_element_size r)) x"
    and small: "\<forall>k. rr_refs h r k < 2 ^ 64 - 1" and s: "rr_step x r h = Some (r', h')"
  shows "rr_stepped V Z x h r h' r'"
proof (cases x)
  case (RrPut k v)
  then obtain p where p: "cx_rc_radix_tree_put r k v h = Some (p, r', h')" using s by (auto simp: bind_Some_iff)
  have "value_in V (unat (rr_element_size r)) (RrPut k v)" using V(3) RrPut by simp
  from step_put [OF at V(1,2) this spec [OF small] p] show ?thesis using RrPut by simp
next
  case (RrRetain k)
  obtain p where p: "cx_rc_radix_tree_retain r k h = Some (p, h')" "r' = r"
    using s unfolding RrRetain rr_step.simps by (cases "cx_rc_radix_tree_retain r k h") (simp_all split: prod.splits)
  show ?thesis using step_retain [OF at V(1,2) spec [OF small] p(1)] p(2) RrRetain by simp
next
  case (RrRelease k)
  then obtain rv where p: "cx_rc_radix_tree_release r k h = Some (rv, r', h')" using s by (auto simp: bind_Some_iff)
  show ?thesis using step_release [OF at V(1,2) p] RrRelease by simp
qed

lemma count_step_bound: "count_step x (c, n) = (c', n') \<Longrightarrow> c' k \<le> c k + 1"
  by (cases x) (auto split: if_splits)

lemma rr_run_spec:
  assumes "rc_tree_at h r m F L Z" "V \<subseteq> set (blocks h)" "Z \<inter> V = {}" "\<forall>x \<in> set xs. value_in V (unat (rr_element_size r)) x"
    "\<forall>k. rr_refs h r k + length xs < 2 ^ 64" "rr_run xs r h = Some (r', h')"
  shows "\<exists>m' F' L' Z'. rc_tree_at h' r' m' F' L' Z' \<and> frame (Z \<union> V) (Z' \<union> V) h h' \<and> Z' \<inter> V = {} \<and>
    fold count_step xs (rr_refs h r, length (cb_log h)) = (rr_refs h' r', length (cb_log h'))"
  using assms
proof (induction xs arbitrary: r h m F L Z)
  case Nil
  have "Z \<subseteq> set (blocks h)" by (rule radix_tree_atD(2) [OF rc_tree_atD(1) [OF Nil(1)]])
  then have "frame (Z \<union> V) (Z \<union> V) h h" using Nil(2) by (intro frame_refl) simp
  moreover have "r' = r" "h' = h" using Nil(6) by simp_all
  moreover have "fold count_step [] (rr_refs h r, length (cb_log h)) = (rr_refs h r, length (cb_log h))" by simp
  ultimately show ?case using Nil(1,3) by blast
next
  case (Cons x xs)
  obtain r1 h1 where s: "rr_step x r h = Some (r1, h1)" "rr_run xs r1 h1 = Some (r', h')"
    using Cons.prems(6) by (auto simp: bind_Some_iff)
  have "\<forall>k. rr_refs h r k < 2 ^ 64 - 1"
  proof
    fix k show "rr_refs h r k < 2 ^ 64 - 1" using spec [OF Cons.prems(5), of k] by simp
  qed
  then obtain m1 F1 L1 Z1 where S: "rc_tree_at h1 r1 m1 F1 L1 Z1" "frame (Z \<union> V) (Z1 \<union> V) h h1" "V \<subseteq> set (blocks h1)" "Z1 \<inter> V = {}"
      "rr_element_size r1 = rr_element_size r" "count_step x (rr_refs h r, length (cb_log h)) = (rr_refs h1 r1, length (cb_log h1))"
    using rr_step_spec [OF Cons.prems(1-3) _ _ s(1)] Cons.prems(4) unfolding rr_stepped_def by auto
  have "rr_refs h1 r1 k + length xs < 2 ^ 64" for k
    using count_step_bound [OF S(6), of k] spec [OF Cons.prems(5), of k] by simp
  then obtain m' F' L' Z' where R: "rc_tree_at h' r' m' F' L' Z'" "frame (Z1 \<union> V) (Z' \<union> V) h1 h'" "Z' \<inter> V = {}"
      "fold count_step xs (rr_refs h1 r1, length (cb_log h1)) = (rr_refs h' r', length (cb_log h'))"
    using Cons.IH [OF S(1,3,4) _ _ s(2)] Cons.prems(4) S(5) by auto
  then show ?case using frame_trans [OF S(2) R(2)] S(6) by auto
qed

section \<open>Properties\<close>

lemma rr_init_at:
  assumes "heap_ok h" "cx_rc_radix_tree_init es cb = Some (rv, r)" "unat es < 2 ^ 59" "cb_local cb (unat es)"
  shows "rc_tree_at h r (\<lambda>_. 0) [] [] {}" "rr_element_size r = es" "rr_refs h r = (\<lambda>_. 0)"
proof -
  obtain t where t: "cx_radix_tree_init (8 + es) = Some t" "r = \<lparr>rr_cleanup = cb, rr_values = t, rr_element_size = es\<rparr>"
    using assms(2) by (auto simp: cx_rc_radix_tree_init_def bind_Some_iff)
  have e: "unat (8 + es) = 8 + unat es" by (subst unat_add_no_wrap) (use assms(3) in simp_all)
  have I: "radix_tree_at h t (\<lambda>_. 0) [] [] {}" "pool_element_size (leaf_pool t) = 8 + es"
    using radix_init_at [OF assms(1) t(1)] e assms(3) by simp_all
  show at: "rc_tree_at h r (\<lambda>_. 0) [] [] {}" using I e assms(4) t(2) by (simp add: rc_tree_at_def)
  show "rr_element_size r = es" using t(2) by simp
  show "rr_refs h r = (\<lambda>_. 0)" using rc_tree_atD(5) [OF at] by auto
qed

text \<open>For the witnesses: the tree of \<open>demo_radix\<close>, with the element of key 5 held twice, and a ring of two.\<close>

definition demo_rc_tree :: rc_radix_tree where
  "demo_rc_tree = \<lparr>rr_cleanup = test_deinit, rr_values = demo_radix, rr_element_size = 1\<rparr>"

abbreviation demo_objects :: "(addr \<times> nat) set" where
  "demo_objects \<equiv> {(8, 8), (16, 8), (32, 27), (64, 32768)}"

lemma demo_rc_at: "rc_tree_at demo_radix_heap demo_rc_tree demo_radix_map [] [32] demo_objects"
proof -
  have "u64_at demo_radix_heap 32 = 2" by (simp add: u64_at_def read_mem_def demo_radix_heap_def upt_rec)
  then show ?thesis using demo_radix_at demo_room(2) test_deinit_local
    by (simp add: rc_tree_at_def demo_rc_tree_def demo_radix_map_def)
qed

lemma demo_rc_refs: "rr_refs demo_radix_heap demo_rc_tree k = (if k = 5 then 2 else 0)"
proof -
  have "u64_at demo_radix_heap 32 = 2" by (simp add: u64_at_def read_mem_def demo_radix_heap_def upt_rec)
  then show ?thesis using rc_tree_atD(5) [OF demo_rc_at, of k] by (simp add: demo_radix_map_def)
qed

definition demo_rc_ring :: "rc_radix_tree lru" where
  "demo_rc_ring = \<lparr>limpl = cx_lru_rc_radix_tree, litems = 50000, lring_index = 0, lsize = 2\<rparr>"

lemma demo_rc_ring_inv:
  "lru_inv (rr_ok demo_objects) (\<lambda>_. demo_objects) rr_refs demo_radix_heap demo_rc_ring demo_rc_tree"
  "queue demo_radix_heap demo_rc_ring = [EMPTY_MARKER, EMPTY_MARKER]"
proof -
  have "le_word [255, 255, 255, 255, 255, 255, 255, 255 :: u8] = (- 1 :: u64)" by code_simp
  then have it: "items demo_radix_heap demo_rc_ring = [EMPTY_MARKER, EMPTY_MARKER]"
    by (simp add: items_def u64_at_def read_mem_def demo_radix_heap_def demo_rc_ring_def EMPTY_MARKER_def upt_rec)
  then show "queue demo_radix_heap demo_rc_ring = [EMPTY_MARKER, EMPTY_MARKER]" by (simp add: queue_def demo_rc_ring_def)
  have "held demo_radix_heap demo_rc_ring k = 0" for k by (simp add: held_def it)
  moreover have "heap_ok demo_radix_heap" using radix_tree_atD(1) [OF demo_radix_at] .
  moreover have "ring_ok demo_radix_heap demo_rc_ring \<and> own_lru demo_rc_ring \<inter> demo_objects = {}"
    using calculation(2) by (simp add: ring_ok_def own_lru_def demo_rc_ring_def) (simp add: demo_radix_heap_def)
  moreover have "rr_ok demo_objects demo_radix_heap demo_rc_tree" using demo_rc_at unfolding rr_ok_def by blast
  ultimately show "lru_inv (rr_ok demo_objects) (\<lambda>_. demo_objects) rr_refs demo_radix_heap demo_rc_ring demo_rc_tree"
    by (simp add: lru_inv_def)
qed

text \<open>
  C11. A reference-counted radix tree counts references. From \<^verbatim>\<open>cx_rc_radix_tree_init\<close> on, after
  any sequence of puts, retains and releases, the count of every key is the number of references that
  were taken and not given back, and the callback ran exactly once for each element whose last
  reference was released and for each value put under a live key.
  \<^verbatim>\<open>cx_rc_radix_tree_cleanup\<close> then gives all memory back and calls no callback, also where
  elements are still referenced.
\<close>

theorem rc_radix_lifetime:
  assumes "heap_ok h" "V \<subseteq> set (blocks h)" "cx_rc_radix_tree_init es cb = Some (rv, r)" "unat es < 2 ^ 59" "cb_local cb (unat es)"
    and "\<forall>x \<in> set xs. value_in V (unat es) x" "length xs < 2 ^ 64" and run: "rr_run xs r h = Some (r', h')"
  shows "fold count_step xs (\<lambda>_. 0, length (cb_log h)) = (rr_refs h' r', length (cb_log h')) \<and>
    (\<exists>h''. cx_rc_radix_tree_cleanup r' h' = Some (0, h'') \<and> frame V V h h'' \<and> cb_log h'' = cb_log h')"
proof -
  note I = rr_init_at [OF assms(1,3-5)]
  obtain m' F' L' Z' where R: "rc_tree_at h' r' m' F' L' Z'" "frame V (Z' \<union> V) h h'" "Z' \<inter> V = {}"
      "fold count_step xs (\<lambda>_. 0, length (cb_log h)) = (rr_refs h' r', length (cb_log h'))"
    using rr_run_spec [OF I(1) assms(2) _ _ _ run] assms(6,7) I(2,3) by auto
  obtain h'' where c: "cx_radix_tree_cleanup (rr_values r') h' = Some h''" "frame Z' {} h' h''"
    using radix_cleanup_spec [OF rc_tree_atD(1) [OF R(1)]] by blast
  have "frame (Z' \<union> V) ({} \<union> V) h' h''" by (rule frame_extend [OF c(2)]) (use frame_sub [OF R(2)] R(3) in auto)
  then have "frame V V h h''" using frame_trans [OF R(2)] by simp
  then show ?thesis using c(1) R(4) radix_cleanup_log [OF c(1)] by (simp add: cx_rc_radix_tree_cleanup_def)
qed

text \<open>Retains and releases are always defined.\<close>

lemma rr_step_total:
  assumes at: "rc_tree_at h r m F L Z" and small: "rr_refs h r k < 2 ^ 64 - 1"
  shows "\<exists>r' h'. rr_step (RrRetain k) r h = Some (r', h')" "\<exists>r' h'. rr_step (RrRelease k) r h = Some (r', h')"
proof -
  show "\<exists>r' h'. rr_step (RrRetain k) r h = Some (r', h')"
    using retain_absent [OF at, of k] retain_present [OF at _ small]
    by (cases "m k = 0") (auto simp: cx_rc_radix_tree_retain_def)
  show "\<exists>r' h'. rr_step (RrRelease k) r h = Some (r', h')"
  proof (cases "m k = 0")
    case True
    then show ?thesis using radix_tree_get [OF rc_tree_atD(1) [OF at]] by (simp add: cx_rc_radix_tree_release_def)
  next
    case False
    then show ?thesis using release_spec [OF at False] by auto
  qed
qed

lemma rr_run_total:
  assumes "rc_tree_at h r m F L Z" "\<forall>x \<in> set xs. \<exists>k. x = RrRetain k \<or> x = RrRelease k" "\<forall>k. rr_refs h r k + length xs < 2 ^ 64"
  shows "\<exists>r' h'. rr_run xs r h = Some (r', h')"
  using assms
proof (induction xs arbitrary: h r m F L Z)
  case (Cons x xs)
  have small: "\<forall>k. rr_refs h r k < 2 ^ 64 - 1"
  proof
    fix k show "rr_refs h r k < 2 ^ 64 - 1" using spec [OF Cons.prems(3), of k] by simp
  qed
  obtain r1 h1 where s: "rr_step x r h = Some (r1, h1)"
    using Cons.prems(2) rr_step_total [OF Cons.prems(1) spec [OF small]] by (metis list.set_intros(1))
  have "value_in {} (unat (rr_element_size r)) x" using Cons.prems(2) by fastforce
  then have "rr_stepped {} Z x h r h1 r1" using rr_step_spec [OF Cons.prems(1) _ _ _ small s] by simp
  then obtain m1 F1 L1 Z1 where S: "rc_tree_at h1 r1 m1 F1 L1 Z1"
      "count_step x (rr_refs h r, length (cb_log h)) = (rr_refs h1 r1, length (cb_log h1))"
    unfolding rr_stepped_def by blast
  have "\<forall>k. rr_refs h1 r1 k + length xs < 2 ^ 64"
  proof
    fix k show "rr_refs h1 r1 k + length xs < 2 ^ 64" using count_step_bound [OF S(2), of k] spec [OF Cons.prems(3), of k] by simp
  qed
  then show ?case using Cons.IH [OF S(1)] Cons.prems(2) s by auto
qed simp

lemma value_put:
  "\<exists>p r h. cx_rc_radix_tree_put (snd (the (cx_rc_radix_tree_init 1 test_deinit))) 0 50 value_heap = Some (p, r, h)"
  by (simp add: cx_rc_radix_tree_init_def cx_radix_tree_init_def cx_prealloc_pool_init_def cx_prealloc_pool_init2_def
      cx_rc_radix_tree_put_def radix_tree_retain_def cx_radix_tree_get_def descend.simps [of 0]
      cx_radix_tree_new_leaf_def resize.simps cx_prealloc_pool_get_def add_chunk_def calloc_def malloc_def value_heap_def
      fits_def Let_def mem_step heap_simps valid_def memcpy_def)

lemma demo_rc_run:
  "\<exists>r' h'. rr_run [RrPut 0 50, RrRetain 0, RrRelease 0, RrRelease 0] (snd (the (cx_rc_radix_tree_init 1 test_deinit))) value_heap = Some (r', h')"
proof -
  let ?i = "cx_rc_radix_tree_init 1 test_deinit"
  obtain p r1 h1 where put: "cx_rc_radix_tree_put (snd (the ?i)) 0 50 value_heap = Some (p, r1, h1)" using value_put by blast
  have i: "?i = Some (0, snd (the ?i))"
    by (simp add: cx_rc_radix_tree_init_def cx_radix_tree_init_def cx_prealloc_pool_init_def cx_prealloc_pool_init2_def)
  have ok: "heap_ok value_heap" by (simp add: heap_ok_def value_heap_def fits_def)
  note I = rr_init_at [OF ok i] 
  have I': "rc_tree_at value_heap (snd (the ?i)) (\<lambda>_. 0) [] [] {}" "rr_element_size (snd (the ?i)) = 1"
      "rr_refs value_heap (snd (the ?i)) = (\<lambda>_. 0)"
    by (rule I; use test_deinit_local in simp)+
  have v: "readable value_heap {} 50 (unat (rr_element_size (snd (the ?i))))"
    unfolding I'(2) by (rule readableI [of 50 8]) (simp_all add: value_heap_def)
  obtain e Z' where "rc_tree_at h1 r1 ((\<lambda>_. 0)(0 := e)) (tl []) ([] @ [e]) Z'" "rr_refs h1 r1 = (\<lambda>_. 0)(0 := 1)"
    using put_absent [OF I'(1) refl v, where k = 0] I'(3) unfolding put by auto
  then obtain r' h' where "rr_run [RrRetain 0, RrRelease 0, RrRelease 0] r1 h1 = Some (r', h')"
    using rr_run_total [of h1 r1 _ _ _ _ "[RrRetain 0, RrRelease 0, RrRelease 0]"] by fastforce
  then show ?thesis using put by simp
qed

theorem rc_radix_lifetime_witness:
  "\<exists>r' h'. rr_run [RrPut 0 50, RrRetain 0, RrRelease 0, RrRelease 0]
      (snd (the (cx_rc_radix_tree_init 1 test_deinit))) value_heap = Some (r', h') \<and>
    rr_refs h' r' 0 = 0 \<and> length (cb_log h') = 1"
proof -
  let ?xs = "[RrPut 0 50, RrRetain 0, RrRelease 0, RrRelease 0]"
  let ?i = "cx_rc_radix_tree_init 1 test_deinit"
  obtain r' h' where r: "rr_run ?xs (snd (the ?i)) value_heap = Some (r', h')" using demo_rc_run by blast
  have ok: "heap_ok value_heap" "{(50, 8)} \<subseteq> set (blocks value_heap)" by (simp_all add: heap_ok_def value_heap_def fits_def)
  have i: "?i = Some (0, snd (the ?i))"
    by (simp add: cx_rc_radix_tree_init_def cx_radix_tree_init_def cx_prealloc_pool_init_def cx_prealloc_pool_init2_def)
  have cb: "cb_local test_deinit (unat (1 :: u64))" using test_deinit_local by simp
  have v: "\<forall>x \<in> set ?xs. value_in {(50, 8)} (unat (1 :: u64)) x" by simp
  have "fold count_step ?xs (\<lambda>_. 0, length (cb_log value_heap)) = (rr_refs h' r', length (cb_log h'))"
    using rc_radix_lifetime [OF ok i _ cb v _ r] by simp
  then have "rr_refs h' r' = (\<lambda>_. 0)(0 := 0)" "length (cb_log h') = 1" by (auto simp: value_heap_def)
  then show ?thesis using r by simp
qed

text \<open>
  \<^verbatim>\<open>cx_rc_radix_tree_put\<close> copies the value into a new element with one reference when
  the key has none, and never fails while there is room in the pools; for a live key it keeps the
  element as it is, adds a reference and gives the value to the callback. Every other element
  keeps its count and its bytes.
\<close>

theorem rc_radix_put_correct:
  assumes at: "rc_tree_at h r m F L Z" and small: "rr_refs h r k < 2 ^ 64 - 1"
    and v: "(s, b) \<in> set (blocks h)" "(s, b) \<notin> Z" "s \<le> value" "value + unat (rr_element_size r) \<le> s + b"
  shows "case cx_rc_radix_tree_put r k value h of
      None \<Rightarrow> rr_refs h r k = 0 \<and> \<not> radix_room (rr_values r) F
    | Some (p, r', h') \<Rightarrow> rr_element h' r' k p \<and> rr_refs h' r' = (rr_refs h r)(k := rr_refs h r k + 1) \<and>
        (\<forall>j. m j \<noteq> 0 \<longrightarrow> rr_data h' r' (m j) = rr_data h r (m j)) \<and>
        (if rr_refs h r k = 0
         then bytes_at h' p (unat (rr_element_size r)) = bytes_at h value (unat (rr_element_size r)) \<and> cb_log h' = cb_log h
         else p = m k + 8 \<and> cb_log h' = cb_log h @ [value])"
proof (cases "m k = 0")
  case False
  obtain h' where P: "cx_rc_radix_tree_put r k value h = Some (m k + 8, r, h')" "rc_tree_at h' r m F L Z"
      "rr_refs h' r = (rr_refs h r)(k := rr_refs h r k + 1)" "\<forall>j. m j \<noteq> 0 \<longrightarrow> rr_data h' r (m j) = rr_data h r (m j)"
      "cb_log h' = cb_log h @ [value]"
    using put_present [OF at False small v] by blast
  then show ?thesis using rr_element_eq [OF P(2)] False refs_zero [OF at, of k] by simp
next
  case True
  note A = put_absent [OF at True readableI [OF v]]
  show ?thesis
  proof (cases "cx_rc_radix_tree_put r k value h")
    case None
    then show ?thesis using A refs_zero [OF at, of k] True by simp
  next
    case (Some x)
    obtain p r' h' where x: "x = (p, r', h')" by (cases x)
    obtain e Z' where P: "p = e + 8" "e \<noteq> 0" "rc_tree_at h' r' (m(k := e)) (tl F) (L @ [e]) Z'"
        "rr_refs h' r' = (rr_refs h r)(k := 1)" "rr_data h' r' e = bytes_at h value (unat (rr_element_size r))"
        "\<forall>j. m j \<noteq> 0 \<longrightarrow> rr_data h' r' (m j) = rr_data h r (m j)" "rr_element_size r' = rr_element_size r"
      using A unfolding Some x by auto
    have "rr_element h' r' k p" using rr_element_eq [OF P(3)] P(1,2) by simp
    then show ?thesis
      using P(1,4-7) Some x refs_zero [OF at, of k] True put_absent_log [OF at True, where p = p and r' = r' and h' = h' and v = "value"] by (simp add: rr_data_def)
  qed
qed

theorem rc_radix_put_correct_witness:
  "\<exists>p r' h'. cx_rc_radix_tree_put demo_rc_tree 6 40000 demo_radix_heap = Some (p, r', h') \<and>
     rr_refs h' r' 6 = 1 \<and> rr_refs h' r' 5 = 2 \<and> bytes_at h' p 1 = [9]"
proof -
  have b: "bytes_at demo_radix_heap 40000 1 = [9]" by (simp add: bytes_at_def read_mem_def demo_radix_heap_def)
  have r: "radix_room (rr_values demo_rc_tree) []" "rr_element_size demo_rc_tree = 1" using demo_room(1) by (simp_all add: demo_rc_tree_def)
  have v: "(40000, 9) \<in> set (blocks demo_radix_heap)" by (simp add: demo_radix_heap_def)
  have "rr_refs demo_radix_heap demo_rc_tree 6 < 2 ^ 64 - 1" by (simp add: demo_rc_refs)
  from rc_radix_put_correct [OF demo_rc_at this v, of 40000] show ?thesis
    using r b by (auto simp: demo_rc_refs split: option.splits)
qed

text \<open>
  \<^verbatim>\<open>cx_rc_radix_tree_release\<close> of an absent key returns -1 and does nothing. Of a live
  key it takes one reference; the last one runs the callback on the element and then removes it.
  No other key and no other element changes.
\<close>

theorem rc_radix_release_correct:
  assumes at: "rc_tree_at h r m F L Z"
  shows "(rr_refs h r k = 0 \<longrightarrow> cx_rc_radix_tree_release r k h = Some (- 1, r, h)) \<and>
    (0 < rr_refs h r k \<longrightarrow> (\<exists>r' h'. cx_rc_radix_tree_release r k h = Some (0, r', h') \<and>
      rr_refs h' r' = (rr_refs h r)(k := rr_refs h r k - 1) \<and>
      cx_radix_tree_get (rr_values r') k h' = Some (if rr_refs h r k = 1 then 0 else m k) \<and>
      cb_log h' = cb_log h @ (if rr_refs h r k = 1 then [m k + 8] else []) \<and>
      (\<forall>j. m j \<noteq> 0 \<longrightarrow> j \<noteq> k \<longrightarrow> rr_data h' r' (m j) = rr_data h r (m j)) \<and> frame Z Z h h'))"
proof (cases "m k = 0")
  case True
  then show ?thesis using radix_tree_get [OF rc_tree_atD(1) [OF at]] refs_zero [OF at, of k]
    by (simp add: cx_rc_radix_tree_release_def)
next
  case False
  obtain r' h' m' F' L' where R: "cx_rc_radix_tree_release r k h = Some (0, r', h')" "rc_tree_at h' r' m' F' L' Z" "frame Z Z h h'"
      "rr_refs h' r' = (rr_refs h r)(k := rr_refs h r k - 1)" "m' = (if rr_refs h r k = 1 then m(k := 0) else m)"
      "\<forall>j. m j \<noteq> 0 \<longrightarrow> j \<noteq> k \<or> rr_refs h r k \<noteq> 1 \<longrightarrow> rr_data h' r' (m j) = rr_data h r (m j)"
      "cb_log h' = cb_log h @ (if rr_refs h r k = 1 then [m k + 8] else [])"
    using release_spec [OF at False] by blast
  have "cx_radix_tree_get (rr_values r') k h' = Some (if rr_refs h r k = 1 then 0 else m k)"
    using radix_tree_get [OF rc_tree_atD(1) [OF R(2)], of k] R(5) by simp
  then show ?thesis using R(1,3,4,6,7) refs_zero [OF at, of k] False by auto
qed

theorem rc_radix_release_correct_witness:
  "\<exists>r' h'. cx_rc_radix_tree_release demo_rc_tree 5 demo_radix_heap = Some (0, r', h') \<and> rr_refs h' r' 5 = 1 \<and> cb_log h' = []"
proof -
  have "cb_log demo_radix_heap = []" by (simp add: demo_radix_heap_def)
  then show ?thesis using rc_radix_release_correct [OF demo_rc_at, of 5] by (auto simp: demo_rc_refs)
qed

text \<open>
  C21. A cache over a radix tree: a touch by key and a touch by the address of the element do the
  same. The ring is the queue of the specification, the evicted key loses the cache's reference and
  the touched key gains it.
\<close>

theorem rc_radix_lru_touch:
  assumes "lru_inv (rr_ok Z) (\<lambda>_. Z) rr_refs h l r" "limpl l = cx_lru_rc_radix_tree" "0 < rr_refs h r k" "rr_refs h r k < 2 ^ 64 - 1"
    and "rr_element h r k p"
  shows "(\<exists>l' r' h'. cx_lru_touch l k r h = Some (0, l', r', h') \<and> lru_inv (rr_ok Z) (\<lambda>_. Z) rr_refs h' l' r' \<and>
      queue h' l' = touch_queue k (queue h l) \<and> rr_refs h' r' = touched k (queue h l) (rr_refs h r) \<and>
      frame (own_lru l \<union> Z) (own_lru l' \<union> Z) h h') \<and>
    (\<exists>l' r' h'. cx_lru_touch_value l k p r h = Some (0, l', r', h') \<and> lru_inv (rr_ok Z) (\<lambda>_. Z) rr_refs h' l' r' \<and>
      queue h' l' = touch_queue k (queue h l) \<and> rr_refs h' r' = touched k (queue h l) (rr_refs h r) \<and>
      frame (own_lru l \<union> Z) (own_lru l' \<union> Z) h h')"
  using rrt.touch_spec [OF assms(1-4)] rrt.touch_value_spec [OF assms] unfolding touch_done_def by blast


theorem rc_radix_lru_touch_witness:
  "\<exists>l' r' h'. cx_lru_touch_value demo_rc_ring 5 40 demo_rc_tree demo_radix_heap = Some (0, l', r', h') \<and>
     queue h' l' = [EMPTY_MARKER, 5] \<and> rr_refs h' r' 5 = 3"
proof -
  have i: "limpl demo_rc_ring = cx_lru_rc_radix_tree" by (simp add: demo_rc_ring_def)
  have r: "0 < rr_refs demo_radix_heap demo_rc_tree 5" "rr_refs demo_radix_heap demo_rc_tree 5 < 2 ^ 64 - 1"
    by (simp_all add: demo_rc_refs)
  have e: "rr_element demo_radix_heap demo_rc_tree 5 40" using rr_element_eq [OF demo_rc_at] by (simp add: demo_radix_map_def)
  have q: "touch_queue 5 [EMPTY_MARKER, EMPTY_MARKER] = [EMPTY_MARKER, 5]"
    by (simp add: touch_queue_def EMPTY_MARKER_def)
  then have "touched 5 [EMPTY_MARKER, EMPTY_MARKER] (rr_refs demo_radix_heap demo_rc_tree) 5 = 3"
    by (simp add: touched_def evicted_def demo_rc_refs EMPTY_MARKER_def)
  then show ?thesis
    using rc_radix_lru_touch [OF demo_rc_ring_inv(1) i r e] unfolding demo_rc_ring_inv(2) q by auto
qed

end
