(* ===== verification/ObjectMacros.thy ===== *)
theory ObjectMacros
  imports RcMap
begin

text \<open>
  The macros \<^verbatim>\<open>CX_NEW_IMPL\<close> and \<^verbatim>\<open>CX_FREE_IMPL\<close> of \<^verbatim>\<open>include/cextras/memory.h\<close>, the bodies of
  functions that allocate and initialise an object, or clean it up and free it. The contents of the object are a
  record \<open>x\<close>; \<open>zero\<close> is what \<^verbatim>\<open>calloc\<close> leaves in it.
\<close>

text \<open>The result is the pointer, what \<^verbatim>\<open>*err\<close> is set to, and the contents.\<close>

definition CX_NEW_IMPL ::
  "('a \<Rightarrow> heap \<Rightarrow> (int \<times> 'a \<times> heap) option) \<Rightarrow> 'a \<Rightarrow> u64 \<Rightarrow> int \<Rightarrow> heap \<Rightarrow> (addr \<times> int \<times> 'a \<times> heap) option" where
  "CX_NEW_IMPL init zero sz malloc_err h =
     (let (obj, h) = calloc 1 sz h in
      if obj = 0 then Some (0, malloc_err, zero, h)
      else do {
        (rv, x, h) \<leftarrow> init zero h;
        if rv < 0 then do { h \<leftarrow> free obj h; Some (0, rv, x, h) }
        else Some (obj, rv, x, h)
      })"

definition CX_FREE_IMPL :: "('a \<Rightarrow> heap \<Rightarrow> (int \<times> 'a \<times> heap) option) \<Rightarrow> addr \<Rightarrow> 'a \<Rightarrow> heap \<Rightarrow> (int \<times> heap) option" where
  "CX_FREE_IMPL cleanup obj x h =
     (if obj = 0 then Some (0, h)
      else do {
        (rv, x, h) \<leftarrow> cleanup x h;
        h \<leftarrow> free obj h;
        Some (rv, h)
      })"

section \<open>Objects\<close>

text \<open>What the macros need of the functions they are given: \<open>ok\<close> is an object that may be cleaned up.\<close>

locale c_object =
  fixes init cleanup :: "'a \<Rightarrow> heap \<Rightarrow> (int \<times> 'a \<times> heap) option" and zero :: 'a
    and ok :: "heap \<Rightarrow> 'a \<Rightarrow> bool" and owned :: "'a \<Rightarrow> (addr \<times> nat) set"
  assumes init_law: "heap_ok h \<Longrightarrow> \<exists>rv x h'. init zero h = Some (rv, x, h') \<and>
      ((rv = 0 \<and> ok h' x \<and> frame {} (owned x) h h') \<or> (rv < 0 \<and> frame {} {} h h'))"
    and cleanup_law: "heap_ok h \<Longrightarrow> ok h x \<Longrightarrow> \<exists>x' h'. cleanup x h = Some (0, x', h') \<and> frame (owned x) {} h h'"
begin

lemma new_cases:
  assumes h: "heap_ok h"
  shows "\<exists>obj rv x h'. CX_NEW_IMPL init zero sz e h = Some (obj, rv, x, h') \<and>
    ((obj = 0 \<and> (rv = e \<or> rv < 0) \<and> frame {} {} h h') \<or>
     (obj \<noteq> 0 \<and> rv = 0 \<and> ok h' x \<and> (obj, unat sz) \<notin> owned x \<and> frame {} (insert (obj, unat sz) (owned x)) h h'))"
proof -
  obtain obj h1 where c: "calloc 1 sz h = (obj, h1)" by fastforce
  from calloc_cases [OF c h] show ?thesis
  proof (elim disjE conjE)
    assume "obj = 0" "frame {} {} h h1"
    then show ?thesis using c by (simp add: CX_NEW_IMPL_def)
  next
    assume o: "0 < obj" and f1: "frame {} {(obj, unat (1 :: u64) * unat sz)} h h1"
    let ?b = "(obj, unat sz)"
    have f: "frame {} {?b} h h1" using f1 by simp
    have h1: "heap_ok h1" and b: "?b \<in> set (blocks h1)" using frame_heap_ok [OF f h] frame_sub [OF f] by simp_all
    obtain rv x h2 where i: "init zero h1 = Some (rv, x, h2)"
        "(rv = 0 \<and> ok h2 x \<and> frame {} (owned x) h1 h2) \<or> (rv < 0 \<and> frame {} {} h1 h2)"
      using init_law [OF h1] by blast
    show ?thesis
    proof (cases "rv < 0")
      case True
      then have f2: "frame {} {} h1 h2" using i(2) by auto
      obtain h3 where "free obj h2 = Some h3" "frame {?b} {} h2 h3"
        using free_block [OF frame_heap_ok [OF f2 h1], of obj "unat sz"] frame_mem [OF f2 b] by auto
      moreover have "frame {?b} {?b} h1 h2" using frame_extend [OF f2, of "{?b}"] b by simp
      ultimately have fr: "\<exists>h3. free obj h2 = Some h3 \<and> frame {} {} h h3" using frame_trans [OF frame_trans [OF f]] by blast
      then obtain h3 where "free obj h2 = Some h3" "frame {} {} h h3" by blast
      then have "CX_NEW_IMPL init zero sz e h = Some (0, rv, x, h3) \<and> frame {} {} h h3" using c o i(1) True by (simp add: CX_NEW_IMPL_def)
      then show ?thesis using True by blast
    next
      case False
      then have r: "rv = 0" "ok h2 x" "frame {} (owned x) h1 h2" using i(2) by auto
      have "?b \<notin> owned x" using frame_mem [OF r(3) b] by simp
      moreover have "frame {?b} (insert ?b (owned x)) h1 h2" using frame_extend [OF r(3), of "{?b}"] b by simp
      ultimately have "frame {} (insert ?b (owned x)) h h2" "?b \<notin> owned x" using frame_trans [OF f] by blast+
      moreover have "CX_NEW_IMPL init zero sz e h = Some (obj, rv, x, h2)" using c o i(1) r(1) by (simp add: CX_NEW_IMPL_def)
      ultimately show ?thesis using o r(1,2) by (intro exI) auto
    qed
  qed
qed

lemma free_object:
  assumes h: "heap_ok h" and ok: "ok h x" and b: "(obj, m) \<in> set (blocks h)" "(obj, m) \<notin> owned x"
  shows "\<exists>h'. CX_FREE_IMPL cleanup obj x h = Some (0, h') \<and> frame (insert (obj, m) (owned x)) {} h h'"
proof -
  obtain x' h1 where c: "cleanup x h = Some (0, x', h1)" "frame (owned x) {} h h1" using cleanup_law [OF h ok] by blast
  obtain h2 where f: "free obj h1 = Some h2" "frame {(obj, m)} {} h1 h2"
    using free_block [OF frame_heap_ok [OF c(2) h], of obj m] frame_mem [OF c(2) b] by auto
  have "frame (insert (obj, m) (owned x)) {(obj, m)} h h1" using frame_extend [OF c(2), of "{(obj, m)}"] b by simp
  then have "frame (insert (obj, m) (owned x)) {} h h2" using frame_trans f(2) by blast
  moreover have "obj \<noteq> 0" using heap_ok_range [OF h b(1)] by simp
  ultimately show ?thesis using c(1) f(1) by (simp add: CX_FREE_IMPL_def)
qed

lemma new_free:
  assumes h: "heap_ok h"
  shows "\<exists>obj rv x h1. CX_NEW_IMPL init zero sz e h = Some (obj, rv, x, h1) \<and>
    ((obj = 0 \<and> (rv = e \<or> rv < 0) \<and> frame {} {} h h1) \<or>
     (obj \<noteq> 0 \<and> rv = 0 \<and> (\<exists>h2. CX_FREE_IMPL cleanup obj x h1 = Some (0, h2) \<and> frame {} {} h h2)))"
proof -
  obtain obj rv x h1 where n: "CX_NEW_IMPL init zero sz e h = Some (obj, rv, x, h1)"
      "(obj = 0 \<and> (rv = e \<or> rv < 0) \<and> frame {} {} h h1) \<or>
       (obj \<noteq> 0 \<and> rv = 0 \<and> ok h1 x \<and> (obj, unat sz) \<notin> owned x \<and> frame {} (insert (obj, unat sz) (owned x)) h h1)"
    using new_cases [OF h] by blast
  from n(2) show ?thesis
  proof (elim disjE conjE)
    assume o: "obj \<noteq> 0" "rv = 0" "ok h1 x" "(obj, unat sz) \<notin> owned x" and f: "frame {} (insert (obj, unat sz) (owned x)) h h1"
    have b: "(obj, unat sz) \<in> set (blocks h1)" using frame_sub [OF f] by simp
    from free_object [OF frame_heap_ok [OF f h] o(3) b o(4)]
    obtain h2 where "CX_FREE_IMPL cleanup obj x h1 = Some (0, h2)" "frame {} {} h h2" using frame_trans [OF f] by blast
    then show ?thesis using n(1) o(1,2) by (intro exI [of _ obj] exI [of _ rv] exI [of _ x] exI [of _ h1]) auto
  qed (use n(1) in \<open>intro exI [of _ obj] exI [of _ rv] exI [of _ x] exI [of _ h1], simp_all\<close>)
qed

end

section \<open>Maps as objects\<close>

text \<open>
  A \<^verbatim>\<open>CxRcMap\<close> without live elements. In the zeroed struct \<^verbatim>\<open>ref_count\<close> is null, so that the cleanup on a failed
  allocation frees nothing that is not there.
\<close>

definition zero_map :: "cleanup_fn \<Rightarrow> rc_map" where
  "zero_map cb = \<lparr>rdata = 0, rsize = 0, relement_size = 0, rref_count = 0, rcleanup = cb\<rparr>"

definition idle_map :: "heap \<Rightarrow> rc_map \<Rightarrow> bool" where
  "idle_map h m \<longleftrightarrow> map_ok h m \<and> refs h m = (\<lambda>_. 0)"

lemma rc_map_object:
  assumes "cb_local cb (unat e)"
  shows "c_object (\<lambda>m. cx_rc_map_init m n e cb) cx_rc_map_cleanup (zero_map cb) idle_map own_map"
proof
  fix h assume h: "heap_ok h"
  have null: "rref_count (zero_map cb) = 0" by (simp add: zero_map_def)
  show "\<exists>rv m h'. cx_rc_map_init (zero_map cb) n e cb h = Some (rv, m, h') \<and>
      ((rv = 0 \<and> idle_map h' m \<and> frame {} (own_map m) h h') \<or> (rv < 0 \<and> frame {} {} h h'))"
    using init_spec [OF h assms null, of n] by (fastforce simp: idle_map_def)
next
  fix h m assume "idle_map h m"
  then show "\<exists>m' h'. cx_rc_map_cleanup m h = Some (0, m', h') \<and> frame (own_map m) {} h h'"
    using cleanup_spec [of h m] by (auto simp: idle_map_def)
qed

interpretation test_map: c_object "\<lambda>m. cx_rc_map_init m n 1 test_deinit" cx_rc_map_cleanup "zero_map test_deinit" idle_map own_map for n
  by (rule rc_map_object) (simp only: unsigned_1 test_deinit_local)

text \<open>
  A map made by \<^verbatim>\<open>CX_NEW_IMPL\<close> is safe also when an allocation fails (the initialisation alone is not, see
  \<open>rc_map_init_failure_reads_garbage\<close>): either the pointer is null, an error is set and nothing was leaked, or
  \<^verbatim>\<open>CX_FREE_IMPL\<close> gives all memory back.
\<close>

theorem rc_map_new_free:
  assumes "heap_ok h" "cb_local cb (unat e)" "malloc_err < 0"
  shows "\<exists>obj rv m h1. CX_NEW_IMPL (\<lambda>m. cx_rc_map_init m n e cb) (zero_map cb) sz malloc_err h = Some (obj, rv, m, h1) \<and>
    ((obj = 0 \<and> rv < 0 \<and> frame {} {} h h1) \<or>
     (obj \<noteq> 0 \<and> rv = 0 \<and> (\<exists>h2. CX_FREE_IMPL cx_rc_map_cleanup obj m h1 = Some (0, h2) \<and> frame {} {} h h2)))"
proof -
  let ?init = "\<lambda>m. cx_rc_map_init m n e cb"
  obtain obj rv m h1 where "CX_NEW_IMPL ?init (zero_map cb) sz malloc_err h = Some (obj, rv, m, h1)"
      "(obj = 0 \<and> (rv = malloc_err \<or> rv < 0) \<and> frame {} {} h h1) \<or>
       (obj \<noteq> 0 \<and> rv = 0 \<and> (\<exists>h2. CX_FREE_IMPL cx_rc_map_cleanup obj m h1 = Some (0, h2) \<and> frame {} {} h h2))"
    using c_object.new_free [OF rc_map_object [OF assms(2)] assms(1), of n sz malloc_err] by metis
  then show ?thesis using assms(3) by (intro exI [of _ obj] exI [of _ rv] exI [of _ m] exI [of _ h1]) auto
qed

theorem rc_map_new_free_witness:
  "\<exists>obj rv m h1. CX_NEW_IMPL (\<lambda>m. cx_rc_map_init m 4 1 test_deinit) (zero_map test_deinit) 40 (- 4) demo_map_heap = Some (obj, rv, m, h1) \<and>
    ((obj = 0 \<and> rv < 0 \<and> frame {} {} demo_map_heap h1) \<or>
     (obj \<noteq> 0 \<and> rv = 0 \<and> (\<exists>h2. CX_FREE_IMPL cx_rc_map_cleanup obj m h1 = Some (0, h2) \<and> frame {} {} demo_map_heap h2)))"
proof (rule rc_map_new_free)
  show "heap_ok demo_map_heap" using demo_map_ok by (simp add: map_ok_def)
qed (simp only: unsigned_1 test_deinit_local, simp)

end
