(* ===== verification/DebugPool.thy ===== *)
theory DebugPool
  imports Pool
begin

text \<open>
  The pool between \<^verbatim>\<open>#if 0\<close> and \<^verbatim>\<open>#else\<close> in \<^verbatim>\<open>lib/memory/prealloc_pool.c\<close>, which a developer
  switches on to look for memory errors: every element is an object of its own. For a client that clears an
  element before it recycles it the two pools are the same; what differs is said in \<open>debug_pool_lifetime\<close>.
\<close>

section \<open>Operations\<close>

text \<open>Only \<^verbatim>\<open>element_size\<close> is set, the other fields stay as they were.\<close>

definition debug_pool_init2 :: "u64 \<Rightarrow> u64 \<Rightarrow> prealloc_pool \<Rightarrow> prealloc_pool" where
  "debug_pool_init2 element_count element_size pool = pool\<lparr>pool_element_size := element_size\<rparr>"

definition debug_pool_get :: "prealloc_pool \<Rightarrow> heap \<Rightarrow> addr \<times> heap" where
  "debug_pool_get pool h = calloc 1 (pool_element_size pool) h"

definition debug_pool_recycle :: "prealloc_pool \<Rightarrow> addr \<Rightarrow> heap \<Rightarrow> heap option" where
  "debug_pool_recycle pool element h = free element h"

definition debug_pool_cleanup :: "prealloc_pool \<Rightarrow> heap \<Rightarrow> heap option" where
  "debug_pool_cleanup pool h = Some h"

section \<open>Histories\<close>

text \<open>The operations are those of a history of the other pool, \<open>pool_run\<close>.\<close>

fun debug_step :: "prealloc_pool \<Rightarrow> pool_op \<Rightarrow> addr list \<Rightarrow> heap \<Rightarrow> (bool \<times> addr list \<times> heap) option" where
  "debug_step p PGet L h = (let (e, h) = debug_pool_get p h in Some (e \<noteq> 0, if e \<noteq> 0 then L @ [e] else L, h))"
| "debug_step p (PWrite i bs) L h = do { h \<leftarrow> store_bytes (L ! i) bs h; Some (True, L, h) }"
| "debug_step p (PRecycle i) L h = do { h \<leftarrow> debug_pool_recycle p (L ! i) h; Some (True, drop_nth i L, h) }"

fun debug_run :: "prealloc_pool \<Rightarrow> pool_op list \<Rightarrow> addr list \<Rightarrow> heap \<Rightarrow> (bool \<times> addr list \<times> heap) option" where
  "debug_run p [] L h = Some (True, L, h)"
| "debug_run p (x # xs) L h = do {
     (ok, L, h) \<leftarrow> debug_step p x L h;
     if ok then debug_run p xs L h else Some (False, L, h)
   }"

text \<open>The specification: new elements are zero.\<close>

fun zero_step :: "nat \<Rightarrow> pool_op \<Rightarrow> u8 list list \<Rightarrow> u8 list list option" where
  "zero_step n PGet L = Some (L @ [replicate n 0])"
| "zero_step n (PWrite i bs) L = (if i < length L \<and> length bs = n then Some (L[i := bs]) else None)"
| "zero_step n (PRecycle i) L = (if i < length L then Some (drop_nth i L) else None)"

fun zero_run :: "nat \<Rightarrow> pool_op list \<Rightarrow> u8 list list \<Rightarrow> u8 list list option" where
  "zero_run n [] L = Some L"
| "zero_run n (x # xs) L = Option.bind (zero_step n x L) (zero_run n xs)"

text \<open>The elements \<open>L\<close> are objects, all there is beside the heap \<open>h0\<close> of the initialisation.\<close>

definition debug_sim :: "heap \<Rightarrow> nat \<Rightarrow> heap \<Rightarrow> addr list \<Rightarrow> u8 list list \<Rightarrow> bool" where
  "debug_sim h0 n h L C \<longleftrightarrow> distinct L \<and> contents h n L = C \<and> frame {} ((\<lambda>e. (e, n)) ` set L) h0 h"

lemma sim_get:
  assumes ok: "heap_ok h0" and sim: "debug_sim h0 (esize p) h L C"
  shows "\<exists>e h'. debug_pool_get p h = (e, h') \<and> (e \<noteq> 0 \<longrightarrow> debug_sim h0 (esize p) h' (L @ [e]) (C @ [replicate (esize p) 0]))"
proof -
  let ?n = "esize p" and ?X = "(\<lambda>e. (e, esize p)) ` set L"
  have d: "distinct L" "contents h ?n L = C" and f: "frame {} ?X h0 h" using sim by (simp_all add: debug_sim_def)
  obtain e h' where g: "calloc 1 (pool_element_size p) h = (e, h')" by fastforce
  have "debug_sim h0 ?n h' (L @ [e]) (C @ [replicate ?n 0])" if "e \<noteq> 0"
  proof -
    have c: "frame {} {(e, ?n)} h h'" "bytes_at h' e ?n = replicate ?n 0"
      using calloc_cases [OF g frame_heap_ok [OF f ok]] that by auto
    have X: "?X \<subseteq> set (blocks h)" by (rule frame_sub [OF f])
    have "frame {} (insert (e, ?n) ?X) h0 h'"
      using frame_trans [OF f] frame_extend [OF c(1) X] by simp
    moreover have "e \<notin> set L" using frame_mem [OF c(1)] X by fastforce
    moreover have "contents h' ?n L = C"
    proof -
      have "bytes_at h' x ?n = bytes_at h x ?n" if "x \<in> set L" for x
        using frame_bytes [OF c(1), of x ?n x ?n] X that by auto
      then show ?thesis using d(2) by (metis contents_cong)
    qed
    ultimately show ?thesis using d(1) c(2) by (simp add: debug_sim_def)
  qed
  then show ?thesis using g by (auto simp: debug_pool_get_def)
qed

lemma sim_recycle:
  assumes ok: "heap_ok h0" and sim: "debug_sim h0 n h L C" and i: "i < length L"
  shows "\<exists>h'. debug_pool_recycle p (L ! i) h = Some h' \<and> debug_sim h0 n h' (drop_nth i L) (drop_nth i C)"
proof -
  let ?e = "L ! i" and ?X = "\<lambda>L. (\<lambda>e. (e, n)) ` set L"
  have d: "distinct L" "contents h n L = C" and f: "frame {} (?X L) h0 h" using sim by (simp_all add: debug_sim_def)
  have e: "?e \<in> set L" using i by simp
  obtain h' where h': "free ?e h = Some h'" "frame {(?e, n)} {} h h'" "mem h' = mem h"
    using free_block [OF frame_heap_ok [OF f ok], of ?e n] frame_sub [OF f] e by blast
  have r: "drop_nth i L = remove1 ?e L" by (rule drop_nth_remove1 [OF d(1) i])
  have "?X L = insert (?e, n) (?X (drop_nth i L))" using e d(1) by (auto simp: r)
  moreover have "frame {(?e, n)} {} h h' \<Longrightarrow> frame (insert (?e, n) (?X (drop_nth i L))) (?X (drop_nth i L)) h h'"
    using frame_extend [of "{(?e, n)}" "{}" h h' "?X (drop_nth i L)"] frame_sub [OF f] d(1) by (auto simp: r)
  ultimately have "frame {} (?X (drop_nth i L)) h0 h'" using f h'(2) frame_trans by metis
  moreover have "contents h' n (drop_nth i L) = drop_nth i C"
    using d(2) h'(3) by (auto simp: contents_def map_drop_nth bytes_at_def)
  ultimately show ?thesis using h'(1) d(1) by (simp add: debug_sim_def debug_pool_recycle_def r)
qed

lemma sim_write:
  assumes ok: "heap_ok h0" and sim: "debug_sim h0 n h L C" and i: "i < length L" "length bs = n"
  shows "\<exists>h'. store_bytes (L ! i) bs h = Some h' \<and> debug_sim h0 n h' L (C[i := bs])"
proof -
  let ?e = "L ! i" and ?X = "(\<lambda>e. (e, n)) ` set L" and ?h = "set_bytes (L ! i) bs h"
  have d: "distinct L" "contents h n L = C" and f: "frame {} ?X h0 h" using sim by (simp_all add: debug_sim_def)
  have h: "heap_ok h" using frame_heap_ok [OF f ok] .
  have X: "?X \<subseteq> set (blocks h)" by (rule frame_sub [OF f])
  have e: "(?e, n) \<in> ?X" using i(1) by simp
  have "frame ?X ?X h ?h" by (rule frame_set_bytes [OF h e X]) (simp_all add: i(2))
  then have "frame {} ?X h0 ?h" by (rule frame_trans [OF f])
  moreover have "contents ?h n L = C[i := bs]"
  proof (rule nth_equalityI)
    show "length (contents ?h n L) = length (C[i := bs])" using d(2) by auto
  next
    fix j assume "j < length (contents ?h n L)"
    then have j: "j < length L" by simp
    show "contents ?h n L ! j = C[i := bs] ! j"
    proof (cases "j = i")
      case True
      then show ?thesis using j i d(2) by (auto simp: heap_simps)
    next
      case False
      have "L ! j \<noteq> ?e" using False d(1) i(1) j nth_eq_iff_index_eq by blast
      moreover have "(L ! j, n) \<in> set (blocks h)" "(?e, n) \<in> set (blocks h)" using X i(1) j by auto
      ultimately have "L ! j + n \<le> ?e \<or> ?e + n \<le> L ! j" using heap_ok_disjoint [OF h, of "(L ! j, n)" "(?e, n)"] by auto
      then have "bytes_at ?h (L ! j) n = bytes_at h (L ! j) n" using i(2) by (intro bytes_at_set_other) auto
      then show ?thesis using False j d(2) by auto
    qed
  qed
  moreover have "valid h ?e (length bs)" using X e i(2) by (intro valid_block [of ?e n]) auto
  ultimately show ?thesis using d(1) by (simp add: mem_step debug_sim_def)
qed

lemma sim_run:
  assumes ok: "heap_ok h0"
  shows "debug_sim h0 (esize p) h L C \<Longrightarrow> zero_run (esize p) xs C = Some C' \<Longrightarrow>
    \<exists>ok L' h'. debug_run p xs L h = Some (ok, L', h') \<and> (ok \<longrightarrow> debug_sim h0 (esize p) h' L' C')"
proof (induction xs arbitrary: h L C)
  case (Cons x xs)
  obtain C1 where C1: "zero_step (esize p) x C = Some C1" "zero_run (esize p) xs C1 = Some C'"
    using Cons.prems(2) by (auto simp: bind_Some_iff)
  have len: "length C = length L" using Cons.prems(1) by (auto simp: debug_sim_def)
  have "\<exists>ok L1 h1. debug_step p x L h = Some (ok, L1, h1) \<and> (ok \<longrightarrow> debug_sim h0 (esize p) h1 L1 C1)"
  proof (cases x)
    case PGet
    then show ?thesis using sim_get [OF ok Cons.prems(1)] C1(1) by auto
  next
    case (PWrite i bs)
    then show ?thesis using sim_write [OF ok Cons.prems(1)] C1(1) len by (fastforce split: if_splits)
  next
    case (PRecycle i)
    then show ?thesis using sim_recycle [OF ok Cons.prems(1), of i p] C1(1) len by (fastforce split: if_splits)
  qed
  then obtain ok1 L1 h1 where s: "debug_step p x L h = Some (ok1, L1, h1)" "ok1 \<longrightarrow> debug_sim h0 (esize p) h1 L1 C1"
    by blast
  then show ?case using Cons.IH [OF _ C1(2)] by (cases ok1) auto
qed auto

section \<open>Properties\<close>

text \<open>
  In a history of the debugging pool every new element is zero, the elements hold what the client wrote and are
  objects of their own, and \<^verbatim>\<open>cx_prealloc_pool_cleanup\<close> gives back nothing: exactly the elements that are
  still in use are leaked, which the other pool frees.
\<close>

theorem debug_pool_lifetime:
  assumes "heap_ok h" "zero_run (unat es) xs [] = Some C"
  shows "\<exists>ok L h'. debug_run (debug_pool_init2 n es p) xs [] h = Some (ok, L, h') \<and>
    (ok \<longrightarrow> contents h' (unat es) L = C \<and> distinct L \<and>
      (\<exists>h''. debug_pool_cleanup (debug_pool_init2 n es p) h' = Some h'' \<and> frame {} ((\<lambda>e. (e, unat es)) ` set L) h h''))"
proof -
  let ?p = "debug_pool_init2 n es p"
  have s: "esize ?p = unat es" by (simp add: debug_pool_init2_def)
  have "debug_sim h (esize ?p) h [] []" by (simp add: debug_sim_def contents_def frame_refl)
  from sim_run [OF assms(1) this, of xs C] show ?thesis
    using assms(2) by (auto simp: s debug_sim_def debug_pool_cleanup_def)
qed

theorem debug_pool_lifetime_witness:
  "\<exists>ok L h'. debug_run (debug_pool_init2 8 9 p) [PGet, PWrite 0 [1, 2, 3, 4, 5, 6, 7, 8, 9], PRecycle 0, PGet] [] fresh_heap = Some (ok, L, h') \<and>
    (ok \<longrightarrow> contents h' 9 L = [replicate 9 0])"
proof -
  have h: "heap_ok fresh_heap" by (simp add: heap_ok_def fresh_heap_def fits_def)
  have "zero_run (unat (9 :: u64)) [PGet, PWrite 0 [1, 2, 3, 4, 5, 6, 7, 8, 9], PRecycle 0, PGet] [] = Some [replicate 9 0]"
    by code_simp
  from debug_pool_lifetime [OF h this, of 8 p] show ?thesis by auto
qed

text \<open>A history in which every element is cleared, but for the eight bytes of the list, before it is recycled.\<close>

fun tidy :: "nat \<Rightarrow> pool_op list \<Rightarrow> u8 list list \<Rightarrow> bool" where
  "tidy n [] L \<longleftrightarrow> True"
| "tidy n (x # xs) L \<longleftrightarrow>
     (case x of PRecycle i \<Rightarrow> i < length L \<longrightarrow> drop 8 (L ! i) = replicate (n - 8) 0 | _ \<Rightarrow> True) \<and>
     (case zero_step n x L of None \<Rightarrow> True | Some L \<Rightarrow> tidy n xs L)"

lemma tidy_run:
  assumes "8 \<le> n"
  shows "tidy n xs L \<Longrightarrow> zero_run n xs L = Some L' \<Longrightarrow> list_all (\<lambda>bs. drop 8 bs = replicate (n - 8) 0) F \<Longrightarrow>
    \<exists>F'. content_run n xs (F, L) = Some (F', L')"
proof (induction xs arbitrary: F L)
  case (Cons x xs)
  obtain L1 where L1: "zero_step n x L = Some L1" "zero_run n xs L1 = Some L'"
    using Cons.prems(2) by (auto simp: bind_Some_iff)
  have new: "initial n F = replicate n 0"
  proof (cases F)
    case (Cons bs F1)
    then show ?thesis using Cons.prems(3) assms by (simp flip: replicate_add)
  qed simp
  have "\<exists>F1. content_step n x (F, L) = Some (F1, L1) \<and> list_all (\<lambda>bs. drop 8 bs = replicate (n - 8) 0) F1"
  proof (cases x)
    case PGet
    then show ?thesis using L1(1) new Cons.prems(3) by (cases F) auto
  next
    case (PWrite i bs)
    then show ?thesis using L1(1) Cons.prems(3) by (auto split: if_splits)
  next
    case (PRecycle i)
    then show ?thesis using L1(1) Cons.prems(1,3) by (auto split: if_splits)
  qed
  then show ?case using Cons.IH [of L1] Cons.prems(1) L1 by fastforce
qed simp

text \<open>
  The two pools agree for a client that clears its elements: after the same history, when no get returned null,
  the elements in use hold the same bytes, whatever the two heaps.
\<close>

theorem pools_agree:
  assumes "heap_ok h1" "heap_ok h2" "cx_prealloc_pool_init2 n es = Some p" "unat n * unat es < 2 ^ 63"
    and "zero_run (unat es) xs [] = Some C" "tidy (unat es) xs []"
    and "pool_run xs [] p h1 = Some (True, L1, p', h1')" "debug_run (debug_pool_init2 n es q) xs [] h2 = Some (True, L2, h2')"
  shows "contents h1' (unat es) L1 = contents h2' (unat es) L2"
proof -
  note I = init_inv [OF assms(1,3,4)]
  have "8 \<le> unat es" using assms(3) by (auto simp: cx_prealloc_pool_init2_def word_less_nat_alt split: if_splits)
  from tidy_run [OF this assms(6,5), of "[]"] obtain F where F: "content_run (esize p) xs ([], []) = Some (F, C)"
    using I(2) by auto
  have "pool_sim h1 p [] [] [] ([], [])" using I by (simp add: pool_sim_def contents_def)
  from pool_sim_run [OF this F] have "contents h1' (unat es) L1 = C" using assms(7) I(2) by (auto simp: pool_sim_def)
  moreover have "contents h2' (unat es) L2 = C"
  proof -
    let ?q = "debug_pool_init2 n es q"
    have s: "esize ?q = unat es" by (simp add: debug_pool_init2_def)
    have "debug_sim h2 (esize ?q) h2 [] []" by (simp add: debug_sim_def contents_def frame_refl)
    from sim_run [OF assms(2) this, of xs C] show ?thesis using assms(5,8) by (auto simp: s debug_sim_def)
  qed
  ultimately show ?thesis by simp
qed

end
