(* ===== verification/Monitor.thy ===== *)
theory Monitor
  imports Prelude
begin

text \<open>
  Threads, one mutex and one condition variable: what \<^verbatim>\<open>lib/concurrency/\<close> uses of POSIX
  threads. A thread is at a point of the code; a step is one call of the thread library or one
  access to the shared data, so that every interleaving is a sequence of steps. A thread that
  cannot take a step is blocked.
\<close>

section \<open>Machines\<close>

type_synonym tid = nat

record ('d, 'p) machine =
  shared :: 'd
  owner :: "tid option"
  sleepers :: "tid set"
  pcs :: "tid \<Rightarrow> 'p"

text \<open>
  How a step ends: normally, with an error code, by waking the thread it names
  (\<^verbatim>\<open>pthread_cond_signal\<close>), or, of a sleeping thread, without a reason. \<open>Enter n\<close> is
  an idle thread that calls one of the functions.
\<close>

datatype outcome = Ok | Err int | Wake tid | Spurious | Enter nat

definition call :: "outcome \<Rightarrow> (int \<Rightarrow> 'a option) \<Rightarrow> 'a option \<Rightarrow> 'a option" where
  "call c failed done = (case c of Ok \<Rightarrow> done | Err e \<Rightarrow> (if e \<noteq> 0 then failed e else None) | _ \<Rightarrow> None)"

definition plain :: "outcome \<Rightarrow> 'a \<Rightarrow> 'a option" where
  "plain c x = (if c = Ok then Some x else None)"

definition goto :: "tid \<Rightarrow> 'p \<Rightarrow> ('d, 'p) machine \<Rightarrow> ('d, 'p) machine" where
  "goto t p s = s\<lparr>pcs := (pcs s)(t := p)\<rparr>"

definition lock :: "tid \<Rightarrow> ('d, 'p) machine \<Rightarrow> ('d, 'p) machine option" where
  "lock t s = (if owner s = None then Some (s\<lparr>owner := Some t\<rparr>) else None)"

definition unlock :: "tid \<Rightarrow> ('d, 'p) machine \<Rightarrow> ('d, 'p) machine option" where
  "unlock t s = (if owner s = Some t then Some (s\<lparr>owner := None\<rparr>) else None)"

text \<open>\<^verbatim>\<open>pthread_cond_wait\<close> gives up the mutex; whoever was woken must lock it again.\<close>

definition fall_asleep :: "tid \<Rightarrow> ('d, 'p) machine \<Rightarrow> ('d, 'p) machine option" where
  "fall_asleep t s = (if owner s = Some t then Some (s\<lparr>owner := None, sleepers := insert t (sleepers s)\<rparr>) else None)"

definition wake_up :: "tid \<Rightarrow> ('d, 'p) machine \<Rightarrow> ('d, 'p) machine option" where
  "wake_up t s = (if t \<in> sleepers s then Some (s\<lparr>sleepers := sleepers s - {t}\<rparr>) else None)"

definition relock :: "tid \<Rightarrow> ('d, 'p) machine \<Rightarrow> ('d, 'p) machine option" where
  "relock t s = (if t \<in> sleepers s then None else lock t s)"

definition signal :: "outcome \<Rightarrow> ('d, 'p) machine \<Rightarrow> ('d, 'p) machine option" where
  "signal c s = (if sleepers s = {} then (if c = Ok then Some s else None)
     else case c of Wake w \<Rightarrow> wake_up w s | _ \<Rightarrow> None)"

definition broadcast :: "('d, 'p) machine \<Rightarrow> ('d, 'p) machine" where
  "broadcast s = s\<lparr>sleepers := {}\<rparr>"

named_theorems machine_step \<open>the operations of a machine\<close>

lemmas [machine_step] = call_def plain_def goto_def lock_def unlock_def fall_asleep_def wake_up_def relock_def signal_def broadcast_def

text \<open>The states that any sequence of steps reaches; \<open>allowed\<close> restricts the outcomes of calls.\<close>

inductive reach :: "(tid \<Rightarrow> outcome \<Rightarrow> 's \<Rightarrow> 's option) \<Rightarrow> (outcome \<Rightarrow> bool) \<Rightarrow> 's \<Rightarrow> 's \<Rightarrow> bool"
  for step :: "tid \<Rightarrow> outcome \<Rightarrow> 's \<Rightarrow> 's option" and allowed :: "outcome \<Rightarrow> bool" and s0 :: 's where
  reach_start: "reach step allowed s0 s0"
| reach_step: "reach step allowed s0 s \<Longrightarrow> allowed c \<Longrightarrow> step t c s = Some s' \<Longrightarrow> reach step allowed s0 s'"

fun no_error :: "outcome \<Rightarrow> bool" where
  "no_error (Err e) = False"
| "no_error c = True"

lemma reach_mono: "reach step allowed s0 s \<Longrightarrow> (\<And>c. allowed c \<Longrightarrow> allowed' c) \<Longrightarrow> reach step allowed' s0 s"
  by (induction rule: reach.induct) (auto intro: reach.intros)

text \<open>A run as a list, for evaluation.\<close>

fun run_steps :: "(tid \<Rightarrow> outcome \<Rightarrow> 's \<Rightarrow> 's option) \<Rightarrow> (tid \<times> outcome) list \<Rightarrow> 's \<Rightarrow> 's option" where
  "run_steps step [] s = Some s"
| "run_steps step ((t, c) # xs) s = do { s \<leftarrow> step t c s; run_steps step xs s }"

lemma run_steps_reach:
  "reach step allowed s0 s \<Longrightarrow> run_steps step xs s = Some s' \<Longrightarrow> list_all (\<lambda>(t, c). allowed c) xs \<Longrightarrow> reach step allowed s0 s'"
  by (induction step xs s rule: run_steps.induct) (auto simp: bind_Some_iff intro: reach_step)

lemma run_steps_append: "run_steps step (xs @ ys) s = Option.bind (run_steps step xs s) (run_steps step ys)"
proof (induction xs arbitrary: s)
  case (Cons x xs)
  then show ?case by (cases x; cases "step (fst x) (snd x) s") auto
qed simp

section \<open>Mutual exclusion\<close>

text \<open>
  A program protects its data with the mutex: its threads hold the mutex wherever \<open>crit\<close> says so.
  What a program has to show are laws of single steps; mutual exclusion in every reachable state
  follows.
\<close>

locale monitor =
  fixes step :: "tid \<Rightarrow> outcome \<Rightarrow> ('d, 'p) machine \<Rightarrow> ('d, 'p) machine option"
    and crit :: "'p \<Rightarrow> bool"
  assumes other: "step t c s = Some s' \<Longrightarrow> u \<noteq> t \<Longrightarrow> pcs s' u = pcs s u"
    and keeps: "step t c s = Some s' \<Longrightarrow> owner s = Some u \<Longrightarrow> u \<noteq> t \<Longrightarrow> owner s' = Some u"
    and enters: "step t c s = Some s' \<Longrightarrow> (crit (pcs s t) \<Longrightarrow> owner s = Some t) \<Longrightarrow> crit (pcs s' t) \<Longrightarrow> owner s' = Some t"
begin

lemma holds_mutex:
  assumes "reach step allowed s0 s" "\<And>t. \<not> crit (pcs s0 t)"
  shows "crit (pcs s t) \<Longrightarrow> owner s = Some t"
  using assms
proof (induction arbitrary: t rule: reach.induct)
  case (reach_step s c u s')
  have IH: "crit (pcs s t) \<Longrightarrow> owner s = Some t" for t using reach_step.IH reach_step.prems(2) by blast
  show ?case
  proof (cases "t = u")
    case True
    then show ?thesis using enters [OF reach_step.hyps(3) IH] reach_step.prems(1) by simp
  next
    case False
    then have "pcs s' t = pcs s t" by (rule other [OF reach_step.hyps(3)])
    then have "owner s = Some t" using IH reach_step.prems(1) by simp
    then show ?thesis using keeps [OF reach_step.hyps(3)] False by simp
  qed
qed simp

lemma exclusive:
  assumes "reach step allowed s0 s" "\<And>t. \<not> crit (pcs s0 t)" "crit (pcs s t)" "crit (pcs s u)"
  shows "t = u"
  using holds_mutex [OF assms(1,2,3)] holds_mutex [OF assms(1,2,4)] by simp

end

section \<open>Blocked threads\<close>

text \<open>A thread that can go on by itself: not by a call that fails, a spurious wake-up or a new call.\<close>

definition able :: "(tid \<Rightarrow> outcome \<Rightarrow> 's \<Rightarrow> 's option) \<Rightarrow> 's \<Rightarrow> tid \<Rightarrow> bool" where
  "able step s t \<longleftrightarrow> (\<exists>c s'. (c = Ok \<or> (\<exists>w. c = Wake w)) \<and> step t c s = Some s')"

lemma able_Ok: "step t Ok s = Some s' \<Longrightarrow> able step s t"
  by (auto simp: able_def)

lemma able_Wake: "step t (Wake w) s = Some s' \<Longrightarrow> able step s t"
  unfolding able_def by blast

text \<open>
  Where only sleeping and the mutex block, a state in which no thread can go on is one in which every
  thread inside a call sleeps.
\<close>

locale blocking_monitor = monitor step crit
  for step :: "tid \<Rightarrow> outcome \<Rightarrow> ('d, 'p) machine \<Rightarrow> ('d, 'p) machine option" and crit :: "'p \<Rightarrow> bool" +
  fixes idle :: "'p \<Rightarrow> bool" and asleep :: "'p \<Rightarrow> bool"
  assumes crit_able: "crit (pcs s t) \<Longrightarrow> owner s = Some t \<Longrightarrow> able step s t"
    and awake_able: "\<not> idle (pcs s t) \<Longrightarrow> \<not> crit (pcs s t) \<Longrightarrow> \<not> (asleep (pcs s t) \<and> t \<in> sleepers s) \<Longrightarrow>
      owner s = None \<Longrightarrow> able step s t"
    and owner_law: "(\<And>u. owner s = Some u \<Longrightarrow> crit (pcs s u)) \<Longrightarrow> step t c s = Some s' \<Longrightarrow> no_error c \<Longrightarrow>
      owner s' = Some u \<Longrightarrow> crit (pcs s' u)"
    and sleepers_law: "(\<And>u. u \<in> sleepers s \<Longrightarrow> asleep (pcs s u)) \<Longrightarrow> step t c s = Some s' \<Longrightarrow> u \<in> sleepers s' \<Longrightarrow>
      asleep (pcs s' u)"
begin

lemma owner_crit:
  assumes "reach step no_error s0 s" "owner s0 = None"
  shows "owner s = Some u \<Longrightarrow> crit (pcs s u)"
  using assms
proof (induction arbitrary: u rule: reach.induct)
  case (reach_step s c t s')
  have "crit (pcs s v)" if "owner s = Some v" for v using reach_step.IH that reach_step.prems(2) by blast
  then show ?case using owner_law [OF _ reach_step.hyps(3,2)] reach_step.prems(1) by blast
qed simp

lemma sleepers_asleep:
  assumes "reach step allowed s0 s" "sleepers s0 = {}"
  shows "u \<in> sleepers s \<Longrightarrow> asleep (pcs s u)"
  using assms
proof (induction arbitrary: u rule: reach.induct)
  case (reach_step s c t s')
  have "asleep (pcs s v)" if "v \<in> sleepers s" for v using reach_step.IH that reach_step.prems(2) by blast
  then show ?case using sleepers_law [OF _ reach_step.hyps(3)] reach_step.prems(1) by blast
qed simp

lemma stuck_asleep:
  assumes "reach step no_error s0 s" "owner s0 = None" "\<And>t. \<not> crit (pcs s0 t)" "\<And>u. \<not> able step s u"
  shows "owner s = None" "\<not> crit (pcs s u)" "\<not> idle (pcs s u) \<Longrightarrow> asleep (pcs s u) \<and> u \<in> sleepers s"
proof -
  show own: "owner s = None"
    using owner_crit [OF assms(1,2)] crit_able assms(4) by (cases "owner s") blast+
  show crit: "\<not> crit (pcs s u)" for u using holds_mutex [OF assms(1,3), of u] own by auto
  show "\<not> idle (pcs s u) \<Longrightarrow> asleep (pcs s u) \<and> u \<in> sleepers s" using awake_able [OF _ crit _ own] assms(4) by blast
qed

end

section \<open>Counting threads\<close>

lemma finite_change: "finite {u. P u} \<Longrightarrow> (\<And>u. u \<noteq> t \<Longrightarrow> Q u = P u) \<Longrightarrow> finite {u. Q u}"
proof -
  assume a: "finite {u. P u}" "\<And>u. u \<noteq> t \<Longrightarrow> Q u = P u"
  have "{u. Q u} \<subseteq> insert t {u. P u}" using a(2) by auto
  then show ?thesis using a(1) by (rule finite_subset [OF _ finite.insertI])
qed

lemma card_change:
  assumes "finite {u. P u}" "\<And>u. u \<noteq> t \<Longrightarrow> Q u = P u"
  shows "card {u. Q u} + (if P t then 1 else 0) = card {u. P u} + (if Q t then 1 else 0)"
proof -
  have q: "finite {u. Q u}" by (rule finite_change [OF assms])
  have "{u. Q u} - {t} = {u. P u} - {t}" using assms(2) by auto
  then have e: "card ({u. Q u} - {t}) = card ({u. P u} - {t})" by simp
  have "card {u. Q u} = card ({u. Q u} - {t}) + (if Q t then 1 else 0)"
    using q card_Suc_Diff1 [OF q, of t] by auto
  moreover have "card {u. P u} = card ({u. P u} - {t}) + (if P t then 1 else 0)"
    using assms(1) card_Suc_Diff1 [OF assms(1), of t] by auto
  ultimately show ?thesis using e by simp
qed

end
