(* ===== verification/Semaphore.thy ===== *)
theory Semaphore
  imports Monitor
begin

text \<open>
  \<^verbatim>\<open>lib/concurrency/semaphore.c\<close>: \<^verbatim>\<open>struct CxSemaphore\<close>, a counter under a mutex with a
  condition variable. The calls of the thread library may fail where the code looks at their
  results.
\<close>

section \<open>State and operations\<close>

text \<open>\<open>taken\<close>, \<open>posted\<close> and \<open>waits\<close> are ghosts: decrements, increments and waits that returned 0.\<close>

record semaphore =
  count :: u64
  taken :: nat
  posted :: nat
  waits :: nat

text \<open>The results of the two calls of the thread library are arguments.\<close>

definition cx_semaphore_init :: "int \<Rightarrow> int \<Rightarrow> u64 \<Rightarrow> int \<times> semaphore option" where
  "cx_semaphore_init mutex_init cond_init n =
     (if mutex_init \<noteq> 0 then (mutex_init, None)
      else if cond_init \<noteq> 0 then (cond_init, None)
      else (0, Some \<lparr>count = n, taken = 0, posted = 0, waits = 0\<rparr>))"

definition cx_semaphore_destroy :: "int \<Rightarrow> int \<Rightarrow> int" where
  "cx_semaphore_destroy mutex_destroy cond_destroy = (if mutex_destroy \<noteq> 0 then mutex_destroy else cond_destroy)"

text \<open>The points of the code at which a thread may be interrupted.\<close>

datatype sem_pc =
    Idle | Returned int
  | W_lock | W_test | W_asleep | W_take | W_unlock | W_abort int
  | P_lock | P_add | P_signal | P_unlock | P_abort int

type_synonym sem_machine = "(semaphore, sem_pc) machine"

definition cx_semaphore_wait :: "tid \<Rightarrow> outcome \<Rightarrow> sem_machine \<Rightarrow> sem_machine option" where
  "cx_semaphore_wait t c s = (case pcs s t of
       W_lock \<Rightarrow> call c (\<lambda>e. Some (goto t (Returned e) s)) (map_option (goto t W_test) (lock t s))
     | W_test \<Rightarrow>
         if count (shared s) = 0
         then call c (\<lambda>e. Some (goto t (W_abort e) s)) (map_option (goto t W_asleep) (fall_asleep t s))
         else plain c (goto t W_take s)
     | W_asleep \<Rightarrow> if c = Spurious then wake_up t s else call c (\<lambda>e. None) (map_option (goto t W_test) (relock t s))
     | W_take \<Rightarrow> plain c (goto t W_unlock (s\<lparr>shared := (shared s)\<lparr>count := count (shared s) - 1, taken := taken (shared s) + 1\<rparr>\<rparr>))
     | W_unlock \<Rightarrow> call c (\<lambda>e. Some (goto t (Returned e) s))
         (map_option (\<lambda>s. goto t (Returned 0) (s\<lparr>shared := (shared s)\<lparr>waits := waits (shared s) + 1\<rparr>\<rparr>)) (unlock t s))
     | W_abort rv \<Rightarrow> call c (\<lambda>e. Some (goto t (Returned rv) s)) (map_option (goto t (Returned rv)) (unlock t s))
     | _ \<Rightarrow> None)"

definition cx_semaphore_post :: "tid \<Rightarrow> outcome \<Rightarrow> sem_machine \<Rightarrow> sem_machine option" where
  "cx_semaphore_post t c s = (case pcs s t of
       P_lock \<Rightarrow> call c (\<lambda>e. Some (goto t (Returned e) s)) (map_option (goto t P_add) (lock t s))
     | P_add \<Rightarrow> plain c (goto t P_signal (s\<lparr>shared := (shared s)\<lparr>count := count (shared s) + 1, posted := posted (shared s) + 1\<rparr>\<rparr>))
     | P_signal \<Rightarrow> (case c of
         Err e \<Rightarrow> if e \<noteq> 0 then Some (goto t (P_abort e) s) else None
       | _ \<Rightarrow> map_option (goto t P_unlock) (signal c s))
     | P_unlock \<Rightarrow> call c (\<lambda>e. Some (goto t (Returned e) s)) (map_option (goto t (Returned 0)) (unlock t s))
     | P_abort rv \<Rightarrow> call c (\<lambda>e. Some (goto t (Returned rv) s)) (map_option (goto t (Returned rv)) (unlock t s))
     | _ \<Rightarrow> None)"

text \<open>A client calls \<^verbatim>\<open>cx_semaphore_wait\<close> (0) or \<^verbatim>\<open>cx_semaphore_post\<close>.\<close>

fun idle :: "sem_pc \<Rightarrow> bool" where
  "idle Idle = True"
| "idle (Returned rv) = True"
| "idle _ = False"

definition sem_step :: "tid \<Rightarrow> outcome \<Rightarrow> sem_machine \<Rightarrow> sem_machine option" where
  "sem_step t c s = (case c of
       Enter n \<Rightarrow> if idle (pcs s t) then Some (goto t (if n = 0 then W_lock else P_lock) s) else None
     | _ \<Rightarrow> (case cx_semaphore_wait t c s of Some s' \<Rightarrow> Some s' | None \<Rightarrow> cx_semaphore_post t c s))"

definition sem_start :: "u64 \<Rightarrow> sem_machine" where
  "sem_start n = \<lparr>shared = the (snd (cx_semaphore_init 0 0 n)), owner = None, sleepers = {}, pcs = (\<lambda>_. Idle)\<rparr>"

section \<open>Steps\<close>

fun sem_crit :: "sem_pc \<Rightarrow> bool" where
  "sem_crit W_test = True"
| "sem_crit W_take = True"
| "sem_crit W_unlock = True"
| "sem_crit (W_abort e) = True"
| "sem_crit P_add = True"
| "sem_crit P_signal = True"
| "sem_crit P_unlock = True"
| "sem_crit (P_abort e) = True"
| "sem_crit _ = False"

lemma idle_not_crit: "idle p \<Longrightarrow> \<not> sem_crit p"
  by (cases p) auto

lemmas sem_defs = sem_step_def cx_semaphore_wait_def cx_semaphore_post_def machine_step

text \<open>What one step does to the mutex and the sleeping threads.\<close>

lemma sem_step_threads:
  assumes "sem_step t c s = Some s'"
  shows "u \<noteq> t \<Longrightarrow> pcs s' u = pcs s u" "owner s = Some u \<Longrightarrow> u \<noteq> t \<Longrightarrow> owner s' = Some u"
    "(sem_crit (pcs s t) \<Longrightarrow> owner s = Some t) \<Longrightarrow> sem_crit (pcs s' t) \<Longrightarrow> owner s' = Some t"
    "(\<And>u. owner s = Some u \<Longrightarrow> sem_crit (pcs s u)) \<Longrightarrow> no_error c \<Longrightarrow> owner s' = Some u \<Longrightarrow> sem_crit (pcs s' u)"
    "(\<And>u. u \<in> sleepers s \<Longrightarrow> pcs s u = W_asleep) \<Longrightarrow> u \<in> sleepers s' \<Longrightarrow> pcs s' u = W_asleep"
  using assms
  by (auto simp: sem_defs idle_not_crit split: outcome.splits sem_pc.splits if_splits option.splits)

interpretation sem: blocking_monitor sem_step sem_crit idle "\<lambda>p. p = W_asleep"
proof
  fix s :: sem_machine and t
  show "able sem_step s t" if "sem_crit (pcs s t)" "owner s = Some t"
  proof (cases "pcs s t = P_signal \<and> sleepers s \<noteq> {}")
    case True
    then obtain w where "w \<in> sleepers s" by blast
    then obtain s' where "sem_step t (Wake w) s = Some s'" using True by (auto simp: sem_defs)
    then show ?thesis by (rule able_Wake)
  next
    case False
    then have "\<exists>s'. sem_step t Ok s = Some s'" using that by (cases "pcs s t") (auto simp: sem_defs)
    then show ?thesis by (auto intro: able_Ok)
  qed
  show "able sem_step s t" if "\<not> idle (pcs s t)" "\<not> sem_crit (pcs s t)" "\<not> (pcs s t = W_asleep \<and> t \<in> sleepers s)" "owner s = None"
  proof -
    have "\<exists>s'. sem_step t Ok s = Some s'" using that by (cases "pcs s t") (auto simp: sem_defs)
    then show ?thesis by (auto intro: able_Ok)
  qed
qed (fact sem_step_threads | (rule sem_step_threads(4,5); blast))+

section \<open>The counter\<close>

definition sem_inv :: "u64 \<Rightarrow> sem_machine \<Rightarrow> bool" where
  "sem_inv n s \<longleftrightarrow> (\<forall>t. sem_crit (pcs s t) \<longrightarrow> owner s = Some t) \<and> (\<forall>t. pcs s t = W_take \<longrightarrow> count (shared s) \<noteq> 0) \<and>
     (unat n + posted (shared s) < 2 ^ 64 \<longrightarrow> unat (count (shared s)) + taken (shared s) = unat n + posted (shared s)) \<and>
     waits (shared s) + (if \<exists>t. pcs s t = W_unlock then 1 else 0) \<le> taken (shared s)"

lemma sem_invD:
  assumes "sem_inv n s"
  shows "sem_crit (pcs s t) \<Longrightarrow> owner s = Some t" "pcs s t = W_take \<Longrightarrow> count (shared s) \<noteq> 0"
    "unat n + posted (shared s) < 2 ^ 64 \<Longrightarrow> unat (count (shared s)) + taken (shared s) = unat n + posted (shared s)"
    "waits (shared s) \<le> taken (shared s)" "pcs s t = W_unlock \<Longrightarrow> waits (shared s) < taken (shared s)"
proof -
  show "sem_crit (pcs s t) \<Longrightarrow> owner s = Some t" "pcs s t = W_take \<Longrightarrow> count (shared s) \<noteq> 0"
    "unat n + posted (shared s) < 2 ^ 64 \<Longrightarrow> unat (count (shared s)) + taken (shared s) = unat n + posted (shared s)"
    using assms by (auto simp: sem_inv_def)
  have "waits (shared s) + (if \<exists>t. pcs s t = W_unlock then 1 else 0) \<le> taken (shared s)" using assms by (simp add: sem_inv_def)
  then show "waits (shared s) \<le> taken (shared s)" "pcs s t = W_unlock \<Longrightarrow> waits (shared s) < taken (shared s)"
    by (auto split: if_splits)
qed

text \<open>What a step does to the shared data.\<close>

lemma sem_step_data:
  assumes "sem_step t c s = Some s'"
  shows "(pcs s t = W_take \<and> pcs s' t = W_unlock \<and> shared s' = (shared s)\<lparr>count := count (shared s) - 1, taken := taken (shared s) + 1\<rparr>) \<or>
    (pcs s t = P_add \<and> pcs s' t = P_signal \<and> shared s' = (shared s)\<lparr>count := count (shared s) + 1, posted := posted (shared s) + 1\<rparr>) \<or>
    (pcs s t = W_unlock \<and> idle (pcs s' t) \<and> shared s' = (shared s)\<lparr>waits := waits (shared s) + 1\<rparr>) \<or>
    (pcs s t \<noteq> W_take \<and> pcs s t \<noteq> P_add \<and> shared s' = shared s \<and> pcs s' t \<noteq> W_unlock \<and> (pcs s' t = W_take \<longrightarrow> count (shared s) \<noteq> 0))"
  using assms by (auto simp: sem_defs split: outcome.splits sem_pc.splits if_splits option.splits)

lemma unat_dec: "w \<noteq> 0 \<Longrightarrow> unat (w - 1 :: u64) + 1 = unat w"
  by (simp add: unat_minus_one unat_gt_0)

lemma sem_inv_step:
  assumes inv: "sem_inv n s" and st: "sem_step t c s = Some s'"
  shows "sem_inv n s'"
proof -
  note I = sem_invD [OF inv]
  have same: "pcs s' u = pcs s u" if "u \<noteq> t" for u by (rule sem.other [OF st that])
  have crit: "owner s' = Some u" if "sem_crit (pcs s' u)" for u
  proof (cases "u = t")
    case True
    then show ?thesis using sem.enters [OF st I(1)] that by simp
  next
    case False
    then show ?thesis using sem.keeps [OF st I(1)] same [OF False] that by simp
  qed
  have only: "u = t" if "sem_crit (pcs s u)" "sem_crit (pcs s t)" for u using I(1) [OF that(1)] I(1) [OF that(2)] by simp
  have unl: "(\<exists>u. pcs s' u = W_unlock) \<longleftrightarrow> pcs s' t = W_unlock \<or> (\<exists>u. u \<noteq> t \<and> pcs s u = W_unlock)"
    using same by metis
  consider (take) "pcs s t = W_take" "pcs s' t = W_unlock" "shared s' = (shared s)\<lparr>count := count (shared s) - 1, taken := taken (shared s) + 1\<rparr>"
    | (add) "pcs s t = P_add" "pcs s' t = P_signal" "shared s' = (shared s)\<lparr>count := count (shared s) + 1, posted := posted (shared s) + 1\<rparr>"
    | (ret) "pcs s t = W_unlock" "idle (pcs s' t)" "shared s' = (shared s)\<lparr>waits := waits (shared s) + 1\<rparr>"
    | (none) "shared s' = shared s" "pcs s' t \<noteq> W_unlock" "pcs s' t = W_take \<longrightarrow> count (shared s) \<noteq> 0"
    using sem_step_data [OF st] by blast
  then show ?thesis
  proof cases
    case take
    have c: "count (shared s) \<noteq> 0" by (rule I(2) [OF take(1)])
    have "pcs s' u \<noteq> W_take" for u using same [of u] only [of u] take by (cases "u = t") auto
    then show ?thesis using crit I(3,4) take(3) unat_dec [OF c] by (auto simp: sem_inv_def)
  next
    case add
    have no: "pcs s' u \<noteq> W_take" "pcs s' u \<noteq> W_unlock" for u
      using same [of u] only [of u] add(1,2) by (cases "u = t"; auto)+
    have "unat (count (shared s) + 1) + taken (shared s) = unat n + (posted (shared s) + 1)" if "unat n + (posted (shared s) + 1) < 2 ^ 64"
    proof -
      have e: "unat (count (shared s)) + taken (shared s) = unat n + posted (shared s)" using I(3) that by simp
      then have "unat (count (shared s)) + unat (1 :: u64) < 2 ^ 64" using that by simp
      then have "unat (count (shared s) + 1) = unat (count (shared s)) + 1" using unat_add_no_wrap by fastforce
      then show ?thesis using e by simp
    qed
    then show ?thesis using crit I(4) add(3) no by (simp add: sem_inv_def)
  next
    case ret
    have no: "pcs s' u \<noteq> W_take" "pcs s' u \<noteq> W_unlock" for u
      using same [of u] only [of u] ret(1,2) by (cases "u = t"; auto)+
    then show ?thesis using crit I(3) I(5) [OF ret(1)] ret(3) by (simp add: sem_inv_def)
  next
    case none
    have "count (shared s) \<noteq> 0" if "pcs s' u = W_take" for u using same [of u] I(2) [of u] none(3) that by (cases "u = t") auto
    moreover have "(\<exists>u. pcs s' u = W_unlock) \<longrightarrow> waits (shared s) < taken (shared s)" using unl none(2) I(5) by auto
    ultimately show ?thesis using crit I(3,4) none(1) by (auto simp: sem_inv_def Suc_le_eq)
  qed
qed

lemma sem_inv_reach: "reach sem_step allowed (sem_start n) s \<Longrightarrow> sem_inv n s"
proof (induction rule: reach.induct)
  case reach_start
  then show ?case by (simp add: sem_inv_def sem_start_def cx_semaphore_init_def)
next
  case (reach_step s c t s')
  then show ?case using sem_inv_step by blast
qed

section \<open>No wake-up is lost\<close>

text \<open>
  The threads that are awake where they see or pass on the counter. While a thread sleeps there are
  at least as many of them as the counter says.
\<close>

definition helper :: "sem_machine \<Rightarrow> tid \<Rightarrow> bool" where
  "helper s t \<longleftrightarrow> pcs s t = W_test \<or> pcs s t = W_take \<or> pcs s t = P_signal \<or> (pcs s t = W_asleep \<and> t \<notin> sleepers s)"

definition sem_live :: "sem_machine \<Rightarrow> bool" where
  "sem_live s \<longleftrightarrow> finite {t. helper s t} \<and> (sleepers s \<noteq> {} \<longrightarrow> unat (count (shared s)) \<le> card {t. helper s t})"

text \<open>How a step changes the helpers: a signal hands the role on to the thread it wakes.\<close>

lemma sem_helper_step:
  assumes sl: "\<forall>t \<in> sleepers s. pcs s t = W_asleep" and st: "sem_step t c s = Some s'" and ne: "no_error c"
  shows "(\<exists>w. w \<in> sleepers s \<and> w \<noteq> t \<and> pcs s t = P_signal \<and> shared s' = shared s \<and> helper s t \<and> \<not> helper s' t \<and> \<not> helper s w \<and> helper s' w \<and>
      (\<forall>u. u \<noteq> t \<longrightarrow> u \<noteq> w \<longrightarrow> helper s' u = helper s u)) \<or>
    ((\<forall>u. u \<noteq> t \<longrightarrow> helper s' u = helper s u) \<and> sleepers s' \<subseteq> insert t (sleepers s) \<and>
      (helper s t \<longrightarrow> helper s' t \<or> pcs s t = W_take \<or> count (shared s') = 0 \<or> sleepers s' = {}) \<and>
      (sleepers s = {} \<longrightarrow> sleepers s' = {} \<or> count (shared s') = 0) \<and>
      (pcs s t = P_add \<longrightarrow> \<not> helper s t \<and> helper s' t))"
  using assms
  by (cases "pcs s t"; cases c) (auto simp: sem_defs helper_def split: if_splits)

lemma sem_live_step:
  assumes live: "sem_live s" and inv: "sem_inv n s" and sl: "\<forall>t \<in> sleepers s. pcs s t = W_asleep"
    and st: "sem_step t c s = Some s'" and ne: "no_error c"
  shows "sem_live s'"
proof -
  have L: "finite {t. helper s t}" "sleepers s \<noteq> {} \<Longrightarrow> unat (count (shared s)) \<le> card {t. helper s t}"
    using live by (auto simp: sem_live_def)
  have "finite {u. helper s' u} \<and> (sleepers s' \<noteq> {} \<longrightarrow> unat (count (shared s')) \<le> card {u. helper s' u})"
    using sem_helper_step [OF sl st ne]
  proof (elim disjE exE conjE)
    fix w assume w: "w \<in> sleepers s" "w \<noteq> t" "shared s' = shared s" "helper s t" "\<not> helper s' t" "\<not> helper s w" "helper s' w"
      "\<forall>u. u \<noteq> t \<longrightarrow> u \<noteq> w \<longrightarrow> helper s' u = helper s u"
    let ?m = "\<lambda>u. u \<noteq> t \<and> helper s u"
    have m: "finite {u. ?m u}" "card {u. ?m u} + 1 = card {u. helper s u}"
      using finite_change [OF L(1), of t ?m] card_change [OF L(1), of t ?m] w(4) by auto
    have ch: "helper s' u = ?m u" if "u \<noteq> w" for u using w(5,8) that by (cases "u = t") auto
    have "finite {u. helper s' u}" "card {u. helper s' u} = card {u. ?m u} + 1"
      using finite_change [OF m(1), of w "helper s'", OF ch] card_change [OF m(1), of w "helper s'", OF ch] w(6,7) by auto
    then show ?thesis using m(2) L(2) w(1,3) by auto
  next
    assume a: "\<forall>u. u \<noteq> t \<longrightarrow> helper s' u = helper s u"
      "helper s t \<longrightarrow> helper s' t \<or> pcs s t = W_take \<or> count (shared s') = 0 \<or> sleepers s' = {}"
      "sleepers s = {} \<longrightarrow> sleepers s' = {} \<or> count (shared s') = 0" "pcs s t = P_add \<longrightarrow> \<not> helper s t \<and> helper s' t"
    have f: "finite {u. helper s' u}" by (rule finite_change [OF L(1), of t]) (use a(1) in simp)
    have k: "card {u. helper s' u} + (if helper s t then 1 else 0) = card {u. helper s u} + (if helper s' t then 1 else 0)"
      by (rule card_change [OF L(1)]) (use a(1) in simp)
    have "unat (count (shared s')) \<le> card {u. helper s' u}" if ne: "sleepers s' \<noteq> {}" "count (shared s') \<noteq> 0"
    proof -
      have le: "unat (count (shared s)) \<le> card {u. helper s u}" using L(2) a(3) ne by blast
      consider (take) "pcs s t = W_take" "shared s' = (shared s)\<lparr>count := count (shared s) - 1, taken := taken (shared s) + 1\<rparr>"
        | (add) "pcs s t = P_add" "shared s' = (shared s)\<lparr>count := count (shared s) + 1, posted := posted (shared s) + 1\<rparr>"
        | (ret) "pcs s t \<noteq> W_take" "pcs s t \<noteq> P_add" "count (shared s') = count (shared s)"
        using sem_step_data [OF st] by force
      then show ?thesis
      proof cases
        case take
        have "unat (count (shared s')) + 1 = unat (count (shared s))" using unat_dec [OF sem_invD(2) [OF inv take(1)]] take(2) by simp
        moreover have "helper s t" using take(1) by (simp add: helper_def)
        ultimately show ?thesis using k le by auto
      next
        case add
        have "unat (count (shared s) + 1) \<le> unat (count (shared s)) + 1"
          by (metis Suc_eq_plus1 add.commute le_refl unatSuc unat_0 le_add1 trans_le_add1 zero_le)
        then show ?thesis using a(4) add k le by simp
      next
        case ret
        then show ?thesis using a(2) k le ne by (auto split: if_splits)
      qed
    qed
    then show ?thesis using f by (cases "count (shared s') = 0") auto
  qed
  then show ?thesis by (simp add: sem_live_def)
qed

lemma sem_live_reach: "reach sem_step no_error (sem_start n) s \<Longrightarrow> sem_live s \<and> sem_inv n s"
proof (induction rule: reach.induct)
  case reach_start
  have "sem_inv n (sem_start n)" by (rule sem_inv_reach [OF reach.reach_start])
  then show ?case by (simp add: sem_live_def sem_start_def helper_def)
next
  case (reach_step s c t s')
  have "\<forall>t \<in> sleepers s. pcs s t = W_asleep" using sem.sleepers_asleep [OF reach_step.hyps(1)] by (simp add: sem_start_def)
  then show ?case using sem_live_step sem_inv_step reach_step by blast
qed

section \<open>Properties\<close>

text \<open>For the witnesses: thread 1 sleeps in a wait when thread 2 posts and wakes it.\<close>

definition demo_schedule :: "(tid \<times> outcome) list" where
  "demo_schedule = [(1, Enter 0), (1, Ok), (1, Ok), (2, Enter 1), (2, Ok), (2, Ok), (2, Wake 1)]"

lemma demo_run:
  "\<exists>s. reach sem_step no_error (sem_start 0) s \<and> count (shared s) = 1 \<and> posted (shared s) = 1 \<and> pcs s 1 = W_asleep \<and> sleepers s = {}"
proof -
  have "\<exists>s. run_steps sem_step demo_schedule (sem_start 0) = Some s \<and>
      count (shared s) = 1 \<and> posted (shared s) = 1 \<and> pcs s 1 = W_asleep \<and> sleepers s = {}"
    by (simp add: demo_schedule_def sem_start_def cx_semaphore_init_def sem_defs)
  then obtain s where s: "run_steps sem_step demo_schedule (sem_start 0) = Some s"
      "count (shared s) = 1" "posted (shared s) = 1" "pcs s 1 = W_asleep" "sleepers s = {}" by blast
  have "list_all (\<lambda>(t, c). no_error c) demo_schedule" by (simp add: demo_schedule_def)
  then show ?thesis using run_steps_reach [OF reach.reach_start s(1)] s(2-5) by blast
qed

text \<open>
  C30. The semaphore counts, whatever the interleaving and whichever calls of the thread library
  fail: at any time only one thread is inside a critical section, the counter is the initial
  value plus the posts minus the takes, and no more waits have returned 0 than the initial value and
  the posts allow.
\<close>

theorem semaphore_counts:
  assumes "reach sem_step allowed (sem_start n) s"
  shows "(\<forall>t u. sem_crit (pcs s t) \<longrightarrow> sem_crit (pcs s u) \<longrightarrow> t = u) \<and>
    (unat n + posted (shared s) < 2 ^ 64 \<longrightarrow>
      unat (count (shared s)) + taken (shared s) = unat n + posted (shared s) \<and>
      waits (shared s) \<le> unat n + posted (shared s))"
proof -
  note I = sem_invD [OF sem_inv_reach [OF assms]]
  have "\<And>t. \<not> sem_crit (pcs (sem_start n) t)" by (simp add: sem_start_def)
  from sem.exclusive [OF assms this] show ?thesis using I(3,4) by force
qed

theorem semaphore_counts_witness:
  "\<exists>s. reach sem_step no_error (sem_start 0) s \<and> count (shared s) = 1 \<and> waits (shared s) \<le> 1"
proof -
  obtain s where "reach sem_step no_error (sem_start 0) s" "count (shared s) = 1" "posted (shared s) = 1" using demo_run by blast
  then show ?thesis using semaphore_counts by fastforce
qed

text \<open>
  C31. No wake-up is lost. As long as no call of the thread library fails, whenever some thread is
  inside a wait or a post, some thread can go on, unless the counter is zero and all of them sleep in
  a wait: a post never leaves a waiting thread behind with the counter raised.
\<close>

theorem semaphore_no_lost_wakeup:
  assumes "reach sem_step no_error (sem_start n) s" "\<not> idle (pcs s t)"
  shows "(\<exists>u. able sem_step s u) \<or> (count (shared s) = 0 \<and> (\<forall>u. \<not> idle (pcs s u) \<longrightarrow> pcs s u = W_asleep \<and> u \<in> sleepers s))"
proof (cases "\<exists>u. able sem_step s u")
  case False
  have stuck: "pcs s u = W_asleep \<and> u \<in> sleepers s" if "\<not> idle (pcs s u)" for u
    using sem.stuck_asleep(3) [OF assms(1) _ _ _ that] False by (simp add: sem_start_def)
  have "\<not> helper s u" for u
  proof
    assume h: "helper s u"
    then have "\<not> idle (pcs s u)" by (auto simp: helper_def)
    then show False using stuck [of u] h by (auto simp: helper_def)
  qed
  then have "{u. helper s u} = {}" by simp
  moreover have "sleepers s \<noteq> {}" using stuck [OF assms(2)] by auto
  ultimately have "unat (count (shared s)) = 0" using sem_live_reach [OF assms(1)] by (simp add: sem_live_def)
  then show ?thesis using stuck by (simp add: unat_eq_zero)
qed simp

theorem semaphore_no_lost_wakeup_witness:
  "\<exists>s u. reach sem_step no_error (sem_start 0) s \<and> pcs s 1 = W_asleep \<and> able sem_step s u"
proof -
  obtain s where s: "reach sem_step no_error (sem_start 0) s" "count (shared s) = 1" "pcs s 1 = W_asleep" using demo_run by blast
  then show ?thesis using semaphore_no_lost_wakeup [OF s(1), of 1] by fastforce
qed

end
