(* ===== verification/Future.thy ===== *)
theory Future
  imports Monitor Memory
begin

text \<open>
  \<^verbatim>\<open>lib/concurrency/future.c\<close>: \<^verbatim>\<open>struct CxFuture\<close>, a value that is set once and waited for
  by any number of threads. The code ignores the results of the thread library, so its calls
  succeed here.
\<close>

section \<open>State and operations\<close>

text \<open>\<open>resolved\<close> is a ghost: the values of the resolves that stored one, in order.\<close>

record future =
  in_value :: addr
  out_value :: addr
  resolved :: "addr list"

text \<open>\<open>p\<close> is what \<^verbatim>\<open>calloc\<close> returned.\<close>

definition cx_future_init :: "addr \<Rightarrow> addr \<Rightarrow> future option" where
  "cx_future_init p value = (if p = 0 then None else Some \<lparr>in_value = value, out_value = 0, resolved = []\<rparr>)"

text \<open>The results of destroying the mutex and the condition variable are ignored.\<close>

definition cx_future_destroy :: "addr \<Rightarrow> heap \<Rightarrow> (int \<times> heap) option" where
  "cx_future_destroy p h = do { h \<leftarrow> free p h; Some (0, h) }"

definition cx_future_get_in_value :: "future \<Rightarrow> addr" where
  "cx_future_get_in_value f = in_value f"

datatype fut_pc =
    F_idle | F_waited addr | F_resolved int
  | G_lock | G_test | G_asleep | G_read | G_unlock addr
  | R_lock addr | R_test addr | R_set addr | R_broadcast | R_unlock int

type_synonym fut_machine = "(future, fut_pc) machine"

definition cx_future_wait :: "tid \<Rightarrow> outcome \<Rightarrow> fut_machine \<Rightarrow> fut_machine option" where
  "cx_future_wait t c s = (case pcs s t of
       G_lock \<Rightarrow> call c (\<lambda>e. None) (map_option (goto t G_test) (lock t s))
     | G_test \<Rightarrow>
         if out_value (shared s) = 0 then call c (\<lambda>e. None) (map_option (goto t G_asleep) (fall_asleep t s))
         else plain c (goto t G_read s)
     | G_asleep \<Rightarrow> if c = Spurious then wake_up t s else call c (\<lambda>e. None) (map_option (goto t G_test) (relock t s))
     | G_read \<Rightarrow> plain c (goto t (G_unlock (out_value (shared s))) s)
     | G_unlock v \<Rightarrow> call c (\<lambda>e. None) (map_option (goto t (F_waited v)) (unlock t s))
     | _ \<Rightarrow> None)"

definition cx_future_resolve :: "tid \<Rightarrow> outcome \<Rightarrow> fut_machine \<Rightarrow> fut_machine option" where
  "cx_future_resolve t c s = (case pcs s t of
       R_lock v \<Rightarrow> call c (\<lambda>e. None) (map_option (goto t (R_test v)) (lock t s))
     | R_test v \<Rightarrow> plain c (goto t (if out_value (shared s) \<noteq> 0 then R_unlock (- 1) else R_set v) s)
     | R_set v \<Rightarrow> plain c (goto t R_broadcast (s\<lparr>shared := (shared s)\<lparr>out_value := v, resolved := resolved (shared s) @ [v]\<rparr>\<rparr>))
     | R_broadcast \<Rightarrow> plain c (goto t (R_unlock 0) (broadcast s))
     | R_unlock rv \<Rightarrow> call c (\<lambda>e. None) (map_option (goto t (F_resolved rv)) (unlock t s))
     | _ \<Rightarrow> None)"

fun fut_idle :: "fut_pc \<Rightarrow> bool" where
  "fut_idle F_idle = True"
| "fut_idle (F_waited v) = True"
| "fut_idle (F_resolved rv) = True"
| "fut_idle _ = False"

text \<open>A client waits (0) or resolves the future with a value (the value plus one).\<close>

definition fut_step :: "tid \<Rightarrow> outcome \<Rightarrow> fut_machine \<Rightarrow> fut_machine option" where
  "fut_step t c s = (case c of
       Enter n \<Rightarrow> if fut_idle (pcs s t) then Some (goto t (if n = 0 then G_lock else R_lock (n - 1)) s) else None
     | _ \<Rightarrow> (case cx_future_wait t c s of Some s' \<Rightarrow> Some s' | None \<Rightarrow> cx_future_resolve t c s))"

definition fut_start :: "addr \<Rightarrow> fut_machine" where
  "fut_start v = \<lparr>shared = \<lparr>in_value = v, out_value = 0, resolved = []\<rparr>, owner = None, sleepers = {}, pcs = (\<lambda>_. F_idle)\<rparr>"

section \<open>Steps\<close>

fun fut_crit :: "fut_pc \<Rightarrow> bool" where
  "fut_crit G_test = True"
| "fut_crit G_read = True"
| "fut_crit (G_unlock v) = True"
| "fut_crit (R_test v) = True"
| "fut_crit (R_set v) = True"
| "fut_crit R_broadcast = True"
| "fut_crit (R_unlock rv) = True"
| "fut_crit _ = False"

lemma fut_idle_not_crit: "fut_idle p \<Longrightarrow> \<not> fut_crit p"
  by (cases p) auto

lemmas fut_defs = fut_step_def cx_future_wait_def cx_future_resolve_def machine_step

lemma fut_step_threads:
  assumes "fut_step t c s = Some s'"
  shows "u \<noteq> t \<Longrightarrow> pcs s' u = pcs s u" "owner s = Some u \<Longrightarrow> u \<noteq> t \<Longrightarrow> owner s' = Some u"
    "(fut_crit (pcs s t) \<Longrightarrow> owner s = Some t) \<Longrightarrow> fut_crit (pcs s' t) \<Longrightarrow> owner s' = Some t"
    "(\<And>u. owner s = Some u \<Longrightarrow> fut_crit (pcs s u)) \<Longrightarrow> no_error c \<Longrightarrow> owner s' = Some u \<Longrightarrow> fut_crit (pcs s' u)"
    "(\<And>u. u \<in> sleepers s \<Longrightarrow> pcs s u = G_asleep) \<Longrightarrow> u \<in> sleepers s' \<Longrightarrow> pcs s' u = G_asleep"
  using assms
  by (auto simp: fut_defs fut_idle_not_crit split: outcome.splits fut_pc.splits if_splits option.splits)

interpretation fut: blocking_monitor fut_step fut_crit fut_idle "\<lambda>p. p = G_asleep"
proof
  fix s :: fut_machine and t
  show "able fut_step s t" if "fut_crit (pcs s t)" "owner s = Some t"
  proof -
    have "\<exists>s'. fut_step t Ok s = Some s'" using that by (cases "pcs s t") (auto simp: fut_defs)
    then show ?thesis by (auto intro: able_Ok)
  qed
  show "able fut_step s t" if "\<not> fut_idle (pcs s t)" "\<not> fut_crit (pcs s t)" "\<not> (pcs s t = G_asleep \<and> t \<in> sleepers s)" "owner s = None"
  proof -
    have "\<exists>s'. fut_step t Ok s = Some s'" using that by (cases "pcs s t") (auto simp: fut_defs)
    then show ?thesis by (auto intro: able_Ok)
  qed
qed (fact fut_step_threads | (rule fut_step_threads(4,5); blast))+

section \<open>The value is set once\<close>

definition set_once :: "future \<Rightarrow> bool" where
  "set_once f \<longleftrightarrow> filter (\<lambda>v. v \<noteq> 0) (resolved f) = (if out_value f = 0 then [] else [out_value f])"

definition fut_inv :: "fut_machine \<Rightarrow> bool" where
  "fut_inv s \<longleftrightarrow> (\<forall>t. fut_crit (pcs s t) \<longrightarrow> owner s = Some t) \<and> set_once (shared s) \<and>
     (\<forall>t v. pcs s t = R_set v \<longrightarrow> out_value (shared s) = 0) \<and> (\<forall>t. pcs s t = G_read \<longrightarrow> out_value (shared s) \<noteq> 0) \<and>
     (\<forall>t v. pcs s t = G_unlock v \<or> pcs s t = F_waited v \<longrightarrow> v \<noteq> 0 \<and> out_value (shared s) = v) \<and>
     (out_value (shared s) \<noteq> 0 \<longrightarrow> sleepers s \<noteq> {} \<longrightarrow> (\<exists>t. pcs s t = R_broadcast))"

text \<open>What a step does to the value, at the thread that takes it.\<close>

lemma fut_step_data:
  assumes "fut_step t c s = Some s'"
  shows "(\<exists>v. pcs s t = R_set v \<and> pcs s' t = R_broadcast \<and> shared s' = (shared s)\<lparr>out_value := v, resolved := resolved (shared s) @ [v]\<rparr> \<and>
      sleepers s' = sleepers s) \<or>
    (pcs s t = R_broadcast \<and> pcs s' t = R_unlock 0 \<and> shared s' = shared s \<and> sleepers s' = {}) \<or>
    ((\<forall>v. pcs s t \<noteq> R_set v) \<and> pcs s t \<noteq> R_broadcast \<and> shared s' = shared s \<and> pcs s' t \<noteq> R_broadcast \<and>
      (\<forall>v. pcs s' t = R_set v \<longrightarrow> out_value (shared s) = 0) \<and> (pcs s' t = G_read \<longrightarrow> out_value (shared s) \<noteq> 0) \<and>
      (\<forall>v. pcs s' t = G_unlock v \<longrightarrow> pcs s t = G_read \<and> v = out_value (shared s)) \<and>
      (\<forall>v. pcs s' t = F_waited v \<longrightarrow> pcs s t = G_unlock v) \<and>
      (out_value (shared s) \<noteq> 0 \<longrightarrow> sleepers s' \<subseteq> sleepers s))"
  using assms by (auto simp: fut_defs split: outcome.splits fut_pc.splits if_splits option.splits)

lemma fut_invD:
  assumes "fut_inv s"
  shows "fut_crit (pcs s t) \<Longrightarrow> owner s = Some t" "set_once (shared s)" "pcs s t = R_set v \<Longrightarrow> out_value (shared s) = 0"
    "pcs s t = G_read \<Longrightarrow> out_value (shared s) \<noteq> 0" "pcs s t = G_unlock v \<Longrightarrow> v \<noteq> 0 \<and> out_value (shared s) = v"
    "pcs s t = F_waited v \<Longrightarrow> v \<noteq> 0 \<and> out_value (shared s) = v"
    "out_value (shared s) \<noteq> 0 \<Longrightarrow> sleepers s \<noteq> {} \<Longrightarrow> \<exists>t. pcs s t = R_broadcast"
  using assms by (auto simp: fut_inv_def)

lemma fut_inv_step:
  assumes inv: "fut_inv s" and st: "fut_step t c s = Some s'"
  shows "fut_inv s'"
proof -
  note I = fut_invD [OF inv]
  have same: "pcs s' u = pcs s u" if "u \<noteq> t" for u by (rule fut.other [OF st that])
  have crit: "owner s' = Some u" if "fut_crit (pcs s' u)" for u
  proof (cases "u = t")
    case True
    then show ?thesis using fut.enters [OF st I(1)] that by simp
  next
    case False
    then show ?thesis using fut.keeps [OF st I(1)] same [OF False] that by simp
  qed
  have only: "u = t" if "fut_crit (pcs s u)" "fut_crit (pcs s t)" for u using I(1) [OF that(1)] I(1) [OF that(2)] by simp
  show ?thesis using fut_step_data [OF st]
  proof (elim disjE exE conjE)
    fix v assume a: "pcs s t = R_set v" "pcs s' t = R_broadcast" "sleepers s' = sleepers s"
      "shared s' = (shared s)\<lparr>out_value := v, resolved := resolved (shared s) @ [v]\<rparr>"
    have z: "out_value (shared s) = 0" by (rule I(3) [OF a(1)])
    have others: "\<not> fut_crit (pcs s' u)" if "u \<noteq> t" for u using only [of u] same [OF that] a(1) that by auto
    have no: "pcs s' u \<noteq> R_set x" "pcs s' u \<noteq> G_read" "pcs s' u \<noteq> G_unlock x" "pcs s' u \<noteq> F_waited x" for u x
      using others [of u] a(2) same [of u] I(6) [of u x] z by (cases "u = t"; auto)+
    have "set_once (shared s')" using I(2) z a(4) by (simp add: set_once_def)
    then show ?thesis unfolding fut_inv_def using crit no a(2) by blast
  next
    assume a: "pcs s t = R_broadcast" "pcs s' t = R_unlock 0" "shared s' = shared s" "sleepers s' = {}"
    have no: "pcs s' u \<noteq> R_set x" "pcs s' u \<noteq> G_read" "pcs s' u \<noteq> G_unlock x" for u x
      using only [of u] same [of u] a(1,2) by (cases "u = t"; auto)+
    have "x \<noteq> 0 \<and> out_value (shared s') = x" if "pcs s' u = F_waited x" for u x
      using that a(2,3) same [of u] I(6) [of u x] by (cases "u = t") auto
    then show ?thesis unfolding fut_inv_def using crit no a(3,4) I(2) by auto
  next
    assume a: "\<forall>v. pcs s t \<noteq> R_set v" "pcs s t \<noteq> R_broadcast" "shared s' = shared s" "pcs s' t \<noteq> R_broadcast"
      "\<forall>v. pcs s' t = R_set v \<longrightarrow> out_value (shared s) = 0" "pcs s' t = G_read \<longrightarrow> out_value (shared s) \<noteq> 0"
      "\<forall>v. pcs s' t = G_unlock v \<longrightarrow> pcs s t = G_read \<and> v = out_value (shared s)"
      "\<forall>v. pcs s' t = F_waited v \<longrightarrow> pcs s t = G_unlock v" "out_value (shared s) \<noteq> 0 \<longrightarrow> sleepers s' \<subseteq> sleepers s"
    have "out_value (shared s') = 0" if "pcs s' u = R_set x" for u x
      using that a(3,5) same [of u] I(3) [of u x] by (cases "u = t") auto
    moreover have "out_value (shared s') \<noteq> 0" if "pcs s' u = G_read" for u
      using that a(3,6) same [of u] I(4) [of u] by (cases "u = t") auto
    moreover have "x \<noteq> 0 \<and> out_value (shared s') = x" if "pcs s' u = G_unlock x \<or> pcs s' u = F_waited x" for u x
      using that a(3,7,8) same [of u] I(4) [of t] I(5,6) [of u x] by (cases "u = t") auto
    moreover have "\<exists>u. pcs s' u = R_broadcast" if "out_value (shared s') \<noteq> 0" "sleepers s' \<noteq> {}"
    proof -
      have "sleepers s \<noteq> {}" "out_value (shared s) \<noteq> 0" using a(3,9) that by auto
      then obtain u where u: "pcs s u = R_broadcast" using I(7) by blast
      then have "u \<noteq> t" using a(2) by auto
      then show ?thesis using same u by metis
    qed
    ultimately show ?thesis unfolding fut_inv_def using crit a(3) I(2) by auto
  qed
qed

lemma fut_inv_reach: "reach fut_step allowed (fut_start v) s \<Longrightarrow> fut_inv s"
proof (induction rule: reach.induct)
  case reach_start
  then show ?case by (simp add: fut_inv_def fut_start_def set_once_def)
next
  case (reach_step s c t s')
  then show ?case using fut_inv_step by blast
qed

section \<open>Properties\<close>

text \<open>For the witnesses: thread 1 waits, thread 2 resolves the future with 7, thread 1 returns.\<close>

definition demo_waiting :: "(tid \<times> outcome) list" where
  "demo_waiting = [(1, Enter 0), (1, Ok), (1, Ok), (2, Enter 8), (2, Ok), (2, Ok), (2, Ok)]"

text \<open>The steps without delay.\<close>

lemma fut_go:
  "fut_idle (pcs s t) \<Longrightarrow> fut_step t (Enter n) s = Some (s\<lparr>pcs := (pcs s)(t := if n = 0 then G_lock else R_lock (n - 1))\<rparr>)"
  "pcs s t = G_lock \<Longrightarrow> owner s = None \<Longrightarrow> fut_step t Ok s = Some (s\<lparr>owner := Some t, pcs := (pcs s)(t := G_test)\<rparr>)"
  "pcs s t = G_test \<Longrightarrow> owner s = Some t \<Longrightarrow> out_value (shared s) = 0 \<Longrightarrow>
    fut_step t Ok s = Some (s\<lparr>owner := None, sleepers := insert t (sleepers s), pcs := (pcs s)(t := G_asleep)\<rparr>)"
  "pcs s t = G_test \<Longrightarrow> out_value (shared s) \<noteq> 0 \<Longrightarrow> fut_step t Ok s = Some (s\<lparr>pcs := (pcs s)(t := G_read)\<rparr>)"
  "pcs s t = G_asleep \<Longrightarrow> t \<notin> sleepers s \<Longrightarrow> owner s = None \<Longrightarrow>
    fut_step t Ok s = Some (s\<lparr>owner := Some t, pcs := (pcs s)(t := G_test)\<rparr>)"
  "pcs s t = G_read \<Longrightarrow> fut_step t Ok s = Some (s\<lparr>pcs := (pcs s)(t := G_unlock (out_value (shared s)))\<rparr>)"
  "pcs s t = G_unlock v \<Longrightarrow> owner s = Some t \<Longrightarrow> fut_step t Ok s = Some (s\<lparr>owner := None, pcs := (pcs s)(t := F_waited v)\<rparr>)"
  "pcs s t = R_lock v \<Longrightarrow> owner s = None \<Longrightarrow> fut_step t Ok s = Some (s\<lparr>owner := Some t, pcs := (pcs s)(t := R_test v)\<rparr>)"
  "pcs s t = R_test v \<Longrightarrow> out_value (shared s) = 0 \<Longrightarrow> fut_step t Ok s = Some (s\<lparr>pcs := (pcs s)(t := R_set v)\<rparr>)"
  "pcs s t = R_set v \<Longrightarrow> fut_step t Ok s =
    Some (s\<lparr>shared := (shared s)\<lparr>out_value := v, resolved := resolved (shared s) @ [v]\<rparr>, pcs := (pcs s)(t := R_broadcast)\<rparr>)"
  "pcs s t = R_broadcast \<Longrightarrow> fut_step t Ok s = Some (s\<lparr>sleepers := {}, pcs := (pcs s)(t := R_unlock 0)\<rparr>)"
  "pcs s t = R_unlock rv \<Longrightarrow> owner s = Some t \<Longrightarrow> fut_step t Ok s = Some (s\<lparr>owner := None, pcs := (pcs s)(t := F_resolved rv)\<rparr>)"
  by (simp_all add: fut_defs)

lemma demo_future:
  "\<exists>s. reach fut_step no_error (fut_start 3) s \<and> pcs s 1 = G_asleep \<and> out_value (shared s) = 7"
  "\<exists>s. reach fut_step no_error (fut_start 3) s \<and> pcs s 1 = F_waited 7"
proof -
  have steps: "\<exists>s. run_steps fut_step demo_waiting (fut_start 3) = Some s \<and> pcs s 1 = G_asleep \<and> out_value (shared s) = 7"
    "\<exists>s. run_steps fut_step (demo_waiting @ [(2, Ok), (2, Ok), (1, Ok), (1, Ok), (1, Ok), (1, Ok)]) (fut_start 3) = Some s \<and> pcs s 1 = F_waited 7"
    by (simp_all add: demo_waiting_def fut_start_def fut_go)
  have ok: "list_all (\<lambda>(t, c). no_error c) (demo_waiting @ [(2, Ok), (2, Ok), (1, Ok), (1, Ok), (1, Ok), (1, Ok)])"
    by (simp add: demo_waiting_def)
  then have ok': "list_all (\<lambda>(t, c). no_error c) demo_waiting" by simp
  obtain s1 where s1: "run_steps fut_step demo_waiting (fut_start 3) = Some s1" "pcs s1 1 = G_asleep" "out_value (shared s1) = 7"
    using steps(1) by auto
  show "\<exists>s. reach fut_step no_error (fut_start 3) s \<and> pcs s 1 = G_asleep \<and> out_value (shared s) = 7"
    using run_steps_reach [OF reach.reach_start s1(1) ok'] s1(2,3) by auto
  obtain s2 where s2: "run_steps fut_step (demo_waiting @ [(2, Ok), (2, Ok), (1, Ok), (1, Ok), (1, Ok), (1, Ok)]) (fut_start 3) = Some s2"
      "pcs s2 1 = F_waited 7"
    using steps(2) by auto
  show "\<exists>s. reach fut_step no_error (fut_start 3) s \<and> pcs s 1 = F_waited 7"
    using run_steps_reach [OF reach.reach_start s2(1) ok] s2(2) by auto
qed

text \<open>
  C32. A future has one value. In every interleaving all waits that have returned returned the same
  value, which is not null, and at most one resolve has stored a value that is not null, namely that
  one. (A resolve with null reports success and leaves the future unresolved.)
\<close>

theorem future_single_value:
  assumes "reach fut_step allowed (fut_start i) s"
  shows "(\<forall>t v. pcs s t = F_waited v \<longrightarrow> v \<noteq> 0 \<and> out_value (shared s) = v) \<and>
    filter (\<lambda>v. v \<noteq> 0) (resolved (shared s)) = (if out_value (shared s) = 0 then [] else [out_value (shared s)])"
  using fut_invD(2,6) [OF fut_inv_reach [OF assms]] by (auto simp: set_once_def)

theorem future_single_value_witness:
  "\<exists>s. reach fut_step no_error (fut_start 3) s \<and> pcs s 1 = F_waited 7 \<and> filter (\<lambda>v. v \<noteq> 0) (resolved (shared s)) = [7]"
proof -
  obtain s where s: "reach fut_step no_error (fut_start 3) s" "pcs s 1 = F_waited 7" using demo_future(2) by blast
  then show ?thesis using future_single_value [OF s(1)] by fastforce
qed

text \<open>
  C33. Resolving a future reaches everyone who waits. Whenever some thread is inside a call, some
  thread can go on, unless the future has no value and all of them sleep in a wait; in particular no
  thread sleeps on once a resolve has stored a value and left.
\<close>

theorem future_no_lost_wakeup:
  assumes "reach fut_step no_error (fut_start i) s" "\<not> fut_idle (pcs s t)"
  shows "(\<exists>u. able fut_step s u) \<or>
    (out_value (shared s) = 0 \<and> (\<forall>u. \<not> fut_idle (pcs s u) \<longrightarrow> pcs s u = G_asleep \<and> u \<in> sleepers s))"
proof (cases "\<exists>u. able fut_step s u")
  case False
  have stuck: "pcs s u = G_asleep \<and> u \<in> sleepers s" if "\<not> fut_idle (pcs s u)" for u
    using fut.stuck_asleep(3) [OF assms(1) _ _ _ that] False by (simp add: fut_start_def)
  have "pcs s u \<noteq> R_broadcast" for u using stuck [of u] by auto
  moreover have "sleepers s \<noteq> {}" using stuck [OF assms(2)] by auto
  ultimately show ?thesis using fut_invD(7) [OF fut_inv_reach [OF assms(1)]] stuck by blast
qed simp

theorem future_no_lost_wakeup_witness:
  "\<exists>s u. reach fut_step no_error (fut_start 3) s \<and> pcs s 1 = G_asleep \<and> able fut_step s u"
proof -
  obtain s where s: "reach fut_step no_error (fut_start 3) s" "pcs s 1 = G_asleep" "out_value (shared s) = 7" using demo_future(1) by blast
  then show ?thesis using future_no_lost_wakeup [OF s(1), of 1] by fastforce
qed

end
