(* ===== verification/Threads.thy ===== *)
theory Threads
  imports Monitor
begin

text \<open>
  Threads with any number of mutexes and condition variables. Where the code of a thread is long, it
  is a program: a table from the points of the code to instructions, each a call of the thread
  library or an access to the shared data, with the point that follows. An interpreter runs the
  program of every thread. Which mutex a point holds is an annotation that is checked
  instruction by instruction.
\<close>

section \<open>Programs\<close>

text \<open>
  \<open>Do f\<close> accesses the data (\<open>None\<close> is undefined behaviour), \<open>Lock m p e\<close> goes on at \<open>p\<close>, or at the point \<open>e\<close>
  chooses for an error code; \<open>Sleep\<close> and \<open>Woken\<close> are the two halves of \<^verbatim>\<open>pthread_cond_wait\<close>; \<open>Rest\<close> is
  the end of the thread, or a thread outside of every call.
\<close>

datatype ('d, 'p, 'm, 'c) instr =
    Do "'d \<Rightarrow> ('d \<times> 'p) option"
  | Lock 'm 'p "int \<Rightarrow> 'p option"
  | Unlock 'm 'p
  | Sleep 'c 'm 'p
  | Woken 'c 'm 'p
  | Signal 'c 'p
  | Join tid 'p
  | Rest

record ('d, 'p, 'm, 'c) system =
  data :: 'd
  owners :: "'m \<Rightarrow> tid option"
  waiters :: "'c \<Rightarrow> tid set"
  pc :: "tid \<Rightarrow> 'p"

definition jump :: "tid \<Rightarrow> 'p \<Rightarrow> ('d, 'p, 'm, 'c) system \<Rightarrow> ('d, 'p, 'm, 'c) system" where
  "jump t p s = s\<lparr>pc := (pc s)(t := p)\<rparr>"

definition set_owner :: "'m \<Rightarrow> tid option \<Rightarrow> ('d, 'p, 'm, 'c) system \<Rightarrow> ('d, 'p, 'm, 'c) system" where
  "set_owner m x s = s\<lparr>owners := (owners s)(m := x)\<rparr>"

definition set_waiters :: "'c \<Rightarrow> tid set \<Rightarrow> ('d, 'p, 'm, 'c) system \<Rightarrow> ('d, 'p, 'm, 'c) system" where
  "set_waiters cv S s = s\<lparr>waiters := (waiters s)(cv := S)\<rparr>"

fun run_instr :: "('p \<Rightarrow> bool) \<Rightarrow> ('d, 'p, 'm, 'c) instr \<Rightarrow> tid \<Rightarrow> outcome \<Rightarrow> ('d, 'p, 'm, 'c) system \<Rightarrow> ('d, 'p, 'm, 'c) system option" where
  "run_instr ended (Do f) t c s =
     (if c = Ok then do { (d, p) \<leftarrow> f (data s); Some (jump t p (s\<lparr>data := d\<rparr>)) } else None)"
| "run_instr ended (Lock m p e) t c s = (case c of
       Ok \<Rightarrow> if owners s m = None then Some (jump t p (set_owner m (Some t) s)) else None
     | Err n \<Rightarrow> if n \<noteq> 0 then map_option (\<lambda>p. jump t p s) (e n) else None
     | _ \<Rightarrow> None)"
| "run_instr ended (Unlock m p) t c s =
     (if c = Ok \<and> owners s m = Some t then Some (jump t p (set_owner m None s)) else None)"
| "run_instr ended (Sleep cv m p) t c s =
     (if c = Ok \<and> owners s m = Some t
      then Some (jump t p (set_waiters cv (insert t (waiters s cv)) (set_owner m None s))) else None)"
| "run_instr ended (Woken cv m p) t c s = (case c of
       Ok \<Rightarrow> if t \<notin> waiters s cv \<and> owners s m = None then Some (jump t p (set_owner m (Some t) s)) else None
     | Spurious \<Rightarrow> if t \<in> waiters s cv then Some (set_waiters cv (waiters s cv - {t}) s) else None
     | _ \<Rightarrow> None)"
| "run_instr ended (Signal cv p) t c s = (case c of
       Ok \<Rightarrow> if waiters s cv = {} then Some (jump t p s) else None
     | Wake w \<Rightarrow> if w \<in> waiters s cv then Some (jump t p (set_waiters cv (waiters s cv - {w}) s)) else None
     | _ \<Rightarrow> None)"
| "run_instr ended (Join u p) t c s = (if c = Ok \<and> ended (pc s u) then Some (jump t p s) else None)"
| "run_instr ended Rest t c s = None"

definition exec :: "(tid \<Rightarrow> 'p \<Rightarrow> ('d, 'p, 'm, 'c) instr) \<Rightarrow> ('p \<Rightarrow> bool) \<Rightarrow> (('d, 'p, 'm, 'c) system \<Rightarrow> tid \<Rightarrow> nat \<Rightarrow> 'p option) \<Rightarrow>
    tid \<Rightarrow> outcome \<Rightarrow> ('d, 'p, 'm, 'c) system \<Rightarrow> ('d, 'p, 'm, 'c) system option" where
  "exec prog ended enter t c s = (case c of
       Enter n \<Rightarrow> map_option (\<lambda>p. jump t p s) (enter s t n)
     | _ \<Rightarrow> run_instr ended (prog t (pc s t)) t c s)"

lemma jump_simps [simp]:
  "data (jump t p s) = data s" "owners (jump t p s) = owners s" "waiters (jump t p s) = waiters s" "pc (jump t p s) = (pc s)(t := p)"
  "data (set_owner m x s) = data s" "owners (set_owner m x s) = (owners s)(m := x)" "waiters (set_owner m x s) = waiters s" "pc (set_owner m x s) = pc s"
  "data (set_waiters cv S s) = data s" "owners (set_waiters cv S s) = owners s" "waiters (set_waiters cv S s) = (waiters s)(cv := S)" "pc (set_waiters cv S s) = pc s"
  by (simp_all add: jump_def set_owner_def set_waiters_def)

text \<open>A step is one of these.\<close>

lemma exec_cases:
  assumes "exec prog ended enter t c s = Some s'"
  obtains (enter) n p where "c = Enter n" "enter s t n = Some p" "s' = jump t p s"
  | (do_data) f d p where "prog t (pc s t) = Do f" "f (data s) = Some (d, p)" "s' = jump t p (s\<lparr>data := d\<rparr>)" "c = Ok"
  | (lock) m p e where "prog t (pc s t) = Lock m p e" "owners s m = None" "s' = jump t p (set_owner m (Some t) s)"
  | (lock_fails) m p e n q where "prog t (pc s t) = Lock m p e" "e n = Some q" "s' = jump t q s" "c = Err n"
  | (unlock) m p where "prog t (pc s t) = Unlock m p" "owners s m = Some t" "s' = jump t p (set_owner m None s)"
  | (sleep) cv m p where "prog t (pc s t) = Sleep cv m p" "owners s m = Some t"
      "s' = jump t p (set_waiters cv (insert t (waiters s cv)) (set_owner m None s))"
  | (woken) cv m p where "prog t (pc s t) = Woken cv m p" "t \<notin> waiters s cv" "owners s m = None" "s' = jump t p (set_owner m (Some t) s)"
  | (spurious) cv m p where "prog t (pc s t) = Woken cv m p" "t \<in> waiters s cv" "s' = set_waiters cv (waiters s cv - {t}) s" "c = Spurious"
  | (signal) cv p where "prog t (pc s t) = Signal cv p" "waiters s cv = {}" "s' = jump t p s"
  | (wakes) cv p w where "prog t (pc s t) = Signal cv p" "w \<in> waiters s cv" "s' = jump t p (set_waiters cv (waiters s cv - {w}) s)" "c = Wake w"
  | (join) u p where "prog t (pc s t) = Join u p" "ended (pc s u)" "s' = jump t p s"
proof (cases "\<exists>n. c = Enter n")
  case True
  then show thesis using assms enter by (auto simp: exec_def)
next
  case False
  then have "run_instr ended (prog t (pc s t)) t c s = Some s'" using assms by (auto simp: exec_def split: outcome.splits)
  then show thesis
    using that by (cases "prog t (pc s t)") (auto split: outcome.splits if_splits simp: bind_Some_iff)
qed

text \<open>What a step does to the point, the data and the mutexes.\<close>

fun leads :: "('d, 'p, 'm, 'c) instr \<Rightarrow> 'p \<Rightarrow> bool" where
  "leads (Do f) q \<longleftrightarrow> (\<exists>d d'. f d = Some (d', q))"
| "leads (Lock m p e) q \<longleftrightarrow> q = p \<or> (\<exists>n. e n = Some q)"
| "leads (Unlock m p) q \<longleftrightarrow> q = p"
| "leads (Sleep cv m p) q \<longleftrightarrow> q = p"
| "leads (Woken cv m p) q \<longleftrightarrow> q = p"
| "leads (Signal cv p) q \<longleftrightarrow> q = p"
| "leads (Join u p) q \<longleftrightarrow> q = p"
| "leads Rest q \<longleftrightarrow> False"

lemma exec_pc:
  assumes "exec prog ended enter t c s = Some s'"
  shows "pc s' = (pc s)(t := pc s' t)"
    "(\<exists>k. enter s t k = Some (pc s' t)) \<or> leads (prog t (pc s t)) (pc s' t) \<or> pc s' t = pc s t"
  using assms by (cases rule: exec_cases; auto)+

lemma exec_owners:
  "exec prog ended enter t c s = Some s' \<Longrightarrow>
    owners s' m = owners s m \<or> (owners s m \<in> {None, Some t} \<and> owners s' m \<in> {None, Some t})"
  by (erule exec_cases) auto

lemma exec_data:
  assumes "exec prog ended enter t c s = Some s'"
  shows "(data s' = data s \<and> ((\<exists>k. enter s t k = Some (pc s' t)) \<or> (\<nexists>f. prog t (pc s t) = Do f))) \<or>
    (\<exists>f. prog t (pc s t) = Do f \<and> f (data s) = Some (data s', pc s' t) \<and> owners s' = owners s \<and> waiters s' = waiters s)"
  using assms by (cases rule: exec_cases) auto

lemma exec_waiters:
  "exec prog ended enter t c s = Some s' \<Longrightarrow> u \<in> waiters s' cv \<Longrightarrow>
    u \<in> waiters s cv \<or> (u = t \<and> (\<exists>m. prog t (pc s t) = Sleep cv m (pc s' t)))"
  by (erule exec_cases) (auto split: if_splits)

section \<open>Programs that lock and unlock in pairs\<close>

locale well_locked =
  fixes prog :: "tid \<Rightarrow> 'p \<Rightarrow> ('d, 'p, 'm, 'c) instr" and ended :: "'p \<Rightarrow> bool"
    and enter :: "('d, 'p, 'm, 'c) system \<Rightarrow> tid \<Rightarrow> nat \<Rightarrow> 'p option" and holds :: "tid \<Rightarrow> 'p \<Rightarrow> 'm option"
  assumes enter_rest: "enter s t n = Some p \<Longrightarrow> prog t (pc s t) = Rest \<and> holds t p = None"
    and at_do: "prog t p = Do f \<Longrightarrow> f d = Some (d', p') \<Longrightarrow> holds t p' = holds t p"
    and at_lock: "prog t p = Lock m p' e \<Longrightarrow> holds t p = None \<and> holds t p' = Some m \<and> (\<forall>n q. e n = Some q \<longrightarrow> holds t q = None)"
    and at_unlock: "prog t p = Unlock m p' \<Longrightarrow> holds t p = Some m \<and> holds t p' = None"
    and at_sleep: "prog t p = Sleep cv m p' \<Longrightarrow> holds t p = Some m \<and> holds t p' = None \<and> (\<exists>q. prog t p' = Woken cv m q)"
    and at_woken: "prog t p = Woken cv m p' \<Longrightarrow> holds t p = None \<and> holds t p' = Some m"
    and at_signal: "prog t p = Signal cv p' \<Longrightarrow> holds t p' = holds t p"
    and at_join: "prog t p = Join u p' \<Longrightarrow> holds t p = None \<and> holds t p' = None"
    and at_rest: "prog t p = Rest \<Longrightarrow> holds t p = None"
begin

abbreviation "step \<equiv> exec prog ended enter"

definition quiet :: "('d, 'p, 'm, 'c) system \<Rightarrow> bool" where
  "quiet s \<longleftrightarrow> (\<forall>m. owners s m = None) \<and> (\<forall>cv. waiters s cv = {}) \<and> (\<forall>t. holds t (pc s t) = None)"

lemma owner_step:
  assumes "step t c s = Some s'" "\<And>m u. owners s m = Some u \<longleftrightarrow> holds u (pc s u) = Some m"
  shows "owners s' m = Some u \<longleftrightarrow> holds u (pc s' u) = Some m"
  using assms(1)
proof (cases rule: exec_cases)
  case (enter n p)
  then show ?thesis using assms(2) [of m u] enter_rest [OF enter(2)] at_rest [of t "pc s t"] by auto
next
  case (do_data f d p)
  then show ?thesis using assms(2) [of m u] at_do [OF do_data(1,2)] by auto
next
  case (lock m' p e)
  then show ?thesis using assms(2) [of m u] assms(2) [of m' u] at_lock [OF lock(1)] by auto
next
  case (lock_fails m' p e n q)
  then show ?thesis using assms(2) [of m u] at_lock [OF lock_fails(1)] by auto
next
  case (unlock m' p)
  then show ?thesis using assms(2) [of m u] assms(2) [of m' u] at_unlock [OF unlock(1)] by auto
next
  case (sleep cv m' p)
  then show ?thesis using assms(2) [of m u] assms(2) [of m' u] at_sleep [OF sleep(1)] by auto
next
  case (woken cv m' p)
  then show ?thesis using assms(2) [of m u] assms(2) [of m' u] at_woken [OF woken(1)] by auto
next
  case (spurious cv m p)
  then show ?thesis using assms(2) by simp
next
  case (signal cv p)
  then show ?thesis using assms(2) [of m u] at_signal [OF signal(1)] by auto
next
  case (wakes cv p w)
  then show ?thesis using assms(2) [of m u] at_signal [OF wakes(1)] by auto
next
  case (join v p)
  then show ?thesis using assms(2) [of m u] at_join [OF join(1)] by auto
qed

lemma signal_step:
  assumes "step t c s = Some s'" "prog t (pc s t) = Signal cv p"
  shows "pc s' t = p" "waiters s' cv = {} \<or> (\<exists>w \<in> waiters s cv. waiters s' cv = waiters s cv - {w})"
  using assms(1) by (cases rule: exec_cases; use assms(2) in \<open>auto dest: enter_rest\<close>)+

lemma join_step:
  assumes "step t c s = Some s'" "prog t (pc s t) = Join u p"
  shows "ended (pc s u)" "pc s' t = p"
  using assms(1) by (cases rule: exec_cases; use assms(2) in \<open>auto dest: enter_rest\<close>)+

lemma owner_holds:
  assumes "reach step allowed s0 s" "quiet s0"
  shows "owners s m = Some t \<longleftrightarrow> holds t (pc s t) = Some m"
  using assms
proof (induction arbitrary: m t rule: reach.induct)
  case (reach_step s c t' s')
  then show ?case using owner_step [OF reach_step.hyps(3)] by blast
qed (simp add: quiet_def)

lemma exclusive:
  assumes "reach step allowed s0 s" "quiet s0" "holds t (pc s t) = Some m" "holds u (pc s u) = Some m"
  shows "t = u"
  using owner_holds [OF assms(1,2)] assms(3,4) by (metis option.inject)

lemma waiter_step:
  assumes "step t c s = Some s'" "\<And>cv u. u \<in> waiters s cv \<Longrightarrow> \<exists>m p. prog u (pc s u) = Woken cv m p" "u \<in> waiters s' cv"
  shows "\<exists>m p. prog u (pc s' u) = Woken cv m p"
proof (cases "u \<in> waiters s cv")
  case old: True
  note W = assms(2) [OF old]
  show ?thesis
  proof (cases "u = t")
    case True
    obtain m p where w: "prog t (pc s t) = Woken cv m p" using W True by blast
    from assms(1) show ?thesis
      by (cases rule: exec_cases) (use w old True enter_rest assms(3) in auto)
  next
    case False
    from assms(1) have "pc s' u = pc s u" by (cases rule: exec_cases) (use False in auto)
    then show ?thesis using W by simp
  qed
next
  case False
  from assms(1) show ?thesis
  proof (cases rule: exec_cases)
    case (sleep cv' m p)
    then show ?thesis using False assms(3) at_sleep [OF sleep(1)] by (auto split: if_splits)
  qed (use False assms(3) in \<open>auto split: if_splits\<close>)
qed

lemma waiter_asleep:
  assumes "reach step allowed s0 s" "quiet s0"
  shows "u \<in> waiters s cv \<Longrightarrow> \<exists>m p. prog u (pc s u) = Woken cv m p"
  using assms
proof (induction arbitrary: u cv rule: reach.induct)
  case (reach_step s c t s')
  then show ?case using waiter_step [OF reach_step.hyps(3)] by blast
qed (simp add: quiet_def)

text \<open>
  Where no access to the data is undefined, a thread that holds a mutex can go on; so a state in which
  nobody can go on is one in which nobody holds a mutex and each thread sleeps, waits for
  the end of another, or is at rest.
\<close>

lemma able_exec: "c = Ok \<or> (\<exists>w. c = Wake w) \<Longrightarrow> run_instr ended (prog t (pc s t)) t c s \<noteq> None \<Longrightarrow> able step s t"
  unfolding able_def exec_def by (rule exI [of _ c]) auto

lemma able_holder:
  assumes "reach step allowed s0 s" "quiet s0" "holds t (pc s t) = Some m" "\<And>f. prog t (pc s t) = Do f \<Longrightarrow> f (data s) \<noteq> None"
  shows "able step s t"
proof (cases "prog t (pc s t)")
  case (Do f)
  then show ?thesis using assms(4) [OF Do] by (intro able_exec [of Ok]) auto
next
  case (Signal cv p)
  show ?thesis
  proof (cases "waiters s cv = {}")
    case True
    then show ?thesis using Signal by (intro able_exec [of Ok]) auto
  next
    case False
    then obtain w where "w \<in> waiters s cv" by blast
    then show ?thesis using Signal by (intro able_exec [of "Wake w"]) auto
  qed
next
  case (Unlock m' p)
  then have "owners s m' = Some t" using owner_holds [OF assms(1,2)] at_unlock by blast
  then show ?thesis using Unlock by (intro able_exec [of Ok]) auto
next
  case (Sleep cv m' p)
  then have "owners s m' = Some t" using owner_holds [OF assms(1,2)] at_sleep by blast
  then show ?thesis using Sleep by (intro able_exec [of Ok]) auto
qed (use assms(3) at_lock at_woken at_join at_rest in fastforce)+

lemma stuck_cases:
  assumes "reach step allowed s0 s" "quiet s0" "\<And>u f. prog u (pc s u) = Do f \<Longrightarrow> f (data s) \<noteq> None" "\<And>u. \<not> able step s u"
  shows "owners s m = None"
    "prog t (pc s t) = Rest \<or> (\<exists>cv m p. prog t (pc s t) = Woken cv m p \<and> t \<in> waiters s cv) \<or>
      (\<exists>u p. prog t (pc s t) = Join u p \<and> \<not> ended (pc s u))"
proof -
  have free: "owners s m = None" for m
  proof (cases "owners s m")
    case (Some u)
    then have "holds u (pc s u) = Some m" using owner_holds [OF assms(1,2)] by blast
    then have "able step s u" by (rule able_holder [OF assms(1,2)]) (rule assms(3))
    then show ?thesis using assms(4) by blast
  qed
  then show "owners s m = None" .
  have no: "run_instr ended (prog t (pc s t)) t c s = None" if "c = Ok \<or> (\<exists>w. c = Wake w)" for c
    using able_exec [OF that] assms(4) by blast
  note ok = no [of Ok]
  show "prog t (pc s t) = Rest \<or> (\<exists>cv m p. prog t (pc s t) = Woken cv m p \<and> t \<in> waiters s cv) \<or>
      (\<exists>u p. prog t (pc s t) = Join u p \<and> \<not> ended (pc s u))"
  proof (cases "prog t (pc s t)")
    case (Do f)
    then show ?thesis using ok assms(3) [OF Do] by auto
  next
    case (Unlock m' p)
    then show ?thesis using owner_holds [OF assms(1,2), of m' t] at_unlock [OF Unlock] free by simp
  next
    case (Sleep cv m' p)
    then show ?thesis using owner_holds [OF assms(1,2), of m' t] at_sleep [OF Sleep] free by simp
  next
    case (Signal cv p)
    have "w \<notin> waiters s cv" for w using no [of "Wake w"] Signal by auto
    then have "waiters s cv = {}" by blast
    then show ?thesis using ok Signal by auto
  qed (use ok free in \<open>auto split: if_splits\<close>)
qed

end

section \<open>Sums over threads\<close>

text \<open>Only the first \<open>n\<close> threads ever run; the others have nothing.\<close>

lemma sum_jump:
  fixes f :: "'p \<Rightarrow> 'a::comm_monoid_add" and n :: nat
  assumes "t < n"
  shows "(\<Sum>u<n. f ((p(t := q)) u)) + f (p t) = (\<Sum>u<n. f (p u)) + f q"
proof -
  have split: "(\<Sum>u<n. g u) = g t + (\<Sum>u\<in>{..<n} - {t}. g u)" for g :: "nat \<Rightarrow> 'a"
    by (rule sum.remove) (use assms in auto)
  have "(\<Sum>u\<in>{..<n} - {t}. f ((p(t := q)) u)) = (\<Sum>u\<in>{..<n} - {t}. f (p u))"
    by (rule sum.cong) auto
  then show ?thesis unfolding split by (simp add: ac_simps)
qed

end
