(* ===== verification/TaskQueue.thy ===== *)
theory TaskQueue
  imports Pool
begin

text \<open>
  The task queues of \<^verbatim>\<open>lib/concurrency/threadpool.c\<close>: a \<^verbatim>\<open>struct CxTask\<close> is an element of a
  pool and holds a function, its argument and the next task; a worker holds the first and the
  last task of its queue. The functions here run under a mutex or on a task that no other
  thread has; the interleavings of the threads are in theory Threadpool.
\<close>

section \<open>State and operations\<close>

text \<open>\<^verbatim>\<open>function\<close>, \<^verbatim>\<open>arg\<close> and \<^verbatim>\<open>next\<close> lie at the offsets 0, 8 and 16 of a task.\<close>

definition task_size :: u64 where
  "task_size = 24"

record worker =
  whead :: addr
  wtail :: addr
  wqueue_length :: u64

text \<open>The end of \<^verbatim>\<open>task_new\<close>.\<close>

definition task_fill :: "addr \<Rightarrow> u64 \<Rightarrow> u64 \<Rightarrow> heap \<Rightarrow> heap option" where
  "task_fill task function arg h = do {
     h \<leftarrow> store_u64 task function h;
     h \<leftarrow> store_u64 (task + 8) arg h;
     store_u64 (task + 16) 0 h
   }"

definition worker_get_task :: "worker \<Rightarrow> heap \<Rightarrow> (addr \<times> worker) option" where
  "worker_get_task worker h =
     (let task = whead worker in
      if task \<noteq> 0
      then do {
        next_task \<leftarrow> load_u64 (task + 16) h;
        let worker = worker\<lparr>whead := unat next_task\<rparr>;
        let worker = (if whead worker = 0 then worker\<lparr>wtail := 0\<rparr> else worker);
        Some (task, worker\<lparr>wqueue_length := wqueue_length worker - 1\<rparr>)
      }
      else Some (task, worker))"

text \<open>What \<^verbatim>\<open>cx_threadpool_schedule\<close> does to the list of the worker it chose.\<close>

definition link_task :: "worker \<Rightarrow> addr \<Rightarrow> heap \<Rightarrow> (worker \<times> heap) option" where
  "link_task worker new_task h = do {
     (worker, h) \<leftarrow>
       (if wtail worker \<noteq> 0
        then do { h \<leftarrow> store_u64 (wtail worker + 16) (of_nat new_task) h; Some (worker, h) }
        else Some (worker\<lparr>whead := new_task\<rparr>, h));
     Some (worker\<lparr>wtail := new_task\<rparr>, h)
   }"

section \<open>Queues\<close>

fun links :: "heap \<Rightarrow> addr \<Rightarrow> addr list \<Rightarrow> bool" where
  "links h a [] = (a = 0)"
| "links h a (x # xs) = (a = x \<and> x \<noteq> 0 \<and> links h (unat (u64_at h (x + 16))) xs)"

definition queue_at :: "heap \<Rightarrow> worker \<Rightarrow> addr list \<Rightarrow> bool" where
  "queue_at h w q \<longleftrightarrow> links h (whead w) q \<and> wtail w = (if q = [] then 0 else last q)"

definition task_at :: "heap \<Rightarrow> addr \<Rightarrow> u64 \<times> u64" where
  "task_at h a = (u64_at h a, u64_at h (a + 8))"

definition next_at :: "heap \<Rightarrow> addr \<Rightarrow> addr" where
  "next_at h a = unat (u64_at h (a + 16))"

lemma queue_at_length [simp]: "queue_at h (w\<lparr>wqueue_length := n\<rparr>) q = queue_at h w q"
  by (simp add: queue_at_def)

lemma links_cong: "(\<And>x. x \<in> set q \<Longrightarrow> u64_at h' (x + 16) = u64_at h (x + 16)) \<Longrightarrow> links h' a q = links h a q"
  by (induction q arbitrary: a) auto

lemma task_fields:
  assumes "bytes_at h' x 24 = bytes_at h x 24"
  shows "task_at h' x = task_at h x" "next_at h' x = next_at h x"
  using u64_at_prefix [OF assms, of 0] u64_at_prefix [OF assms, of 8] u64_at_prefix [OF assms, of 16]
  by (simp_all add: task_at_def next_at_def)

lemma queue_at_cong:
  assumes "\<And>x. x \<in> set q \<Longrightarrow> bytes_at h' x 24 = bytes_at h x 24"
  shows "queue_at h' w q = queue_at h w q"
proof -
  have "links h' (whead w) q = links h (whead w) q"
  proof (rule links_cong)
    fix x assume "x \<in> set q"
    then show "u64_at h' (x + 16) = u64_at h (x + 16)" using u64_at_prefix [OF assms, of x 16] by simp
  qed
  then show ?thesis by (simp add: queue_at_def)
qed

lemma links_snoc:
  assumes "links h a q" "x \<noteq> 0" "x < 2 ^ 64" "distinct (q @ [x])" "q \<noteq> []"
    and "u64_at h' (last q + 16) = of_nat x" "u64_at h' (x + 16) = 0"
    and "\<And>y. y \<in> set q \<Longrightarrow> y \<noteq> last q \<Longrightarrow> u64_at h' (y + 16) = u64_at h (y + 16)"
  shows "links h' a (q @ [x])"
  using assms
proof (induction q arbitrary: a)
  case (Cons y q)
  show ?case
  proof (cases "q = []")
    case True
    then show ?thesis using Cons.prems by (simp add: unat_of_nat64)
  next
    case False
    then have "y \<noteq> last q" using Cons.prems(4) by auto
    then have "u64_at h' (y + 16) = u64_at h (y + 16)" using Cons.prems(8) [of y] False by simp
    moreover have "links h' (unat (u64_at h (y + 16))) (q @ [x])"
      by (rule Cons.IH) (use Cons.prems False in auto)
    ultimately show ?thesis using Cons.prems(1) by simp
  qed
qed simp

section \<open>Operations on queues\<close>

text \<open>The pool of the tasks, with the recycled tasks \<open>F\<close> and the tasks \<open>L\<close> in use.\<close>

definition tasks_at :: "heap \<Rightarrow> prealloc_pool \<Rightarrow> addr list \<Rightarrow> addr list \<Rightarrow> (addr \<times> nat) set \<Rightarrow> bool" where
  "tasks_at h p F L X \<longleftrightarrow> pool_at h p F L X \<and> esize p = 24"

lemma task_valid: "tasks_at h p F L X \<Longrightarrow> x \<in> set L \<Longrightarrow> k + 8 \<le> 24 \<Longrightarrow> valid h (x + k) 8"
  using pool_at_write(1) [of h p F L X x k "replicate 8 0"] by (simp add: tasks_at_def)

lemma task_write:
  assumes "tasks_at h p F L X" "x \<in> set L" "k + 8 \<le> 24"
  shows "store_u64 (x + k) w h = Some (set_bytes (x + k) (le_bytes 8 w) h)"
    "tasks_at (set_bytes (x + k) (le_bytes 8 w) h) p F L X" "frame X X h (set_bytes (x + k) (le_bytes 8 w) h)"
    "\<And>y. y \<in> set L \<Longrightarrow> y \<noteq> x \<Longrightarrow> bytes_at (set_bytes (x + k) (le_bytes 8 w) h) y 24 = bytes_at h y 24"
  using pool_at_write [of h p F L X x k "le_bytes 8 w"] assms by (simp_all add: tasks_at_def mem_step)

lemma get_task_spec:
  assumes at: "tasks_at h p F L X" and q: "queue_at h w q" "set q \<subseteq> set L"
  shows "case q of
      [] \<Rightarrow> worker_get_task w h = Some (0, w)
    | a # q' \<Rightarrow> a \<noteq> 0 \<and> (\<exists>w'. worker_get_task w h = Some (a, w') \<and> queue_at h w' q' \<and> wqueue_length w' = wqueue_length w - 1)"
proof (cases q)
  case Nil
  then show ?thesis using q by (simp add: queue_at_def worker_get_task_def)
next
  case (Cons a q')
  have l: "whead w = a" "a \<noteq> 0" "links h (unat (u64_at h (a + 16))) q'" using q Cons by (auto simp: queue_at_def)
  have v: "valid h (a + 16) 8" using task_valid [OF at, of a 16] q(2) Cons by simp
  have nil: "unat (u64_at h (a + 16)) = 0 \<longleftrightarrow> q' = []" using l(3) by (cases q') auto
  let ?w0 = "w\<lparr>whead := unat (u64_at h (a + 16))\<rparr>"
  let ?w = "(if q' = [] then ?w0\<lparr>wtail := 0\<rparr> else ?w0)\<lparr>wqueue_length := wqueue_length w - 1\<rparr>"
  have "worker_get_task w h = Some (a, ?w)"
    using l(1,2) v nil by (simp add: worker_get_task_def Let_def mem_step)
  moreover have "queue_at h ?w q'" using q l(3) Cons by (auto simp: queue_at_def)
  ultimately show ?thesis using l(2) Cons by simp
qed

lemma link_task_spec:
  assumes at: "tasks_at h p F L X" and q: "queue_at h w q" "set q \<subseteq> set L"
    and x: "x \<in> set L" "distinct (q @ [x])" "next_at h x = 0"
  shows "\<exists>w' h'. link_task w x h = Some (w', h') \<and> queue_at h' w' (q @ [x]) \<and> wqueue_length w' = wqueue_length w \<and>
    tasks_at h' p F L X \<and> frame X X h h' \<and> (\<forall>y \<in> set L. task_at h' y = task_at h y) \<and>
    (\<forall>y \<in> set L. y \<notin> set q \<longrightarrow> bytes_at h' y 24 = bytes_at h y 24)"
proof -
  have pool: "pool_at h p F L X" "esize p = 24" using at by (simp_all add: tasks_at_def)
  have x0: "x \<noteq> 0" "x < 2 ^ 64" using pool_atD(5) [OF pool(1) x(1)] by simp_all
  have xn: "u64_at h (x + 16) = 0" using x(3) by (simp add: next_at_def unat_eq_zero)
  show ?thesis
  proof (cases "q = []")
    case True
    have "X \<subseteq> set (blocks h)" by (rule pool_atD(2) [OF pool(1)])
    then have "frame X X h h" by (rule frame_refl)
    moreover have "link_task w x h = Some (w\<lparr>whead := x, wtail := x\<rparr>, h)" using q True by (simp add: link_task_def queue_at_def)
    moreover have "queue_at h (w\<lparr>whead := x, wtail := x\<rparr>) (q @ [x])" using True x0 xn by (simp add: queue_at_def)
    ultimately show ?thesis using at by auto
  next
    case False
    let ?t = "last q"
    let ?h = "set_bytes (?t + 16) (le_bytes 8 (of_nat x :: u64)) h"
    have t: "?t \<in> set L" "wtail w = ?t" using False q last_in_set [OF False] by (auto simp: queue_at_def)
    note W = task_write [OF at t(1), where k = 16 and w = "of_nat x"]
    have t0: "?t \<noteq> 0" using pool_atD(5) [OF pool(1) t(1)] by simp
    have same: "bytes_at ?h y 24 = bytes_at h y 24" if "y \<in> set L" "y \<noteq> ?t" for y using W(4) that by simp
    have "links ?h (whead w) (q @ [x])"
    proof (rule links_snoc)
      show "links h (whead w) q" using q by (simp add: queue_at_def)
      show "u64_at ?h (?t + 16) = of_nat x" by (simp add: heap_simps)
      have "x \<noteq> ?t" using x(2) last_in_set [OF False] by auto
      then show "u64_at ?h (x + 16) = 0" using u64_at_prefix [OF same [OF x(1)], of 16] xn by simp
      show "u64_at ?h (y + 16) = u64_at h (y + 16)" if "y \<in> set q" "y \<noteq> ?t" for y
        using u64_at_prefix [OF same [of y], of 16] that q(2) by auto
    qed (use x0 x(2) False in auto)
    then have "queue_at ?h (w\<lparr>wtail := x\<rparr>) (q @ [x])" by (simp add: queue_at_def)
    moreover have "link_task w x h = Some (w\<lparr>wtail := x\<rparr>, ?h)" using t0 t(2) W(1) by (simp add: link_task_def)
    moreover have "task_at ?h y = task_at h y" if "y \<in> set L" for y
    proof (cases "y = ?t")
      case True
      then show ?thesis by (simp add: task_at_def u64_at_set_other)
    next
      case False
      show ?thesis by (rule task_fields(1) [OF same [OF that False]])
    qed
    moreover have "bytes_at ?h y 24 = bytes_at h y 24" if "y \<in> set L" "y \<notin> set q" for y
      using same [OF that(1)] that(2) last_in_set [OF False] by metis
    ultimately show ?thesis using W(2,3) by auto
  qed
qed

lemma task_fill_spec:
  assumes at: "tasks_at h p F L X" and x: "x \<in> set L"
  shows "\<exists>h'. task_fill x f a h = Some h' \<and> tasks_at h' p F L X \<and> frame X X h h' \<and> task_at h' x = (f, a) \<and> next_at h' x = 0 \<and>
    (\<forall>y \<in> set L. y \<noteq> x \<longrightarrow> bytes_at h' y 24 = bytes_at h y 24)"
proof -
  let ?h1 = "set_bytes x (le_bytes 8 f) h"
  let ?h2 = "set_bytes (x + 8) (le_bytes 8 a) ?h1"
  let ?h3 = "set_bytes (x + 16) (le_bytes 8 (0 :: u64)) ?h2"
  have k0: "?h1 = set_bytes (x + 0) (le_bytes 8 f) h" by simp
  note A = task_write [OF at x, where k = 0 and w = f, folded k0]
  have at1: "tasks_at ?h1 p F L X" using A(2) by simp
  note B = task_write [OF at1 x, where k = 8 and w = a]
  have at2: "tasks_at ?h2 p F L X" using B(2) by simp
  note C = task_write [OF at2 x, where k = 16 and w = 0]
  have run: "task_fill x f a h = Some ?h3" using A(1) B(1) C(1) by (simp add: task_fill_def)
  have fr: "frame X X h ?h3" using frame_trans [OF frame_trans [OF A(3) B(3)] C(3)] by simp
  have "task_at ?h3 x = (f, a)" "next_at ?h3 x = 0"
    by (simp_all add: task_at_def next_at_def u64_at_set_other heap_simps)
  moreover have "bytes_at ?h3 y 24 = bytes_at h y 24" if "y \<in> set L" "y \<noteq> x" for y
    using A(4) [OF _ that(1,2)] B(4) [OF _ that(1,2)] C(4) [OF _ that(1,2)] that by simp
  ultimately show ?thesis using run fr C(2) by auto
qed

lemma task_load:
  assumes "tasks_at h p F L X" "x \<in> set L"
  shows "load_u64 x h = Some (u64_at h x)" "load_u64 (x + 8) h = Some (u64_at h (x + 8))"
  using task_valid [OF assms, of 0] task_valid [OF assms, of 8] by (simp_all add: mem_step)

lemma task_get_spec:
  assumes "tasks_at h p F L X"
  shows "\<exists>x p' h'. cx_prealloc_pool_get p h = Some (x, p', h') \<and> (x = 0 \<or> (x \<noteq> 0 \<and> x \<notin> set L \<and>
    (\<exists>X'. tasks_at h' p' (tl F) (L @ [x]) X' \<and> frame X X' h h') \<and> (\<forall>y \<in> set L. bytes_at h' y 24 = bytes_at h y 24)))"
proof -
  have p: "pool_at h p F L X" "esize p = 24" using assms by (simp_all add: tasks_at_def)
  obtain e p' h' where g: "cx_prealloc_pool_get p h = Some (e, p', h')" "e = 0 \<or> (e \<noteq> 0 \<and> e \<notin> set L \<and> pool_element_size p' = pool_element_size p \<and>
      bytes_at h' e (esize p) = initial (esize p) (Pool.contents h (esize p) F) \<and>
      (\<forall>x \<in> set (tl F) \<union> set L. bytes_at h' x (esize p) = bytes_at h x (esize p)) \<and>
      (\<exists>X'. pool_at h' p' (tl F) (L @ [e]) X' \<and> frame X X' h h'))"
    using pool_at_get [OF p(1)] by blast
  show ?thesis
  proof (cases "e = 0")
    case False
    then have G: "e \<notin> set L" "pool_element_size p' = pool_element_size p" "\<forall>x \<in> set (tl F) \<union> set L. bytes_at h' x (esize p) = bytes_at h x (esize p)"
        "\<exists>X'. pool_at h' p' (tl F) (L @ [e]) X' \<and> frame X X' h h'" using g(2) by blast+
    then obtain X' where X': "pool_at h' p' (tl F) (L @ [e]) X'" "frame X X' h h'" by blast
    have "tasks_at h' p' (tl F) (L @ [e]) X'" using X'(1) G(2) p(2) by (simp add: tasks_at_def)
    moreover have "\<forall>y \<in> set L. bytes_at h' y 24 = bytes_at h y 24" using G(3) p(2) by auto
    ultimately show ?thesis using g(1) False G(1) X'(2) by blast
  qed (use g(1) in blast)
qed

lemma task_recycle_spec:
  assumes "tasks_at h p F L X" "x \<in> set L"
  shows "\<exists>p' h'. cx_prealloc_pool_recycle p x h = Some (p', h') \<and> tasks_at h' p' (x # F) (remove1 x L) X \<and> frame X X h h' \<and>
    (\<forall>y \<in> set L. y \<noteq> x \<longrightarrow> bytes_at h' y 24 = bytes_at h y 24)"
proof -
  have p: "pool_at h p F L X" "esize p = 24" using assms(1) by (simp_all add: tasks_at_def)
  then show ?thesis using pool_at_recycle [OF p(1) assms(2)] by (auto simp: tasks_at_def)
qed

text \<open>Tasks do not overlap, so their number is bounded by the size of the address space.\<close>

lemma task_count:
  assumes "tasks_at h p F L X"
  shows "length L < 2 ^ 62"
proof -
  have p: "pool_at h p F L X" "esize p = 24" using assms by (simp_all add: tasks_at_def)
  note P = pool_atD [OF p(1)]
  have "inj_on (\<lambda>x. x div 24) (set L)"
  proof (rule inj_onI)
    fix x y assume xy: "x \<in> set L" "y \<in> set L" "x div 24 = y div 24"
    show "x = y"
    proof (rule ccontr)
      assume "x \<noteq> y"
      then have "x + 24 \<le> y \<or> y + 24 \<le> x" using P(7) [OF xy(1,2)] p(2) by simp
      moreover have "x < 24 * (x div 24) + 24" "y < 24 * (y div 24) + 24" "24 * (x div 24) \<le> x" "24 * (y div 24) \<le> y"
        by (simp_all add: dividend_less_times_div)
      ultimately show False using xy(3) by linarith
    qed
  qed
  moreover have "(\<lambda>x. x div 24) ` set L \<subseteq> {..<2 ^ 61}"
  proof (rule image_subsetI)
    fix x assume "x \<in> set L"
    then have "x < 2 ^ 64" using P(5) by blast
    then have "x < 2 ^ 61 * 24" by simp
    then have "x div 24 < 2 ^ 61" by (rule less_mult_imp_div_less)
    then show "x div 24 \<in> {..<2 ^ 61}" by simp
  qed
  ultimately have "card (set L) \<le> card {..<2 ^ 61 :: nat}" by (intro card_inj_on_le) simp_all
  then have "card (set L) \<le> 2 ^ 61" by simp
  moreover have "card (set L) = length L" by (rule distinct_card [OF P(3)])
  moreover have "(2 :: nat) ^ 61 < 2 ^ 62" by simp
  ultimately show ?thesis by simp
qed

end
