(* ===== verification/Threadpool.thy ===== *)
theory Threadpool
  imports Threads TaskQueue
begin

text \<open>
  \<^verbatim>\<open>lib/concurrency/threadpool.c\<close>: \<^verbatim>\<open>struct CxThreadpool\<close>, a number of worker threads with a
  queue of tasks each, and the client threads that schedule tasks, wait for them and clean the pool
  up. Each thread runs the program of theory Threads; an instruction is one call of the
  thread library, one access to an atomic variable, or what happens to data no other thread can see
  at that point. Threads \<open>0\<close> to \<open>n - 1\<close> are the workers, the threads up to \<open>m\<close> are clients.
  The array of workers is a list; \<^verbatim>\<open>free(workers)\<close> empties it. Destroying a mutex or a condition variable
  has no effect in the machine.
\<close>

section \<open>State\<close>

text \<open>
  The \<^verbatim>\<open>struct\<close> with the heap its tasks are on. \<open>scheduled\<close> and \<open>executed\<close> are ghosts: the tasks (function and
  argument) that were counted into \<^verbatim>\<open>active_tasks\<close> and that were run, in order; \<open>dropped\<close> says that
  \<^verbatim>\<open>cx_threadpool_schedule\<close> could not allocate a task.
\<close>

type_synonym task = "u64 \<times> u64"

record threadpool =
  tworkers :: "worker list"
  running :: bool
  active_tasks :: u64
  task_pool :: prealloc_pool
  theap :: heap
  scheduled :: "task list"
  executed :: "task list"
  dropped :: bool

datatype tp_mutex = Queue_mutex nat | Wait_mutex | Pool_mutex

datatype tp_cond = Queue_cond nat | Wait_cond

text \<open>
  The points of the code. \<open>Free_\<close> points are in \<^verbatim>\<open>task_free\<close>; their flag says whether a worker called it
  or \<^verbatim>\<open>cx_threadpool_schedule\<close>.
\<close>

datatype tp_pc =
    Run_top | Find_lock nat | Find_get nat | Find_unlock nat addr
  | Wait_lock | Wait_get | Wait_test addr | Wait_sleep | Wait_asleep | Wait_unlock addr
  | Run_task addr | Done_lock | Done_sub | Done_signal | Done_unlock | Exited
  | Free_lock addr bool | Free_put addr bool | Free_unlock bool
  | Client
  | New_lock task | New_get task | New_unlock task addr | New_fill task addr
  | Scan task addr nat "nat option" u64 | Push_lock task addr nat | Push_link task addr nat | Push_active task addr nat
  | Push_count nat | Push_signal nat | Push_unlock nat
  | Join_lock | Join_test | Join_sleep | Join_asleep | Join_unlock
  | Stop_set | Stop_lock nat | Stop_signal nat | Stop_unlock nat | Stop_join nat | Stop_free

type_synonym tp_instr = "(threadpool, tp_pc, tp_mutex, tp_cond) instr"
type_synonym tp_system = "(threadpool, tp_pc, tp_mutex, tp_cond) system"

section \<open>The programs\<close>

abbreviation ignore :: "int \<Rightarrow> tp_pc option" where
  "ignore e \<equiv> None"

definition access :: "(threadpool \<Rightarrow> tp_pc) \<Rightarrow> tp_instr" where
  "access f = Do (\<lambda>d. Some (d, f d))"

text \<open>\<^verbatim>\<open>worker_get_task(&workers[k])\<close>.\<close>

definition get_from :: "nat \<Rightarrow> (addr \<Rightarrow> tp_pc) \<Rightarrow> tp_instr" where
  "get_from k next_pc = Do (\<lambda>d. do {
     (task, w) \<leftarrow> worker_get_task (tworkers d ! k) (theap d);
     Some (d\<lparr>tworkers := (tworkers d)[k := w]\<rparr>, next_pc task)
   })"

definition task_new :: "tp_pc \<Rightarrow> tp_instr" where
  "task_new p = (case p of
       New_lock fa \<Rightarrow> Lock Pool_mutex (New_get fa) ignore
     | New_get fa \<Rightarrow> Do (\<lambda>d. do {
         (task, pool, h) \<leftarrow> cx_prealloc_pool_get (task_pool d) (theap d);
         Some (d\<lparr>task_pool := pool, theap := h, dropped := dropped d \<or> task = 0\<rparr>, New_unlock fa task)
       })
     | New_unlock fa task \<Rightarrow> Unlock Pool_mutex (if task = 0 then Client else New_fill fa task)
     | New_fill fa task \<Rightarrow> Do (\<lambda>d. do {
         h \<leftarrow> task_fill task (fst fa) (snd fa) (theap d);
         Some (d\<lparr>theap := h\<rparr>, Scan fa task 0 None (- 1))
       })
     | _ \<Rightarrow> Rest)"

definition task_free :: "tp_pc \<Rightarrow> tp_instr" where
  "task_free p = (case p of
       Free_lock task w \<Rightarrow> Lock Pool_mutex (Free_put task w) ignore
     | Free_put task w \<Rightarrow> Do (\<lambda>d. do {
         (pool, h) \<leftarrow> cx_prealloc_pool_recycle (task_pool d) task (theap d);
         Some (d\<lparr>task_pool := pool, theap := h\<rparr>, Free_unlock w)
       })
     | Free_unlock w \<Rightarrow> Unlock Pool_mutex (if w then Done_lock else Client)
     | _ \<Rightarrow> Rest)"

definition worker_find_task :: "nat \<Rightarrow> tid \<Rightarrow> tp_pc \<Rightarrow> tp_instr" where
  "worker_find_task n w p = (case p of
       Find_lock i \<Rightarrow>
         if i < n then Lock (Queue_mutex ((i + w) mod n)) (Find_get i) ignore
         else access (\<lambda>d. Wait_lock)
     | Find_get i \<Rightarrow> get_from ((i + w) mod n) (Find_unlock i)
     | Find_unlock i task \<Rightarrow> Unlock (Queue_mutex ((i + w) mod n)) (if task = 0 then Find_lock (i + 1) else Run_task task)
     | _ \<Rightarrow> Rest)"

definition worker_wait_for_task :: "tid \<Rightarrow> tp_pc \<Rightarrow> tp_instr" where
  "worker_wait_for_task w p = (case p of
       Wait_lock \<Rightarrow> Lock (Queue_mutex w) Wait_get ignore
     | Wait_get \<Rightarrow> get_from w Wait_test
     | Wait_test task \<Rightarrow> access (\<lambda>d. if task = 0 \<and> running d then Wait_sleep else Wait_unlock task)
     | Wait_sleep \<Rightarrow> Sleep (Queue_cond w) (Queue_mutex w) Wait_asleep
     | Wait_asleep \<Rightarrow> Woken (Queue_cond w) (Queue_mutex w) Wait_get
     | Wait_unlock task \<Rightarrow> Unlock (Queue_mutex w) (if task = 0 then Run_top else Run_task task)
     | _ \<Rightarrow> Rest)"

text \<open>The call of the task is one step; what its function does beyond that is not part of the model.\<close>

definition worker_run :: "tp_pc \<Rightarrow> tp_instr" where
  "worker_run p = (case p of
       Run_top \<Rightarrow> access (\<lambda>d. if running d then Find_lock 0 else Exited)
     | Run_task task \<Rightarrow> Do (\<lambda>d. do {
         function \<leftarrow> load_u64 task (theap d);
         arg \<leftarrow> load_u64 (task + 8) (theap d);
         Some (d\<lparr>executed := executed d @ [(function, arg)]\<rparr>, Free_lock task True)
       })
     | Done_lock \<Rightarrow> Lock Wait_mutex Done_sub ignore
     | Done_sub \<Rightarrow> Do (\<lambda>d. Some (d\<lparr>active_tasks := active_tasks d - 1\<rparr>, if active_tasks d = 1 then Done_signal else Done_unlock))
     | Done_signal \<Rightarrow> Signal Wait_cond Done_unlock
     | Done_unlock \<Rightarrow> Unlock Wait_mutex Run_top
     | _ \<Rightarrow> Rest)"

definition cx_threadpool_schedule :: "nat \<Rightarrow> tp_pc \<Rightarrow> tp_instr" where
  "cx_threadpool_schedule n p = (case p of
       Scan fa task i best min_queue_length \<Rightarrow>
         if i < n
         then access (\<lambda>d. let queue_length = wqueue_length (tworkers d ! i) in
           if queue_length < min_queue_length then Scan fa task (i + 1) (Some i) queue_length
           else Scan fa task (i + 1) best min_queue_length)
         else Do (\<lambda>d. case best of None \<Rightarrow> None | Some k \<Rightarrow> Some (d, Push_lock fa task k))
     | Push_lock fa task k \<Rightarrow> Lock (Queue_mutex k) (Push_link fa task k) (\<lambda>e. Some (Free_lock task False))
     | Push_link fa task k \<Rightarrow> Do (\<lambda>d. do {
         (w, h) \<leftarrow> link_task (tworkers d ! k) task (theap d);
         Some (d\<lparr>tworkers := (tworkers d)[k := w], theap := h\<rparr>, Push_active fa task k)
       })
     | Push_active fa task k \<Rightarrow> Do (\<lambda>d. Some (d\<lparr>active_tasks := active_tasks d + 1, scheduled := scheduled d @ [fa]\<rparr>, Push_count k))
     | Push_count k \<Rightarrow> Do (\<lambda>d. let w = tworkers d ! k in
         Some (d\<lparr>tworkers := (tworkers d)[k := w\<lparr>wqueue_length := wqueue_length w + 1\<rparr>]\<rparr>, Push_signal k))
     | Push_signal k \<Rightarrow> Signal (Queue_cond k) (Push_unlock k)
     | Push_unlock k \<Rightarrow> Unlock (Queue_mutex k) Client
     | _ \<Rightarrow> Rest)"

definition cx_threadpool_wait :: "tp_pc \<Rightarrow> tp_instr" where
  "cx_threadpool_wait p = (case p of
       Join_lock \<Rightarrow> Lock Wait_mutex Join_test ignore
     | Join_test \<Rightarrow> access (\<lambda>d. if 0 < active_tasks d then Join_sleep else Join_unlock)
     | Join_sleep \<Rightarrow> Sleep Wait_cond Wait_mutex Join_asleep
     | Join_asleep \<Rightarrow> Woken Wait_cond Wait_mutex Join_test
     | Join_unlock \<Rightarrow> Unlock Wait_mutex Client
     | _ \<Rightarrow> Rest)"

text \<open>The loop of \<^verbatim>\<open>cx_threadpool_cleanup\<close> goes on at \<open>next_pc i\<close>.\<close>

definition worker_cleanup :: "(nat \<Rightarrow> tp_pc) \<Rightarrow> tp_pc \<Rightarrow> tp_instr" where
  "worker_cleanup next_pc p = (case p of
       Stop_lock i \<Rightarrow> Lock (Queue_mutex i) (Stop_signal i) ignore
     | Stop_signal i \<Rightarrow> Signal (Queue_cond i) (Stop_unlock i)
     | Stop_unlock i \<Rightarrow> Unlock (Queue_mutex i) (Stop_join i)
     | Stop_join i \<Rightarrow> Join i (next_pc (i + 1))
     | _ \<Rightarrow> Rest)"

definition cx_threadpool_cleanup :: "nat \<Rightarrow> tp_pc \<Rightarrow> tp_instr" where
  "cx_threadpool_cleanup n p =
     (let loop = (\<lambda>i. if i < n then Stop_lock i else Stop_free) in
      case p of
       Stop_set \<Rightarrow> Do (\<lambda>d. Some (d\<lparr>running := False\<rparr>, loop 0))
     | Stop_free \<Rightarrow> Do (\<lambda>d. do {
         h \<leftarrow> cx_prealloc_pool_cleanup (task_pool d) (theap d);
         Some (d\<lparr>tworkers := [], theap := h\<rparr>, Client)
       })
     | _ \<Rightarrow> worker_cleanup loop p)"

text \<open>A thread is at a point of one of the functions.\<close>

fun orelse :: "tp_instr \<Rightarrow> tp_instr \<Rightarrow> tp_instr" where
  "orelse Rest i = i"
| "orelse i j = i"

definition thread_prog :: "nat \<Rightarrow> tid \<Rightarrow> tp_pc \<Rightarrow> tp_instr" where
  "thread_prog n t p =
     orelse (worker_run p) (orelse (worker_find_task n t p) (orelse (worker_wait_for_task t p) (orelse (task_free p)
      (orelse (task_new p) (orelse (cx_threadpool_schedule n p) (orelse (cx_threadpool_wait p) (cx_threadpool_cleanup n p)))))))"

text \<open>
  A client thread calls \<^verbatim>\<open>cx_threadpool_wait\<close> (0), \<^verbatim>\<open>cx_threadpool_cleanup\<close> (1) or
  \<^verbatim>\<open>cx_threadpool_schedule\<close> (a function and an argument, as one number). Nobody uses the pool
  during or after its cleanup; a task that schedules others is a client beside the worker that runs it.
\<close>

fun stopping :: "tp_pc \<Rightarrow> bool" where
  "stopping Stop_set = True"
| "stopping (Stop_lock i) = True"
| "stopping (Stop_signal i) = True"
| "stopping (Stop_unlock i) = True"
| "stopping (Stop_join i) = True"
| "stopping Stop_free = True"
| "stopping _ = False"

definition tp_enter :: "nat \<Rightarrow> nat \<Rightarrow> tp_system \<Rightarrow> tid \<Rightarrow> nat \<Rightarrow> tp_pc option" where
  "tp_enter n m s t k =
     (if n \<le> t \<and> t < m \<and> pc s t = Client \<and> running (data s) \<and> list_all (\<lambda>u. \<not> stopping (pc s u)) [n..<m]
      then if k = 0 then Some Join_lock
        else if k = 1 then (if list_all (\<lambda>u. pc s u = Client) [n..<m] then Some Stop_set else None)
        else Some (New_lock (of_nat ((k - 2) div 2 ^ 64), of_nat (k - 2)))
      else None)"

definition tp_step :: "nat \<Rightarrow> nat \<Rightarrow> tid \<Rightarrow> outcome \<Rightarrow> tp_system \<Rightarrow> tp_system option" where
  "tp_step n m = exec (thread_prog n) (\<lambda>p. p = Exited) (tp_enter n m)"

section \<open>Initialisation\<close>

text \<open>
  The results of the calls for the worker \<open>i\<close> are \<open>mutex_init i\<close>, \<open>cond_init i\<close> and \<open>create i\<close>; \<open>allocated\<close> says
  whether the array of workers could be allocated and \<open>cpus\<close> is the number of processors. Every
  failure ends in a call of \<^verbatim>\<open>worker_cleanup\<close> for a thread that was not created, or
  in an access to the array that is not there.
\<close>

definition worker_init :: "int \<Rightarrow> int \<Rightarrow> worker option" where
  "worker_init mutex_init cond_init =
     (if mutex_init \<noteq> 0 then None else if cond_init \<noteq> 0 then None
      else Some \<lparr>whead = 0, wtail = 0, wqueue_length = 0\<rparr>)"

definition worker_start :: "int \<Rightarrow> int" where
  "worker_start create = (if create \<noteq> 0 then - 1 else create)"

definition cpu_count :: "int \<Rightarrow> int" where
  "cpu_count sysconf = signed_take_bit 31 sysconf"

definition cx_threadpool_init :: "u64 \<Rightarrow> int \<Rightarrow> bool \<Rightarrow> (nat \<Rightarrow> int) \<Rightarrow> (nat \<Rightarrow> int) \<Rightarrow> (nat \<Rightarrow> int) \<Rightarrow> heap \<Rightarrow> (int \<times> threadpool) option" where
  "cx_threadpool_init worker_count sysconf allocated mutex_init cond_init create h = do {
     let worker_count = (if worker_count = 0 then of_int (cpu_count sysconf) else worker_count);
     pool \<leftarrow> cx_prealloc_pool_init task_size;
     workers \<leftarrow>
       (if allocated then those (map (\<lambda>i. worker_init (mutex_init i) (cond_init i)) [0..<unat worker_count])
        else if worker_count = 0 then Some [] else None);
     if list_ex (\<lambda>i. worker_start (create i) \<noteq> 0) [0..<unat worker_count] then None
     else Some (0, \<lparr>tworkers = workers, running = True, active_tasks = 0, task_pool = pool, theap = h,
       scheduled = [], executed = [], dropped = False\<rparr>)
   }"

definition tp_start :: "threadpool \<Rightarrow> tp_system" where
  "tp_start d = \<lparr>data = d, owners = (\<lambda>_. None), waiters = (\<lambda>_. {}),
     pc = (\<lambda>t. if t < length (tworkers d) then Run_top else Client)\<rparr>"

section \<open>Locks\<close>

lemma orelse_Do [simp]: "orelse (Do f) i = Do f" "orelse (Lock m p e) i = Lock m p e" "orelse (Unlock m p) i = Unlock m p"
  by simp_all

named_theorems tp_defs \<open>the functions of the thread pool\<close>

lemmas [tp_defs] = worker_run_def worker_find_task_def worker_wait_for_task_def task_free_def task_new_def
  cx_threadpool_schedule_def cx_threadpool_wait_def worker_cleanup_def cx_threadpool_cleanup_def access_def get_from_def

lemma prog_worker:
  "thread_prog n t Run_top = worker_run Run_top"
  "thread_prog n t (Run_task x) = worker_run (Run_task x)"
  "thread_prog n t Done_lock = worker_run Done_lock"
  "thread_prog n t Done_sub = worker_run Done_sub"
  "thread_prog n t Done_signal = worker_run Done_signal"
  "thread_prog n t Done_unlock = worker_run Done_unlock"
  "thread_prog n t Exited = Rest"
  "thread_prog n t Client = Rest"
  by (simp_all add: thread_prog_def tp_defs)

lemma prog_find:
  "thread_prog n t (Find_lock i) = worker_find_task n t (Find_lock i)"
  "thread_prog n t (Find_get i) = worker_find_task n t (Find_get i)"
  "thread_prog n t (Find_unlock i x) = worker_find_task n t (Find_unlock i x)"
  "thread_prog n t Wait_lock = worker_wait_for_task t Wait_lock"
  "thread_prog n t Wait_get = worker_wait_for_task t Wait_get"
  "thread_prog n t (Wait_test x) = worker_wait_for_task t (Wait_test x)"
  "thread_prog n t Wait_sleep = worker_wait_for_task t Wait_sleep"
  "thread_prog n t Wait_asleep = worker_wait_for_task t Wait_asleep"
  "thread_prog n t (Wait_unlock x) = worker_wait_for_task t (Wait_unlock x)"
  by (simp_all add: thread_prog_def tp_defs)

lemma prog_task:
  "thread_prog n t (Free_lock x w) = task_free (Free_lock x w)"
  "thread_prog n t (Free_put x w) = task_free (Free_put x w)"
  "thread_prog n t (Free_unlock w) = task_free (Free_unlock w)"
  "thread_prog n t (New_lock fa) = task_new (New_lock fa)"
  "thread_prog n t (New_get fa) = task_new (New_get fa)"
  "thread_prog n t (New_unlock fa x) = task_new (New_unlock fa x)"
  "thread_prog n t (New_fill fa x) = task_new (New_fill fa x)"
  by (simp_all add: thread_prog_def tp_defs)

lemma prog_client:
  "thread_prog n t (Scan fa x i b l) = cx_threadpool_schedule n (Scan fa x i b l)"
  "thread_prog n t (Push_lock fa x k) = cx_threadpool_schedule n (Push_lock fa x k)"
  "thread_prog n t (Push_link fa x k) = cx_threadpool_schedule n (Push_link fa x k)"
  "thread_prog n t (Push_active fa x k) = cx_threadpool_schedule n (Push_active fa x k)"
  "thread_prog n t (Push_count k) = cx_threadpool_schedule n (Push_count k)"
  "thread_prog n t (Push_signal k) = cx_threadpool_schedule n (Push_signal k)"
  "thread_prog n t (Push_unlock k) = cx_threadpool_schedule n (Push_unlock k)"
  "thread_prog n t Join_lock = cx_threadpool_wait Join_lock"
  "thread_prog n t Join_test = cx_threadpool_wait Join_test"
  "thread_prog n t Join_sleep = cx_threadpool_wait Join_sleep"
  "thread_prog n t Join_asleep = cx_threadpool_wait Join_asleep"
  "thread_prog n t Join_unlock = cx_threadpool_wait Join_unlock"
  by (simp_all add: thread_prog_def tp_defs)

lemma prog_stop:
  "thread_prog n t Stop_set = cx_threadpool_cleanup n Stop_set"
  "thread_prog n t (Stop_lock i) = cx_threadpool_cleanup n (Stop_lock i)"
  "thread_prog n t (Stop_signal i) = cx_threadpool_cleanup n (Stop_signal i)"
  "thread_prog n t (Stop_unlock i) = cx_threadpool_cleanup n (Stop_unlock i)"
  "thread_prog n t (Stop_join i) = cx_threadpool_cleanup n (Stop_join i)"
  "thread_prog n t Stop_free = cx_threadpool_cleanup n Stop_free"
  by (simp_all add: thread_prog_def tp_defs)

lemmas prog_simps = prog_worker prog_find prog_task prog_client prog_stop

text \<open>The mutex a thread holds at each point.\<close>

fun tp_holds :: "nat \<Rightarrow> tid \<Rightarrow> tp_pc \<Rightarrow> tp_mutex option" where
  "tp_holds n t (Find_get i) = Some (Queue_mutex ((i + t) mod n))"
| "tp_holds n t (Find_unlock i x) = Some (Queue_mutex ((i + t) mod n))"
| "tp_holds n t Wait_get = Some (Queue_mutex t)"
| "tp_holds n t (Wait_test x) = Some (Queue_mutex t)"
| "tp_holds n t Wait_sleep = Some (Queue_mutex t)"
| "tp_holds n t (Wait_unlock x) = Some (Queue_mutex t)"
| "tp_holds n t (New_get fa) = Some Pool_mutex"
| "tp_holds n t (New_unlock fa x) = Some Pool_mutex"
| "tp_holds n t (Free_put x w) = Some Pool_mutex"
| "tp_holds n t (Free_unlock w) = Some Pool_mutex"
| "tp_holds n t (Push_link fa x k) = Some (Queue_mutex k)"
| "tp_holds n t (Push_active fa x k) = Some (Queue_mutex k)"
| "tp_holds n t (Push_count k) = Some (Queue_mutex k)"
| "tp_holds n t (Push_signal k) = Some (Queue_mutex k)"
| "tp_holds n t (Push_unlock k) = Some (Queue_mutex k)"
| "tp_holds n t (Stop_signal k) = Some (Queue_mutex k)"
| "tp_holds n t (Stop_unlock k) = Some (Queue_mutex k)"
| "tp_holds n t Done_sub = Some Wait_mutex"
| "tp_holds n t Done_signal = Some Wait_mutex"
| "tp_holds n t Done_unlock = Some Wait_mutex"
| "tp_holds n t Join_test = Some Wait_mutex"
| "tp_holds n t Join_sleep = Some Wait_mutex"
| "tp_holds n t Join_unlock = Some Wait_mutex"
| "tp_holds n t _ = None"

lemma tp_enter_cases:
  assumes "tp_enter n m s t k = Some p"
  shows "n \<le> t" "t < m" "pc s t = Client" "running (data s)" "\<forall>u \<in> {n..<m}. \<not> stopping (pc s u)"
    "p = Join_lock \<or> (p = Stop_set \<and> (\<forall>u \<in> {n..<m}. pc s u = Client)) \<or> (\<exists>fa. p = New_lock fa)"
  using assms by (auto simp: tp_enter_def list_all_iff split: if_splits)

interpretation tp: well_locked "thread_prog n" "\<lambda>p. p = Exited" "tp_enter n m" "tp_holds n"
proof unfold_locales
  fix s t k p assume "tp_enter n m s t k = Some p"
  then show "thread_prog n t (pc s t) = Rest \<and> tp_holds n t p = None"
    using tp_enter_cases [of n m s t k p] by (auto simp: prog_simps)
next
  fix t p f d d' p' assume "thread_prog n t p = Do f" "f d = Some (d', p')"
  then show "tp_holds n t p' = tp_holds n t p"
    by (cases p) (auto simp: prog_simps tp_defs bind_Some_iff Let_def split: if_splits option.splits)
next
  fix t p mu p' e assume "thread_prog n t p = Lock mu p' e"
  then show "tp_holds n t p = None \<and> tp_holds n t p' = Some mu \<and> (\<forall>n' q. e n' = Some q \<longrightarrow> tp_holds n t q = None)"
    by (cases p) (auto simp: prog_simps tp_defs split: if_splits)
next
  fix t p mu p' assume "thread_prog n t p = Unlock mu p'"
  then show "tp_holds n t p = Some mu \<and> tp_holds n t p' = None"
    by (cases p) (auto simp: prog_simps tp_defs split: if_splits)
next
  fix t p cv mu p' assume "thread_prog n t p = Sleep cv mu p'"
  then show "tp_holds n t p = Some mu \<and> tp_holds n t p' = None \<and> (\<exists>q. thread_prog n t p' = Woken cv mu q)"
    by (cases p) (auto simp: prog_simps tp_defs split: if_splits)
next
  fix t p cv mu p' assume "thread_prog n t p = Woken cv mu p'"
  then show "tp_holds n t p = None \<and> tp_holds n t p' = Some mu"
    by (cases p) (auto simp: prog_simps tp_defs split: if_splits)
next
  fix t p cv p' assume "thread_prog n t p = Signal cv p'"
  then show "tp_holds n t p' = tp_holds n t p"
    by (cases p) (auto simp: prog_simps tp_defs split: if_splits)
next
  fix t p u p' assume "thread_prog n t p = Join u p'"
  then show "tp_holds n t p = None \<and> tp_holds n t p' = None"
    by (cases p) (auto simp: prog_simps tp_defs split: if_splits)
next
  fix t p assume "thread_prog n t p = Rest"
  then show "tp_holds n t p = None"
    by (cases p) (auto simp: prog_simps tp_defs split: if_splits)
qed

end
