(* ===== verification/ThreadpoolInv.thy ===== *)
theory ThreadpoolInv
  imports Threadpool "HOL-Library.Multiset"
begin

text \<open>
  What holds of a thread pool in every interleaving: where each task is, what the queues hold, and what
  the counters count.
\<close>

section \<open>What a thread has at each point\<close>

text \<open>The task that is the thread's own: in no queue, and no other thread has it.\<close>

definition own :: "addr \<Rightarrow> addr multiset" where
  "own x = (if x = 0 then {#} else {#x#})"

lemma own_simps [simp]: "own 0 = {#}" "x \<noteq> 0 \<Longrightarrow> own x = {#x#}"
  by (simp_all add: own_def)

text \<open>A task a worker has taken and not run yet.\<close>

fun todo :: "tp_pc \<Rightarrow> addr multiset" where
  "todo (Find_unlock i x) = own x"
| "todo (Wait_test x) = own x"
| "todo (Wait_unlock x) = own x"
| "todo (Run_task x) = own x"
| "todo _ = {#}"

fun held :: "tp_pc \<Rightarrow> addr multiset" where
  "held (Free_lock x w) = own x"
| "held (Free_put x w) = own x"
| "held (New_unlock fa x) = own x"
| "held (New_fill fa x) = own x"
| "held (Scan fa x i b l) = own x"
| "held (Push_lock fa x k) = own x"
| "held (Push_link fa x k) = own x"
| "held (Push_active fa x k) = own x"
| "held p = todo p"

text \<open>A task that is ready for its queue.\<close>

fun filled :: "tp_pc \<Rightarrow> (addr \<times> task) option" where
  "filled (Scan fa x i b l) = Some (x, fa)"
| "filled (Push_lock fa x k) = Some (x, fa)"
| "filled (Push_link fa x k) = Some (x, fa)"
| "filled (Push_active fa x k) = Some (x, fa)"
| "filled _ = None"

text \<open>Whether the thread works on a task that \<^verbatim>\<open>active_tasks\<close> still counts.\<close>

fun busy :: "tp_pc \<Rightarrow> nat" where
  "busy (Free_lock x w) = of_bool w"
| "busy (Free_put x w) = of_bool w"
| "busy (Free_unlock w) = of_bool w"
| "busy Done_lock = 1"
| "busy Done_sub = 1"
| "busy p = size (todo p)"

text \<open>
  Between two instructions of \<^verbatim>\<open>cx_threadpool_schedule\<close> a task is in the list but not counted as active;
  it is still the thread's own. Then it is in the queue, and \<^verbatim>\<open>queue_length\<close> does not count it yet.
\<close>

fun linked :: "tp_pc \<Rightarrow> addr list" where
  "linked (Push_active fa x k) = [x]"
| "linked _ = []"

fun uncounted :: "tp_pc \<Rightarrow> nat" where
  "uncounted (Push_count k) = 1"
| "uncounted _ = 0"

definition at_queue :: "'a \<Rightarrow> (tp_pc \<Rightarrow> 'a) \<Rightarrow> tp_system \<Rightarrow> nat \<Rightarrow> 'a" where
  "at_queue z f s k = (case owners s (Queue_mutex k) of None \<Rightarrow> z | Some t \<Rightarrow> f (pc s t))"

abbreviation "tail_of \<equiv> at_queue [] linked"
abbreviation "owed \<equiv> at_queue 0 uncounted"

text \<open>Points that do not differ in any of this.\<close>

definition same_tasks :: "tp_pc \<Rightarrow> tp_pc \<Rightarrow> bool" where
  "same_tasks p p' \<longleftrightarrow> todo p' = todo p \<and> held p' = held p \<and> busy p' = busy p \<and>
     (filled p' = filled p \<or> filled p' = None) \<and> linked p = [] \<and> linked p' = [] \<and> uncounted p = 0 \<and> uncounted p' = 0"

lemma same_tasks_other:
  assumes "\<And>f. thread_prog n t p \<noteq> Do f"
  shows "thread_prog n t p = Lock mu p' e \<Longrightarrow> same_tasks p p'"
    "thread_prog n t p = Lock mu q e \<Longrightarrow> e er = Some p' \<Longrightarrow> same_tasks p p'"
    "thread_prog n t p = Unlock mu p' \<Longrightarrow> same_tasks p p'"
    "thread_prog n t p = Sleep cv mu p' \<Longrightarrow> same_tasks p p'"
    "thread_prog n t p = Woken cv mu p' \<Longrightarrow> same_tasks p p'"
    "thread_prog n t p = Signal cv p' \<Longrightarrow> same_tasks p p'"
    "thread_prog n t p = Join u p' \<Longrightarrow> same_tasks p p'"
  using assms by (cases p; auto simp: prog_simps tp_defs same_tasks_def own_def split: if_splits)+


section \<open>Points of the code\<close>

text \<open>Who may be where, with a task that is there and a queue that exists.\<close>

fun is_worker :: "tp_pc \<Rightarrow> bool" where
  "is_worker (Free_lock x w) = w"
| "is_worker (Free_put x w) = w"
| "is_worker (Free_unlock w) = w"
| "is_worker Client = False"
| "is_worker (New_lock fa) = False"
| "is_worker (New_get fa) = False"
| "is_worker (New_unlock fa x) = False"
| "is_worker (New_fill fa x) = False"
| "is_worker (Scan fa x i b l) = False"
| "is_worker (Push_lock fa x k) = False"
| "is_worker (Push_link fa x k) = False"
| "is_worker (Push_active fa x k) = False"
| "is_worker (Push_count k) = False"
| "is_worker (Push_signal k) = False"
| "is_worker (Push_unlock k) = False"
| "is_worker Join_lock = False"
| "is_worker Join_test = False"
| "is_worker Join_sleep = False"
| "is_worker Join_asleep = False"
| "is_worker Join_unlock = False"
| "is_worker p = (\<not> stopping p)"

fun point_ok :: "nat \<Rightarrow> tp_pc \<Rightarrow> bool" where
  "point_ok n (Find_get i) = (i < n)"
| "point_ok n (Find_unlock i x) = (i < n)"
| "point_ok n (Run_task x) = (x \<noteq> 0)"
| "point_ok n (Free_lock x w) = (x \<noteq> 0)"
| "point_ok n (Free_put x w) = (x \<noteq> 0)"
| "point_ok n (New_fill fa x) = (x \<noteq> 0)"
| "point_ok n (Scan fa x i b l) = (x \<noteq> 0 \<and> i \<le> n \<and> pred_option (\<lambda>k. k < n) b \<and> (b = None \<longrightarrow> l = - 1))"
| "point_ok n (Push_lock fa x k) = (x \<noteq> 0 \<and> k < n)"
| "point_ok n (Push_link fa x k) = (x \<noteq> 0 \<and> k < n)"
| "point_ok n (Push_active fa x k) = (x \<noteq> 0 \<and> k < n)"
| "point_ok n (Push_count k) = (k < n)"
| "point_ok n (Push_signal k) = (k < n)"
| "point_ok n (Push_unlock k) = (k < n)"
| "point_ok n (Stop_lock i) = (i < n)"
| "point_ok n (Stop_signal i) = (i < n)"
| "point_ok n (Stop_unlock i) = (i < n)"
| "point_ok n (Stop_join i) = (i < n)"
| "point_ok n p = True"

definition pcs_ok :: "nat \<Rightarrow> nat \<Rightarrow> tp_system \<Rightarrow> bool" where
  "pcs_ok n m s \<longleftrightarrow> (\<forall>t. point_ok n (pc s t) \<and> is_worker (pc s t) = (t < n) \<and> (m \<le> t \<longrightarrow> pc s t = Client))"

lemma leads_ok:
  "leads (thread_prog n t p) q \<Longrightarrow> point_ok n p \<Longrightarrow> point_ok n q \<and> is_worker q = is_worker p"
  by (cases p) (auto simp: prog_simps tp_defs bind_Some_iff Let_def split: if_splits option.splits)

lemma leads_client: "\<not> leads (thread_prog n t Client) q"
  by (simp add: prog_simps)

lemma pcs_ok_step:
  assumes ok: "pcs_ok n m s" and step: "tp_step n m t c s = Some s'"
  shows "pcs_ok n m s'"
proof -
  note P = exec_pc [OF step [unfolded tp_step_def]]
  have old: "point_ok n (pc s u)" "is_worker (pc s u) = (u < n)" "m \<le> u \<Longrightarrow> pc s u = Client" for u
    using ok by (auto simp: pcs_ok_def)
  have new: "point_ok n (pc s' t) \<and> is_worker (pc s' t) = (t < n) \<and> (m \<le> t \<longrightarrow> pc s' t = Client)"
    using P(2)
  proof (elim disjE exE)
    fix k assume "tp_enter n m s t k = Some (pc s' t)"
    then show ?thesis using tp_enter_cases [of n m s t k "pc s' t"] by auto
  next
    assume l: "leads (thread_prog n t (pc s t)) (pc s' t)"
    then have "\<not> m \<le> t" using old(3) [of t] leads_client by auto
    then show ?thesis using leads_ok [OF l old(1)] old(2) by simp
  next
    assume "pc s' t = pc s t"
    then show ?thesis using old by simp
  qed
  show ?thesis unfolding pcs_ok_def
  proof
    fix u
    have "pc s' u = (if u = t then pc s' t else pc s u)" using P(1) by (metis fun_upd_apply)
    then show "point_ok n (pc s' u) \<and> is_worker (pc s' u) = (u < n) \<and> (m \<le> u \<longrightarrow> pc s' u = Client)"
      using new old by simp
  qed
qed

definition locks_ok :: "nat \<Rightarrow> tp_system \<Rightarrow> bool" where
  "locks_ok n s \<longleftrightarrow> (\<forall>mu u. owners s mu = Some u \<longleftrightarrow> tp_holds n u (pc s u) = Some mu)"

lemma locks_ok_step: "locks_ok n s \<Longrightarrow> tp_step n m t c s = Some s' \<Longrightarrow> locks_ok n s'"
  unfolding locks_ok_def tp_step_def using tp.owner_step by blast

section \<open>The invariant\<close>

definition queues_ok :: "nat \<Rightarrow> tp_system \<Rightarrow> addr list list \<Rightarrow> bool" where
  "queues_ok n s qs \<longleftrightarrow> length (tworkers (data s)) = n \<and> length qs = n \<and>
     (\<forall>k < n. queue_at (theap (data s)) (tworkers (data s) ! k) (qs ! k @ tail_of s k) \<and>
       unat (wqueue_length (tworkers (data s) ! k)) + owed s k = length (qs ! k))"

definition places_ok :: "nat \<Rightarrow> tp_system \<Rightarrow> addr list list \<Rightarrow> addr list \<Rightarrow> bool" where
  "places_ok m s qs L \<longleftrightarrow> distinct L \<and> mset L = mset (concat qs) + (\<Sum>t<m. held (pc s t))"

definition tasks_of :: "heap \<Rightarrow> addr multiset \<Rightarrow> task multiset" where
  "tasks_of h M = image_mset (task_at h) M"

definition counts_ok :: "nat \<Rightarrow> tp_system \<Rightarrow> addr list list \<Rightarrow> bool" where
  "counts_ok m s qs \<longleftrightarrow>
     (\<forall>t < m. \<forall>x fa. filled (pc s t) = Some (x, fa) \<longrightarrow> task_at (theap (data s)) x = fa \<and> next_at (theap (data s)) x = 0) \<and>
     mset (scheduled (data s)) = mset (executed (data s)) + tasks_of (theap (data s)) (mset (concat qs) + (\<Sum>t<m. todo (pc s t))) \<and>
     unat (active_tasks (data s)) = length (concat qs) + (\<Sum>t<m. busy (pc s t))"

definition order_ok :: "nat \<Rightarrow> tp_system \<Rightarrow> addr list list \<Rightarrow> bool" where
  "order_ok n s qs \<longleftrightarrow> (n = 1 \<longrightarrow> (\<exists>xs. mset xs = todo (pc s 0) \<and>
     scheduled (data s) = executed (data s) @ map (task_at (theap (data s))) (xs @ qs ! 0)))"

definition tp_inv :: "nat \<Rightarrow> nat \<Rightarrow> heap \<Rightarrow> tp_system \<Rightarrow> addr list list \<Rightarrow> addr list \<Rightarrow> bool" where
  "tp_inv n m h0 s qs L \<longleftrightarrow> queues_ok n s qs \<and> places_ok m s qs L \<and> counts_ok m s qs \<and> order_ok n s qs \<and>
     (\<exists>F X. tasks_at (theap (data s)) (task_pool (data s)) F L X \<and> frame {} X h0 (theap (data s)))"

lemma held_todo: "todo p \<subseteq># held p"
  by (cases p) auto

lemma held_linked: "point_ok n p \<Longrightarrow> set (linked p) \<subseteq> set_mset (held p)"
  by (cases p) auto

lemma held_filled: "point_ok n p \<Longrightarrow> filled p = Some (x, fa) \<Longrightarrow> x \<in># held p"
  by (cases p) auto

lemma place_cases:
  assumes "places_ok m s qs L"
  shows "y \<in> set (concat qs) \<Longrightarrow> y \<in> set L" "u < m \<Longrightarrow> y \<in># held (pc s u) \<Longrightarrow> y \<in> set L"
    "distinct (concat qs)" "u < m \<Longrightarrow> y \<in># held (pc s u) \<Longrightarrow> y \<notin> set (concat qs)"
    "u < m \<Longrightarrow> v < m \<Longrightarrow> u \<noteq> v \<Longrightarrow> y \<in># held (pc s u) \<Longrightarrow> y \<notin># held (pc s v)"
proof -
  let ?H = "\<Sum>t<m. held (pc s t)"
  have d: "distinct L" and e: "mset L = mset (concat qs) + ?H" using assms by (auto simp: places_ok_def)
  have one: "count (mset (concat qs)) y + count ?H y \<le> 1" for y
    using d unfolding distinct_count_atmost_1 e by (metis count_union le_numeral_extra(4) zero_le)
  have sub: "held (pc s u) \<subseteq># ?H" if "u < m" for u
    using sum.remove [of "{..<m}" u "\<lambda>t. held (pc s t)"] that by simp
  have mem: "y \<in># ?H" if "u < m" "y \<in># held (pc s u)" for u y
    using mset_subset_eqD [OF sub that(2)] that(1) .
  have sets: "set L = set (concat qs) \<union> set_mset ?H" using e by (metis set_mset_mset set_mset_union)
  show "y \<in> set (concat qs) \<Longrightarrow> y \<in> set L" using sets by blast
  show "u < m \<Longrightarrow> y \<in># held (pc s u) \<Longrightarrow> y \<in> set L" using sets mem by blast
  have "count (mset (concat qs)) a = (if a \<in> set (concat qs) then 1 else 0)" for a
    using one [of a] count_greater_zero_iff [of "mset (concat qs)" a] by (auto simp del: count_greater_zero_iff set_concat)
  then show "distinct (concat qs)" unfolding distinct_count_atmost_1 by blast
  show "y \<notin> set (concat qs)" if "u < m" "y \<in># held (pc s u)"
  proof
    assume "y \<in> set (concat qs)"
    then have "0 < count (mset (concat qs)) y" by (simp only: count_greater_zero_iff set_mset_mset)
    moreover have "0 < count ?H y" using mem [OF that] by (simp only: count_greater_zero_iff)
    ultimately show False using one [of y] by linarith
  qed
  show "y \<notin># held (pc s v)" if uv: "u < m" "v < m" "u \<noteq> v" "y \<in># held (pc s u)"
  proof
    assume v: "y \<in># held (pc s v)"
    have "?H = held (pc s u) + (\<Sum>t\<in>{..<m} - {u}. held (pc s t))" by (rule sum.remove) (use uv in auto)
    moreover have "(\<Sum>t\<in>{..<m} - {u}. held (pc s t)) = held (pc s v) + (\<Sum>t\<in>{..<m} - {u} - {v}. held (pc s t))"
      by (rule sum.remove) (use uv in auto)
    ultimately have "count (held (pc s u)) y + count (held (pc s v)) y \<le> count ?H y" by simp
    moreover have "0 < count (held (pc s u)) y" "0 < count (held (pc s v)) y" using uv(4) v by (simp_all only: count_greater_zero_iff)
    ultimately show False using one [of y] by linarith
  qed
qed

end
