(* ===== verification/ThreadpoolSteps.thy ===== *)
theory ThreadpoolSteps
  imports ThreadpoolInv
begin

text \<open>
  Every instruction of the thread pool keeps the invariant.
\<close>

section \<open>Steps that move no task\<close>

lemma at_queue_same:
  assumes "pc s' = (pc s)(t := p')" "f (pc s t) = z" "f p' = z"
    and "\<And>mu. owners s' mu = owners s mu \<or> (owners s mu \<in> {None, Some t} \<and> owners s' mu \<in> {None, Some t})"
  shows "at_queue z f s' k = at_queue z f s k"
proof (cases "owners s' (Queue_mutex k) = owners s (Queue_mutex k)")
  case True
  then show ?thesis using assms(1-3) by (auto simp: at_queue_def split: option.splits)
next
  case False
  then have "owners s (Queue_mutex k) \<in> {None, Some t}" "owners s' (Queue_mutex k) \<in> {None, Some t}" using assms(4) by blast+
  then show ?thesis using assms(1-3) by (auto simp: at_queue_def)
qed

definition same_data :: "threadpool \<Rightarrow> threadpool \<Rightarrow> bool" where
  "same_data d d' \<longleftrightarrow> tworkers d' = tworkers d \<and> active_tasks d' = active_tasks d \<and> task_pool d' = task_pool d \<and>
     theap d' = theap d \<and> scheduled d' = scheduled d \<and> executed d' = executed d"

lemma tp_inv_same:
  assumes inv: "tp_inv n m h0 s qs L" and same: "same_tasks (pc s t) p'" "same_data (data s) (data s')"
    and pc: "pc s' = (pc s)(t := p')"
    and own: "\<And>mu. owners s' mu = owners s mu \<or> (owners s mu \<in> {None, Some t} \<and> owners s' mu \<in> {None, Some t})"
  shows "tp_inv n m h0 s' qs L"
proof -
  have D: "tworkers (data s') = tworkers (data s)" "active_tasks (data s') = active_tasks (data s)" "task_pool (data s') = task_pool (data s)"
      "theap (data s') = theap (data s)" "scheduled (data s') = scheduled (data s)" "executed (data s') = executed (data s)"
    using same(2) by (auto simp: same_data_def)
  have q: "tail_of s' k = tail_of s k" "owed s' k = owed s k" for k
    using at_queue_same [OF pc _ _ own, of linked "[]"] at_queue_same [OF pc _ _ own, of uncounted 0] same(1)
    by (auto simp: same_tasks_def)
  have p: "held (pc s' u) = held (pc s u)" "todo (pc s' u) = todo (pc s u)" "busy (pc s' u) = busy (pc s u)"
      "filled (pc s' u) = filled (pc s u) \<or> filled (pc s' u) = None" for u
    using same(1) pc by (auto simp: same_tasks_def)
  have "filled (pc s u) = Some (x, fa)" if "filled (pc s' u) = Some (x, fa)" for u x fa using p(4) [of u] that by auto
  then show ?thesis
    using inv by (simp add: tp_inv_def queues_ok_def places_ok_def counts_ok_def order_ok_def D q p)
qed

section \<open>Accesses to the data\<close>

definition step_of :: "tid \<Rightarrow> tp_pc \<Rightarrow> threadpool \<Rightarrow> tp_system \<Rightarrow> tp_system" where
  "step_of t p' d s = jump t p' (s\<lparr>data := d\<rparr>)"

lemma step_of_simps [simp]:
  "data (step_of t p' d s) = d" "owners (step_of t p' d s) = owners s" "pc (step_of t p' d s) = (pc s)(t := p')"
  by (simp_all add: step_of_def)

lemma at_queue_do:
  assumes "locks_ok n s"
  shows "at_queue z f (step_of t p' d s) k = (if tp_holds n t (pc s t) = Some (Queue_mutex k) then f p' else at_queue z f s k)"
    "tp_holds n t (pc s t) = Some (Queue_mutex k) \<Longrightarrow> at_queue z f s k = f (pc s t)"
proof -
  have own: "owners s (Queue_mutex k) = Some u \<longleftrightarrow> tp_holds n u (pc s u) = Some (Queue_mutex k)" for u
    using assms by (auto simp: locks_ok_def)
  show "at_queue z f (step_of t p' d s) k = (if tp_holds n t (pc s t) = Some (Queue_mutex k) then f p' else at_queue z f s k)"
  proof (cases "owners s (Queue_mutex k)")
    case None
    then show ?thesis using own [of t] by (simp add: at_queue_def)
  next
    case (Some u)
    then show ?thesis using own [of t] by (cases "u = t") (auto simp: at_queue_def)
  qed
  show "tp_holds n t (pc s t) = Some (Queue_mutex k) \<Longrightarrow> at_queue z f s k = f (pc s t)"
    using own [of t] by (simp add: at_queue_def)
qed

lemma tp_sum:
  fixes f :: "tp_pc \<Rightarrow> 'a::comm_monoid_add"
  assumes "t < m" "pc s' = (pc s)(t := p')"
  shows "(\<Sum>u<m. f (pc s' u)) + f (pc s t) = (\<Sum>u<m. f (pc s u)) + f p'"
  unfolding assms(2) by (rule sum_jump [OF assms(1)])

text \<open>The tasks of the others stay as they are when a thread writes to its own.\<close>

lemma others_keep:
  assumes pl: "places_ok m s qs L" and pcs: "pcs_ok n m s" and t: "t < m" "\<And>y. y \<in> set L \<Longrightarrow> y \<notin># M \<Longrightarrow> bytes_at h' y 24 = bytes_at h y 24"
    and M: "M \<subseteq># held (pc s t)" "linked (pc s t) = []" and lk: "locks_ok n s"
  shows "k < length qs \<Longrightarrow> queue_at h' w (qs ! k @ tail_of s k) = queue_at h w (qs ! k @ tail_of s k)"
    "k < length qs \<Longrightarrow> map (task_at h') (qs ! k) = map (task_at h) (qs ! k)"
    "u < m \<Longrightarrow> u \<noteq> t \<Longrightarrow> x \<in># held (pc s u) \<Longrightarrow> task_at h' x = task_at h x \<and> next_at h' x = next_at h x"
    "tasks_of h' (mset (concat qs)) = tasks_of h (mset (concat qs))"
proof -
  note P = place_cases [OF pl]
  have M': "y \<in># held (pc s t)" if "y \<in># M" for y using mset_subset_eqD [OF M(1) that] .
  have q: "bytes_at h' y 24 = bytes_at h y 24" if "y \<in> set (concat qs)" for y
    using P(4) [OF t(1) M'] that by (intro t(2) P(1)) auto
  have o: "bytes_at h' y 24 = bytes_at h y 24" if "u < m" "u \<noteq> t" "y \<in># held (pc s u)" for u y
    using P(5) [OF t(1) that(1) _ M'] that by (intro t(2) P(2) [OF that(1,3)]) auto
  show "task_at h' x = task_at h x \<and> next_at h' x = next_at h x" if "u < m" "u \<noteq> t" "x \<in># held (pc s u)"
    using task_fields [OF o [OF that]] by simp
  have qt: "task_at h' y = task_at h y" if "y \<in> set (concat qs)" for y by (rule task_fields(1) [OF q [OF that]])
  show "tasks_of h' (mset (concat qs)) = tasks_of h (mset (concat qs))"
    unfolding tasks_of_def by (rule image_mset_cong) (use qt in auto)
  have mem: "y \<in> set (concat qs)" if "k < length qs" "y \<in> set (qs ! k)" for k y using that nth_mem by auto
  show "map (task_at h') (qs ! k) = map (task_at h) (qs ! k)" if "k < length qs" using qt mem [OF that] by (intro map_cong) auto
  show "queue_at h' w (qs ! k @ tail_of s k) = queue_at h w (qs ! k @ tail_of s k)" if k: "k < length qs"
  proof (rule queue_at_cong)
    fix y assume "y \<in> set (qs ! k @ tail_of s k)"
    then consider "y \<in> set (qs ! k)" | u where "y \<in> set (linked (pc s u))" by (auto simp: at_queue_def split: option.splits)
    then show "bytes_at h' y 24 = bytes_at h y 24"
    proof cases
      case 1
      then show ?thesis using q mem [OF k] by blast
    next
      case 2
      have "u < m" using 2 pcs by (cases "u < m") (auto simp: pcs_ok_def not_less)
      moreover have "u \<noteq> t" using 2 M(2) by auto
      moreover have "y \<in># held (pc s u)" using held_linked [of n "pc s u"] pcs 2 by (auto simp: pcs_ok_def)
      ultimately show ?thesis by (rule o)
    qed
  qed
qed

lemma counts_okI:
  assumes "\<And>u x fa. u < m \<Longrightarrow> filled (pc s u) = Some (x, fa) \<Longrightarrow> task_at (theap (data s)) x = fa \<and> next_at (theap (data s)) x = 0"
    and "mset (scheduled (data s)) = mset (executed (data s)) + tasks_of (theap (data s)) (mset (concat qs) + (\<Sum>t<m. todo (pc s t)))"
    and "unat (active_tasks (data s)) = length (concat qs) + (\<Sum>t<m. busy (pc s t))"
  shows "counts_ok m s qs"
  unfolding counts_ok_def using assms by blast

lemma counts_okD:
  assumes "counts_ok m s qs"
  shows "u < m \<Longrightarrow> filled (pc s u) = Some (x, fa) \<Longrightarrow> task_at (theap (data s)) x = fa \<and> next_at (theap (data s)) x = 0"
    "mset (scheduled (data s)) = mset (executed (data s)) + tasks_of (theap (data s)) (mset (concat qs) + (\<Sum>t<m. todo (pc s t)))"
    "unat (active_tasks (data s)) = length (concat qs) + (\<Sum>t<m. busy (pc s t))"
  using assms unfolding counts_ok_def by blast+

lemma unat_dec_pos: "0 < unat w \<Longrightarrow> unat (w - 1 :: u64) = unat w - 1"
  by (simp add: unat_minus_one unat_gt_0)

section \<open>Taking a task\<close>

text \<open>The points at which \<^verbatim>\<open>worker_get_task\<close> is called, and those behind the call.\<close>

definition takes :: "nat \<Rightarrow> tid \<Rightarrow> tp_pc \<Rightarrow> nat \<Rightarrow> (addr \<Rightarrow> tp_pc) \<Rightarrow> bool" where
  "takes n t p k nx \<longleftrightarrow> k < n \<and> t < n \<and> tp_holds n t p = Some (Queue_mutex k) \<and> todo p = {#} \<and> held p = {#} \<and> busy p = 0 \<and>
     linked p = [] \<and> uncounted p = 0 \<and>
     (\<forall>x. todo (nx x) = own x \<and> held (nx x) = own x \<and> busy (nx x) = size (own x) \<and> filled (nx x) = None \<and>
       linked (nx x) = [] \<and> uncounted (nx x) = 0)"

lemma take_step:
  assumes inv: "tp_inv n m h0 s qs L" and ok: "locks_ok n s" and t: "t < m" and tk: "takes n t (pc s t) k nx"
    and get: "worker_get_task (tworkers (data s) ! k) (theap (data s)) = Some (x, w)"
  defines "s' \<equiv> step_of t (nx x) ((data s)\<lparr>tworkers := (tworkers (data s))[k := w]\<rparr>) s"
  shows "\<exists>qs'. tp_inv n m h0 s' qs' L"
proof -
  let ?d = "data s"
  note I = inv [unfolded tp_inv_def] and T = tk [unfolded takes_def]
  have pc: "pc s' = (pc s)(t := nx x)" by (simp add: s'_def)
  have Q: "length (tworkers ?d) = n" "length qs = n" "\<And>j. j < n \<Longrightarrow> queue_at (theap ?d) (tworkers ?d ! j) (qs ! j @ tail_of s j)"
      "\<And>j. j < n \<Longrightarrow> unat (wqueue_length (tworkers ?d ! j)) + owed s j = length (qs ! j)"
    using I by (auto simp: queues_ok_def)
  have hk: "tp_holds n t (pc s t) = Some (Queue_mutex k)" using T by blast
  have tl: "tail_of s k = []" "owed s k = 0" using at_queue_do(2) [OF ok hk, of "[]" linked] at_queue_do(2) [OF ok hk, of 0 uncounted] T by simp_all
  have tl': "tail_of s' j = tail_of s j" "owed s' j = owed s j" for j
    unfolding s'_def at_queue_do(1) [OF ok] using hk T tl by auto
  obtain F X where tasks: "tasks_at (theap ?d) (task_pool ?d) F L X" using I by blast
  have sub: "set (qs ! k) \<subseteq> set L" using place_cases(1) [of m s qs L] I Q(2) T nth_mem by fastforce
  have qk: "queue_at (theap ?d) (tworkers ?d ! k) (qs ! k)" using Q(3) [of k] tl T by simp
  show ?thesis
  proof (cases "qs ! k")
    case Nil
    then have "x = 0" "w = tworkers ?d ! k" using get_task_spec [OF tasks qk sub] get by auto
    then have "tp_inv n m h0 s' qs L"
      by (intro tp_inv_same [OF inv, of t "nx 0"]) (use T in \<open>auto simp: s'_def same_tasks_def same_data_def\<close>)
    then show ?thesis by blast
  next
    case (Cons a q)
    let ?qs = "qs[k := q]"
    have x: "x = a" "a \<noteq> 0" and w: "queue_at (theap ?d) w q" "wqueue_length w = wqueue_length (tworkers ?d ! k) - 1"
      using get_task_spec [OF tasks qk sub] get Cons by auto
    have p': "todo (nx x) = {#a#}" "held (nx x) = {#a#}" "busy (nx x) = 1" "filled (nx x) = None" using T x by auto
    have dh: "theap (data s') = theap ?d" "scheduled (data s') = scheduled ?d" "executed (data s') = executed ?d"
        "active_tasks (data s') = active_tasks ?d" "task_pool (data s') = task_pool ?d"
      by (simp_all add: s'_def)
    have conc: "mset (concat qs) = add_mset a (mset (concat ?qs))"
    proof -
      have k: "k < length qs" using Q(2) T by simp
      have "concat qs = concat (take k qs) @ (a # q) @ concat (drop (Suc k) qs)"
        using id_take_nth_drop [OF k] Cons by (metis concat.simps(2) concat_append)
      moreover have "concat ?qs = concat (take k qs) @ q @ concat (drop (Suc k) qs)"
        using k by (simp add: upd_conv_take_nth_drop)
      ultimately show ?thesis by simp
    qed
    have sums: "(\<Sum>u<m. todo (pc s' u)) = add_mset a (\<Sum>u<m. todo (pc s u))" "(\<Sum>u<m. held (pc s' u)) = add_mset a (\<Sum>u<m. held (pc s u))"
        "(\<Sum>u<m. busy (pc s' u)) = (\<Sum>u<m. busy (pc s u)) + 1"
      using tp_sum [OF t pc, of todo] tp_sum [OF t pc, of held] tp_sum [OF t pc, of busy] T p' by simp_all
    have "queues_ok n s' ?qs"
    proof -
      have "queue_at (theap ?d) ((tworkers ?d)[k := w] ! j) (?qs ! j @ tail_of s' j) \<and>
          unat (wqueue_length ((tworkers ?d)[k := w] ! j)) + owed s' j = length (?qs ! j)" if j: "j < n" for j
      proof (cases "j = k")
        case True
        have "unat (wqueue_length (tworkers ?d ! k)) = length q + 1" using Q(4) [of k] T tl Cons by simp
        then have "unat (wqueue_length w) = length q" unfolding w(2) by (subst unat_dec_pos) simp_all
        then show ?thesis using Q(1,2) w(1) tl tl' j True by simp
      next
        case False
        then show ?thesis using Q j tl' by simp
      qed
      then show ?thesis using Q(1,2) dh by (simp add: queues_ok_def s'_def)
    qed
    moreover have "places_ok m s' ?qs L" using I conc sums by (simp add: places_ok_def)
    moreover have "counts_ok m s' ?qs"
    proof -
      note C = counts_okD [of m s qs]
      have len: "length (concat qs) = length (concat ?qs) + 1" using arg_cong [OF conc, of size] by (simp only: size_mset size_add_mset)
      have all: "mset (concat qs) + (\<Sum>u<m. todo (pc s u)) = mset (concat ?qs) + (\<Sum>u<m. todo (pc s' u))"
        unfolding conc sums(1) by simp
      show "counts_ok m s' ?qs"
      proof (rule counts_okI)
        fix u y fa assume "u < m" "filled (pc s' u) = Some (y, fa)"
        then show "task_at (theap (data s')) y = fa \<and> next_at (theap (data s')) y = 0"
          using C(1) [of u y fa] I p'(4) dh by (cases "u = t") (auto simp: pc)
      next
        show "mset (scheduled (data s')) = mset (executed (data s')) + tasks_of (theap (data s')) (mset (concat ?qs) + (\<Sum>t<m. todo (pc s' t)))"
          unfolding dh all [symmetric] using C(2) I by blast
        show "unat (active_tasks (data s')) = length (concat ?qs) + (\<Sum>t<m. busy (pc s' t))"
          unfolding dh using C(3) I len sums(3) by linarith
      qed
    qed
    moreover have "order_ok n s' ?qs"
    proof (cases "n = 1")
      case True
      then have "t = 0" "k = 0" using T by simp_all
      moreover obtain xs where "mset xs = todo (pc s 0)" "scheduled ?d = executed ?d @ map (task_at (theap ?d)) (xs @ qs ! 0)"
        using I True by (auto simp: order_ok_def)
      ultimately show ?thesis using T p' Cons Q(2) dh True by (auto simp: order_ok_def s'_def intro: exI [of _ "[a]"])
    qed (simp add: order_ok_def)
    ultimately have "tp_inv n m h0 s' ?qs L" using I dh by (simp add: tp_inv_def)
    then show ?thesis by blast
  qed
qed

section \<open>Getting, filling and recycling a task\<close>

text \<open>Steps that change the tasks a thread owns, and nothing in the queues.\<close>

lemma heap_step:
  assumes inv: "tp_inv n m h0 s qs L" and ok: "locks_ok n s" and pcs: "pcs_ok n m s" and t: "t < m"
    and p: "linked (pc s t) = []" "uncounted (pc s t) = 0" "linked p' = []" "uncounted p' = 0"
      "todo (pc s t) = {#}" "todo p' = {#}" "busy p' = busy (pc s t)"
    and d: "tworkers d' = tworkers (data s)" "active_tasks d' = active_tasks (data s)" "scheduled d' = scheduled (data s)" "executed d' = executed (data s)"
    and tasks: "tasks_at (theap d') (task_pool d') F' L' X'" "frame {} X' h0 (theap d')"
    and M: "M \<subseteq># held (pc s t)" "\<And>y. y \<in> set L \<Longrightarrow> y \<notin># M \<Longrightarrow> bytes_at (theap d') y 24 = bytes_at (theap (data s)) y 24"
    and L': "mset L' + held (pc s t) = mset L + held p'"
    and fill: "\<And>x fa. filled p' = Some (x, fa) \<Longrightarrow> task_at (theap d') x = fa \<and> next_at (theap d') x = 0"
  shows "tp_inv n m h0 (step_of t p' d' s) qs L'"
proof -
  let ?s = "step_of t p' d' s"
  note I = inv [unfolded tp_inv_def]
  have pc: "pc ?s = (pc s)(t := p')" by simp
  have pl: "places_ok m s qs L" using I by blast
  have qs: "length qs = n" using I by (simp add: queues_ok_def)
  have keep: "k < n \<Longrightarrow> queue_at (theap d') w (qs ! k @ tail_of s k) = queue_at (theap (data s)) w (qs ! k @ tail_of s k)"
      "k < n \<Longrightarrow> map (task_at (theap d')) (qs ! k) = map (task_at (theap (data s))) (qs ! k)"
      "u < m \<Longrightarrow> u \<noteq> t \<Longrightarrow> x \<in># held (pc s u) \<Longrightarrow> task_at (theap d') x = task_at (theap (data s)) x \<and> next_at (theap d') x = next_at (theap (data s)) x"
      "tasks_of (theap d') (mset (concat qs)) = tasks_of (theap (data s)) (mset (concat qs))" for k w u x
    using others_keep [OF pl pcs t M(2,1) p(1) ok] qs by blast+
  have tl: "tail_of ?s k = tail_of s k" "owed ?s k = owed s k" for k
    using at_queue_do [OF ok, where z = "[]" and f = linked and t = t and k = k] at_queue_do [OF ok, where z = 0 and f = uncounted and t = t and k = k] p
    by auto
  have sums: "(\<Sum>u<m. todo (pc ?s u)) = (\<Sum>u<m. todo (pc s u))" "(\<Sum>u<m. held (pc ?s u)) + held (pc s t) = (\<Sum>u<m. held (pc s u)) + held p'"
      "(\<Sum>u<m. busy (pc ?s u)) = (\<Sum>u<m. busy (pc s u))"
    using tp_sum [OF t pc, of todo] tp_sum [OF t pc, of held] tp_sum [OF t pc, of busy] p by (simp_all del: step_of_simps)
  have todos: "tasks_of (theap d') (\<Sum>u<m. todo (pc s u)) = tasks_of (theap (data s)) (\<Sum>u<m. todo (pc s u))"
    unfolding tasks_of_def
  proof (rule image_mset_cong)
    fix x assume "x \<in># (\<Sum>u<m. todo (pc s u))"
    then obtain u where u: "u < m" "x \<in># todo (pc s u)" by (auto simp: set_mset_sum)
    then have "u \<noteq> t" "x \<in># held (pc s u)" using p(5) mset_subset_eqD [OF held_todo] by auto
    then show "task_at (theap d') x = task_at (theap (data s)) x" using keep(3) u(1) by blast
  qed
  have "queues_ok n ?s qs" using I keep(1) by (simp add: queues_ok_def d tl)
  moreover have "places_ok m ?s qs L'"
  proof -
    have "mset L = mset (concat qs) + (\<Sum>u<m. held (pc s u))" using pl by (simp only: places_ok_def)
    then have "mset L' + held (pc s t) = mset (concat qs) + (\<Sum>u<m. held (pc ?s u)) + held (pc s t)"
      using L' sums(2) by (simp only: ac_simps)
    moreover have "distinct L'" using tasks(1) pool_atD(3) by (auto simp: tasks_at_def)
    ultimately show ?thesis unfolding places_ok_def by simp
  qed
  moreover have "counts_ok m ?s qs"
  proof (rule counts_okI)
    note C = counts_okD [of m s qs]
    fix u x fa assume u: "u < m" "filled (pc ?s u) = Some (x, fa)"
    show "task_at (theap (data ?s)) x = fa \<and> next_at (theap (data ?s)) x = 0"
    proof (cases "u = t")
      case True
      then show ?thesis using fill u by simp
    next
      case False
      then have f: "filled (pc s u) = Some (x, fa)" using u by simp
      have "point_ok n (pc s u)" using pcs by (simp add: pcs_ok_def)
      then have "x \<in># held (pc s u)" using f by (rule held_filled)
      then show ?thesis using keep(3) [OF u(1) False] C(1) [OF _ u(1) f] I by simp
    qed
  next
    have C: "counts_ok m s qs" using I by blast
    show "mset (scheduled (data ?s)) = mset (executed (data ?s)) + tasks_of (theap (data ?s)) (mset (concat qs) + (\<Sum>u<m. todo (pc ?s u)))"
      using counts_okD(2) [OF C] keep(4) todos unfolding sums by (simp add: d tasks_of_def)
    show "unat (active_tasks (data ?s)) = length (concat qs) + (\<Sum>u<m. busy (pc ?s u))"
      using counts_okD(3) [OF C] unfolding sums by (simp add: d)
  qed
  moreover have "order_ok n ?s qs"
  proof (cases "n = 1")
    case True
    obtain xs where xs: "mset xs = todo (pc s 0)" "scheduled (data s) = executed (data s) @ map (task_at (theap (data s))) (xs @ qs ! 0)"
      using I True by (auto simp: order_ok_def)
    have t0: "todo (pc ?s 0) = todo (pc s 0)" using p(5,6) by (cases "t = 0") auto
    have "map (task_at (theap d')) xs = map (task_at (theap (data s))) xs"
    proof (rule map_cong [OF refl])
      fix x assume "x \<in> set xs"
      then have "x \<in># todo (pc s 0)" using xs(1) by (metis set_mset_mset)
      then have "0 \<noteq> t" "x \<in># held (pc s 0)" using p(5) mset_subset_eqD [OF held_todo] by (cases "t = 0"; auto)+
      then show "task_at (theap d') x = task_at (theap (data s)) x" using keep(3) [of 0] t by simp
    qed
    then show ?thesis using xs keep(2) [of 0] True t0 by (auto simp: order_ok_def d)
  qed (simp add: order_ok_def)
  ultimately show ?thesis using tasks by (auto simp: tp_inv_def)
qed

lemma tp_inv_tasks:
  assumes "tp_inv n m h0 s qs L"
  obtains F X where "tasks_at (theap (data s)) (task_pool (data s)) F L X" "frame {} X h0 (theap (data s))"
  using assms by (auto simp: tp_inv_def)

lemma tp_inv_held: "tp_inv n m h0 s qs L \<Longrightarrow> t < m \<Longrightarrow> x \<in># held (pc s t) \<Longrightarrow> x \<in> set L"
  using place_cases(2) by (auto simp: tp_inv_def)

lemma new_step:
  assumes inv: "tp_inv n m h0 s qs L" and ok: "locks_ok n s" and pcs: "pcs_ok n m s" and t: "t < m" and p: "pc s t = New_get fa"
    and get: "cx_prealloc_pool_get (task_pool (data s)) (theap (data s)) = Some (x, pool, h)" "x \<noteq> 0"
  shows "\<exists>L'. tp_inv n m h0 (step_of t (New_unlock fa x) ((data s)\<lparr>task_pool := pool, theap := h, dropped := b\<rparr>) s) qs L'"
proof -
  obtain F X where T: "tasks_at (theap (data s)) (task_pool (data s)) F L X" "frame {} X h0 (theap (data s))" using tp_inv_tasks [OF inv] .
  obtain X' where g: "x \<notin> set L" "tasks_at h pool (tl F) (L @ [x]) X'" "frame X X' (theap (data s)) h" "\<forall>y \<in> set L. bytes_at h y 24 = bytes_at (theap (data s)) y 24"
    using task_get_spec [OF T(1)] get by auto
  have "tp_inv n m h0 (step_of t (New_unlock fa x) ((data s)\<lparr>task_pool := pool, theap := h, dropped := b\<rparr>) s) qs (L @ [x])"
    by (rule heap_step [OF inv ok pcs t, where M = "{#}" and F' = "tl F" and X' = X'])
      (use p g frame_trans [OF T(2) g(3)] get(2) in auto)
  then show ?thesis by blast
qed

lemma fill_step:
  assumes inv: "tp_inv n m h0 s qs L" and ok: "locks_ok n s" and pcs: "pcs_ok n m s" and t: "t < m" and p: "pc s t = New_fill fa x"
  shows "\<exists>h. task_fill x (fst fa) (snd fa) (theap (data s)) = Some h \<and>
    tp_inv n m h0 (step_of t (Scan fa x 0 None (- 1)) ((data s)\<lparr>theap := h\<rparr>) s) qs L"
proof -
  obtain F X where T: "tasks_at (theap (data s)) (task_pool (data s)) F L X" "frame {} X h0 (theap (data s))" using tp_inv_tasks [OF inv] .
  have "point_ok n (New_fill fa x)" using pcs p by (metis pcs_ok_def)
  then have x: "x \<noteq> 0" "x \<in> set L" using tp_inv_held [OF inv t, of x] p by auto
  obtain h where g: "task_fill x (fst fa) (snd fa) (theap (data s)) = Some h" "tasks_at h (task_pool (data s)) F L X" "frame X X (theap (data s)) h"
      "task_at h x = fa" "next_at h x = 0" "\<forall>y \<in> set L. y \<noteq> x \<longrightarrow> bytes_at h y 24 = bytes_at (theap (data s)) y 24"
    using task_fill_spec [OF T(1) x(2), of "fst fa" "snd fa"] by auto
  have "tp_inv n m h0 (step_of t (Scan fa x 0 None (- 1)) ((data s)\<lparr>theap := h\<rparr>) s) qs L"
    by (rule heap_step [OF inv ok pcs t, where M = "{#x#}" and F' = F and X' = X])
      (use p g frame_trans [OF T(2) g(3)] x in auto)
  then show ?thesis using g(1) by blast
qed

lemma put_step:
  assumes inv: "tp_inv n m h0 s qs L" and ok: "locks_ok n s" and pcs: "pcs_ok n m s" and t: "t < m" and p: "pc s t = Free_put x w"
  shows "\<exists>pool h L'. cx_prealloc_pool_recycle (task_pool (data s)) x (theap (data s)) = Some (pool, h) \<and>
    tp_inv n m h0 (step_of t (Free_unlock w) ((data s)\<lparr>task_pool := pool, theap := h\<rparr>) s) qs L'"
proof -
  obtain F X where T: "tasks_at (theap (data s)) (task_pool (data s)) F L X" "frame {} X h0 (theap (data s))" using tp_inv_tasks [OF inv] .
  have "point_ok n (Free_put x w)" using pcs p by (metis pcs_ok_def)
  then have x: "x \<noteq> 0" "x \<in> set L" using tp_inv_held [OF inv t, of x] p by auto
  obtain pool h where g: "cx_prealloc_pool_recycle (task_pool (data s)) x (theap (data s)) = Some (pool, h)" "tasks_at h pool (x # F) (remove1 x L) X"
      "frame X X (theap (data s)) h" "\<forall>y \<in> set L. y \<noteq> x \<longrightarrow> bytes_at h y 24 = bytes_at (theap (data s)) y 24"
    using task_recycle_spec [OF T(1) x(2)] by auto
  have "tp_inv n m h0 (step_of t (Free_unlock w) ((data s)\<lparr>task_pool := pool, theap := h\<rparr>) s) qs (remove1 x L)"
    by (rule heap_step [OF inv ok pcs t, where M = "{#x#}" and F' = "x # F" and X' = X])
      (use p g frame_trans [OF T(2) g(3)] x in auto)
  then show ?thesis using g(1) by blast
qed

section \<open>Running a task and counting it\<close>

lemma queues_step:
  assumes "queues_ok n s qs" "locks_ok n s" "linked (pc s t) = []" "uncounted (pc s t) = 0" "linked p' = []" "uncounted p' = 0"
    and "tworkers d' = tworkers (data s)" "theap d' = theap (data s)"
  shows "queues_ok n (step_of t p' d' s) qs"
proof -
  have "tail_of (step_of t p' d' s) k = tail_of s k" "owed (step_of t p' d' s) k = owed s k" for k
    using at_queue_do [OF assms(2), where z = "[]" and f = linked and t = t and k = k]
      at_queue_do [OF assms(2), where z = 0 and f = uncounted and t = t and k = k] assms(3-6) by auto
  then show ?thesis using assms(1,7,8) by (simp add: queues_ok_def)
qed

lemma run_step:
  assumes inv: "tp_inv n m h0 s qs L" and ok: "locks_ok n s" and pcs: "pcs_ok n m s" and t: "t < m" and p: "pc s t = Run_task x"
  shows "\<exists>f a. load_u64 x (theap (data s)) = Some f \<and> load_u64 (x + 8) (theap (data s)) = Some a \<and>
    tp_inv n m h0 (step_of t (Free_lock x True) ((data s)\<lparr>executed := executed (data s) @ [(f, a)]\<rparr>) s) qs L"
proof -
  let ?d = "(data s)\<lparr>executed := executed (data s) @ [task_at (theap (data s)) x]\<rparr>"
  let ?s = "step_of t (Free_lock x True) ?d s"
  note I = inv [unfolded tp_inv_def]
  have pc: "pc ?s = (pc s)(t := Free_lock x True)" by simp
  obtain F X where T: "tasks_at (theap (data s)) (task_pool (data s)) F L X" "frame {} X h0 (theap (data s))" using tp_inv_tasks [OF inv] .
  have "point_ok n (Run_task x)" using pcs p by (metis pcs_ok_def)
  then have x: "x \<noteq> 0" "x \<in> set L" using tp_inv_held [OF inv t, of x] p by auto
  have sums: "(\<Sum>u<m. todo (pc s u)) = add_mset x (\<Sum>u<m. todo (pc ?s u))" "(\<Sum>u<m. held (pc ?s u)) = (\<Sum>u<m. held (pc s u))"
      "(\<Sum>u<m. busy (pc ?s u)) = (\<Sum>u<m. busy (pc s u))"
    using tp_sum [OF t pc, of todo] tp_sum [OF t pc, of held] tp_sum [OF t pc, of busy] p x(1) by (simp_all del: step_of_simps)
  have C: "counts_ok m s qs" using I by blast
  have "queues_ok n ?s qs" by (rule queues_step) (use I ok p in auto)
  moreover have "places_ok m ?s qs L" using I by (simp only: places_ok_def sums)
  moreover have "counts_ok m ?s qs"
  proof (rule counts_okI)
    fix u y fa assume "u < m" "filled (pc ?s u) = Some (y, fa)"
    then show "task_at (theap (data ?s)) y = fa \<and> next_at (theap (data ?s)) y = 0"
      using counts_okD(1) [OF C, of u y fa] by (cases "u = t") auto
  next
    show "mset (scheduled (data ?s)) = mset (executed (data ?s)) + tasks_of (theap (data ?s)) (mset (concat qs) + (\<Sum>u<m. todo (pc ?s u)))"
      using counts_okD(2) [OF C] unfolding sums by (simp add: tasks_of_def)
    show "unat (active_tasks (data ?s)) = length (concat qs) + (\<Sum>u<m. busy (pc ?s u))"
      using counts_okD(3) [OF C] unfolding sums by simp
  qed
  moreover have "order_ok n ?s qs"
  proof (cases "n = 1")
    case True
    obtain xs where xs: "mset xs = todo (pc s 0)" "scheduled (data s) = executed (data s) @ map (task_at (theap (data s))) (xs @ qs ! 0)"
      using I True by (auto simp: order_ok_def)
    have "is_worker (pc s t)" using p by simp
    then have "t = 0" using pcs True by (metis less_one pcs_ok_def)
    then have "xs = [x]" using xs(1) p x(1) by (simp add: mset_single_iff)
    then show ?thesis using xs(2) \<open>t = 0\<close> by (simp add: order_ok_def)
  qed (simp add: order_ok_def)
  ultimately have "tp_inv n m h0 ?s qs L" using T by (auto simp: tp_inv_def)
  then show ?thesis using task_load [OF T(1) x(2)] by (simp add: task_at_def)
qed

text \<open>Only \<^verbatim>\<open>active_tasks\<close> changes.\<close>

lemma done_step:
  assumes inv: "tp_inv n m h0 s qs L" and ok: "locks_ok n s" and t: "t < m" and p: "pc s t = Done_sub"
    and p': "p' = Done_signal \<or> p' = Done_unlock"
  shows "tp_inv n m h0 (step_of t p' ((data s)\<lparr>active_tasks := active_tasks (data s) - 1\<rparr>) s) qs L"
    "unat (active_tasks (data s) - 1) = length (concat qs) + (\<Sum>u<m. busy (((pc s)(t := p')) u))" "0 < unat (active_tasks (data s))"
proof -
  let ?s = "step_of t p' ((data s)\<lparr>active_tasks := active_tasks (data s) - 1\<rparr>) s"
  note I = inv [unfolded tp_inv_def]
  have pc: "pc ?s = (pc s)(t := p')" by simp
  have sums: "(\<Sum>u<m. todo (pc ?s u)) = (\<Sum>u<m. todo (pc s u))" "(\<Sum>u<m. held (pc ?s u)) = (\<Sum>u<m. held (pc s u))"
      "(\<Sum>u<m. busy (pc s u)) = (\<Sum>u<m. busy (pc ?s u)) + 1"
    using tp_sum [OF t pc, of todo] tp_sum [OF t pc, of held] tp_sum [OF t pc, of busy] p p' by (auto simp del: step_of_simps)
  have C: "counts_ok m s qs" using I by blast
  show pos: "0 < unat (active_tasks (data s))" using counts_okD(3) [OF C] sums(3) by linarith
  then have dec: "unat (active_tasks (data s) - 1) + 1 = unat (active_tasks (data s))" using unat_dec_pos by simp
  show act: "unat (active_tasks (data s) - 1) = length (concat qs) + (\<Sum>u<m. busy (((pc s)(t := p')) u))"
    using counts_okD(3) [OF C] sums(3) dec unfolding pc by linarith
  have "queues_ok n ?s qs" by (rule queues_step) (use I ok p p' in auto)
  moreover have "places_ok m ?s qs L" using I by (simp only: places_ok_def sums)
  moreover have "counts_ok m ?s qs"
  proof (rule counts_okI)
    fix u y fa assume "u < m" "filled (pc ?s u) = Some (y, fa)"
    then show "task_at (theap (data ?s)) y = fa \<and> next_at (theap (data ?s)) y = 0"
      using counts_okD(1) [OF C, of u y fa] p' by (cases "u = t") auto
  next
    show "mset (scheduled (data ?s)) = mset (executed (data ?s)) + tasks_of (theap (data ?s)) (mset (concat qs) + (\<Sum>u<m. todo (pc ?s u)))"
      using counts_okD(2) [OF C] unfolding sums by simp
    show "unat (active_tasks (data ?s)) = length (concat qs) + (\<Sum>u<m. busy (pc ?s u))"
      using act unfolding pc by simp
  qed
  moreover have "order_ok n ?s qs" using I p p' by (auto simp: order_ok_def)
  ultimately show "tp_inv n m h0 ?s qs L" using I by (simp add: tp_inv_def)
qed

section \<open>Scheduling a task\<close>

lemma sum_mset_mono_sum:
  fixes f g :: "nat \<Rightarrow> 'a multiset"
  assumes "\<And>u. f u \<subseteq># g u"
  shows "(\<Sum>u<m. f u) \<subseteq># (\<Sum>u<m. g u)"
  using assms by (induction m) (auto intro: subset_mset.add_mono)

lemma concat_nth_sub: "k < length qs \<Longrightarrow> set (qs ! k) \<subseteq> set (concat qs)"
  using nth_mem by auto

lemma length_concat_nth: "k < length qs \<Longrightarrow> length (qs ! k) \<le> length (concat qs)"
  using id_take_nth_drop [of k qs] by (metis concat.simps(2) concat_append length_append le_add1 le_add2 le_trans)

lemma distinct_concat_nth: "distinct (concat qs) \<Longrightarrow> j < length qs \<Longrightarrow> k < length qs \<Longrightarrow> j \<noteq> k \<Longrightarrow> set (qs ! j) \<inter> set (qs ! k) = {}"
proof (induction qs arbitrary: j k)
  case (Cons q qs)
  have "set (qs ! i) \<subseteq> set (concat qs)" if "i < length qs" for i using concat_nth_sub [OF that] .
  then show ?case using Cons by (cases j; cases k) fastforce+
qed simp

lemma link_step:
  assumes inv: "tp_inv n m h0 s qs L" and ok: "locks_ok n s" and pcs: "pcs_ok n m s" and t: "t < m" and p: "pc s t = Push_link fa x k"
  shows "\<exists>w h. link_task (tworkers (data s) ! k) x (theap (data s)) = Some (w, h) \<and>
    tp_inv n m h0 (step_of t (Push_active fa x k) ((data s)\<lparr>tworkers := (tworkers (data s))[k := w], theap := h\<rparr>) s) qs L"
proof -
  note I = inv [unfolded tp_inv_def]
  have pl: "places_ok m s qs L" and C: "counts_ok m s qs" using I by blast+
  note P = place_cases [OF pl]
  obtain F X where T: "tasks_at (theap (data s)) (task_pool (data s)) F L X" "frame {} X h0 (theap (data s))" using tp_inv_tasks [OF inv] .
  have "point_ok n (Push_link fa x k)" using pcs p by (metis pcs_ok_def)
  then have x: "x \<noteq> 0" "k < n" "x \<in># held (pc s t)" "x \<in> set L" using tp_inv_held [OF inv t, of x] p by auto
  have Q: "length (tworkers (data s)) = n" "length qs = n"
      "\<And>j. j < n \<Longrightarrow> queue_at (theap (data s)) (tworkers (data s) ! j) (qs ! j @ tail_of s j)"
      "\<And>j. j < n \<Longrightarrow> unat (wqueue_length (tworkers (data s) ! j)) + owed s j = length (qs ! j)"
    using I by (auto simp: queues_ok_def)
  have hk: "tp_holds n t (pc s t) = Some (Queue_mutex k)" using p by simp
  have tl: "tail_of s k = []" "owed s k = 0"
    using at_queue_do(2) [OF ok hk, of "[]" linked] at_queue_do(2) [OF ok hk, of 0 uncounted] p by simp_all
  have kq: "k < length qs" using Q(2) x(2) by simp
  have sub: "set (qs ! k) \<subseteq> set L" using P(1) concat_nth_sub [OF kq] by blast
  have fresh: "distinct (qs ! k @ [x])"
    using P(3) P(4) [OF t x(3)] concat_nth_sub [OF kq] nth_mem [OF kq] by (auto simp: distinct_concat_iff)
  have nx: "next_at (theap (data s)) x = 0" using counts_okD(1) [OF C t, of x fa] p by simp
  have qk: "queue_at (theap (data s)) (tworkers (data s) ! k) (qs ! k)" using Q(3) [OF x(2)] tl by simp
  obtain w h where g: "link_task (tworkers (data s) ! k) x (theap (data s)) = Some (w, h)" "queue_at h w (qs ! k @ [x])"
      "wqueue_length w = wqueue_length (tworkers (data s) ! k)" "tasks_at h (task_pool (data s)) F L X" "frame X X (theap (data s)) h"
      "\<forall>y \<in> set L. task_at h y = task_at (theap (data s)) y" "\<forall>y \<in> set L. y \<notin> set (qs ! k) \<longrightarrow> bytes_at h y 24 = bytes_at (theap (data s)) y 24"
    using link_task_spec [OF T(1) qk sub x(4) fresh nx] by blast
  let ?d = "(data s)\<lparr>tworkers := (tworkers (data s))[k := w], theap := h\<rparr>"
  let ?s = "step_of t (Push_active fa x k) ?d s"
  have pc: "pc ?s = (pc s)(t := Push_active fa x k)" by simp
  have tl': "tail_of ?s j = (if j = k then [x] else tail_of s j)" "owed ?s j = owed s j" for j
    unfolding at_queue_do(1) [OF ok] using hk tl by auto
  have sums: "(\<Sum>u<m. todo (pc ?s u)) = (\<Sum>u<m. todo (pc s u))" "(\<Sum>u<m. held (pc ?s u)) = (\<Sum>u<m. held (pc s u))"
      "(\<Sum>u<m. busy (pc ?s u)) = (\<Sum>u<m. busy (pc s u))"
    using tp_sum [OF t pc, of todo] tp_sum [OF t pc, of held] tp_sum [OF t pc, of busy] p by (simp_all del: step_of_simps)
  have held: "bytes_at h y 24 = bytes_at (theap (data s)) y 24" if "u < m" "y \<in># held (pc s u)" for u y
    using g(7) P(2,4) [OF that] concat_nth_sub [OF kq] by blast
  have "queues_ok n ?s qs"
  proof -
    have "queue_at h ((tworkers (data s))[k := w] ! j) (qs ! j @ tail_of ?s j) \<and>
        unat (wqueue_length ((tworkers (data s))[k := w] ! j)) + owed ?s j = length (qs ! j)" if j: "j < n" for j
    proof (cases "j = k")
      case True
      then show ?thesis using g(2,3) tl' Q(1) j Q(4) [of k] by simp
    next
      case False
      have "queue_at h (tworkers (data s) ! j) (qs ! j @ tail_of s j) = queue_at (theap (data s)) (tworkers (data s) ! j) (qs ! j @ tail_of s j)"
      proof (rule queue_at_cong)
        fix y assume "y \<in> set (qs ! j @ tail_of s j)"
        then consider "y \<in> set (qs ! j)" | u where "y \<in> set (linked (pc s u))" by (auto simp: at_queue_def split: option.splits)
        then show "bytes_at h y 24 = bytes_at (theap (data s)) y 24"
        proof cases
          case 1
          then have "y \<notin> set (qs ! k)" using distinct_concat_nth [OF P(3), of j k] Q(2) j x(2) False by auto
          moreover have "y \<in> set L"
          proof -
            have "y \<in> set (concat qs)" using 1 concat_nth_sub [of j qs] Q(2) j by blast
            then show ?thesis by (rule P(1))
          qed
          ultimately show ?thesis using g(7) by blast
        next
          case 2
          have "u < m" using 2 pcs by (cases "u < m") (auto simp: pcs_ok_def not_less)
          moreover have "y \<in># held (pc s u)" using held_linked [of n "pc s u"] pcs 2 by (auto simp: pcs_ok_def)
          ultimately show ?thesis by (rule held)
        qed
      qed
      then show ?thesis using Q j False tl' by simp
    qed
    then show ?thesis using Q(1,2) by (simp add: queues_ok_def)
  qed
  moreover have "places_ok m ?s qs L" using pl by (simp only: places_ok_def sums)
  moreover have "counts_ok m ?s qs"
  proof (rule counts_okI)
    fix u y fb assume u: "u < m" "filled (pc ?s u) = Some (y, fb)"
    have f: "filled (pc s u) = Some (y, fb)" using u(2) p by (cases "u = t") auto
    have "point_ok n (pc s u)" using pcs by (simp add: pcs_ok_def)
    then have "y \<in># held (pc s u)" using f by (rule held_filled)
    then show "task_at (theap (data ?s)) y = fb \<and> next_at (theap (data ?s)) y = 0"
      using task_fields [OF held [OF u(1)]] counts_okD(1) [OF C u(1) f] by simp
  next
    have "y \<in> set L" if y: "y \<in># mset (concat qs) + (\<Sum>u<m. todo (pc s u))" for y
    proof -
      have "(\<Sum>u<m. todo (pc s u)) \<subseteq># (\<Sum>u<m. held (pc s u))" by (rule sum_mset_mono_sum) (rule held_todo)
      then have "y \<in># mset L" using y pl unfolding places_ok_def by (metis mset_subset_eqD mset_subset_eq_mono_add_left_cancel)
      then show ?thesis by simp
    qed
    then have "tasks_of h (mset (concat qs) + (\<Sum>u<m. todo (pc s u))) = tasks_of (theap (data s)) (mset (concat qs) + (\<Sum>u<m. todo (pc s u)))"
      unfolding tasks_of_def using g(6) by (intro image_mset_cong) blast
    then show "mset (scheduled (data ?s)) = mset (executed (data ?s)) + tasks_of (theap (data ?s)) (mset (concat qs) + (\<Sum>u<m. todo (pc ?s u)))"
      using counts_okD(2) [OF C] unfolding sums by simp
    show "unat (active_tasks (data ?s)) = length (concat qs) + (\<Sum>u<m. busy (pc ?s u))"
      using counts_okD(3) [OF C] unfolding sums by simp
  qed
  moreover have "order_ok n ?s qs"
  proof (cases "n = 1")
    case True
    obtain xs where xs: "mset xs = todo (pc s 0)" "scheduled (data s) = executed (data s) @ map (task_at (theap (data s))) (xs @ qs ! 0)"
      using I True by (auto simp: order_ok_def)
    have "0 < m" using t by simp
    then have "y \<in> set L" if "y \<in> set (xs @ qs ! 0)" for y
      using that xs(1) mset_subset_eqD [OF held_todo, of y "pc s 0"] P(1) P(2) [of 0 y] concat_nth_sub [of 0 qs] Q(2) True
      by (auto simp flip: set_mset_mset)
    then have "map (task_at h) (xs @ qs ! 0) = map (task_at (theap (data s))) (xs @ qs ! 0)" using g(6) by (intro map_cong) auto
    moreover have "todo (pc ?s 0) = todo (pc s 0)" using p by (cases "t = 0") auto
    ultimately show ?thesis using xs by (auto simp: order_ok_def simp del: step_of_simps(3))
  qed (simp add: order_ok_def)
  ultimately have "tp_inv n m h0 ?s qs L" using frame_trans [OF T(2) g(5)] g(4) by (auto simp: tp_inv_def)
  then show ?thesis using g(1) by blast
qed

text \<open>The task is counted, and from now on in the queue.\<close>

lemma busy_le: "busy p \<le> 1"
  by (cases p) (auto simp: own_def)

lemma sum_busy_le: "(\<Sum>u<m. busy (pc s u)) \<le> m"
  using sum_bounded_above [of "{..<m}" "\<lambda>u. busy (pc s u)" 1] busy_le by simp

lemma length_queues: "tp_inv n m h0 s qs L \<Longrightarrow> length (concat qs) < 2 ^ 62"
proof -
  assume inv: "tp_inv n m h0 s qs L"
  obtain F X where T: "tasks_at (theap (data s)) (task_pool (data s)) F L X" using tp_inv_tasks [OF inv] .
  have "mset L = mset (concat qs) + (\<Sum>u<m. held (pc s u))" using inv by (simp only: tp_inv_def places_ok_def)
  then have "size (mset L) = size (mset (concat qs)) + size (\<Sum>u<m. held (pc s u))" by (simp only: size_union)
  then have "length (concat qs) \<le> length L" by (simp only: size_mset)
  then show ?thesis using task_count [OF T] by linarith
qed

lemma active_step:
  assumes inv: "tp_inv n m h0 s qs L" and ok: "locks_ok n s" and pcs: "pcs_ok n m s" and t: "t < m" and p: "pc s t = Push_active fa x k"
    and m: "m < 2 ^ 62"
  shows "\<exists>qs'. tp_inv n m h0 (step_of t (Push_count k)
      ((data s)\<lparr>active_tasks := active_tasks (data s) + 1, scheduled := scheduled (data s) @ [fa]\<rparr>) s) qs' L"
proof -
  let ?d = "(data s)\<lparr>active_tasks := active_tasks (data s) + 1, scheduled := scheduled (data s) @ [fa]\<rparr>"
  let ?s = "step_of t (Push_count k) ?d s" and ?qs = "qs[k := qs ! k @ [x]]"
  note I = inv [unfolded tp_inv_def]
  have pl: "places_ok m s qs L" and C: "counts_ok m s qs" using I by blast+
  have pc: "pc ?s = (pc s)(t := Push_count k)" by simp
  have "point_ok n (Push_active fa x k)" using pcs p by (metis pcs_ok_def)
  then have x: "x \<noteq> 0" "k < n" by auto
  have Q: "length (tworkers (data s)) = n" "length qs = n"
      "\<And>j. j < n \<Longrightarrow> queue_at (theap (data s)) (tworkers (data s) ! j) (qs ! j @ tail_of s j)"
      "\<And>j. j < n \<Longrightarrow> unat (wqueue_length (tworkers (data s) ! j)) + owed s j = length (qs ! j)"
    using I by (auto simp: queues_ok_def)
  have hk: "tp_holds n t (pc s t) = Some (Queue_mutex k)" using p by simp
  have tl: "tail_of s k = [x]" "owed s k = 0"
    using at_queue_do(2) [OF ok hk, of "[]" linked] at_queue_do(2) [OF ok hk, of 0 uncounted] p by simp_all
  have tl': "tail_of ?s j = (if j = k then [] else tail_of s j)" "owed ?s j = (if j = k then 1 else owed s j)" for j
    unfolding at_queue_do(1) [OF ok] using hk by auto
  have sums: "(\<Sum>u<m. todo (pc ?s u)) = (\<Sum>u<m. todo (pc s u))" "(\<Sum>u<m. held (pc s u)) = add_mset x (\<Sum>u<m. held (pc ?s u))"
      "(\<Sum>u<m. busy (pc ?s u)) = (\<Sum>u<m. busy (pc s u))"
    using tp_sum [OF t pc, of todo] tp_sum [OF t pc, of held] tp_sum [OF t pc, of busy] p x by (simp_all del: step_of_simps)
  have conc: "mset (concat ?qs) = add_mset x (mset (concat qs))"
  proof -
    have k: "k < length qs" using Q(2) x by simp
    have "concat qs = concat (take k qs) @ qs ! k @ concat (drop (Suc k) qs)"
      using id_take_nth_drop [OF k] by (metis concat.simps(2) concat_append)
    moreover have "concat ?qs = concat (take k qs) @ (qs ! k @ [x]) @ concat (drop (Suc k) qs)"
      using k by (simp add: upd_conv_take_nth_drop)
    ultimately show ?thesis by simp
  qed
  have len: "length (concat ?qs) = length (concat qs) + 1" using arg_cong [OF conc, of size] by (simp only: size_mset size_add_mset)
  have fx: "task_at (theap (data s)) x = fa" using counts_okD(1) [OF C t, of x fa] p by simp
  have "queues_ok n ?s ?qs"
  proof -
    have "queue_at (theap (data s)) (tworkers (data s) ! j) (?qs ! j @ tail_of ?s j) \<and>
        unat (wqueue_length (tworkers (data s) ! j)) + owed ?s j = length (?qs ! j)" if j: "j < n" for j
      using Q(3,4) [OF j] tl tl' Q(2) j by (cases "j = k") auto
    then show ?thesis using Q(1,2) by (simp add: queues_ok_def)
  qed
  moreover have "places_ok m ?s ?qs L"
  proof -
    have "mset L = mset (concat qs) + (\<Sum>u<m. held (pc s u))" using pl by (simp only: places_ok_def)
    then have "mset L = mset (concat ?qs) + (\<Sum>u<m. held (pc ?s u))" unfolding conc sums(2) by simp
    then show ?thesis using pl by (simp only: places_ok_def)
  qed
  moreover have "counts_ok m ?s ?qs"
  proof (rule counts_okI)
    fix u y fb assume u: "u < m" "filled (pc ?s u) = Some (y, fb)"
    then have f: "filled (pc s u) = Some (y, fb)" by (cases "u = t") auto
    then show "task_at (theap (data ?s)) y = fb \<and> next_at (theap (data ?s)) y = 0"
      using counts_okD(1) [OF C u(1) f] by simp
  next
    show "mset (scheduled (data ?s)) = mset (executed (data ?s)) + tasks_of (theap (data ?s)) (mset (concat ?qs) + (\<Sum>u<m. todo (pc ?s u)))"
      using counts_okD(2) [OF C] fx unfolding sums conc by (simp add: tasks_of_def)
    have "(2 :: nat) ^ 62 + 2 ^ 62 + 1 < 2 ^ 64" by simp
    then have "unat (active_tasks (data s)) + 1 < 2 ^ 64"
      using counts_okD(3) [OF C] sum_busy_le [of s m] length_queues [OF inv] m by linarith
    then have "unat (active_tasks (data s) + 1) = unat (active_tasks (data s)) + 1" by (subst unat_add_no_wrap) simp_all
    then show "unat (active_tasks (data ?s)) = length (concat ?qs) + (\<Sum>u<m. busy (pc ?s u))"
      using counts_okD(3) [OF C] len unfolding sums by simp
  qed
  moreover have "order_ok n ?s ?qs"
  proof (cases "n = 1")
    case True
    obtain xs where xs: "mset xs = todo (pc s 0)" "scheduled (data s) = executed (data s) @ map (task_at (theap (data s))) (xs @ qs ! 0)"
      using I True by (auto simp: order_ok_def)
    moreover have "todo (pc ?s 0) = todo (pc s 0)" using p by (cases "t = 0") auto
    moreover have "k = 0" using x True by simp
    ultimately show ?thesis using fx Q(2) True by (auto simp: order_ok_def simp del: step_of_simps(3))
  qed (simp add: order_ok_def)
  ultimately have "tp_inv n m h0 ?s ?qs L" using I by (simp add: tp_inv_def)
  then show ?thesis by blast
qed

lemma count_step:
  assumes inv: "tp_inv n m h0 s qs L" and ok: "locks_ok n s" and pcs: "pcs_ok n m s" and t: "t < m" and p: "pc s t = Push_count k"
  shows "tp_inv n m h0 (step_of t (Push_signal k) ((data s)\<lparr>tworkers := (tworkers (data s))[k :=
      (tworkers (data s) ! k)\<lparr>wqueue_length := wqueue_length (tworkers (data s) ! k) + 1\<rparr>]\<rparr>) s) qs L"
proof -
  let ?w = "(tworkers (data s) ! k)\<lparr>wqueue_length := wqueue_length (tworkers (data s) ! k) + 1\<rparr>"
  let ?s = "step_of t (Push_signal k) ((data s)\<lparr>tworkers := (tworkers (data s))[k := ?w]\<rparr>) s"
  note I = inv [unfolded tp_inv_def]
  have C: "counts_ok m s qs" using I by blast
  have pc: "pc ?s = (pc s)(t := Push_signal k)" by simp
  have "point_ok n (Push_count k)" using pcs p by (metis pcs_ok_def)
  then have k: "k < n" by simp
  have Q: "length (tworkers (data s)) = n" "length qs = n"
      "\<And>j. j < n \<Longrightarrow> queue_at (theap (data s)) (tworkers (data s) ! j) (qs ! j @ tail_of s j)"
      "\<And>j. j < n \<Longrightarrow> unat (wqueue_length (tworkers (data s) ! j)) + owed s j = length (qs ! j)"
    using I by (auto simp: queues_ok_def)
  have hk: "tp_holds n t (pc s t) = Some (Queue_mutex k)" using p by simp
  have tl: "tail_of s k = []" "owed s k = 1"
    using at_queue_do(2) [OF ok hk, of "[]" linked] at_queue_do(2) [OF ok hk, of 0 uncounted] p by simp_all
  have tl': "tail_of ?s j = tail_of s j" "owed ?s j = (if j = k then 0 else owed s j)" for j
    unfolding at_queue_do(1) [OF ok] using hk tl by auto
  have sums: "(\<Sum>u<m. todo (pc ?s u)) = (\<Sum>u<m. todo (pc s u))" "(\<Sum>u<m. held (pc ?s u)) = (\<Sum>u<m. held (pc s u))"
      "(\<Sum>u<m. busy (pc ?s u)) = (\<Sum>u<m. busy (pc s u))"
    using tp_sum [OF t pc, of todo] tp_sum [OF t pc, of held] tp_sum [OF t pc, of busy] p by (simp_all del: step_of_simps)
  have "queues_ok n ?s qs"
  proof -
    have "queue_at (theap (data s)) ((tworkers (data s))[k := ?w] ! j) (qs ! j @ tail_of ?s j) \<and>
        unat (wqueue_length ((tworkers (data s))[k := ?w] ! j)) + owed ?s j = length (qs ! j)" if j: "j < n" for j
    proof (cases "j = k")
      case True
      have "length (qs ! k) \<le> length (concat qs)" using length_concat_nth [of k qs] k Q(2) by simp
      then have "unat (wqueue_length (tworkers (data s) ! k)) + 1 < 2 ^ 64"
        using Q(4) [OF k] length_queues [OF inv] by simp
      then have "unat (wqueue_length ?w) = unat (wqueue_length (tworkers (data s) ! k)) + 1" by (simp add: unat_add_no_wrap)
      then show ?thesis using Q(1) Q(3,4) [OF k] tl tl' k True by simp
    next
      case False
      then show ?thesis using Q(1) Q(3,4) [OF j] tl' j by simp
    qed
    then show ?thesis using Q(1,2) by (simp add: queues_ok_def)
  qed
  moreover have "places_ok m ?s qs L" using I by (simp only: places_ok_def sums)
  moreover have "counts_ok m ?s qs"
  proof (rule counts_okI)
    fix u y fb assume u: "u < m" "filled (pc ?s u) = Some (y, fb)"
    then have f: "filled (pc s u) = Some (y, fb)" by (cases "u = t") auto
    then show "task_at (theap (data ?s)) y = fb \<and> next_at (theap (data ?s)) y = 0"
      using counts_okD(1) [OF C u(1) f] by simp
  next
    show "mset (scheduled (data ?s)) = mset (executed (data ?s)) + tasks_of (theap (data ?s)) (mset (concat qs) + (\<Sum>u<m. todo (pc ?s u)))"
      using counts_okD(2) [OF C] unfolding sums by simp
    show "unat (active_tasks (data ?s)) = length (concat qs) + (\<Sum>u<m. busy (pc ?s u))"
      using counts_okD(3) [OF C] unfolding sums by simp
  qed
  moreover have "order_ok n ?s qs" using I p by (auto simp: order_ok_def)
  ultimately show ?thesis using I by (simp add: tp_inv_def)
qed

end
