(* ===== verification/ThreadpoolReach.thy ===== *)
theory ThreadpoolReach
  imports ThreadpoolSteps
begin

text \<open>
  The steps of the thread pool by what they do, the invariant in every reachable state, and the
  start of the pool.
\<close>

section \<open>Steps\<close>

lemma system_eqI:
  "data s' = d \<Longrightarrow> owners s' = owners s \<Longrightarrow> waiters s' = waiters s \<Longrightarrow> pc s' = (pc s)(t := p) \<Longrightarrow> s' = step_of t p d s"
  by (cases s; cases s') (auto simp: step_of_def jump_def)

lemma same_tasks_refl: "(\<nexists>f. thread_prog n t p = Do f) \<Longrightarrow> same_tasks p p"
  by (cases p) (auto simp: prog_simps tp_defs same_tasks_def)

lemma same_tasks_leads:
  assumes "\<nexists>f. thread_prog n t p = Do f" "leads (thread_prog n t p) q"
  shows "same_tasks p q"
proof (cases "thread_prog n t p")
  case (Lock mu p' e)
  then show ?thesis using assms(2) same_tasks_other(1,2) [OF _ Lock] by (auto simp: Lock)
qed (use assms same_tasks_other(3-7) [of n t p] in auto)

fun moves :: "tp_pc \<Rightarrow> bool" where
  "moves (Find_get i) = True"
| "moves Wait_get = True"
| "moves (New_get fa) = True"
| "moves (New_fill fa x) = True"
| "moves (Free_put x w) = True"
| "moves (Run_task x) = True"
| "moves Done_sub = True"
| "moves (Push_link fa x k) = True"
| "moves (Push_active fa x k) = True"
| "moves (Push_count k) = True"
| "moves Stop_free = True"
| "moves p = False"

lemma do_same:
  assumes "thread_prog n t p = Do f" "f d = Some (d', q)" "\<not> moves p"
  shows "same_tasks p q \<and> same_data d d' \<and> dropped d' = dropped d \<and> (running d' = running d \<or> p = Stop_set \<and> \<not> running d')"
  using assms by (cases p) (auto simp: prog_simps tp_defs same_tasks_def same_data_def Let_def split: if_splits option.splits)

text \<open>The accesses to the data, by the task they move.\<close>

lemma do_cases:
  assumes "thread_prog n t p = Do f" "f d = Some (d', q)" "point_ok n p" "is_worker p = (t < n)"
  obtains (same) "same_tasks p q" "same_data d d'" "dropped d' = dropped d" "running d' = running d \<or> p = Stop_set \<and> \<not> running d'" "\<not> moves p"
  | (take) k nx x w where "takes n t p k nx" "worker_get_task (tworkers d ! k) (theap d) = Some (x, w)"
      "d' = d\<lparr>tworkers := (tworkers d)[k := w]\<rparr>" "q = nx x"
  | (new_get) fa x pool h where "p = New_get fa" "cx_prealloc_pool_get (task_pool d) (theap d) = Some (x, pool, h)"
      "d' = d\<lparr>task_pool := pool, theap := h, dropped := dropped d \<or> x = 0\<rparr>" "q = New_unlock fa x"
  | (new_fill) fa x h where "p = New_fill fa x" "task_fill x (fst fa) (snd fa) (theap d) = Some h"
      "d' = d\<lparr>theap := h\<rparr>" "q = Scan fa x 0 None (- 1)"
  | (put) x w pool h where "p = Free_put x w" "cx_prealloc_pool_recycle (task_pool d) x (theap d) = Some (pool, h)"
      "d' = d\<lparr>task_pool := pool, theap := h\<rparr>" "q = Free_unlock w"
  | (run) x fn a where "p = Run_task x" "load_u64 x (theap d) = Some fn" "load_u64 (x + 8) (theap d) = Some a"
      "d' = d\<lparr>executed := executed d @ [(fn, a)]\<rparr>" "q = Free_lock x True"
  | (sub) "p = Done_sub" "d' = d\<lparr>active_tasks := active_tasks d - 1\<rparr>" "q = (if active_tasks d = 1 then Done_signal else Done_unlock)"
  | (link) fa x k w h where "p = Push_link fa x k" "link_task (tworkers d ! k) x (theap d) = Some (w, h)"
      "d' = d\<lparr>tworkers := (tworkers d)[k := w], theap := h\<rparr>" "q = Push_active fa x k"
  | (active) fa x k where "p = Push_active fa x k"
      "d' = d\<lparr>active_tasks := active_tasks d + 1, scheduled := scheduled d @ [fa]\<rparr>" "q = Push_count k"
  | (counted) k where "p = Push_count k"
      "d' = d\<lparr>tworkers := (tworkers d)[k := (tworkers d ! k)\<lparr>wqueue_length := wqueue_length (tworkers d ! k) + 1\<rparr>]\<rparr>" "q = Push_signal k"
  | (cleanup) h where "p = Stop_free" "cx_prealloc_pool_cleanup (task_pool d) (theap d) = Some h" "d' = d\<lparr>tworkers := [], theap := h\<rparr>" "q = Client"
proof (cases p)
  case (Find_get i)
  have "takes n t p ((i + t) mod n) (Find_unlock i)"
    using Find_get assms(3,4) by (auto simp: takes_def)
  then show ?thesis using take assms(1,2) Find_get by (auto simp: prog_simps tp_defs bind_Some_iff)
next
  case Wait_get
  have "takes n t p t Wait_test" using Wait_get assms(3,4) by (auto simp: takes_def)
  then show ?thesis using take assms(1,2) Wait_get by (auto simp: prog_simps tp_defs bind_Some_iff)
next
  case (New_get fa)
  then obtain x pool h where "cx_prealloc_pool_get (task_pool d) (theap d) = Some (x, pool, h)"
      "d' = d\<lparr>task_pool := pool, theap := h, dropped := dropped d \<or> x = 0\<rparr>" "q = New_unlock fa x"
    using assms(1,2) by (auto simp: prog_simps tp_defs bind_Some_iff)
  then show ?thesis by (rule new_get [OF New_get])
next
  case (New_fill fa x)
  then obtain h where "task_fill x (fst fa) (snd fa) (theap d) = Some h" "d' = d\<lparr>theap := h\<rparr>" "q = Scan fa x 0 None (- 1)"
    using assms(1,2) by (auto simp: prog_simps tp_defs bind_Some_iff)
  then show ?thesis by (rule new_fill [OF New_fill])
next
  case (Free_put x w)
  then show ?thesis using put assms(1,2) by (auto simp: prog_simps tp_defs bind_Some_iff)
next
  case (Run_task x)
  then show ?thesis using run assms(1,2) by (auto simp: prog_simps tp_defs bind_Some_iff)
next
  case Done_sub
  then show ?thesis using sub assms(1,2) by (auto simp: prog_simps tp_defs)
next
  case (Push_link fa x k)
  then obtain w h where "link_task (tworkers d ! k) x (theap d) = Some (w, h)"
      "d' = d\<lparr>tworkers := (tworkers d)[k := w], theap := h\<rparr>" "q = Push_active fa x k"
    using assms(1,2) by (auto simp: prog_simps tp_defs bind_Some_iff)
  then show ?thesis by (rule link [OF Push_link])
next
  case (Push_active fa x k)
  then have "d' = d\<lparr>active_tasks := active_tasks d + 1, scheduled := scheduled d @ [fa]\<rparr>" "q = Push_count k"
    using assms(1,2) by (auto simp: prog_simps tp_defs)
  then show ?thesis by (rule active [OF Push_active])
next
  case (Push_count k)
  then show ?thesis using counted assms(1,2) by (auto simp: prog_simps tp_defs Let_def)
next
  case Stop_free
  then show ?thesis using cleanup assms(1,2) by (auto simp: prog_simps tp_defs bind_Some_iff)
qed (use do_same [OF assms(1,2)] same in simp_all)

text \<open>What a step does, with its point at both ends.\<close>

lemma tp_step_cases:
  assumes step: "tp_step n m t c s = Some s'" and pcs: "pcs_ok n m s"
  obtains (control) "data s' = data s" "pc s' = (pc s)(t := pc s' t)" "same_tasks (pc s t) (pc s' t)" "\<nexists>f. thread_prog n t (pc s t) = Do f"
      "\<And>mu. owners s' mu = owners s mu \<or> (owners s mu \<in> {None, Some t} \<and> owners s' mu \<in> {None, Some t})"
  | (access) f where "thread_prog n t (pc s t) = Do f" "f (data s) = Some (data s', pc s' t)" "s' = step_of t (pc s' t) (data s') s" "t < m"
proof -
  note S = step [unfolded tp_step_def]
  note P = exec_pc [OF S]
  from exec_data [OF S] show thesis
  proof (elim disjE conjE exE)
    fix f assume f: "thread_prog n t (pc s t) = Do f" "f (data s) = Some (data s', pc s' t)" "owners s' = owners s" "waiters s' = waiters s"
    have "t < m" using pcs f(1) by (cases "t < m") (auto simp: pcs_ok_def not_less prog_simps)
    then show thesis using access [OF f(1,2) system_eqI [OF refl f(3,4) P(1)]] by blast
  next
    fix k assume k: "data s' = data s" "tp_enter n m s t k = Some (pc s' t)"
    have "same_tasks (pc s t) (pc s' t)" using tp_enter_cases [OF k(2)] by (auto simp: same_tasks_def)
    moreover have "\<nexists>f. thread_prog n t (pc s t) = Do f" using tp_enter_cases(3) [OF k(2)] by (simp add: prog_simps)
    ultimately show thesis by (rule control [OF k(1) P(1) _ _ exec_owners [OF S]])
  next
    assume k: "data s' = data s" "\<nexists>f. thread_prog n t (pc s t) = Do f"
    have "same_tasks (pc s t) (pc s' t)" using P(2)
    proof (elim disjE exE)
      fix k assume "tp_enter n m s t k = Some (pc s' t)"
      then show ?thesis using tp_enter_cases [of n m s t k "pc s' t"] by (auto simp: same_tasks_def)
    qed (use k(2) same_tasks_leads same_tasks_refl in auto)
    then show thesis by (rule control [OF k(1) P(1) _ k(2) exec_owners [OF S]])
  qed
qed

lemma tp_inv_step:
  assumes inv: "tp_inv n m h0 s qs L" and ok: "locks_ok n s" and pcs: "pcs_ok n m s" and m: "m < 2 ^ 62"
    and step: "tp_step n m t c s = Some s'" and live: "\<not> dropped (data s')" "tworkers (data s') \<noteq> []"
  shows "\<exists>qs' L'. tp_inv n m h0 s' qs' L'"
  using step pcs
proof (cases rule: tp_step_cases)
  case control
  have "tp_inv n m h0 s' qs L"
    by (rule tp_inv_same [OF inv control(3) _ control(2,5)]) (simp add: control(1) same_data_def)
  then show ?thesis by blast
next
  case (access f)
  have pt: "point_ok n (pc s t)" "is_worker (pc s t) = (t < n)" using pcs by (simp_all add: pcs_ok_def)
  from access(1,2) pt show ?thesis
  proof (cases rule: do_cases)
    case same
    have "tp_inv n m h0 s' qs L"
      by (rule tp_inv_same [OF inv same(1,2)]) (use access(3) in \<open>metis step_of_simps\<close>)+
    then show ?thesis by blast
  next
    case (take k nx x w)
    show ?thesis using take_step [OF inv ok access(4) take(1,2)] access(3) unfolding take(3,4) [symmetric] by metis
  next
    case (new_get fa x pool h)
    then have "x \<noteq> 0" using live(1) by auto
    then show ?thesis using new_step [OF inv ok pcs access(4) new_get(1,2)] access(3) new_get(3,4) by metis
  next
    case (new_fill fa x h)
    then show ?thesis using fill_step [OF inv ok pcs access(4) new_fill(1)] access(3) by (metis option.inject)
  next
    case (put x w pool h)
    then show ?thesis using put_step [OF inv ok pcs access(4) put(1)] access(3) by (metis option.inject prod.inject)
  next
    case (run x fn a)
    then show ?thesis using run_step [OF inv ok pcs access(4) run(1)] access(3) by (metis option.inject)
  next
    case sub
    show ?thesis using done_step(1) [OF inv ok access(4) sub(1), of "pc s' t"] sub access(3) by metis
  next
    case (link fa x k w h)
    then show ?thesis using link_step [OF inv ok pcs access(4) link(1)] access(3) by (metis option.inject prod.inject)
  next
    case (active fa x k)
    then show ?thesis using active_step [OF inv ok pcs access(4) active(1) m] access(3) by metis
  next
    case (counted k)
    then show ?thesis using count_step [OF inv ok pcs access(4) counted(1)] access(3) by metis
  next
    case (cleanup h)
    then show ?thesis using live(2) by simp
  qed
qed

lemma data_mono:
  assumes step: "tp_step n m t c s = Some s'" and pcs: "pcs_ok n m s"
  shows "\<not> dropped (data s') \<Longrightarrow> \<not> dropped (data s)" "tworkers (data s') = [] \<longleftrightarrow> tworkers (data s) = [] \<or> (pc s t = Stop_free \<and> pc s' t = Client)"
    "running (data s') = running (data s) \<or> (pc s t = Stop_set \<and> \<not> running (data s'))"
proof -
  have "(\<not> dropped (data s') \<longrightarrow> \<not> dropped (data s)) \<and> (tworkers (data s') = [] \<longleftrightarrow> tworkers (data s) = [] \<or> (pc s t = Stop_free \<and> pc s' t = Client)) \<and>
      (running (data s') = running (data s) \<or> (pc s t = Stop_set \<and> \<not> running (data s')))"
    using step pcs
  proof (cases rule: tp_step_cases)
    case control
    then show ?thesis by (cases "pc s t") (auto simp: prog_simps tp_defs)
  next
    case (access f)
    have pt: "point_ok n (pc s t)" "is_worker (pc s t) = (t < n)" using pcs by (simp_all add: pcs_ok_def)
    from access(1,2) pt show ?thesis
    proof (cases rule: do_cases)
      case same
      then show ?thesis using access(3) by (cases "pc s t") (auto simp: same_data_def)
    next
      case (take k nx x w)
      then show ?thesis by (cases "pc s t") (auto simp: takes_def)
    qed auto
  qed
  then show "\<not> dropped (data s') \<Longrightarrow> \<not> dropped (data s)" "tworkers (data s') = [] \<longleftrightarrow> tworkers (data s) = [] \<or> (pc s t = Stop_free \<and> pc s' t = Client)"
    "running (data s') = running (data s) \<or> (pc s t = Stop_set \<and> \<not> running (data s'))" by blast+
qed

section \<open>The reachable states\<close>

text \<open>
  The scan of \<^verbatim>\<open>cx_threadpool_schedule\<close> chooses the first worker at once: no queue is as long
  as \<^verbatim>\<open>SIZE_MAX\<close>.
\<close>

definition scan_ok :: "tp_system \<Rightarrow> bool" where
  "scan_ok s \<longleftrightarrow> (\<forall>t fa x i l. pc s t = Scan fa x i None l \<longrightarrow> i = 0)"

lemma queue_length_bound:
  assumes inv: "tp_inv n m h0 s qs L" and k: "k < n"
  shows "wqueue_length (tworkers (data s) ! k) < - 1"
proof -
  have "unat (wqueue_length (tworkers (data s) ! k)) \<le> length (qs ! k)" "length qs = n"
    using inv k by (auto simp: tp_inv_def queues_ok_def)
  then have "unat (wqueue_length (tworkers (data s) ! k)) < 2 ^ 62"
    using length_concat_nth [of k qs] length_queues [OF inv] k by simp
  then show ?thesis by (simp add: word_less_nat_alt unsigned_minus_1_eq_mask mask_eq_exp_minus_1)
qed

lemma scan_ok_step:
  assumes scan: "scan_ok s" and inv: "tp_inv n m h0 s qs L" and pcs: "pcs_ok n m s" and step: "tp_step n m t c s = Some s'"
  shows "scan_ok s'"
  unfolding scan_ok_def
proof (intro allI impI)
  fix u fa x i l assume u: "pc s' u = Scan fa x i None l"
  note P = exec_pc [OF step [unfolded tp_step_def]]
  show "i = 0"
  proof (cases "u = t \<and> pc s' t \<noteq> pc s t")
    case False
    then have "pc s u = Scan fa x i None l" using u P(1) by (metis fun_upd_apply)
    then show ?thesis using scan unfolding scan_ok_def by blast
  next
    case True
    have lead: "leads (thread_prog n t (pc s t)) (pc s' t)" using P(2) True u tp_enter_cases(6) [of n m s t] by auto
    have po: "point_ok n (pc s t)" using pcs by (simp add: pcs_ok_def)
    have sc: "i' = 0" if "pc s t = Scan fa' x' i' None l'" for fa' x' i' l' using scan that unfolding scan_ok_def by blast
    from step pcs show ?thesis
    proof (cases rule: tp_step_cases)
      case control
      then show ?thesis using lead po True u
        by (cases "pc s t") (auto simp: prog_simps tp_defs split: if_splits)
    next
      case (access f)
      then show ?thesis using po sc True u queue_length_bound [OF inv]
        by (cases "pc s t") (auto simp: prog_simps tp_defs bind_Some_iff Let_def split: if_splits option.splits)
    qed
  qed
qed

section \<open>Cleaning up\<close>

text \<open>
  A client that cleans up is alone. It sets \<open>running\<close> to false, and workers then run to their end; the
  first \<open>joined n p\<close> of them have reached it when the client is at \<open>p\<close>.
\<close>

fun joined :: "nat \<Rightarrow> tp_pc \<Rightarrow> nat" where
  "joined n (Stop_lock i) = i"
| "joined n (Stop_signal i) = i"
| "joined n (Stop_unlock i) = i"
| "joined n (Stop_join i) = i"
| "joined n Stop_free = n"
| "joined n p = 0"

definition stop_ok :: "nat \<Rightarrow> tp_system \<Rightarrow> bool" where
  "stop_ok n s \<longleftrightarrow>
     (\<forall>t u. stopping (pc s t) \<and> n \<le> u \<and> u \<noteq> t \<longrightarrow> pc s u = Client) \<and>
     (\<forall>t. stopping (pc s t) \<longrightarrow> running (data s) = (pc s t = Stop_set)) \<and>
     (\<not> running (data s) \<longrightarrow> tworkers (data s) = [] \<or> (\<exists>t. stopping (pc s t))) \<and>
     (tworkers (data s) = [] \<longrightarrow> \<not> running (data s) \<and> (\<forall>j<n. pc s j = Exited) \<and> (\<forall>u\<ge>n. pc s u = Client)) \<and>
     (\<forall>t. \<forall>j<joined n (pc s t). pc s j = Exited) \<and>
     (\<forall>j. pc s j = Exited \<longrightarrow> \<not> running (data s))"

lemma stop_okD:
  assumes "stop_ok n s"
  shows "stopping (pc s t) \<Longrightarrow> n \<le> u \<Longrightarrow> u \<noteq> t \<Longrightarrow> pc s u = Client"
    "stopping (pc s t) \<Longrightarrow> running (data s) \<longleftrightarrow> pc s t = Stop_set"
    "\<not> running (data s) \<Longrightarrow> tworkers (data s) = [] \<or> (\<exists>t. stopping (pc s t))"
    "tworkers (data s) = [] \<Longrightarrow> \<not> running (data s)" "tworkers (data s) = [] \<Longrightarrow> j < n \<Longrightarrow> pc s j = Exited"
    "tworkers (data s) = [] \<Longrightarrow> n \<le> u \<Longrightarrow> pc s u = Client"
    "j < joined n (pc s t) \<Longrightarrow> pc s j = Exited" "pc s j = Exited \<Longrightarrow> \<not> running (data s)"
  using assms unfolding stop_ok_def by blast+

lemma leads_stopping:
  "leads (thread_prog n t p) q \<Longrightarrow> stopping q \<Longrightarrow> stopping p \<and> q \<noteq> Stop_set"
  "leads (thread_prog n t p) q \<Longrightarrow> stopping p \<Longrightarrow> stopping q \<or> (p = Stop_free \<and> q = Client)"
  "leads (thread_prog n t p) q \<Longrightarrow> q = Exited \<Longrightarrow> p = Run_top"
  "leads (thread_prog n t p) q \<Longrightarrow> joined n q \<le> joined n p \<or> (\<exists>i. p = Stop_join i \<and> joined n q \<le> i + 1)"
  by (cases p; auto simp: prog_simps tp_defs bind_Some_iff Let_def split: if_splits option.splits)+

lemma stop_okI:
  assumes "\<And>t u. stopping (pc s t) \<Longrightarrow> n \<le> u \<Longrightarrow> u \<noteq> t \<Longrightarrow> pc s u = Client"
    "\<And>t. stopping (pc s t) \<Longrightarrow> running (data s) = (pc s t = Stop_set)"
    "\<not> running (data s) \<Longrightarrow> tworkers (data s) = [] \<or> (\<exists>t. stopping (pc s t))"
    "tworkers (data s) = [] \<Longrightarrow> \<not> running (data s) \<and> (\<forall>j<n. pc s j = Exited) \<and> (\<forall>u\<ge>n. pc s u = Client)"
    "\<And>t j. j < joined n (pc s t) \<Longrightarrow> pc s j = Exited" "\<And>j. pc s j = Exited \<Longrightarrow> \<not> running (data s)"
  shows "stop_ok n s"
proof -
  have "\<forall>t u. stopping (pc s t) \<and> n \<le> u \<and> u \<noteq> t \<longrightarrow> pc s u = Client" using assms(1) by blast
  moreover have "\<forall>t. stopping (pc s t) \<longrightarrow> running (data s) = (pc s t = Stop_set)" using assms(2) by blast
  moreover have "\<forall>t. \<forall>j<joined n (pc s t). pc s j = Exited" using assms(5) by blast
  moreover have "\<forall>j. pc s j = Exited \<longrightarrow> \<not> running (data s)" using assms(6) by blast
  ultimately show ?thesis using assms(3,4) unfolding stop_ok_def by (intro conjI) (assumption | rule impI)+
qed

text \<open>After the cleanup nothing happens any more.\<close>

lemma after_cleanup:
  assumes "stop_ok n s" "tworkers (data s) = []"
  shows "tp_step n m t c s = None"
proof (rule ccontr)
  assume "tp_step n m t c s \<noteq> None"
  then obtain s' where step: "tp_step n m t c s = Some s'" by blast
  have r: "thread_prog n t (pc s t) = Rest" "\<not> running (data s)"
    using stop_okD(4-6) [OF assms(1)] assms(2) by (cases "t < n"; auto simp: prog_simps)+
  then have "tp_enter n m s t k = None" for k by (simp add: tp_enter_def)
  then show False using step r(1) unfolding tp_step_def by (auto elim: exec_cases)
qed

lemma do_set:
  "thread_prog n t p = Do f \<Longrightarrow> f d = Some (d', q) \<Longrightarrow> p = Stop_set \<Longrightarrow> \<not> running d' \<and> stopping q \<and> q \<noteq> Stop_set"
  "thread_prog n t p = Do f \<Longrightarrow> f d = Some (d', q) \<Longrightarrow> p = Run_top \<Longrightarrow> q = Exited \<Longrightarrow> \<not> running d'"
  by (auto simp: prog_simps tp_defs Let_def split: if_splits)

lemma access_step:
  assumes "tp_step n m t c s = Some s'" "pcs_ok n m s"
  shows "pc s t = Stop_set \<Longrightarrow> \<not> running (data s') \<and> stopping (pc s' t) \<and> pc s' t \<noteq> Stop_set"
    "pc s t = Run_top \<Longrightarrow> pc s' t = Exited \<Longrightarrow> \<not> running (data s')"
proof -
  have "(pc s t = Stop_set \<longrightarrow> \<not> running (data s') \<and> stopping (pc s' t) \<and> pc s' t \<noteq> Stop_set) \<and>
      (pc s t = Run_top \<longrightarrow> pc s' t = Exited \<longrightarrow> \<not> running (data s'))"
    using assms
  proof (cases rule: tp_step_cases)
    case control
    then show ?thesis by (auto simp: prog_simps tp_defs)
  next
    case (access f)
    then show ?thesis using do_set [of n t "pc s t" f "data s"] by blast
  qed
  then show "pc s t = Stop_set \<Longrightarrow> \<not> running (data s') \<and> stopping (pc s' t) \<and> pc s' t \<noteq> Stop_set"
    "pc s t = Run_top \<Longrightarrow> pc s' t = Exited \<Longrightarrow> \<not> running (data s')" by blast+
qed

lemma stop_ok_same:
  assumes ok: "stop_ok n s" and "pc s' = pc s" "running (data s') = running (data s)" "tworkers (data s') = [] \<longleftrightarrow> tworkers (data s) = []"
  shows "stop_ok n s'"
  using ok unfolding stop_ok_def assms(2-4) .

lemma stop_ok_enter:
  assumes ok: "stop_ok n s" and pcs: "pcs_ok n m s" and ne: "tworkers (data s) \<noteq> []" and enter: "tp_enter n m s t k = Some (pc s' t)"
    and s': "pc s' = (pc s)(t := pc s' t)" "data s' = data s"
  shows "stop_ok n s'"
proof -
  note E = tp_enter_cases [OF enter] and K = stop_okD [OF ok]
  have none: "\<not> stopping (pc s v)" for v
  proof
    assume v: "stopping (pc s v)"
    have w: "is_worker (pc s v) = (v < n)" "m \<le> v \<Longrightarrow> pc s v = Client" using pcs by (simp_all add: pcs_ok_def)
    have "\<not> is_worker (pc s v)" using v by (cases "pc s v") simp_all
    moreover have "pc s v \<noteq> Client" using v by auto
    ultimately have "v \<in> {n..<m}" using w by (cases "m \<le> v") simp_all
    then show False using E(5) v by blast
  qed
  have other: "pc s' u = pc s u" if "u \<noteq> t" for u using s'(1) that by (metis fun_upd_apply)
  have c1: "pc s' u = Client" if "stopping (pc s' v)" "n \<le> u" "u \<noteq> v" for u v
  proof -
    have "v = t" using that(1) none [of v] other [of v] by metis
    then have "pc s' t = Stop_set" using that(1) E(6) by auto
    then show ?thesis using E(6) other [of u] \<open>v = t\<close> that pcs by (cases "u < m") (auto simp: pcs_ok_def)
  qed
  have c2: "running (data s') = (pc s' v = Stop_set)" if "stopping (pc s' v)" for v
  proof -
    have "v = t" using that none [of v] other [of v] by metis
    then show ?thesis using that E(4,6) s'(2) by auto
  qed
  have c3: "pc s' j = Exited" if "j < joined n (pc s' v)" for j v
  proof -
    have "joined n (pc s' t) = 0" using E(6) by auto
    then have "v \<noteq> t" using that by auto
    then have "pc s j = Exited" using K(7) [of j v] that other by simp
    then show ?thesis using E(3) other [of j] by (cases "j = t") auto
  qed
  have c4: "\<not> running (data s')" if "pc s' j = Exited" for j
    using that E(6) other [of j] K(8) [of j] s'(2) by (cases "j = t") auto
  show ?thesis by (rule stop_okI [OF c1 c2 _ _ c3 c4]) (use ne E(4) s'(2) in simp_all)
qed

lemma stop_ok_leads:
  assumes ok: "stop_ok n s" and pcs: "pcs_ok n m s" and step: "tp_step n m t c s = Some s'" and ne: "tworkers (data s) \<noteq> []"
    and leads: "leads (thread_prog n t (pc s t)) (pc s' t)"
  shows "stop_ok n s'"
proof -
  note S = step [unfolded tp_step_def]
  note P = exec_pc(1) [OF S] and M = data_mono [OF step pcs] and K = stop_okD [OF ok] and Q = leads_stopping [OF leads] and A = access_step [OF step pcs]
  have other: "pc s' u = pc s u" if "u \<noteq> t" for u using P that by (metis fun_upd_apply)
  have p: "pc s t \<noteq> Client" "pc s t \<noteq> Exited" using leads by (auto simp: prog_simps)
  have wk: "is_worker (pc s u) = (u < n)" for u using pcs by (simp add: pcs_ok_def)
  have client: "n \<le> u" if "stopping (pc s u)" for u using wk [of u] that by (cases "pc s u") auto
  have alone: "v = t" if "stopping (pc s t)" "stopping (pc s v)" for v using K(1) [OF that(1) client [OF that(2)]] that(2) by (cases "v = t") auto
  have c1: "pc s' u = Client" if "stopping (pc s' v)" "n \<le> u" "u \<noteq> v" for u v
  proof (cases "v = t")
    case True
    then show ?thesis using Q(1) that K(1) [of t u] other [of u] by auto
  next
    case False
    then have v: "stopping (pc s v)" using that(1) other by simp
    then show ?thesis using K(1) [OF v that(2,3)] p(1) other [of u] by (cases "u = t") auto
  qed
  have c2: "running (data s') = (pc s' v = Stop_set)" if v: "stopping (pc s' v)" for v
  proof (cases "v = t")
    case True
    then have "stopping (pc s t)" "pc s' v \<noteq> Stop_set" using Q(1) v by auto
    then show ?thesis using K(2) [of t] A(1) M(3) by (cases "pc s t = Stop_set") auto
  next
    case False
    then have "stopping (pc s v)" using v other by simp
    then have "pc s t \<noteq> Stop_set" using alone False by auto
    then show ?thesis using K(2) [OF \<open>stopping (pc s v)\<close>] M(3) other [OF False] by auto
  qed
  have c3: "tworkers (data s') = [] \<or> (\<exists>v. stopping (pc s' v))" if r: "\<not> running (data s')"
  proof (cases "running (data s)")
    case True
    then have "pc s t = Stop_set" using M(3) r by auto
    then show ?thesis using A(1) by blast
  next
    case False
    then obtain v where v: "stopping (pc s v)" using K(3) ne by blast
    show ?thesis
    proof (cases "v = t")
      case True
      then show ?thesis using Q(2) v M(2) by blast
    next
      case False
      then show ?thesis using v other [of v] by metis
    qed
  qed
  have c4: "\<not> running (data s') \<and> (\<forall>j<n. pc s' j = Exited) \<and> (\<forall>u\<ge>n. pc s' u = Client)" if e: "tworkers (data s') = []"
  proof -
    have s: "pc s t = Stop_free" "pc s' t = Client" using M(2) e ne by simp_all
    have "\<not> running (data s')" using K(2) [of t] s M(3) by auto
    moreover have "pc s' j = Exited" if "j < n" for j
      using K(7) [of j t] s that other [of j] by (cases "j = t") auto
    moreover have "pc s' u = Client" if "n \<le> u" for u
      using K(1) [of t u] s that other [of u] by (cases "u = t") auto
    ultimately show ?thesis by blast
  qed
  have c5: "pc s' j = Exited" if j: "j < joined n (pc s' v)" for j v
  proof -
    have "pc s j = Exited"
    proof (cases "v = t \<and> \<not> j < joined n (pc s t)")
      case True
      then obtain i where i: "pc s t = Stop_join i" "j \<le> i" using Q(4) j by auto
      then have "j = i" using True by auto
      have "thread_prog n t (pc s t) = Join i (if i + 1 < n then Stop_lock (i + 1) else Stop_free)"
        using i(1) by (simp add: prog_simps tp_defs)
      then show ?thesis using tp.join_step(1) [OF S] \<open>j = i\<close> by simp
    next
      case False
      then show ?thesis using K(7) [of j v] j other [of v] K(7) [of j t] by (cases "v = t") auto
    qed
    then show ?thesis using p(2) other [of j] by (cases "j = t") auto
  qed
  have c6: "\<not> running (data s')" if "pc s' j = Exited" for j
    using that Q(3) A(2) other [of j] K(8) [of j] M(3) by (cases "j = t") auto
  show ?thesis by (rule stop_okI [OF c1 c2 c3 c4 c5 c6])
qed

lemma stop_ok_step:
  assumes ok: "stop_ok n s" and pcs: "pcs_ok n m s" and step: "tp_step n m t c s = Some s'"
  shows "stop_ok n s'"
proof -
  note S = step [unfolded tp_step_def]
  note P = exec_pc [OF S] and M = data_mono [OF step pcs]
  have ne: "tworkers (data s) \<noteq> []" using after_cleanup [OF ok] step by auto
  consider (enter) k where "tp_enter n m s t k = Some (pc s' t)" | (leads) "leads (thread_prog n t (pc s t)) (pc s' t)" | (stay) "pc s' t = pc s t"
    using P(2) by blast
  then show ?thesis
  proof cases
    case enter
    then have "data s' = data s" using exec_data [OF S] tp_enter_cases(3) [OF enter] by (auto simp: prog_simps)
    then show ?thesis by (rule stop_ok_enter [OF ok pcs ne enter P(1)])
  next
    case leads
    then show ?thesis by (rule stop_ok_leads [OF ok pcs step ne])
  next
    case stay
    then have "pc s' = pc s" using P(1) by (metis fun_upd_triv)
    moreover have "running (data s') = running (data s)" using M(3) access_step(1) [OF step pcs] stay by auto
    moreover have "tworkers (data s') = [] \<longleftrightarrow> tworkers (data s) = []" using M(2) stay by auto
    ultimately show ?thesis by (rule stop_ok_same [OF ok])
  qed
qed

section \<open>Every reachable state\<close>

definition tp_ok :: "nat \<Rightarrow> nat \<Rightarrow> heap \<Rightarrow> tp_system \<Rightarrow> bool" where
  "tp_ok n m h0 s \<longleftrightarrow> locks_ok n s \<and> pcs_ok n m s \<and> stop_ok n s \<and>
     (\<not> dropped (data s) \<and> tworkers (data s) \<noteq> [] \<longrightarrow> scan_ok s \<and> (\<exists>qs L. tp_inv n m h0 s qs L)) \<and>
     (\<not> dropped (data s) \<and> tworkers (data s) = [] \<longrightarrow> frame {} {} h0 (theap (data s)))"

lemma cleanup_step:
  assumes inv: "tp_inv n m h0 s qs L" and step: "tp_step n m t c s = Some s'" and pcs: "pcs_ok n m s"
    and p: "pc s t = Stop_free" "pc s' t = Client"
  shows "frame {} {} h0 (theap (data s'))"
proof -
  obtain F X where T: "tasks_at (theap (data s)) (task_pool (data s)) F L X" "frame {} X h0 (theap (data s))" using tp_inv_tasks [OF inv] .
  from step pcs show ?thesis
  proof (cases rule: tp_step_cases)
    case (access f)
    have "point_ok n (pc s t)" "is_worker (pc s t) = (t < n)" using pcs by (simp_all add: pcs_ok_def)
    from access(1,2) this obtain h where "cx_prealloc_pool_cleanup (task_pool (data s)) (theap (data s)) = Some h" "theap (data s') = h"
      by (cases rule: do_cases; use p in \<open>auto simp: takes_def\<close>)
    moreover obtain h' where "cx_prealloc_pool_cleanup (task_pool (data s)) (theap (data s)) = Some h'" "frame X {} (theap (data s)) h'"
      using pool_at_cleanup [of "theap (data s)" "task_pool (data s)" F L X] T(1) by (auto simp: tasks_at_def)
    ultimately show ?thesis using frame_trans [OF T(2)] by simp
  qed (use p in \<open>auto simp: prog_simps tp_defs\<close>)
qed

lemma tp_ok_step:
  assumes ok: "tp_ok n m h0 s" and step: "tp_step n m t c s = Some s'" and m: "m < 2 ^ 62"
  shows "tp_ok n m h0 s'"
proof -
  have l: "locks_ok n s" and p: "pcs_ok n m s" and st: "stop_ok n s" using ok by (simp_all add: tp_ok_def)
  note M = data_mono [OF step p]
  have live: "scan_ok s' \<and> (\<exists>qs L. tp_inv n m h0 s' qs L)" if d: "\<not> dropped (data s')" "tworkers (data s') \<noteq> []"
  proof -
    have "\<not> dropped (data s)" "tworkers (data s) \<noteq> []" using M(1,2) d by blast+
    then obtain qs L where inv: "tp_inv n m h0 s qs L" "scan_ok s" using ok by (auto simp: tp_ok_def)
    then show ?thesis using tp_inv_step [OF inv(1) l p m step d] scan_ok_step [OF inv(2,1) p step] by blast
  qed
  have "frame {} {} h0 (theap (data s'))" if d: "\<not> dropped (data s')" "tworkers (data s') = []"
  proof (cases "tworkers (data s) = []")
    case True
    then show ?thesis using after_cleanup [OF st] step by simp
  next
    case False
    then have s: "pc s t = Stop_free" "pc s' t = Client" using M(2) d by simp_all
    obtain qs L where "tp_inv n m h0 s qs L" using ok M(1) d False by (auto simp: tp_ok_def)
    then show ?thesis by (rule cleanup_step [OF _ step p s])
  qed
  then show ?thesis using locks_ok_step [OF l step] pcs_ok_step [OF p step] stop_ok_step [OF st p step] live by (simp add: tp_ok_def)
qed

section \<open>The start\<close>

lemma those_map_nth:
  "those (map g xs) = Some ys \<Longrightarrow> length ys = length xs \<and> (\<forall>i < length xs. g (xs ! i) = Some (ys ! i))"
proof (induction xs arbitrary: ys)
  case (Cons x xs)
  then obtain y zs where y: "g x = Some y" "those (map g xs) = Some zs" "ys = y # zs" by (auto split: option.splits)
  show ?case using Cons.IH [OF y(2)] y(1,3) by (auto simp: nth_Cons split: nat.splits)
qed simp

lemma start_simps [simp]:
  "data (tp_start d) = d" "owners (tp_start d) mu = None" "waiters (tp_start d) cv = {}"
  "pc (tp_start d) t = (if t < length (tworkers d) then Run_top else Client)"
  by (simp_all add: tp_start_def)

lemma start_quiet: "tp.quiet n (tp_start d)"
  by (simp add: tp.quiet_def)

lemma init_workers:
  assumes "cx_threadpool_init wc sysconf al mi ci cr h = Some (rv, d)" "k < length (tworkers d)"
  shows "tworkers d ! k = \<lparr>whead = 0, wtail = 0, wqueue_length = 0\<rparr>"
proof -
  let ?n = "if wc = 0 then of_int (cpu_count sysconf) else wc :: u64"
  consider "those (map (\<lambda>i. worker_init (mi i) (ci i)) [0..<unat ?n]) = Some (tworkers d)" | "tworkers d = []"
    using assms(1) by (auto simp: cx_threadpool_init_def Let_def bind_Some_iff split: if_splits)
  then show ?thesis
  proof cases
    case 1
    have "worker_init (mi k) (ci k) = Some (tworkers d ! k)" using those_map_nth [OF 1] assms(2) by auto
    then show ?thesis by (auto simp: worker_init_def split: if_splits)
  qed (use assms(2) in simp)
qed

lemma init_fields:
  assumes "cx_threadpool_init wc sysconf al mi ci cr h = Some (rv, d)"
  shows "running d" "active_tasks d = 0" "theap d = h" "scheduled d = []" "executed d = []" "\<not> dropped d"
    "cx_prealloc_pool_init2 8 24 = Some (task_pool d)" "rv = 0"
  using assms by (auto simp: cx_threadpool_init_def cx_prealloc_pool_init_def task_size_def Let_def bind_Some_iff split: if_splits)

lemma start_inv:
  assumes init: "cx_threadpool_init wc sysconf al mi ci cr h = Some (rv, d)" and h: "heap_ok h"
  shows "tp_inv (length (tworkers d)) m h (tp_start d) (replicate (length (tworkers d)) []) []"
proof -
  note I = init_fields [OF init] and W = init_workers [OF init]
  let ?n = "length (tworkers d)"
  have pool: "pool_inv h (task_pool d) [] [] []" "pool_element_size (task_pool d) = 24" using init_inv [OF h I(7)] by simp_all
  then have "pool_at h (task_pool d) [] [] {}" unfolding pool_at_def by (intro exI [of _ "[]"]) (simp add: own_pool_def)
  then have "tasks_at h (task_pool d) [] [] {}" using pool(2) by (simp add: tasks_at_def)
  moreover have "frame {} {} h h" by (rule frame_refl) simp
  moreover have "concat (replicate ?n []) = []" by (induction ?n) auto
  moreover have "held (pc (tp_start d) t) = {#}" "todo (pc (tp_start d) t) = {#}" "busy (pc (tp_start d) t) = 0" for t by simp_all
  then have "(\<Sum>t<m. held (pc (tp_start d) t)) = {#}" "(\<Sum>t<m. todo (pc (tp_start d) t)) = {#}" "(\<Sum>t<m. busy (pc (tp_start d) t)) = 0"
    by (simp_all only: sum.neutral_const)
  ultimately show ?thesis using I W
    by (auto simp: tp_inv_def queues_ok_def places_ok_def counts_ok_def order_ok_def at_queue_def queue_at_def tasks_of_def)
qed

lemma tp_ok_start:
  assumes init: "cx_threadpool_init wc sysconf al mi ci cr h = Some (rv, d)" "heap_ok h" and n: "0 < length (tworkers d)" "length (tworkers d) \<le> m"
  shows "tp_ok (length (tworkers d)) m h (tp_start d)"
proof -
  have "locks_ok (length (tworkers d)) (tp_start d)" by (simp add: locks_ok_def)
  moreover have "pcs_ok (length (tworkers d)) m (tp_start d)" using n by (auto simp: pcs_ok_def)
  moreover have "stop_ok (length (tworkers d)) (tp_start d)" using n init_fields(1) [OF init(1)] by (auto simp: stop_ok_def)
  moreover have "scan_ok (tp_start d)" by (auto simp: scan_ok_def split: if_splits)
  ultimately show ?thesis using start_inv [OF init] n unfolding tp_ok_def by auto
qed

lemma tp_ok_reach:
  assumes "reach (tp_step n m) allowed s0 s" "tp_ok n m h0 s0" "m < 2 ^ 62"
  shows "tp_ok n m h0 s"
  using assms by (induction rule: reach.induct) (auto intro: tp_ok_step)

end
