(* ===== verification/ThreadpoolWake.thy ===== *)
theory ThreadpoolWake
  imports ThreadpoolReach
begin

text \<open>
  Who sleeps in the thread pool, and who is on the way to wake it: no step is undefined, no worker sleeps
  beside a task unless its signal is on the way, and where the threads are when none of them can go on.
\<close>

section \<open>Nothing is undefined\<close>

lemma take_defined:
  assumes inv: "tp_inv n m h0 s qs L" and ok: "locks_ok n s" and tk: "takes n t (pc s t) k nx"
  shows "worker_get_task (tworkers (data s) ! k) (theap (data s)) \<noteq> None"
    "worker_get_task (tworkers (data s) ! k) (theap (data s)) = Some (x, w) \<Longrightarrow>
      (x = 0 \<and> w = tworkers (data s) ! k \<and> wqueue_length w = 0) \<or> (x \<noteq> 0 \<and> wqueue_length (tworkers (data s) ! k) \<noteq> 0)"
proof -
  have T: "k < n" "tp_holds n t (pc s t) = Some (Queue_mutex k)" "linked (pc s t) = []" "uncounted (pc s t) = 0" using tk by (auto simp: takes_def)
  have tl: "tail_of s k = []" "owed s k = 0"
    using at_queue_do(2) [OF ok T(2), of "[]" linked] at_queue_do(2) [OF ok T(2), of 0 uncounted] T by simp_all
  obtain F X where tasks: "tasks_at (theap (data s)) (task_pool (data s)) F L X" using tp_inv_tasks [OF inv] .
  have q: "length qs = n" "queue_at (theap (data s)) (tworkers (data s) ! k) (qs ! k)" "unat (wqueue_length (tworkers (data s) ! k)) = length (qs ! k)"
    using inv T(1) tl by (auto simp: tp_inv_def queues_ok_def)
  have "places_ok m s qs L" using inv by (simp add: tp_inv_def)
  then have sub: "set (qs ! k) \<subseteq> set L" using place_cases(1) [of m s qs L] concat_nth_sub [of k qs] q(1) T(1) by blast
  note G = get_task_spec [OF tasks q(2) sub]
  show "worker_get_task (tworkers (data s) ! k) (theap (data s)) \<noteq> None" using G by (cases "qs ! k") auto
  show "(x = 0 \<and> w = tworkers (data s) ! k \<and> wqueue_length w = 0) \<or> (x \<noteq> 0 \<and> wqueue_length (tworkers (data s) ! k) \<noteq> 0)"
    if "worker_get_task (tworkers (data s) ! k) (theap (data s)) = Some (x, w)"
    using G that q(3) by (cases "qs ! k") (auto simp: unat_eq_zero)
qed

lemma defined:
  assumes ok: "tp_ok n m h0 s" and live: "\<not> dropped (data s)" and n: "0 < n" and f: "thread_prog n t (pc s t) = Do f"
  shows "f (data s) \<noteq> None"
proof -
  have l: "locks_ok n s" and p: "pcs_ok n m s" and st: "stop_ok n s" using ok by (simp_all add: tp_ok_def)
  have "tworkers (data s) \<noteq> []" using stop_okD(5,6) [OF st, of t] f by (cases "t < n") (auto simp: prog_simps)
  then obtain qs L where inv: "tp_inv n m h0 s qs L" and sc: "scan_ok s" using ok live by (auto simp: tp_ok_def)
  have t: "t < m" using p f by (cases "t < m") (auto simp: pcs_ok_def not_less prog_simps)
  have pt: "point_ok n (pc s t)" "is_worker (pc s t) = (t < n)" using p by (simp_all add: pcs_ok_def)
  obtain F X where tasks: "tasks_at (theap (data s)) (task_pool (data s)) F L X" using tp_inv_tasks [OF inv] .
  show ?thesis
  proof (cases "pc s t")
    case (Find_get i)
    have "takes n t (pc s t) ((i + t) mod n) (Find_unlock i)" using Find_get pt by (auto simp: takes_def)
    from take_defined(1) [OF inv l this] show ?thesis using f Find_get by (auto simp: prog_simps tp_defs)
  next
    case Wait_get
    have "takes n t (pc s t) t Wait_test" using Wait_get pt by (auto simp: takes_def)
    from take_defined(1) [OF inv l this] show ?thesis using f Wait_get by (auto simp: prog_simps tp_defs)
  next
    case (New_get fa)
    then show ?thesis using f task_get_spec [OF tasks] by (auto simp: prog_simps tp_defs)
  next
    case (New_fill fa x)
    then show ?thesis using f fill_step [OF inv l p t New_fill] by (auto simp: prog_simps tp_defs)
  next
    case (Free_put x w)
    then show ?thesis using f put_step [OF inv l p t Free_put] by (auto simp: prog_simps tp_defs)
  next
    case (Run_task x)
    then show ?thesis using f run_step [OF inv l p t Run_task] by (auto simp: prog_simps tp_defs)
  next
    case (Push_link fa x k)
    then show ?thesis using f link_step [OF inv l p t Push_link] by (auto simp: prog_simps tp_defs)
  next
    case (Scan fa x i b l')
    have "b = None \<Longrightarrow> i = 0" using sc Scan unfolding scan_ok_def by blast
    then show ?thesis using f Scan n pt(1) by (cases b) (auto simp: prog_simps tp_defs Let_def split: if_splits)
  next
    case Stop_free
    have "pool_at (theap (data s)) (task_pool (data s)) F L X" using tasks by (simp add: tasks_at_def)
    then show ?thesis using f Stop_free pool_at_cleanup by (fastforce simp: prog_simps tp_defs)
  qed (use f in \<open>auto simp: prog_simps tp_defs Let_def split: if_splits\<close>)
qed

section \<open>Sleeping threads\<close>

definition waits_ok :: "nat \<Rightarrow> tp_system \<Rightarrow> bool" where
  "waits_ok n s \<longleftrightarrow> (\<forall>cv u. u \<in> waiters s cv \<longrightarrow> (\<exists>mu p. thread_prog n u (pc s u) = Woken cv mu p))"

lemma waits_ok_step: "waits_ok n s \<Longrightarrow> tp_step n m t c s = Some s' \<Longrightarrow> waits_ok n s'"
  unfolding waits_ok_def tp_step_def using tp.waiter_step by blast

lemma woken_cases:
  "thread_prog n u p = Woken cv mu q \<Longrightarrow> (p = Wait_asleep \<and> cv = Queue_cond u) \<or> (p = Join_asleep \<and> cv = Wait_cond)"
  by (cases p) (auto simp: prog_simps tp_defs split: if_splits)

lemma waits_okD:
  assumes "waits_ok n s" "u \<in> waiters s cv"
  shows "(pc s u = Wait_asleep \<and> cv = Queue_cond u) \<or> (pc s u = Join_asleep \<and> cv = Wait_cond)"
  using assms woken_cases unfolding waits_ok_def by blast

text \<open>A worker that is about to sleep, or does, has an empty queue, or a signal is on its way.\<close>

definition drowsy :: "tp_system \<Rightarrow> nat \<Rightarrow> bool" where
  "drowsy s k \<longleftrightarrow> k \<in> waiters s (Queue_cond k) \<or> pc s k = Wait_test 0 \<or> pc s k = Wait_sleep"

definition woken_up :: "nat \<Rightarrow> tp_system \<Rightarrow> bool" where
  "woken_up n s \<longleftrightarrow> (\<forall>k < n. drowsy s k \<longrightarrow> wqueue_length (tworkers (data s) ! k) = 0 \<or> (\<exists>t. pc s t = Push_signal k))"

text \<open>What a step does to the counter of a queue.\<close>

lemma queue_length_step:
  assumes inv: "tp_inv n m h0 s qs L" and ok: "locks_ok n s" and pcs: "pcs_ok n m s" and step: "tp_step n m t c s = Some s'"
    and live: "tworkers (data s') \<noteq> []" and k: "k < n"
  shows "wqueue_length (tworkers (data s') ! k) = wqueue_length (tworkers (data s) ! k) \<or>
    (pc s t = Push_count k \<and> pc s' t = Push_signal k) \<or>
    (\<exists>nx. takes n t (pc s t) k nx \<and> wqueue_length (tworkers (data s) ! k) \<noteq> 0)"
  using step pcs
proof (cases rule: tp_step_cases)
  case (access f)
  have len: "length (tworkers (data s)) = n" using inv by (simp add: tp_inv_def queues_ok_def)
  have pt: "point_ok n (pc s t)" "is_worker (pc s t) = (t < n)" using pcs by (simp_all add: pcs_ok_def)
  from access(1,2) pt show ?thesis
  proof (cases rule: do_cases)
    case (take j nx x w)
    then show ?thesis using take_defined(2) [OF inv ok take(1,2)] len k by (cases "j = k") auto
  next
    case (link fa x j w h)
    then show ?thesis using link_step [OF inv ok pcs access(4) link(1)] len k
      by (cases "j = k") (auto simp: link_task_def bind_Some_iff split: if_splits)
  next
    case (counted j)
    then show ?thesis using len k by (cases "j = k") auto
  qed (use live in \<open>auto simp: same_data_def\<close>)
qed simp

lemma step_leads:
  assumes "tp_step n m t c s = Some s'"
  shows "leads (thread_prog n t (pc s t)) (pc s' t) \<or> pc s' t = pc s t \<or>
    (pc s t = Client \<and> (pc s' t = Join_lock \<or> pc s' t = Stop_set \<or> (\<exists>fa. pc s' t = New_lock fa)))"
  using exec_pc(2) [OF assms [unfolded tp_step_def]] tp_enter_cases(3,6) by metis

lemma do_wait_get:
  "thread_prog n t p = Do f \<Longrightarrow> f d = Some (d', q) \<Longrightarrow> p = Wait_get \<Longrightarrow>
    \<exists>x w. worker_get_task (tworkers d ! t) (theap d) = Some (x, w) \<and> q = Wait_test x \<and> tworkers d' = (tworkers d)[t := w]"
  by (auto simp: prog_simps tp_defs bind_Some_iff)

lemma drowsy_step:
  assumes pcs: "pcs_ok n m s" and w: "waits_ok n s" and step: "tp_step n m t c s = Some s'" and d: "drowsy s' k" "\<not> drowsy s k"
  shows "t = k" "pc s k = Wait_get" "pc s' k = Wait_test 0"
proof -
  note S = step [unfolded tp_step_def]
  note P = exec_pc [OF S]
  have other: "pc s' u = pc s u" if "u \<noteq> t" for u using P(1) that by (metis fun_upd_apply)
  have nw: "k \<notin> waiters s' (Queue_cond k)"
  proof
    assume "k \<in> waiters s' (Queue_cond k)"
    then obtain mu where "k = t" "thread_prog n t (pc s t) = Sleep (Queue_cond k) mu (pc s' t)"
      using exec_waiters [OF S, of k "Queue_cond k"] d(2) by (auto simp: drowsy_def)
    then have "pc s k = Wait_sleep" by (cases "pc s t") (auto simp: prog_simps tp_defs split: if_splits)
    then show False using d(2) by (simp add: drowsy_def)
  qed
  then have p: "pc s' k = Wait_test 0 \<or> pc s' k = Wait_sleep" using d(1) by (simp add: drowsy_def)
  have ne: "pc s' k \<noteq> pc s k" using p d(2) by (auto simp: drowsy_def)
  then show t: "t = k" using other by metis
  have "leads (thread_prog n k (pc s k)) (pc s' k)" using step_leads [OF step] t ne p by auto
  then have "pc s k = Wait_get \<and> pc s' k = Wait_test 0 \<or> pc s k = Wait_test 0"
    using p by (cases "pc s k") (auto simp: prog_simps tp_defs bind_Some_iff Let_def split: if_splits option.splits)
  then show "pc s k = Wait_get" "pc s' k = Wait_test 0" using d(2) by (auto simp: drowsy_def)
qed

lemma woken_up_step:
  assumes wk: "woken_up n s" and inv: "tp_inv n m h0 s qs L" and ok: "locks_ok n s" and pcs: "pcs_ok n m s" and w: "waits_ok n s"
    and step: "tp_step n m t c s = Some s'" and live: "tworkers (data s') \<noteq> []"
  shows "woken_up n s'"
  unfolding woken_up_def
proof (intro allI impI)
  fix k assume k: "k < n" and d: "drowsy s' k"
  note S = step [unfolded tp_step_def]
  have other: "pc s' u = pc s u" if "u \<noteq> t" for u using exec_pc(1) [OF S] that by (metis fun_upd_apply)
  have own: "owners s mu = Some u \<longleftrightarrow> tp_holds n u (pc s u) = Some mu" for mu u using ok by (simp add: locks_ok_def)
  have excl: "u = v" if "tp_holds n u (pc s u) = Some mu" "tp_holds n v (pc s v) = Some mu" for u v mu
    using own [of mu u] own [of mu v] that by simp
  note Q = queue_length_step [OF inv ok pcs step live k]
  show "wqueue_length (tworkers (data s') ! k) = 0 \<or> (\<exists>u. pc s' u = Push_signal k)"
  proof (cases "drowsy s k")
    case False
    note D = drowsy_step [OF pcs w step d False]
    have tk: "takes n t (pc s t) t Wait_test" using D pcs k by (auto simp: takes_def)
    from step pcs show ?thesis
    proof (cases rule: tp_step_cases)
      case control
      then show ?thesis using D by (auto simp: prog_simps tp_defs)
    next
      case (access f)
      have pt: "point_ok n (pc s t)" "is_worker (pc s t) = (t < n)" using pcs by (simp_all add: pcs_ok_def)
      have len: "length (tworkers (data s)) = n" using inv by (simp add: tp_inv_def queues_ok_def)
      obtain x w where "worker_get_task (tworkers (data s) ! k) (theap (data s)) = Some (x, w)" "pc s' t = Wait_test x"
          "tworkers (data s') = (tworkers (data s))[k := w]"
        using do_wait_get [OF access(1,2)] D by auto
      then show ?thesis using take_defined(2) [OF inv ok tk] D k len by auto
    qed
  next
    case True
    have asleep: "tp_holds n k (pc s k) = Some (Queue_mutex k) \<or> k \<in> waiters s (Queue_cond k)" using True by (auto simp: drowsy_def)
    have kw: "pc s k = Wait_asleep \<or> pc s k = Wait_test 0 \<or> pc s k = Wait_sleep" using True waits_okD [OF w] by (fastforce simp: drowsy_def)
    from wk k True consider (signal) u where "pc s u = Push_signal k" | (empty) "wqueue_length (tworkers (data s) ! k) = 0" "\<nexists>u. pc s u = Push_signal k"
      unfolding woken_up_def by blast
    then show ?thesis
    proof cases
      case signal
      show ?thesis
      proof (cases "u = t")
        case False
        then show ?thesis using signal other by metis
      next
        case True
        have "k \<noteq> t" using kw signal True by auto
        have ws: "waiters s (Queue_cond k) \<subseteq> {k}" using waits_okD [OF w] by fastforce
        have "thread_prog n t (pc s t) = Signal (Queue_cond k) (Push_unlock k)" using signal True by (simp add: prog_simps tp_defs)
        note G = tp.signal_step [OF S this]
        have "waiters s' (Queue_cond k) = {}" using G(2) ws by auto
        then have "pc s k = Wait_test 0 \<or> pc s k = Wait_sleep" using d other [OF \<open>k \<noteq> t\<close>] by (auto simp: drowsy_def)
        then have "k = t" by (intro excl [of _ "Queue_mutex k"]) (use signal True in auto)
        then show ?thesis using \<open>k \<noteq> t\<close> by simp
      qed
    next
      case empty
      then show ?thesis using Q by auto
    qed
  qed
qed

text \<open>After \<^verbatim>\<open>running\<close> was set to false the client that cleans up has not yet passed a worker that sleeps.\<close>

fun before :: "nat \<Rightarrow> tp_pc \<Rightarrow> bool" where
  "before k (Stop_lock i) = (i \<le> k)"
| "before k (Stop_signal i) = (i \<le> k)"
| "before k (Stop_unlock i) = (i < k)"
| "before k (Stop_join i) = (i < k)"
| "before k p = False"

definition drowsy2 :: "tp_system \<Rightarrow> nat \<Rightarrow> bool" where
  "drowsy2 s k \<longleftrightarrow> \<not> running (data s) \<and> (k \<in> waiters s (Queue_cond k) \<or> pc s k = Wait_sleep)"

definition stop_wakes :: "nat \<Rightarrow> tp_system \<Rightarrow> bool" where
  "stop_wakes n s \<longleftrightarrow> (\<forall>k < n. drowsy2 s k \<longrightarrow> (\<exists>t. before k (pc s t)))"

lemma do_sleep: "thread_prog n t p = Do f \<Longrightarrow> f d = Some (d', q) \<Longrightarrow> q = Wait_sleep \<Longrightarrow> running d \<and> d' = d"
  by (cases p) (auto simp: prog_simps tp_defs bind_Some_iff Let_def split: if_splits option.splits)

lemma before_leads:
  "leads (thread_prog n t p) q \<Longrightarrow> before k p \<Longrightarrow> k < n \<Longrightarrow> before k q \<or> p = Stop_signal k"
  by (cases p) (auto simp: prog_simps tp_defs split: if_splits)

lemma stop_wakes_step:
  assumes sw: "stop_wakes n s" and ok: "locks_ok n s" and pcs: "pcs_ok n m s" and w: "waits_ok n s"
    and step: "tp_step n m t c s = Some s'" and n: "0 < n"
  shows "stop_wakes n s'"
  unfolding stop_wakes_def
proof (intro allI impI)
  fix k assume k: "k < n" and d: "drowsy2 s' k"
  note S = step [unfolded tp_step_def]
  note P = exec_pc [OF S]
  have other: "pc s' u = pc s u" if "u \<noteq> t" for u using P(1) that by (metis fun_upd_apply)
  have own: "owners s mu = Some u \<longleftrightarrow> tp_holds n u (pc s u) = Some mu" for mu u using ok by (simp add: locks_ok_def)
  show "\<exists>u. before k (pc s' u)"
  proof (cases "running (data s)")
    case True
    then have "pc s t = Stop_set" using data_mono(3) [OF step pcs] d by (auto simp: drowsy2_def)
    moreover have "leads (thread_prog n t (pc s t)) (pc s' t)" using P(2) access_step(1) [OF step pcs] calculation tp_enter_cases(3) by fastforce
    ultimately have "pc s' t = Stop_lock 0" using n by (auto simp: prog_simps tp_defs)
    then show ?thesis by (metis before.simps(1) le0)
  next
    case False
    have "drowsy2 s k"
    proof -
      have "k \<in> waiters s (Queue_cond k) \<or> pc s k = Wait_sleep"
      proof (rule ccontr)
        assume n: "\<not> (k \<in> waiters s (Queue_cond k) \<or> pc s k = Wait_sleep)"
        have "k \<notin> waiters s' (Queue_cond k)"
        proof
          assume "k \<in> waiters s' (Queue_cond k)"
          then obtain mu where "k = t" "thread_prog n t (pc s t) = Sleep (Queue_cond k) mu (pc s' t)"
            using exec_waiters [OF S, of k "Queue_cond k"] n by auto
          then show False using n by (cases "pc s t") (auto simp: prog_simps tp_defs split: if_splits)
        qed
        then have q: "pc s' k = Wait_sleep" "k = t" using d n other by (auto simp: drowsy2_def) metis
        from step pcs show False
        proof (cases rule: tp_step_cases)
          case control
          have "leads (thread_prog n t (pc s t)) (pc s' t)" using step_leads [OF step] q n by auto
          then show False using control(4) q by (cases "pc s t") (auto simp: prog_simps tp_defs split: if_splits)
        next
          case (access f)
          then show False using do_sleep [OF access(1,2)] q False by simp
        qed
      qed
      then show ?thesis using False by (simp add: drowsy2_def)
    qed
    then obtain u where u: "before k (pc s u)" using sw k by (auto simp: stop_wakes_def)
    show ?thesis
    proof (cases "u = t")
      case False
      then show ?thesis using u other by metis
    next
      case True
      have "pc s t \<noteq> Client" using u True by auto
      then have "leads (thread_prog n t (pc s t)) (pc s' t) \<or> pc s' t = pc s t" using step_leads [OF step] by blast
      then have "before k (pc s' t) \<or> pc s t = Stop_signal k" using before_leads [of n t "pc s t" "pc s' t" k] u True k by metis
      then consider "before k (pc s' t)" | "pc s t = Stop_signal k" by blast
      then show ?thesis
      proof cases
        case 2
        have "is_worker (pc s t) = (t < n)" using pcs by (simp add: pcs_ok_def)
        then have "k \<noteq> t" using 2 k by auto
        have ws: "waiters s (Queue_cond k) \<subseteq> {k}" using waits_okD [OF w] by fastforce
        have "thread_prog n t (pc s t) = Signal (Queue_cond k) (Stop_unlock k)" using 2 by (simp add: prog_simps tp_defs)
        note G = tp.signal_step [OF S this]
        have "waiters s' (Queue_cond k) = {}" using G(2) ws by auto
        then have "pc s k = Wait_sleep" using d other [OF \<open>k \<noteq> t\<close>] by (auto simp: drowsy2_def)
        then show ?thesis using own [of "Queue_mutex k" k] own [of "Queue_mutex k" t] 2 \<open>k \<noteq> t\<close> by simp
      qed blast
    qed
  qed
qed

section \<open>Waiting for all tasks\<close>

lemma active_bound:
  assumes inv: "tp_inv n m h0 s qs L" and m: "m < 2 ^ 62"
  shows "active_tasks (data s) + 1 \<noteq> 0"
proof
  assume z: "active_tasks (data s) + 1 = 0"
  have "counts_ok m s qs" using inv by (simp add: tp_inv_def)
  then have "unat (active_tasks (data s)) = length (concat qs) + (\<Sum>u<m. busy (pc s u))" by (rule counts_okD(3))
  moreover have "(2 :: nat) ^ 62 + 2 ^ 62 + 1 < 2 ^ 64" by simp
  ultimately have "unat (active_tasks (data s)) + 1 < 2 ^ 64" using sum_busy_le [of s m] length_queues [OF inv] m by linarith
  then have "unat (active_tasks (data s) + 1) = unat (active_tasks (data s)) + 1" by (subst unat_add_no_wrap) simp_all
  then show False using z by simp
qed

lemma active_change:
  assumes inv: "tp_inv n m h0 s qs L" and pcs: "pcs_ok n m s" and step: "tp_step n m t c s = Some s'" and m: "m < 2 ^ 62"
  shows "active_tasks (data s') = active_tasks (data s) \<or> active_tasks (data s') \<noteq> 0 \<or>
    (pc s t = Done_sub \<and> pc s' t = Done_signal)"
  using step pcs
proof (cases rule: tp_step_cases)
  case (access f)
  have pt: "point_ok n (pc s t)" "is_worker (pc s t) = (t < n)" using pcs by (simp_all add: pcs_ok_def)
  from access(1,2) pt show ?thesis
  proof (cases rule: do_cases)
    case (active fa x k)
    then show ?thesis using active_bound [OF inv m] by simp
  next
    case sub
    then show ?thesis by auto
  qed (auto simp: same_data_def)
qed simp

text \<open>A client sleeps only while there are active tasks, ...\<close>

definition joins_ok :: "tp_system \<Rightarrow> bool" where
  "joins_ok s \<longleftrightarrow> (\<forall>u. pc s u = Join_sleep \<longrightarrow> active_tasks (data s) \<noteq> 0)"

lemma do_join: "thread_prog n t p = Do f \<Longrightarrow> f d = Some (d', q) \<Longrightarrow> q = Join_sleep \<Longrightarrow> active_tasks d \<noteq> 0 \<and> d' = d"
  by (cases p) (auto simp: prog_simps tp_defs bind_Some_iff Let_def split: if_splits option.splits)

lemma joins_ok_step:
  assumes j: "joins_ok s" and inv: "tp_inv n m h0 s qs L" and ok: "locks_ok n s" and pcs: "pcs_ok n m s"
    and step: "tp_step n m t c s = Some s'" and m: "m < 2 ^ 62"
  shows "joins_ok s'"
  unfolding joins_ok_def
proof (intro allI impI)
  fix u assume u: "pc s' u = Join_sleep"
  have other: "pc s' v = pc s v" if "v \<noteq> t" for v using exec_pc(1) [OF step [unfolded tp_step_def]] that by (metis fun_upd_apply)
  have own: "owners s mu = Some v \<longleftrightarrow> tp_holds n v (pc s v) = Some mu" for mu v using ok by (simp add: locks_ok_def)
  show "active_tasks (data s') \<noteq> 0"
  proof (cases "pc s u = Join_sleep")
    case True
    then have "active_tasks (data s) \<noteq> 0" using j by (auto simp: joins_ok_def)
    moreover have "pc s t \<noteq> Done_sub"
    proof
      assume d: "pc s t = Done_sub"
      then have "u = t" using own [of Wait_mutex u] own [of Wait_mutex t] True by simp
      then show False using d True by simp
    qed
    ultimately show ?thesis using active_change [OF inv pcs step m] by auto
  next
    case False
    then have "u = t" using u other by metis
    from step pcs show ?thesis
    proof (cases rule: tp_step_cases)
      case control
      have "leads (thread_prog n t (pc s t)) (pc s' t)" using step_leads [OF step] u False \<open>u = t\<close> by auto
      then show ?thesis using control(4) u \<open>u = t\<close> by (cases "pc s t") (auto simp: prog_simps tp_defs split: if_splits)
    next
      case (access f)
      then show ?thesis using do_join [OF access(1,2)] u \<open>u = t\<close> by simp
    qed
  qed
qed

text \<open>... and a single client is woken when the last of them is done.\<close>

definition single_ok :: "nat \<Rightarrow> tp_system \<Rightarrow> bool" where
  "single_ok n s \<longleftrightarrow> (n \<in> waiters s Wait_cond \<longrightarrow> active_tasks (data s) \<noteq> 0 \<or> (\<exists>u. pc s u = Done_signal))"

lemma single_ok_step:
  assumes si: "single_ok n s" and j: "joins_ok s" and inv: "tp_inv n (n + 1) h0 s qs L" and pcs: "pcs_ok n (n + 1) s" and w: "waits_ok n s"
    and step: "tp_step n (n + 1) t c s = Some s'" and m: "n + 1 < 2 ^ 62"
  shows "single_ok n s'"
  unfolding single_ok_def
proof (intro impI)
  assume z: "n \<in> waiters s' Wait_cond"
  note S = step [unfolded tp_step_def]
  have other: "pc s' v = pc s v" if "v \<noteq> t" for v using exec_pc(1) [OF S] that by (metis fun_upd_apply)
  show "active_tasks (data s') \<noteq> 0 \<or> (\<exists>u. pc s' u = Done_signal)"
  proof (cases "n \<in> waiters s Wait_cond")
    case False
    then obtain mu where "n = t" and sl: "thread_prog n t (pc s t) = Sleep Wait_cond mu (pc s' t)" using exec_waiters [OF S z] by auto
    then have p: "pc s t = Join_sleep" by (cases "pc s t") (auto simp: prog_simps tp_defs split: if_splits)
    then have a: "active_tasks (data s) \<noteq> 0" using j by (auto simp: joins_ok_def)
    from step pcs have "data s' = data s" by (cases rule: tp_step_cases) (use sl in auto)
    then show ?thesis using a by simp
  next
    case True
    consider (active) "active_tasks (data s) \<noteq> 0" | (signal) u where "pc s u = Done_signal" using si True by (auto simp: single_ok_def)
    then show ?thesis
    proof cases
      case active
      then show ?thesis using active_change [OF inv pcs step m] by metis
    next
      case signal
      have "u \<noteq> t"
      proof
        assume "u = t"
        then have g: "thread_prog n t (pc s t) = Signal Wait_cond Done_unlock" using signal by (simp add: prog_simps tp_defs)
        have "v = n" if "v \<in> waiters s Wait_cond" for v
        proof -
          have "pc s v = Join_asleep" using waits_okD [OF w that] by simp
          then have "\<not> is_worker (pc s v)" "pc s v \<noteq> Client" by simp_all
          then show ?thesis using pcs unfolding pcs_ok_def by (metis less_antisym not_less add.commute plus_1_eq_Suc)
        qed
        then show False using tp.signal_step(2) [OF S g] z by auto
      qed
      then show ?thesis using signal other by metis
    qed
  qed
qed

text \<open>All of it, in every state that is reached.\<close>

definition use_ok :: "nat \<Rightarrow> nat \<Rightarrow> heap \<Rightarrow> tp_system \<Rightarrow> bool" where
  "use_ok n m h0 s \<longleftrightarrow> tp_ok n m h0 s \<and> waits_ok n s \<and> stop_wakes n s \<and>
     (\<not> dropped (data s) \<and> tworkers (data s) \<noteq> [] \<longrightarrow> woken_up n s \<and> joins_ok s \<and> (m = n + 1 \<longrightarrow> single_ok n s))"

lemma use_ok_step:
  assumes u: "use_ok n m h0 s" and step: "tp_step n m t c s = Some s'" and n: "0 < n" and m: "m < 2 ^ 62"
  shows "use_ok n m h0 s'"
proof -
  have ok: "tp_ok n m h0 s" and w: "waits_ok n s" and sw: "stop_wakes n s" using u by (simp_all add: use_ok_def)
  have l: "locks_ok n s" and p: "pcs_ok n m s" using ok by (simp_all add: tp_ok_def)
  have "woken_up n s' \<and> joins_ok s' \<and> (m = n + 1 \<longrightarrow> single_ok n s')" if d: "\<not> dropped (data s')" "tworkers (data s') \<noteq> []"
  proof -
    have d': "\<not> dropped (data s)" "tworkers (data s) \<noteq> []" using data_mono(1,2) [OF step p] d by blast+
    then obtain qs L where inv: "tp_inv n m h0 s qs L" using ok by (auto simp: tp_ok_def)
    have "woken_up n s" "joins_ok s" "m = n + 1 \<Longrightarrow> single_ok n s" using u d' by (auto simp: use_ok_def)
    then show ?thesis
      using woken_up_step [OF _ inv l p w step d(2)] joins_ok_step [OF _ inv l p step m] single_ok_step [of n s h0 qs L t c s'] inv p w step m
      by blast
  qed
  then show ?thesis
    using tp_ok_step [OF ok step m] waits_ok_step [OF w step] stop_wakes_step [OF sw l p w step n] by (simp add: use_ok_def)
qed

lemma use_ok_reach:
  assumes "cx_threadpool_init wc sysconf al mi ci cr h = Some (rv, d)" "heap_ok h" "n = length (tworkers d)" "0 < n" "n \<le> m" "m < 2 ^ 62"
    and "reach (tp_step n m) allowed (tp_start d) s"
  shows "use_ok n m h s"
  using assms(7)
proof (induction rule: reach.induct)
  case reach_start
  have "tp_ok n m h (tp_start d)" using tp_ok_start [OF assms(1,2)] assms(3-5) by simp
  moreover have "waits_ok n (tp_start d)" "stop_wakes n (tp_start d)" "woken_up n (tp_start d)" "joins_ok (tp_start d)" "single_ok n (tp_start d)"
    using init_fields(1) [OF assms(1)]
    by (auto simp: waits_ok_def stop_wakes_def drowsy2_def woken_up_def drowsy_def joins_ok_def single_ok_def split: if_splits)
  ultimately show ?case by (simp add: use_ok_def)
qed (use use_ok_step assms(4,6) in blast)

section \<open>What the invariants mean\<close>

lemma conserved:
  assumes "use_ok n m h0 s" "\<not> dropped (data s)" "tworkers (data s) \<noteq> []"
  shows "\<exists>rest. mset (scheduled (data s)) = mset (executed (data s)) + rest \<and> size rest \<le> unat (active_tasks (data s))"
    "n = 1 \<Longrightarrow> \<exists>rest. scheduled (data s) = executed (data s) @ rest"
proof -
  obtain qs L where inv: "tp_inv n m h0 s qs L" using assms by (auto simp: use_ok_def tp_ok_def)
  then have C: "counts_ok m s qs" and O: "order_ok n s qs" by (simp_all add: tp_inv_def)
  let ?rest = "tasks_of (theap (data s)) (mset (concat qs) + (\<Sum>t<m. todo (pc s t)))"
  have "size (todo p) \<le> busy p" for p by (cases p) auto
  then have "(\<Sum>t<m. size (todo (pc s t))) \<le> (\<Sum>t<m. busy (pc s t))" by (intro sum_mono)
  moreover have "size (\<Sum>t<m. todo (pc s t)) = (\<Sum>t<m. size (todo (pc s t)))" by (induction m) simp_all
  moreover have "size ?rest = size (mset (concat qs)) + size (\<Sum>t<m. todo (pc s t))" by (simp only: tasks_of_def size_image_mset size_union)
  then have "size ?rest = length (concat qs) + size (\<Sum>t<m. todo (pc s t))" by (simp only: size_mset)
  ultimately have "size ?rest \<le> unat (active_tasks (data s))" using counts_okD(3) [OF C] by linarith
  then show "\<exists>rest. mset (scheduled (data s)) = mset (executed (data s)) + rest \<and> size rest \<le> unat (active_tasks (data s))"
    using counts_okD(2) [OF C] by blast
  show "n = 1 \<Longrightarrow> \<exists>rest. scheduled (data s) = executed (data s) @ rest" using O by (auto simp: order_ok_def)
qed

lemma all_executed:
  assumes "use_ok n m h0 s" "\<not> dropped (data s)" "tworkers (data s) \<noteq> []" "active_tasks (data s) = 0"
  shows "mset (scheduled (data s)) = mset (executed (data s))"
  using conserved(1) [OF assms(1-3)] assms(4) by auto

text \<open>Where the threads are when none of them can go on.\<close>

lemma stuck:
  assumes u: "use_ok n m h0 s" and live: "\<not> dropped (data s)" "tworkers (data s) \<noteq> []" and n: "0 < n"
    and reach: "reach (tp_step n m) allowed (tp_start d) s" and no: "\<And>v. \<not> able (tp_step n m) s v"
  shows "t < n \<Longrightarrow> pc s t = Wait_asleep" "pc s t = Wait_asleep \<or> pc s t = Client \<or> (pc s t = Join_asleep \<and> t \<in> waiters s Wait_cond)"
    "active_tasks (data s) = 0"
proof -
  have ok: "tp_ok n m h0 s" and w: "waits_ok n s" and sw: "stop_wakes n s" and wk: "woken_up n s" using u live by (simp_all add: use_ok_def)
  then have l: "locks_ok n s" and p: "pcs_ok n m s" and st: "stop_ok n s" by (simp_all add: tp_ok_def)
  note K = stop_okD [OF st]
  have def1: "f (data s) \<noteq> None" if "thread_prog n v (pc s v) = Do f" for v f by (rule defined [OF ok live(1) n that])
  have R: "owners s mu = None" "thread_prog n v (pc s v) = Rest \<or> (\<exists>cv m p. thread_prog n v (pc s v) = Woken cv m p \<and> v \<in> waiters s cv) \<or>
      (\<exists>u p. thread_prog n v (pc s v) = Join u p \<and> \<not> pc s u = Exited)" for mu v
    by (rule tp.stuck_cases [OF reach [unfolded tp_step_def] start_quiet]; use def1 no in \<open>simp add: tp_step_def\<close>)+
  have at: "pc s v = Client \<or> pc s v = Exited \<or> (pc s v = Wait_asleep \<and> v \<in> waiters s (Queue_cond v)) \<or>
      (pc s v = Join_asleep \<and> v \<in> waiters s Wait_cond) \<or> (\<exists>i. pc s v = Stop_join i \<and> pc s i \<noteq> Exited)" for v
    using R(2) [of v]
  proof (elim disjE exE conjE)
    assume "thread_prog n v (pc s v) = Rest"
    then show ?thesis by (cases "pc s v") (auto simp: prog_simps tp_defs split: if_splits)
  next
    fix cv mu q assume "thread_prog n v (pc s v) = Woken cv mu q" "v \<in> waiters s cv"
    then show ?thesis using waits_okD [OF w] by blast
  next
    fix x q assume "thread_prog n v (pc s v) = Join x q" "pc s x \<noteq> Exited"
    then show ?thesis by (cases "pc s v") (auto simp: prog_simps tp_defs split: if_splits)
  qed
  have wk': "is_worker (pc s v) = (v < n)" for v using p by (simp add: pcs_ok_def)
  have nojoin: "pc s v \<noteq> Stop_join i" for v i
  proof
    assume v: "pc s v = Stop_join i"
    then have i: "i < n" "pc s i \<noteq> Exited" using p at [of v] unfolding pcs_ok_def by (metis point_ok.simps(17)) (use v at [of v] in auto)
    have "\<not> running (data s)" using K(2) [of v] v by simp
    moreover have "is_worker (pc s i)" using wk' i(1) by simp
    then have "i \<in> waiters s (Queue_cond i)" using at [of i] i(2) by auto
    ultimately have "drowsy2 s i" by (simp add: drowsy2_def)
    then obtain x where x: "before i (pc s x)" using sw i(1) by (auto simp: stop_wakes_def)
    then have "\<exists>j. pc s x = Stop_join j" using at [of x] by auto
    then have "stopping (pc s x)" by auto
    have "n \<le> v" using wk' [of v] v by (simp add: not_less)
    then have "v = x" using K(1) [OF \<open>stopping (pc s x)\<close>, of v] v by auto
    then show False using x v by simp
  qed
  have run: "running (data s)"
  proof (rule ccontr)
    assume "\<not> running (data s)"
    then obtain x where "stopping (pc s x)" using K(3) live(2) by blast
    then show False using at [of x] nojoin by auto
  qed
  have at': "pc s v = Client \<or> (pc s v = Wait_asleep \<and> v \<in> waiters s (Queue_cond v)) \<or> (pc s v = Join_asleep \<and> v \<in> waiters s Wait_cond)" for v
    using at [of v] nojoin K(8) [of v] run by blast
  then show "pc s t = Wait_asleep \<or> pc s t = Client \<or> (pc s t = Join_asleep \<and> t \<in> waiters s Wait_cond)" by blast
  show asleep: "pc s t = Wait_asleep" if "t < n" for t using at' [of t] wk' [of t] that by auto
  obtain qs L where inv: "tp_inv n m h0 s qs L" using ok live by (auto simp: tp_ok_def)
  have "qs ! k = []" if k: "k < n" for k
  proof -
    have "drowsy s k" using asleep [OF k] at' [of k] by (auto simp: drowsy_def)
    moreover have "pc s v \<noteq> Push_signal k" for v using at' [of v] by auto
    ultimately have "wqueue_length (tworkers (data s) ! k) = 0" using wk k by (auto simp: woken_up_def)
    moreover have "owed s k = 0" using R(1) by (simp add: at_queue_def)
    moreover have "unat (wqueue_length (tworkers (data s) ! k)) + owed s k = length (qs ! k)"
      using inv k by (simp add: tp_inv_def queues_ok_def)
    ultimately show ?thesis by simp
  qed
  moreover have "length qs = n" using inv by (simp add: tp_inv_def queues_ok_def)
  ultimately have "concat qs = []" by (auto simp: in_set_conv_nth)
  moreover have "busy (pc s v) = 0" for v using at' [of v] by auto
  moreover have "unat (active_tasks (data s)) = length (concat qs) + (\<Sum>v<m. busy (pc s v))"
    using inv by (intro counts_okD(3)) (simp add: tp_inv_def)
  ultimately have "unat (active_tasks (data s)) = 0" by (simp only: list.size sum.neutral_const add_0)
  then show "active_tasks (data s) = 0" by (simp only: unat_eq_zero)
qed

end
