(* ===== verification/ThreadpoolUse.thy ===== *)
theory ThreadpoolUse
  imports ThreadpoolWake
begin

text \<open>
  The thread pool in use: what a wait means, why no task is left behind, and what cleanup leaves.
\<close>

section \<open>What is reached\<close>

text \<open>
  The states reached, by \<open>n\<close> workers and the client threads \<open>n\<close> to \<open>m - 1\<close>, from an initialisation that
  succeeded on the heap \<open>h\<close>.
\<close>

definition tp_reaches :: "nat \<Rightarrow> nat \<Rightarrow> heap \<Rightarrow> tp_system \<Rightarrow> bool" where
  "tp_reaches n m h s \<longleftrightarrow> heap_ok h \<and> 0 < n \<and> n \<le> m \<and> m < 2 ^ 62 \<and>
     (\<exists>wc sysconf al mi ci cr rv d allowed. cx_threadpool_init wc sysconf al mi ci cr h = Some (rv, d) \<and>
       length (tworkers d) = n \<and> reach (tp_step n m) allowed (tp_start d) s)"

lemma tp_reachesD:
  assumes "tp_reaches n m h s"
  shows "use_ok n m h s" "0 < n" "n \<le> m" "\<exists>d allowed. reach (tp_step n m) allowed (tp_start d) s"
  using assms use_ok_reach unfolding tp_reaches_def by blast+

subsection \<open>Runs for the witnesses\<close>

text \<open>Two workers, threads 0 and 1, and two clients, threads 2 and 3.\<close>

definition demo_tp_heap :: heap where
  "demo_tp_heap = \<lparr>mem = (\<lambda>_. 0), blocks = [], answers = [4096, 8192], cb_log = []\<rparr>"

definition demo_tp :: threadpool where
  "demo_tp = \<lparr>tworkers = [\<lparr>whead = 0, wtail = 0, wqueue_length = 0\<rparr>, \<lparr>whead = 0, wtail = 0, wqueue_length = 0\<rparr>],
     running = True, active_tasks = 0, task_pool = \<lparr>pool_pools = 0, pool_chunk_size = 192, pool_element_size = 24,
       pool_next_offset = 0, pool_count = 0, pool_current = 0, pool_reuse = 0\<rparr>,
     theap = demo_tp_heap, scheduled = [], executed = [], dropped = False\<rparr>"

lemma demo_tp_init: "cx_threadpool_init 2 0 True (\<lambda>_. 0) (\<lambda>_. 0) (\<lambda>_. 0) demo_tp_heap = Some (0, demo_tp)"
  by (simp add: cx_threadpool_init_def cx_prealloc_pool_init_def cx_prealloc_pool_init2_def task_size_def worker_init_def worker_start_def
      demo_tp_def upt_rec)

lemma demo_tp_reaches:
  assumes "run_steps (tp_step 2 m) xs (tp_start demo_tp) = Some s" "2 \<le> m" "m < 2 ^ 62"
  shows "tp_reaches 2 m demo_tp_heap s"
proof -
  have "reach (tp_step 2 m) (\<lambda>_. True) (tp_start demo_tp) s"
    by (rule run_steps_reach [OF reach.reach_start assms(1)]) (simp add: list_all_iff)
  moreover have "heap_ok demo_tp_heap" by (simp add: heap_ok_def demo_tp_heap_def)
  moreover have "length (tworkers demo_tp) = 2" by (simp add: demo_tp_def)
  ultimately show ?thesis using assms(2,3) demo_tp_init unfolding tp_reaches_def by (intro conjI) (simp_all, blast)
qed

text \<open>Both workers go to sleep; client 2 schedules the function 7 with an argument; worker 0 takes the task.\<close>

definition all_asleep :: "(tid \<times> outcome) list" where
  "all_asleep = replicate 12 (0, Ok) @ replicate 12 (1, Ok)"

definition schedule_one :: "nat \<Rightarrow> outcome \<Rightarrow> (tid \<times> outcome) list" where
  "schedule_one arg c = (2, Enter (2 + 7 * 2 ^ 64 + arg)) # replicate 11 (2, Ok) @ [(2, c), (2, Ok)]"

definition two_tasks :: "(tid \<times> outcome) list" where
  "two_tasks = all_asleep @ schedule_one 9 (Wake 0) @ replicate 4 (0, Ok) @ schedule_one 10 Ok"

text \<open>Clients 2 and 3 wait; worker 0 runs the task, wakes client 2 and sleeps again; client 2 returns.\<close>

definition both_wait :: "(tid \<times> outcome) list" where
  "both_wait = (2, Enter 0) # replicate 3 (2, Ok) @ (3, Enter 0) # replicate 3 (3, Ok) @
     replicate 10 (0, Ok) @ (0, Wake 2) # replicate 13 (0, Ok) @ replicate 3 (2, Ok)"

definition two_waiters :: "(tid \<times> outcome) list" where
  "two_waiters = all_asleep @ schedule_one 9 (Wake 0) @ both_wait"

text \<open>Client 2 cleans up before any worker has slept.\<close>

definition early_cleanup :: "(tid \<times> outcome) list" where
  "early_cleanup = (2, Enter 1) # replicate 4 (2, Ok) @ (0, Ok) # replicate 4 (2, Ok) @ [(1, Ok), (2, Ok), (2, Ok)]"

lemma replicate_num: "replicate (numeral v) x = x # replicate (pred_numeral v) x"
  by (simp add: numeral_eq_Suc)

lemma less_max [simp]: "(0 :: u64) < - 1"
  by (simp add: word_less_nat_alt unsigned_minus_1_eq_mask mask_eq_exp_minus_1)

text \<open>The instruction at each point, for evaluation.\<close>

lemmas points = prog_simps [simplified tp_defs tp_pc.case]

lemmas tp_eval = tp_step_def exec_def tp_start_def demo_tp_def points worker_get_task_def Let_def tp_enter_def upt_rec
  cx_prealloc_pool_get_def add_chunk_def calloc_def malloc_def demo_tp_heap_def fits_def mem_step valid_def heap_simps task_fill_def
  link_task_def replicate_num u64_at_set_other cx_prealloc_pool_recycle_def all_asleep_def schedule_one_def

text \<open>The runs go on from the state in which client 2 has scheduled its task and woken worker 0.\<close>

definition one_scheduled :: "tp_system \<Rightarrow> bool" where
  "one_scheduled s \<longleftrightarrow> pc s 0 = Wait_asleep \<and> pc s 1 = Wait_asleep \<and> (\<forall>u > 1. pc s u = Client) \<and>
     (\<forall>mu. owners s mu = None) \<and> waiters s (Queue_cond 0) = {} \<and> waiters s (Queue_cond 1) = {1} \<and> waiters s Wait_cond = {} \<and>
     tworkers (data s) = [\<lparr>whead = 8192, wtail = 8192, wqueue_length = 1\<rparr>, \<lparr>whead = 0, wtail = 0, wqueue_length = 0\<rparr>] \<and>
     running (data s) \<and> active_tasks (data s) = 1 \<and>
     task_pool (data s) = \<lparr>pool_pools = 4096, pool_chunk_size = 384, pool_element_size = 24,
       pool_next_offset = 24, pool_count = 1, pool_current = 8192, pool_reuse = 0\<rparr> \<and>
     (8192, 384) \<in> set (blocks (theap (data s))) \<and>
     u64_at (theap (data s)) 8192 = 7 \<and> u64_at (theap (data s)) 8200 = 9 \<and> u64_at (theap (data s)) 8208 = 0 \<and>
     scheduled (data s) = [(7, 9)] \<and> executed (data s) = [] \<and> \<not> dropped (data s)"

lemma one_scheduled_run:
  "\<exists>s. run_steps (tp_step 2 4) (all_asleep @ schedule_one 9 (Wake 0)) (tp_start demo_tp) = Some s \<and> one_scheduled s"
  by (simp add: tp_eval one_scheduled_def)


lemma one_scheduled_valid:
  assumes "one_scheduled s"
  shows "k + n \<le> 384 \<Longrightarrow> valid (theap (data s)) (8192 + k) n"
  using assms by (force simp: one_scheduled_def valid_def list_ex_iff)

lemma second_task:
  assumes "one_scheduled s"
  shows "\<exists>s'. run_steps (tp_step 2 4) (replicate 4 (0, Ok) @ schedule_one 10 Ok) s = Some s' \<and> pc s' 0 = Run_task 8192 \<and>
    pc s' 1 = Wait_asleep \<and> 1 \<in> waiters s' (Queue_cond 1) \<and> wqueue_length (tworkers (data s') ! 0) = 1 \<and>
    tworkers (data s') \<noteq> [] \<and> \<not> dropped (data s') \<and> scheduled (data s') = [(7, 9), (7, 10)] \<and> executed (data s') = [] \<and>
    (\<forall>u > 1. pc s' u = Client)"
proof -
  note V = one_scheduled_valid [OF assms]
  have v: "valid (theap (data s)) 8192 8" "valid (theap (data s)) 8200 8" "valid (theap (data s)) 8208 8"
    "valid (theap (data s)) 8216 8" "valid (theap (data s)) 8224 8" "valid (theap (data s)) 8232 8"
    using V [of 0 8] V [of 8 8] V [of 16 8] V [of 24 8] V [of 32 8] V [of 40 8] by simp_all
  note F = assms [unfolded one_scheduled_def]
  show ?thesis using v F by (simp add: tp_eval)
qed

lemma second_wait:
  assumes "one_scheduled s"
  shows "\<exists>s'. run_steps (tp_step 2 4) both_wait s = Some s' \<and> pc s' 0 = Wait_asleep \<and> pc s' 1 = Wait_asleep \<and>
    0 \<in> waiters s' (Queue_cond 0) \<and> 1 \<in> waiters s' (Queue_cond 1) \<and> pc s' 2 = Client \<and> pc s' 3 = Join_asleep \<and>
    3 \<in> waiters s' Wait_cond \<and> active_tasks (data s') = 0 \<and> (\<forall>u > 3. pc s' u = Client) \<and> tworkers (data s') \<noteq> [] \<and>
    \<not> dropped (data s') \<and> scheduled (data s') = [(7, 9)] \<and> executed (data s') = [(7, 9)]"
proof -
  note V = one_scheduled_valid [OF assms]
  have v: "valid (theap (data s)) 8192 8" "valid (theap (data s)) 8200 8" "valid (theap (data s)) 8208 8"
    using V [of 0 8] V [of 8 8] V [of 16 8] by simp_all
  note F = assms [unfolded one_scheduled_def]
  show ?thesis using v F by (simp add: both_wait_def tp_eval)
qed

lemma two_tasks_run:
  "\<exists>s. run_steps (tp_step 2 4) two_tasks (tp_start demo_tp) = Some s \<and> pc s 0 = Run_task 8192 \<and>
    pc s 1 = Wait_asleep \<and> 1 \<in> waiters s (Queue_cond 1) \<and> wqueue_length (tworkers (data s) ! 0) = 1 \<and>
    tworkers (data s) \<noteq> [] \<and> \<not> dropped (data s) \<and> scheduled (data s) = [(7, 9), (7, 10)] \<and> executed (data s) = [] \<and>
    (\<forall>u > 1. pc s u = Client)"
proof -
  obtain s where s: "run_steps (tp_step 2 4) (all_asleep @ schedule_one 9 (Wake 0)) (tp_start demo_tp) = Some s" "one_scheduled s"
    using one_scheduled_run by blast
  have eq: "two_tasks = (all_asleep @ schedule_one 9 (Wake 0)) @ (replicate 4 (0, Ok) @ schedule_one 10 Ok)" by (simp only: two_tasks_def append_assoc)
  have "run_steps (tp_step 2 4) two_tasks (tp_start demo_tp) = run_steps (tp_step 2 4) (replicate 4 (0, Ok) @ schedule_one 10 Ok) s"
    by (simp only: eq run_steps_append [of _ "all_asleep @ schedule_one 9 (Wake 0)"] s(1) Option.bind.bind_lunit)
  then show ?thesis using second_task [OF s(2)] by (simp only:)
qed

lemma two_waiters_run:
  "\<exists>s. run_steps (tp_step 2 4) two_waiters (tp_start demo_tp) = Some s \<and> pc s 0 = Wait_asleep \<and> pc s 1 = Wait_asleep \<and>
    0 \<in> waiters s (Queue_cond 0) \<and> 1 \<in> waiters s (Queue_cond 1) \<and> pc s 2 = Client \<and> pc s 3 = Join_asleep \<and>
    3 \<in> waiters s Wait_cond \<and> active_tasks (data s) = 0 \<and> (\<forall>u > 3. pc s u = Client) \<and> tworkers (data s) \<noteq> [] \<and>
    \<not> dropped (data s) \<and> scheduled (data s) = [(7, 9)] \<and> executed (data s) = [(7, 9)]"
proof -
  obtain s where s: "run_steps (tp_step 2 4) (all_asleep @ schedule_one 9 (Wake 0)) (tp_start demo_tp) = Some s" "one_scheduled s"
    using one_scheduled_run by blast
  have eq: "two_waiters = (all_asleep @ schedule_one 9 (Wake 0)) @ (both_wait)" by (simp only: two_waiters_def append_assoc)
  have "run_steps (tp_step 2 4) two_waiters (tp_start demo_tp) = run_steps (tp_step 2 4) (both_wait) s"
    by (simp only: eq run_steps_append [of _ "all_asleep @ schedule_one 9 (Wake 0)"] s(1) Option.bind.bind_lunit)
  then show ?thesis using second_wait [OF s(2)] by (simp only:)
qed

lemma asleep_run:
  "\<exists>s. run_steps (tp_step 2 3) all_asleep (tp_start demo_tp) = Some s \<and> pc s 0 = Wait_asleep \<and> pc s 1 = Wait_asleep \<and>
    0 \<in> waiters s (Queue_cond 0) \<and> 1 \<in> waiters s (Queue_cond 1) \<and> (\<forall>u > 1. pc s u = Client) \<and> tworkers (data s) \<noteq> [] \<and> \<not> dropped (data s)"
  by (simp add: tp_eval)

lemma early_cleanup_run:
  "\<exists>s. run_steps (tp_step 2 3) early_cleanup (tp_start demo_tp) = Some s \<and> tworkers (data s) = [] \<and> \<not> dropped (data s)"
  by (simp add: early_cleanup_def tp_eval cx_prealloc_pool_cleanup_def)

lemma joining_run:
  "\<exists>s. run_steps (tp_step 2 3) [(2, Enter 0), (2, Ok)] (tp_start demo_tp) = Some s \<and> pc s 2 = Join_test \<and>
    (\<exists>s'. tp_step 2 3 2 Ok s = Some s' \<and> pc s' 2 = Join_unlock) \<and> tworkers (data s) \<noteq> [] \<and> \<not> dropped (data s)"
  by (simp add: tp_eval)

text \<open>A thread at rest, or one that nobody has woken, cannot go on.\<close>

lemma not_able_rest: "pc s u = Client \<Longrightarrow> \<not> able (tp_step n m) s u"
  by (auto simp: able_def tp_step_def exec_def prog_simps)

lemma not_able_asleep:
  "pc s u = Wait_asleep \<Longrightarrow> u \<in> waiters s (Queue_cond u) \<Longrightarrow> \<not> able (tp_step n m) s u"
  "pc s u = Join_asleep \<Longrightarrow> u \<in> waiters s Wait_cond \<Longrightarrow> \<not> able (tp_step n m) s u"
  by (auto simp: able_def tp_step_def exec_def prog_simps tp_defs)

subsection \<open>Theorems\<close>

text \<open>
  C4. The pool neither loses nor repeats a task, in any interleaving and as long as no task could not be
  allocated: the tasks that were scheduled are those that were run and a rest, and
  \<^verbatim>\<open>active_tasks\<close> is at least the size of the rest. With a single worker the tasks run in the order in
  which they were scheduled. Two threads never hold the same mutex.
\<close>

theorem threadpool_conserves_tasks:
  assumes "tp_reaches n m h s" "\<not> dropped (data s)" "tworkers (data s) \<noteq> []"
  shows "(\<exists>rest. mset (scheduled (data s)) = mset (executed (data s)) + rest \<and> size rest \<le> unat (active_tasks (data s))) \<and>
    (n = 1 \<longrightarrow> (\<exists>rest. scheduled (data s) = executed (data s) @ rest)) \<and>
    (\<forall>t u mu. tp_holds n t (pc s t) = Some mu \<longrightarrow> tp_holds n u (pc s u) = Some mu \<longrightarrow> t = u)"
proof -
  note U = tp_reachesD(1) [OF assms(1)]
  have own: "owners s mu = Some u \<longleftrightarrow> tp_holds n u (pc s u) = Some mu" for mu u
    using U by (simp add: use_ok_def tp_ok_def locks_ok_def)
  have "t = u" if "tp_holds n t (pc s t) = Some mu" "tp_holds n u (pc s u) = Some mu" for t u mu
    using own [of mu t] own [of mu u] that by simp
  then show ?thesis using conserved [OF U assms(2,3)] by blast
qed

theorem threadpool_conserves_tasks_witness:
  "\<exists>s rest. tp_reaches 2 4 demo_tp_heap s \<and> mset (scheduled (data s)) = mset (executed (data s)) + rest \<and> size rest = 2"
proof -
  obtain s where s: "run_steps (tp_step 2 4) two_tasks (tp_start demo_tp) = Some s" "tworkers (data s) \<noteq> []" "\<not> dropped (data s)"
      "scheduled (data s) = [(7, 9), (7, 10)]" "executed (data s) = []" using two_tasks_run by blast
  have r: "tp_reaches 2 4 demo_tp_heap s" by (rule demo_tp_reaches [OF s(1)]) simp_all
  obtain rest where "mset (scheduled (data s)) = mset (executed (data s)) + rest" using threadpool_conserves_tasks [OF r s(3,2)] by blast
  then show ?thesis using r s(4,5) by (intro exI [of _ s] exI [of _ rest]) auto
qed

text \<open>
  C25. The pool is well formed in every state reached: there is a worker for each queue, the queues hold
  distinct tasks, each of them a valid address of a task's size, and a queue whose mutex is free is a
  linked list from \<^verbatim>\<open>head\<close> to \<^verbatim>\<open>tail\<close> of \<^verbatim>\<open>queue_length\<close> tasks.
\<close>

theorem threadpool_well_formed:
  assumes "tp_reaches n m h s" "\<not> dropped (data s)" "tworkers (data s) \<noteq> []"
  shows "length (tworkers (data s)) = n \<and>
    (\<exists>qs. length qs = n \<and> distinct (concat qs) \<and> (\<forall>x \<in> set (concat qs). x \<noteq> 0 \<and> valid (theap (data s)) x 24) \<and>
      (\<forall>k < n. owners s (Queue_mutex k) = None \<longrightarrow>
        queue_at (theap (data s)) (tworkers (data s) ! k) (qs ! k) \<and>
        unat (wqueue_length (tworkers (data s) ! k)) = length (qs ! k)))"
proof -
  note U = tp_reachesD(1) [OF assms(1)]
  then obtain qs L where inv: "tp_inv n m h s qs L" using assms by (auto simp: use_ok_def tp_ok_def)
  have Q: "queues_ok n s qs" and P: "places_ok m s qs L" using inv by (simp_all add: tp_inv_def)
  obtain F X where T: "tasks_at (theap (data s)) (task_pool (data s)) F L X" using tp_inv_tasks [OF inv] .
  have "x \<noteq> 0 \<and> valid (theap (data s)) x 24" if "x \<in> set (concat qs)" for x
  proof -
    have x: "x \<in> set L" by (rule place_cases(1) [OF P that])
    have p: "pool_at (theap (data s)) (task_pool (data s)) F L X" "esize (task_pool (data s)) = 24" using T by (simp_all add: tasks_at_def)
    obtain c where c: "c \<in> X" "fst c \<le> x" "x + 24 \<le> fst c + snd c" using pool_atD(6) [OF p(1) x] p(2) by auto
    then have "c \<in> set (blocks (theap (data s)))" "0 < x" using pool_atD(2) [OF p(1)] pool_atD(5) [OF p(1) x] by auto
    then show ?thesis using c(2,3) by (auto simp: valid_def list_ex_iff case_prod_beta)
  qed
  moreover have "tail_of s k = [] \<and> owed s k = 0" if "owners s (Queue_mutex k) = None" for k
    using that by (simp add: at_queue_def)
  then have "queue_at (theap (data s)) (tworkers (data s) ! k) (qs ! k) \<and> unat (wqueue_length (tworkers (data s) ! k)) = length (qs ! k)"
    if "k < n" "owners s (Queue_mutex k) = None" for k
    using Q that unfolding queues_ok_def by (metis append_Nil2 add_0_right)
  ultimately show ?thesis using place_cases(3) [OF P] Q unfolding queues_ok_def by (intro conjI exI [of _ qs]) simp_all
qed

theorem threadpool_well_formed_witness:
  "\<exists>s. tp_reaches 2 4 demo_tp_heap s \<and> length (scheduled (data s)) = 2 \<and> length (tworkers (data s)) = 2"
proof -
  obtain s where s: "run_steps (tp_step 2 4) two_tasks (tp_start demo_tp) = Some s" "tworkers (data s) \<noteq> []" "\<not> dropped (data s)"
      "scheduled (data s) = [(7, 9), (7, 10)]" using two_tasks_run by blast
  have r: "tp_reaches 2 4 demo_tp_heap s" by (rule demo_tp_reaches [OF s(1)]) simp_all
  show ?thesis using r threadpool_well_formed [OF r s(3,2)] s(4) by (intro exI [of _ s]) simp
qed

text \<open>
  C6. \<^verbatim>\<open>cx_threadpool_wait\<close> means what it says: when a waiting client finds no active task and leaves its
  loop, every task that was scheduled has been run, exactly once.
\<close>

theorem threadpool_wait_returns:
  assumes "tp_reaches n m h s" "\<not> dropped (data s)" "tworkers (data s) \<noteq> []"
    and "pc s t = Join_test" "tp_step n m t c s = Some s'" "pc s' t = Join_unlock"
  shows "mset (scheduled (data s')) = mset (executed (data s'))"
proof -
  note U = tp_reachesD(1) [OF assms(1)]
  then have p: "pcs_ok n m s" by (simp add: use_ok_def tp_ok_def)
  have zero: "a = 0" if "\<not> 0 < a" for a :: u64 using that word_neq_0_conv by blast
  have do: "active_tasks d = 0 \<and> d' = d"
    if "thread_prog n t q = Do f" "f d = Some (d', q')" "q = Join_test" "q' = Join_unlock" for q q' f d d'
    using that by (auto simp: prog_simps tp_defs dest!: zero split: if_splits)
  from assms(5) p have "active_tasks (data s) = 0 \<and> data s' = data s"
  proof (cases rule: tp_step_cases)
    case control
    then show ?thesis using assms(4) by (auto simp: prog_simps tp_defs)
  next
    case (access f)
    show ?thesis by (rule do [OF access(1,2) assms(4,6)])
  qed
  then show ?thesis using all_executed [OF U assms(2,3)] by simp
qed

theorem threadpool_wait_returns_witness:
  "\<exists>s' :: tp_system. pc s' 2 = Join_unlock \<and> mset (scheduled (data s')) = mset (executed (data s'))"
proof -
  obtain s s' where s: "run_steps (tp_step 2 3) [(2, Enter 0), (2, Ok)] (tp_start demo_tp) = Some s" "pc s 2 = Join_test"
      "tp_step 2 3 2 Ok s = Some s'" "pc s' 2 = Join_unlock" "tworkers (data s) \<noteq> []" "\<not> dropped (data s)"
    using joining_run by blast
  have r: "tp_reaches 2 3 demo_tp_heap s" by (rule demo_tp_reaches [OF s(1)]) simp_all
  show ?thesis using threadpool_wait_returns [OF r s(6,5,2,3,4)] s(4) by (intro exI [of _ s']) simp
qed

text \<open>
  C5. No task is left behind: in any state from which no thread can go on by itself (no matter how the
  scheduler chose, which waiter a signal woke and how many spurious wake-ups there were) every worker is
  asleep on its own queue, every other thread is outside the pool or sleeps in
  \<^verbatim>\<open>cx_threadpool_wait\<close>, no task is active, and all tasks that were scheduled have been run.
\<close>

theorem threadpool_no_task_stranded:
  assumes "tp_reaches n m h s" "\<not> dropped (data s)" "tworkers (data s) \<noteq> []" "\<And>u. \<not> able (tp_step n m) s u"
  shows "(\<forall>t < n. pc s t = Wait_asleep) \<and> (\<forall>t \<ge> n. pc s t = Client \<or> pc s t = Join_asleep) \<and>
    active_tasks (data s) = 0 \<and> mset (scheduled (data s)) = mset (executed (data s))"
proof -
  note U = tp_reachesD(1,2) [OF assms(1)]
  obtain d allowed where "reach (tp_step n m) allowed (tp_start d) s" using tp_reachesD(4) [OF assms(1)] by blast
  note K = stuck [OF U(1) assms(2,3) U(2) this assms(4)]
  have W: "is_worker (pc s t) = (t < n)" for t using U(1) by (simp add: use_ok_def tp_ok_def pcs_ok_def)
  have "pc s t = Client \<or> pc s t = Join_asleep" if "n \<le> t" for t
    using K(2) [of t] W [of t] that by auto
  then show ?thesis using K(1,3) all_executed [OF U(1) assms(2,3)] by simp
qed

theorem threadpool_no_task_stranded_witness:
  "\<exists>s. tp_reaches 2 3 demo_tp_heap s \<and> pc s 0 = Wait_asleep \<and> active_tasks (data s) = 0"
proof -
  obtain s where s: "run_steps (tp_step 2 3) all_asleep (tp_start demo_tp) = Some s" "pc s 0 = Wait_asleep" "pc s 1 = Wait_asleep"
      "0 \<in> waiters s (Queue_cond 0)" "1 \<in> waiters s (Queue_cond 1)" "\<forall>u > 1. pc s u = Client" "tworkers (data s) \<noteq> []" "\<not> dropped (data s)"
    using asleep_run by blast
  have r: "tp_reaches 2 3 demo_tp_heap s" by (rule demo_tp_reaches [OF s(1)]) simp_all
  have no: "\<not> able (tp_step 2 3) s u" for u
    using not_able_rest [of s u] not_able_asleep(1) [of s u] s(2-6) by (cases "u = 0 \<or> u = 1") auto
  show ?thesis using threadpool_no_task_stranded [OF r s(8,7) no] r by (intro exI [of _ s]) simp
qed

text \<open>
  C26. With a single client thread \<^verbatim>\<open>cx_threadpool_wait\<close> and \<^verbatim>\<open>cx_threadpool_schedule\<close>
  return: when nobody can go on the client is outside the pool.
\<close>

theorem threadpool_single_client_progress:
  assumes "tp_reaches n (n + 1) h s" "\<not> dropped (data s)" "tworkers (data s) \<noteq> []" "\<And>u. \<not> able (tp_step n (n + 1)) s u"
  shows "pc s n = Client"
proof -
  note U = tp_reachesD(1,2) [OF assms(1)]
  obtain d allowed where "reach (tp_step n (n + 1)) allowed (tp_start d) s" using tp_reachesD(4) [OF assms(1)] by blast
  note K = stuck [OF U(1) assms(2,3) U(2) this assms(4)]
  have "single_ok n s" "is_worker (pc s n) = (n < n)" using U(1) assms(2,3) by (simp_all add: use_ok_def tp_ok_def pcs_ok_def)
  moreover have "pc s u \<noteq> Done_signal" for u using K(2) [of u] by auto
  ultimately show ?thesis using K(2) [of n] K(3) by (auto simp: single_ok_def)
qed

theorem threadpool_single_client_progress_witness: "\<exists>s. tp_reaches 2 3 demo_tp_heap s \<and> pc s 2 = Client"
proof -
  obtain s where s: "run_steps (tp_step 2 3) all_asleep (tp_start demo_tp) = Some s" "pc s 0 = Wait_asleep" "pc s 1 = Wait_asleep"
      "0 \<in> waiters s (Queue_cond 0)" "1 \<in> waiters s (Queue_cond 1)" "\<forall>u > 1. pc s u = Client" "tworkers (data s) \<noteq> []" "\<not> dropped (data s)"
    using asleep_run by blast
  have "tp_reaches 2 3 demo_tp_heap s" by (rule demo_tp_reaches [OF s(1)]) simp_all
  then have r: "tp_reaches 2 (2 + 1) demo_tp_heap s" by simp
  have no: "\<not> able (tp_step 2 (2 + 1)) s u" for u
    using not_able_rest [of s u] not_able_asleep(1) [of s u] s(2-6) by (cases "u = 0 \<or> u = 1") auto
  show ?thesis using threadpool_single_client_progress [OF r s(8,7) no] r by (intro exI [of _ s]) simp
qed

text \<open>
  C7. When \<^verbatim>\<open>cx_threadpool_cleanup\<close> has returned all workers have ended, the heap blocks of the pool
  are freed and no other block was touched.
\<close>

theorem threadpool_cleanup_complete:
  assumes "tp_reaches n m h s" "\<not> dropped (data s)" "tworkers (data s) = []"
  shows "(\<forall>t < n. pc s t = Exited) \<and> (\<forall>t \<ge> n. pc s t = Client) \<and> frame {} {} h (theap (data s)) \<and> (\<forall>t c. tp_step n m t c s = None)"
proof -
  have ok: "stop_ok n s" "frame {} {} h (theap (data s))"
    using tp_reachesD(1) [OF assms(1)] assms(2,3) by (simp_all add: use_ok_def tp_ok_def)
  then show ?thesis using stop_okD(5,6) [OF ok(1) assms(3)] after_cleanup [OF ok(1) assms(3)] by blast
qed

theorem threadpool_cleanup_complete_witness:
  "\<exists>s. tp_reaches 2 3 demo_tp_heap s \<and> pc s 0 = Exited \<and> pc s 1 = Exited \<and> frame {} {} demo_tp_heap (theap (data s))"
proof -
  obtain s where s: "run_steps (tp_step 2 3) early_cleanup (tp_start demo_tp) = Some s" "tworkers (data s) = []" "\<not> dropped (data s)"
    using early_cleanup_run by blast
  have r: "tp_reaches 2 3 demo_tp_heap s" by (rule demo_tp_reaches [OF s(1)]) simp_all
  show ?thesis using threadpool_cleanup_complete [OF r s(3,2)] r by (intro exI [of _ s]) simp
qed

text \<open>
  C38. With two clients in \<^verbatim>\<open>cx_threadpool_wait\<close> the one signal for the last task wakes one of them: a
  state is reached in which all tasks have been run, no thread can go on and the other client still sleeps.
\<close>

theorem threadpool_second_waiter_sleeps:
  "\<exists>s. tp_reaches 2 4 demo_tp_heap s \<and> (\<forall>u. \<not> able (tp_step 2 4) s u) \<and> active_tasks (data s) = 0 \<and>
    scheduled (data s) = [(7, 9)] \<and> executed (data s) = [(7, 9)] \<and> pc s 2 = Client \<and> pc s 3 = Join_asleep"
proof -
  obtain s where s: "run_steps (tp_step 2 4) two_waiters (tp_start demo_tp) = Some s" "pc s 0 = Wait_asleep" "pc s 1 = Wait_asleep"
      "0 \<in> waiters s (Queue_cond 0)" "1 \<in> waiters s (Queue_cond 1)" "pc s 2 = Client" "pc s 3 = Join_asleep" "3 \<in> waiters s Wait_cond"
      "active_tasks (data s) = 0" "\<forall>u > 3. pc s u = Client" "scheduled (data s) = [(7, 9)]" "executed (data s) = [(7, 9)]"
    using two_waiters_run by blast
  have r: "tp_reaches 2 4 demo_tp_heap s" by (rule demo_tp_reaches [OF s(1)]) simp_all
  have no: "\<not> able (tp_step 2 4) s u" for u
  proof -
    consider "u = 0" | "u = 1" | "u = 2" | "u = 3" | "u > 3" by linarith
    then show ?thesis
      using not_able_rest [of s u] not_able_asleep [of s u] s(2-8,10) by cases auto
  qed
  show ?thesis using r no s(6,7,9,11,12) by blast
qed

text \<open>
  C39. A worker that sleeps is not woken for a task that another worker's queue holds. A state is reached in
  which both calls of \<^verbatim>\<open>cx_threadpool_schedule\<close> have returned and no client is in the pool; the function of the
  first task runs on worker 0, the second task lies in the queue of worker 0 (whose length does not count the
  task that runs), and worker 1 sleeps. No thread but worker 0 can go on, so nobody is about to wake worker 1.
\<close>

theorem threadpool_idle_worker_not_woken:
  "\<exists>s. tp_reaches 2 4 demo_tp_heap s \<and> pc s 0 = Run_task 8192 \<and> pc s 1 = Wait_asleep \<and> pc s 2 = Client \<and> pc s 3 = Client \<and>
    scheduled (data s) = [(7, 9), (7, 10)] \<and> executed (data s) = [] \<and> wqueue_length (tworkers (data s) ! 0) = 1 \<and>
    {u. able (tp_step 2 4) s u} \<subseteq> {0}"
proof -
  obtain s where s: "run_steps (tp_step 2 4) two_tasks (tp_start demo_tp) = Some s" "pc s 0 = Run_task 8192" "pc s 1 = Wait_asleep"
      "1 \<in> waiters s (Queue_cond 1)" "wqueue_length (tworkers (data s) ! 0) = 1" "scheduled (data s) = [(7, 9), (7, 10)]"
      "executed (data s) = []" "\<forall>u > 1. pc s u = Client"
    using two_tasks_run by blast
  have r: "tp_reaches 2 4 demo_tp_heap s" by (rule demo_tp_reaches [OF s(1)]) simp_all
  have "\<not> able (tp_step 2 4) s u" if "u \<noteq> 0" for u
    using not_able_asleep(1) [OF s(3,4)] not_able_rest [of s u] s(8) that by (cases "u = 1") auto
  then have "{u. able (tp_step 2 4) s u} \<subseteq> {0}" by blast
  then show ?thesis using r s(2,3,5-8) by (intro exI [of _ s]) simp
qed

end
