(* ===== verification/Utf8.thy ===== *)
theory Utf8
  imports Prelude
begin

text \<open>
  \<^verbatim>\<open>lib/unicode/utf8.c\<close>, \<^verbatim>\<open>lib/unicode/utf16.c\<close> and the tables they
  index, which \<^verbatim>\<open>lib/unicode/codegen/byte_size.c\<close> generates at build time.
  A string argument is the list of the bytes that may be read at the pointer; a read
  past its end is \<open>None\<close>. Indices and counts are \<^verbatim>\<open>size_t\<close> words; the loops
  are partial functions, so that a loop that does not return is \<open>None\<close> as well.
\<close>

section \<open>The generated length tables\<close>

text \<open>
  The body of the loop in \<^verbatim>\<open>main\<close> prints one entry per lead byte; the C compiler
  reads the printed digits back as the array.
\<close>

definition len_entry :: "bool \<Rightarrow> int \<Rightarrow> u8" where
  "len_entry utf16_table i =
     (if i AND 0x80 = 0 then 1
      else if i AND 0xE0 = 0xC0 then (if utf16_table then 1 else 2)
      else if i AND 0xF0 = 0xE0 then (if utf16_table then 2 else 3)
      else if i AND 0xF8 = 0xF0 then (if utf16_table then 2 else 4)
      else 0)"

definition utf8_len_map :: "u8 list" where
  "utf8_len_map = map (\<lambda>i. len_entry False (int i)) [0..<256]"

definition utf16_len_map :: "u8 list" where
  "utf16_len_map = map (\<lambda>i. len_entry True (int i)) [0..<256]"

section \<open>The functions\<close>

definition read_at :: "u8 list \<Rightarrow> u64 \<Rightarrow> u8 option" where
  "read_at str i = (if unat i < length str then Some (str ! unat i) else None)"

definition cx_utf8_csize :: "u8 list \<Rightarrow> u64 \<Rightarrow> u64 option" where
  "cx_utf8_csize chr n = do {
     c \<leftarrow> read_at chr 0;
     let sz = utf8_len_map ! unat c;
     if ucast sz > n then Some 0 else Some (ucast sz)
   }"

partial_function (option) clen_loop :: "u8 list \<Rightarrow> u64 \<Rightarrow> u64 \<Rightarrow> u64 \<Rightarrow> int option" where
  "clen_loop str n i count =
     (if i < n
      then do {
        c \<leftarrow> read_at str i;
        let char_len = utf8_len_map ! unat c;
        if char_len = 0 then Some (- 1)
        else clen_loop str n (i + ucast char_len) (count + 1)
      }
      else Some (sint count))"

definition cx_utf8_clen :: "u8 list \<Rightarrow> u64 \<Rightarrow> int option" where
  "cx_utf8_clen str n = clen_loop str n 0 0"

partial_function (option) bidx_loop :: "u8 list \<Rightarrow> u64 \<Rightarrow> u64 \<Rightarrow> u64 \<Rightarrow> u64 \<Rightarrow> int option" where
  "bidx_loop str n char_index i byte_index =
     (if byte_index < n \<and> i < char_index
      then do {
        c \<leftarrow> read_at str byte_index;
        let char_len = utf8_len_map ! unat c;
        if char_len = 0 then Some (- 1)
        else bidx_loop str n char_index (i + 1) (byte_index + ucast char_len)
      }
      else if byte_index > n then Some (- 1)
      else Some (sint byte_index))"

definition cx_utf8_bidx :: "u8 list \<Rightarrow> u64 \<Rightarrow> u64 \<Rightarrow> int option" where
  "cx_utf8_bidx str n char_index = bidx_loop str n char_index 0 0"

text \<open>A null pointer is \<open>None\<close>; the shifts are on \<^verbatim>\<open>int\<close>.\<close>

definition cx_utf8_cp :: "u8 list option \<Rightarrow> u64 \<Rightarrow> int option" where
  "cx_utf8_cp chr n =
     (case chr of
        None \<Rightarrow> Some 0
      | Some chr \<Rightarrow> do {
          char_len \<leftarrow> cx_utf8_csize chr n;
          (let char_len = ucast char_len :: u8 in
           if char_len = 1 then do {
             c0 \<leftarrow> read_at chr 0;
             Some (uint c0)
           }
           else if char_len = 2 then do {
             c0 \<leftarrow> read_at chr 0; c1 \<leftarrow> read_at chr 1;
             Some (sint (push_bit 6 (ucast c0 AND 0x1F) OR (ucast c1 AND 0x3F) :: u32))
           }
           else if char_len = 3 then do {
             c0 \<leftarrow> read_at chr 0; c1 \<leftarrow> read_at chr 1; c2 \<leftarrow> read_at chr 2;
             Some (sint (push_bit 12 (ucast c0 AND 0x0F) OR push_bit 6 (ucast c1 AND 0x3F) OR
                         (ucast c2 AND 0x3F) :: u32))
           }
           else if char_len = 4 then do {
             c0 \<leftarrow> read_at chr 0; c1 \<leftarrow> read_at chr 1; c2 \<leftarrow> read_at chr 2; c3 \<leftarrow> read_at chr 3;
             Some (sint (push_bit 18 (ucast c0 AND 0x07) OR push_bit 12 (ucast c1 AND 0x3F) OR
                         push_bit 6 (ucast c2 AND 0x3F) OR (ucast c3 AND 0x3F) :: u32))
           }
           else Some (- 1))
        })"

partial_function (option) len16_loop :: "u8 list \<Rightarrow> u64 \<Rightarrow> u64 \<Rightarrow> u64 \<Rightarrow> int option" where
  "len16_loop str n i len16 =
     (if i < n
      then do {
        c \<leftarrow> read_at str i;
        let char_len = utf8_len_map ! unat c;
        let len16 = len16 + ucast (utf16_len_map ! unat c);
        if char_len = 0 then Some (- 1)
        else len16_loop str n (i + ucast char_len) len16
      }
      else Some (sint len16))"

definition cx_utf8_16len :: "u8 list \<Rightarrow> u64 \<Rightarrow> int option" where
  "cx_utf8_16len str n = len16_loop str n 0 0"

section \<open>The tables classify lead bytes\<close>

definition lead_len :: "u8 \<Rightarrow> nat" where
  "lead_len c =
     (if unat c < 128 then 1 else if unat c < 192 then 0 else if unat c < 224 then 2
      else if unat c < 240 then 3 else if unat c < 248 then 4 else 0)"

definition lead_units :: "u8 \<Rightarrow> nat" where
  "lead_units c = (if lead_len c = 0 then 0 else if lead_len c \<le> 2 then 1 else 2)"

lemma utf8_table: "utf8_len_map =
  replicate 128 1 @ replicate 64 0 @ replicate 32 2 @ replicate 16 3 @ replicate 8 4 @ replicate 8 0"
  by code_simp

lemma utf16_table: "utf16_len_map =
  replicate 128 1 @ replicate 64 0 @ replicate 32 1 @ replicate 16 2 @ replicate 8 2 @ replicate 8 0"
  by code_simp

lemma nth_append_replicate:
  "(replicate n x @ ys) ! i = (if i < n then x else ys ! (i - n))"
  by (simp add: nth_append)

lemma unat_u8: "unat (c :: u8) < 256"
  using unsigned_less [of c] by simp

lemma utf8_len_nth: "utf8_len_map ! unat c = of_nat (lead_len c)"
  using unat_u8 [of c] by (auto simp: utf8_table nth_append_replicate lead_len_def)

lemma utf16_len_nth: "utf16_len_map ! unat c = of_nat (lead_units c)"
  using unat_u8 [of c] by (auto simp: utf16_table nth_append_replicate lead_units_def lead_len_def)

lemma lead_len_le: "lead_len c \<le> 4"
  by (simp add: lead_len_def)

lemma ucast_lead_len [simp]: "ucast (of_nat (lead_len c) :: u8) = (of_nat (lead_len c) :: u64)"
  by (simp add: lead_len_def)

lemma ucast_lead_units [simp]: "ucast (of_nat (lead_units c) :: u8) = (of_nat (lead_units c) :: u64)"
  by (simp add: lead_units_def)

lemma lead_len_eq_0 [simp]: "(of_nat (lead_len c) :: u8) = 0 \<longleftrightarrow> lead_len c = 0"
  by (simp add: lead_len_def)

section \<open>Characters of a byte string\<close>

text \<open>
  How the functions cut a string: each character takes as many bytes as its first byte
  says; the last one may be cut short. \<open>None\<close> if a first byte is not a lead byte.
\<close>

function chunks :: "u8 list \<Rightarrow> u8 list list option" where
  "chunks [] = Some []"
| "chunks (c # cs) = (if lead_len c = 0 then None
     else map_option ((#) (take (lead_len c) (c # cs))) (chunks (drop (lead_len c) (c # cs))))"
  by pat_completeness auto
termination
  by (relation "measure length") auto

definition whole :: "u8 list \<Rightarrow> bool" where
  "whole ch \<longleftrightarrow> ch \<noteq> [] \<and> length ch = lead_len (hd ch)"

lemma chunks_append:
  assumes "whole ch"
  shows "chunks (ch @ bs) = map_option ((#) ch) (chunks bs)"
proof -
  obtain c cs where ch: "ch = c # cs" "lead_len c = Suc (length cs)"
    using assms by (cases ch) (auto simp: whole_def)
  then show ?thesis by simp
qed

lemma chunks_concat_whole: "list_all whole chs \<Longrightarrow> chunks (concat chs) = Some chs"
  by (induction chs) (auto simp: chunks_append)

section \<open>The loops against the cut\<close>

text \<open>
  Every object is smaller than \<open>PTRDIFF_MAX\<close>, so no index wraps. The loops look
  at the rest \<open>drop i str\<close> of the string.
\<close>

definition str_ok :: "u8 list \<Rightarrow> u64 \<Rightarrow> bool" where
  "str_ok str n \<longleftrightarrow> unat n \<le> length str \<and> length str < 2 ^ 63 - 1"

lemma str_ok_step:
  assumes "str_ok str n" "i < n"
  shows "read_at str i = Some (str ! unat i)" "unat i < length str"
    "unat (i + of_nat (lead_len c)) = unat i + lead_len c"
proof -
  have i: "unat i < unat n" using assms(2) by (simp add: word_less_nat_alt)
  then show "read_at str i = Some (str ! unat i)" "unat i < length str"
    using assms(1) by (auto simp: read_at_def str_ok_def)
  have "unat (of_nat (lead_len c) :: u64) = lead_len c"
    using lead_len_le [of c] by (intro unat_of_nat64) simp
  moreover have "unat i + lead_len c < 2 ^ 64"
    using i assms(1) lead_len_le [of c] by (simp add: str_ok_def)
  ultimately show "unat (i + of_nat (lead_len c)) = unat i + lead_len c"
    by (metis unat_add_no_wrap)
qed

definition rest :: "u8 list \<Rightarrow> u64 \<Rightarrow> u64 \<Rightarrow> u8 list" where
  "rest str n i = drop (unat i) (take (unat n) str)"

lemma rest_Nil: "\<not> i < n \<Longrightarrow> rest str n i = []"
  by (simp add: rest_def word_less_nat_alt not_less)

lemma rest_Cons:
  assumes "str_ok str n" "i < n"
  shows "rest str n i = str ! unat i # drop 1 (rest str n i)"
    "rest str n (i + of_nat (lead_len c)) = drop (lead_len c) (rest str n i)"
proof -
  have "unat i < length (take (unat n) str)"
    using assms by (simp add: str_ok_def word_less_nat_alt)
  from Cons_nth_drop_Suc [OF this] show "rest str n i = str ! unat i # drop 1 (rest str n i)"
    using assms by (simp add: rest_def word_less_nat_alt)
  show "rest str n (i + of_nat (lead_len c)) = drop (lead_len c) (rest str n i)"
    by (simp add: rest_def str_ok_step(3) [OF assms] add.commute)
qed

lemma chunks_rest:
  assumes "str_ok str n" "i < n"
  shows "chunks (rest str n i) = (let c = str ! unat i in if lead_len c = 0 then None
    else map_option ((#) (take (lead_len c) (rest str n i))) (chunks (rest str n (i + of_nat (lead_len c)))))"
  using rest_Cons [OF assms] chunks.simps(2) [of "str ! unat i" "drop 1 (rest str n i)"] by (simp add: Let_def)

text \<open>The induction the loops share: over the bytes that are left.\<close>

lemma loop_induct [consumes 1, case_names stop step]:
  assumes ok: "str_ok str n"
    and stop: "\<And>i. \<not> i < n \<Longrightarrow> P i"
    and step: "\<And>i. i < n \<Longrightarrow> (lead_len (str ! unat i) \<noteq> 0 \<Longrightarrow> P (i + of_nat (lead_len (str ! unat i)))) \<Longrightarrow> P i"
  shows "P i"
proof (induction "length (rest str n i)" arbitrary: i rule: less_induct)
  case less
  show ?case
  proof (cases "i < n")
    case True
    have "length (rest str n (i + of_nat (lead_len (str ! unat i)))) < length (rest str n i)"
      if "lead_len (str ! unat i) \<noteq> 0"
      using that rest_Cons [OF ok True] by (metis length_drop length_Cons diff_less zero_less_Suc not_gr_zero)
    then show ?thesis using step [OF True] less by blast
  qed (rule stop)
qed

lemma rest_shrinks:
  assumes "str_ok str n" "i < n" "lead_len (str ! unat i) \<noteq> 0"
  shows "length (rest str n (i + of_nat (lead_len (str ! unat i)))) < length (rest str n i)"
  using assms(3) rest_Cons [OF assms(1,2)] by (metis length_drop length_Cons diff_less zero_less_Suc not_gr_zero)

lemma sint_unat:
  assumes "unat (w :: u64) < 2 ^ 63"
  shows "sint w = int (unat w)"
proof -
  have "int (unat w) < int (2 ^ 63)" using assms by (simp only: of_nat_less_iff)
  moreover have "- (2 ^ 63) \<le> uint w" by (rule order_trans [OF _ uint_ge_0]) simp
  ultimately have "signed_take_bit 63 (uint w) = uint w"
    by (intro signed_take_bit_int_eq_self) simp_all
  then show ?thesis by (simp add: sint_uint)
qed

lemma clen_loop_spec:
  assumes "str_ok str n"
  shows "unat count + length (rest str n i) < 2 ^ 63 \<Longrightarrow> clen_loop str n i count =
    Some (case chunks (rest str n i) of None \<Rightarrow> - 1 | Some chs \<Rightarrow> int (unat count + length chs))"
  using assms
proof (induction i arbitrary: count rule: loop_induct)
  case (stop i)
  then show ?case by (subst clen_loop.simps) (simp add: rest_Nil sint_unat)
next
  case (step i)
  let ?c = "str ! unat i"
  let ?j = "i + of_nat (lead_len ?c)"
  note s = str_ok_step [OF assms step.hyps(1)]
  have u: "clen_loop str n i count = (if lead_len ?c = 0 then Some (- 1) else clen_loop str n ?j (count + 1))"
    using step.hyps(1) s(1) by (subst clen_loop.simps) (simp add: utf8_len_nth)
  show ?case
  proof (cases "lead_len ?c = 0")
    case True
    then show ?thesis using u chunks_rest [OF assms step.hyps(1)] by simp
  next
    case False
    note sh = rest_shrinks [OF assms step.hyps(1) False]
    then have c: "unat (count + 1) = Suc (unat count)"
      using step.prems by (subst unat_add_no_wrap) simp_all
    have "clen_loop str n ?j (count + 1) = Some (case chunks (rest str n ?j) of None \<Rightarrow> - 1
        | Some chs \<Rightarrow> int (unat (count + 1) + length chs))"
      using step.IH [OF False] step.prems sh by (simp add: c)
    then show ?thesis using u False chunks_rest [OF assms step.hyps(1)] c
      by (auto split: option.splits)
  qed
qed

lemma len16_loop_spec:
  assumes "str_ok str n"
  shows "unat u + length (rest str n i) + (if rest str n i = [] then 0 else 1) < 2 ^ 63 \<Longrightarrow>
    len16_loop str n i u =
    Some (case chunks (rest str n i) of None \<Rightarrow> - 1 | Some chs \<Rightarrow> int (unat u + (\<Sum>ch \<leftarrow> chs. lead_units (hd ch))))"
  using assms
proof (induction i arbitrary: u rule: loop_induct)
  case (stop i)
  then show ?case by (subst len16_loop.simps) (simp add: rest_Nil sint_unat)
next
  case (step i)
  let ?c = "str ! unat i"
  let ?j = "i + of_nat (lead_len ?c)" and ?u = "u + of_nat (lead_units ?c)"
  note s = str_ok_step [OF assms step.hyps(1)] and r = rest_Cons [OF assms step.hyps(1)]
  have run: "len16_loop str n i u = (if lead_len ?c = 0 then Some (- 1) else len16_loop str n ?j ?u)"
    using step.hyps(1) s(1) by (subst len16_loop.simps) (simp add: utf8_len_nth utf16_len_nth)
  show ?case
  proof (cases "lead_len ?c = 0")
    case True
    then show ?thesis using run chunks_rest [OF assms step.hyps(1)] by simp
  next
    case False
    have units: "lead_units ?c \<le> 2" "lead_units ?c \<le> lead_len ?c"
      using False by (auto simp: lead_units_def)
    have len: "length (rest str n ?j) = length (rest str n i) - lead_len ?c" "1 \<le> length (rest str n i)"
      using r(2) [of ?c] by simp (metis r(1) length_Cons le_add1 plus_1_eq_Suc)
    have room: "unat u + lead_units ?c + length (rest str n ?j) + (if rest str n ?j = [] then 0 else 1) < 2 ^ 63"
    proof (cases "rest str n ?j = []")
      case True
      then show ?thesis using step.prems(1) len units by (simp split: if_splits)
    next
      case False
      then have "0 < length (rest str n i) - lead_len ?c" by (metis len(1) length_greater_0_conv)
      then show ?thesis using step.prems(1) len units False by (simp split: if_splits)
    qed
    have "unat (of_nat (lead_units ?c) :: u64) = lead_units ?c"
      using units(1) by (intro unat_of_nat64) simp
    then have w: "unat ?u = unat u + lead_units ?c"
      using room by (subst unat_add_no_wrap) simp_all
    have "len16_loop str n ?j ?u = Some (case chunks (rest str n ?j) of None \<Rightarrow> - 1
        | Some chs \<Rightarrow> int (unat ?u + (\<Sum>ch \<leftarrow> chs. lead_units (hd ch))))"
      by (rule step.IH [OF False]) (use room w in simp_all)
    moreover have "hd (take (lead_len ?c) (rest str n i)) = ?c"
      using r(1) False by (metis hd_take list.sel(1) not_gr_zero)
    ultimately show ?thesis using run False chunks_rest [OF assms step.hyps(1)] w
      by (auto split: option.splits)
  qed
qed

text \<open>Where the character number \<open>k\<close> starts.\<close>

fun walk :: "nat \<Rightarrow> u8 list \<Rightarrow> nat option" where
  "walk 0 bs = Some 0"
| "walk (Suc k) [] = Some 0"
| "walk (Suc k) (c # cs) = (if lead_len c = 0 then None
     else map_option ((+) (lead_len c)) (walk k (drop (lead_len c) (c # cs))))"

lemma walk_Nil [simp]: "walk k [] = Some 0"
  by (cases k) auto

lemma bidx_loop_spec:
  assumes "str_ok str n"
  shows "bidx_loop str n k j i = Some (case walk (unat k - unat j) (rest str n i) of None \<Rightarrow> - 1
    | Some w \<Rightarrow> if unat n < unat i + w then - 1 else int (unat i + w))"
  using assms
proof (induction i arbitrary: j rule: loop_induct)
  case (stop i)
  then have "sint i = int (unat i)" if "\<not> unat n < unat i"
    using that assms by (intro sint_unat) (simp add: str_ok_def)
  then show ?case using stop
    by (subst bidx_loop.simps) (simp add: rest_Nil word_less_nat_alt del: of_nat_unat)
next
  case (step i)
  let ?c = "str ! unat i"
  let ?i = "i + of_nat (lead_len ?c)"
  note s = str_ok_step [OF assms step.hyps(1)] and r = rest_Cons [OF assms step.hyps(1)]
  show ?case
  proof (cases "j < k")
    case False
    have "sint i = int (unat i)"
      using step.hyps(1) assms by (intro sint_unat) (simp add: str_ok_def word_less_nat_alt)
    then show ?thesis using step.hyps(1) False
      by (subst bidx_loop.simps) (simp add: word_less_nat_alt not_less del: of_nat_unat)
  next
    case True
    then have "unat j + unat (1 :: u64) < 2 ^ 64"
      using unat_lt64 [of k] by (simp add: word_less_nat_alt del: unat_lt64 unat_lt64_num)
    then have "unat (j + 1) = Suc (unat j)" by (subst unat_add_no_wrap) simp_all
    then have k: "unat k - unat j = Suc (unat k - unat (j + 1))"
      using True by (simp add: word_less_nat_alt)
    have run: "bidx_loop str n k j i = (if lead_len ?c = 0 then Some (- 1) else bidx_loop str n k (j + 1) ?i)"
      using step.hyps(1) True s(1) by (subst bidx_loop.simps) (simp add: utf8_len_nth)
    have w: "walk (unat k - unat j) (rest str n i) = (if lead_len ?c = 0 then None
        else map_option ((+) (lead_len ?c)) (walk (unat k - unat (j + 1)) (rest str n ?i)))"
    proof -
      obtain xs where "rest str n i = ?c # xs" using r(1) by blast
      then show ?thesis by (simp add: k r(2))
    qed
    show ?thesis
    proof (cases "lead_len ?c = 0")
      case False
      then show ?thesis using run w step.IH [OF False, of "j + 1"] assms s(3)
        by (auto split: option.splits)
    qed (use run w in simp)
  qed
qed

section \<open>Encoded text\<close>

text \<open>The encoding of the standard, with up to four bytes.\<close>

definition utf8_encode :: "nat \<Rightarrow> u8 list" where
  "utf8_encode cp =
     (if cp < 0x80 then [of_nat cp]
      else if cp < 0x800 then [of_nat (0xC0 + cp div 0x40), of_nat (0x80 + cp mod 0x40)]
      else if cp < 0x10000 then
        [of_nat (0xE0 + cp div 0x1000), of_nat (0x80 + cp div 0x40 mod 0x40), of_nat (0x80 + cp mod 0x40)]
      else [of_nat (0xF0 + cp div 0x40000), of_nat (0x80 + cp div 0x1000 mod 0x40),
            of_nat (0x80 + cp div 0x40 mod 0x40), of_nat (0x80 + cp mod 0x40)])"

text \<open>
  The number of UTF-16 code units of a code point by the standard, and the number the
  generated table gives its lead byte.
\<close>

definition utf16_units :: "nat \<Rightarrow> nat" where
  "utf16_units cp = (if cp < 0x10000 then 1 else 2)"

definition table_units :: "nat \<Rightarrow> nat" where
  "table_units cp = (if cp < 0x800 then 1 else 2)"

definition utf8_text :: "nat list \<Rightarrow> u8 list" where
  "utf8_text cps = concat (map utf8_encode cps)"

definition is_cp :: "nat \<Rightarrow> bool" where
  "is_cp cp \<longleftrightarrow> cp < 0x110000"

lemma unat_of_nat8: "n < 256 \<Longrightarrow> unat (of_nat n :: u8) = n"
  by (simp add: unat_of_nat)

lemma encode_facts:
  assumes "is_cp cp"
  shows "whole (utf8_encode cp)" "lead_units (hd (utf8_encode cp)) = table_units cp"
    "length (utf8_encode cp) \<le> 4"
proof -
  consider "cp < 0x80" | "0x80 \<le> cp" "cp < 0x800" | "0x800 \<le> cp" "cp < 0x10000" | "0x10000 \<le> cp" "cp < 0x110000"
    using assms by (fastforce simp: is_cp_def)
  then have "whole (utf8_encode cp) \<and> lead_units (hd (utf8_encode cp)) = table_units cp \<and> length (utf8_encode cp) \<le> 4"
  proof cases
    case 1
    then show ?thesis
      by (simp add: utf8_encode_def whole_def lead_units_def lead_len_def table_units_def unat_of_nat8)
  next
    case 2
    have "192 + cp div 64 < 224" using 2 by simp
    then show ?thesis using 2
      by (simp add: utf8_encode_def whole_def lead_units_def lead_len_def table_units_def unat_of_nat8 del: of_nat_add)
  next
    case 3
    have "224 + cp div 4096 < 240" using 3 by simp
    then show ?thesis using 3
      by (simp add: utf8_encode_def whole_def lead_units_def lead_len_def table_units_def unat_of_nat8 del: of_nat_add)
  next
    case 4
    have "240 + cp div 262144 < 248" using 4 by simp
    then show ?thesis using 4
      by (simp add: utf8_encode_def whole_def lead_units_def lead_len_def table_units_def unat_of_nat8 del: of_nat_add)
  qed
  then show "whole (utf8_encode cp)" "lead_units (hd (utf8_encode cp)) = table_units cp"
    "length (utf8_encode cp) \<le> 4" by auto
qed

lemma chunks_text: "list_all is_cp cps \<Longrightarrow> chunks (utf8_text cps) = Some (map utf8_encode cps)"
  unfolding utf8_text_def by (rule chunks_concat_whole) (auto simp: list_all_iff encode_facts)

lemma walk_text:
  "list_all is_cp cps \<Longrightarrow> walk k (utf8_text cps) = Some (length (utf8_text (take k cps)))"
proof (induction cps arbitrary: k)
  case (Cons cp cps)
  then show ?case
  proof (cases k)
    case (Suc j)
    have w: "whole (utf8_encode cp)" using Cons.prems by (auto simp: encode_facts)
    then obtain c cs where ch: "utf8_encode cp = c # cs" "lead_len c = Suc (length cs)"
      by (cases "utf8_encode cp") (auto simp: whole_def)
    then show ?thesis using Cons Suc by (simp add: utf8_text_def)
  qed (simp add: utf8_text_def)
qed (simp add: utf8_text_def)

section \<open>Decoding\<close>

lemma and_mask_unat:
  "unat (ucast (c :: u8) AND 0x3F :: u32) = unat c mod 64" "unat (ucast c AND 0x1F :: u32) = unat c mod 32"
  "unat (ucast c AND 0x0F :: u32) = unat c mod 16" "unat (ucast c AND 0x07 :: u32) = unat c mod 8"
proof -
  have "unat (ucast c AND mask k :: u32) = unat c mod 2 ^ k" for k
    unfolding take_bit_eq_mask [symmetric] unsigned_take_bit_eq
    using unat_u8 [of c] by (simp add: unsigned_ucast_eq take_bit_eq_mod [where 'a = nat])
  from this [of 6] this [of 5] this [of 4] this [of 3]
  show "unat (ucast c AND 0x3F :: u32) = unat c mod 64" "unat (ucast c AND 0x1F :: u32) = unat c mod 32"
    "unat (ucast c AND 0x0F :: u32) = unat c mod 16" "unat (ucast c AND 0x07 :: u32) = unat c mod 8"
    by (simp_all add: mask_eq_exp_minus_1)
qed

lemma push_or_unat:
  fixes x y :: u32
  assumes "unat y < 2 ^ k" "unat x * 2 ^ k < 2 ^ 31" "k < 31"
  shows "unat (push_bit k x OR y) = unat x * 2 ^ k + unat y"
proof -
  have y: "take_bit k y = y"
    using assms(1) by (simp add: word_unat_eq_iff unsigned_take_bit_eq take_bit_nat_eq_self)
  have "push_bit k x OR y = push_bit k x + y"
    by (rule sym, rule disjunctive_add_eq_or, subst y [symmetric]) (auto simp: bit_eq_iff bit_simps)
  moreover have "unat (push_bit k x) = unat x * 2 ^ k"
    using assms(2) by (simp add: unsigned_push_bit_eq push_bit_eq_mult [where 'a = nat] take_bit_nat_eq_self)
  moreover have "(2 :: nat) ^ k \<le> 2 ^ 31" using assms(3) by (intro power_increasing) auto
  ultimately show ?thesis using assms by (simp add: unat_word_ariths)
qed

fun char_value :: "u8 list \<Rightarrow> nat" where
  "char_value [a] = unat a"
| "char_value [a, b] = unat a mod 32 * 64 + unat b mod 64"
| "char_value [a, b, c] = unat a mod 16 * 4096 + (unat b mod 64 * 64 + unat c mod 64)"
| "char_value [a, b, c, d] =
     unat a mod 8 * 262144 + (unat b mod 64 * 4096 + (unat c mod 64 * 64 + unat d mod 64))"
| "char_value _ = 0"

lemma char_value_lt: "char_value ch < 2097152"
proof (cases ch rule: char_value.cases)
  case (1 a)
  then show ?thesis using unat_u8 [of a] by simp
next
  case (2 a b)
  have "unat a mod 32 < 32" "unat b mod 64 < 64" by simp_all
  then have "unat a mod 32 * 64 + unat b mod 64 < 2097152" by linarith
  then show ?thesis using 2 by simp
next
  case (3 a b c)
  have "unat a mod 16 < 16" "unat b mod 64 < 64" "unat c mod 64 < 64" by simp_all
  then have "unat a mod 16 * 4096 + (unat b mod 64 * 64 + unat c mod 64) < 2097152" by linarith
  then show ?thesis using 3 by simp
next
  case (4 a b c d)
  have "unat a mod 8 < 8" "unat b mod 64 < 64" "unat c mod 64 < 64" "unat d mod 64 < 64" by simp_all
  then have "unat a mod 8 * 262144 + (unat b mod 64 * 4096 + (unat c mod 64 * 64 + unat d mod 64)) < 2097152" by linarith
  then show ?thesis using 4 by simp
qed simp_all

lemma sint_u32: "unat (w :: u32) < 2 ^ 31 \<Longrightarrow> sint w = int (unat w)"
proof -
  assume "unat (w :: u32) < 2 ^ 31"
  then have "int (unat w) < int (2 ^ 31)" by (simp only: of_nat_less_iff)
  moreover have "- (2 ^ 31) \<le> uint w" by (rule order_trans [OF _ uint_ge_0]) simp
  ultimately have "signed_take_bit 31 (uint w) = uint w"
    by (intro signed_take_bit_int_eq_self) simp_all
  then show ?thesis by (simp add: sint_uint)
qed

text \<open>The shifts and masks of the four cases, as arithmetic.\<close>

lemma join2: "unat (push_bit 6 (ucast (a :: u8) AND 0x1F) OR (ucast (b :: u8) AND 0x3F) :: u32) = char_value [a, b]"
proof -
  have "unat a mod 32 < 32" by simp
  then show ?thesis by (subst push_or_unat) (simp_all add: and_mask_unat)
qed

lemma join2': "unat (push_bit 6 (ucast (a :: u8) AND 0x3F) OR (ucast (b :: u8) AND 0x3F) :: u32) = unat a mod 64 * 64 + unat b mod 64"
proof -
  have "unat a mod 64 < 64" by simp
  then show ?thesis by (subst push_or_unat) (simp_all add: and_mask_unat)
qed

lemma join3: "unat (push_bit 12 (ucast (a :: u8) AND 0x0F) OR push_bit 6 (ucast (b :: u8) AND 0x3F) OR
    (ucast (c :: u8) AND 0x3F) :: u32) = char_value [a, b, c]"
proof -
  have "unat a mod 16 < 16" "unat b mod 64 < 64" "unat c mod 64 < 64" by simp_all
  then have "unat b mod 64 * 64 + unat c mod 64 < 2 ^ 12" "unat a mod 16 * 2 ^ 12 < 2 ^ 31" by simp_all
  then show ?thesis
    unfolding or.assoc by (subst push_or_unat) (simp_all add: and_mask_unat join2' del: push_bit_and)
qed

lemma join3': "unat (push_bit 12 (ucast (a :: u8) AND 0x3F) OR push_bit 6 (ucast (b :: u8) AND 0x3F) OR
    (ucast (c :: u8) AND 0x3F) :: u32) = unat a mod 64 * 4096 + (unat b mod 64 * 64 + unat c mod 64)"
proof -
  have "unat a mod 64 < 64" "unat b mod 64 < 64" "unat c mod 64 < 64" by simp_all
  then have "unat b mod 64 * 64 + unat c mod 64 < 2 ^ 12" "unat a mod 64 * 2 ^ 12 < 2 ^ 31" by simp_all
  then show ?thesis
    unfolding or.assoc by (subst push_or_unat) (simp_all add: and_mask_unat join2' del: push_bit_and)
qed

lemma join4: "unat (push_bit 18 (ucast (a :: u8) AND 0x07) OR push_bit 12 (ucast (b :: u8) AND 0x3F) OR
    push_bit 6 (ucast (c :: u8) AND 0x3F) OR (ucast (d :: u8) AND 0x3F) :: u32) = char_value [a, b, c, d]"
proof -
  have "unat a mod 8 < 8" "unat b mod 64 < 64" "unat c mod 64 < 64" "unat d mod 64 < 64" by simp_all
  then have "unat b mod 64 * 4096 + (unat c mod 64 * 64 + unat d mod 64) < 2 ^ 18" "unat a mod 8 * 2 ^ 18 < 2 ^ 31"
    by simp_all
  then show ?thesis
    unfolding or.assoc by (subst push_or_unat) (simp_all add: and_mask_unat join3' [unfolded or.assoc] del: push_bit_and)
qed

lemma csize_eq: "cx_utf8_csize (c # cs) n = Some (if lead_len c \<le> unat n then of_nat (lead_len c) else 0)"
proof -
  have "unat (of_nat (lead_len c) :: u64) = lead_len c" using lead_len_le [of c] by (intro unat_of_nat64) simp
  then show ?thesis
    by (simp add: cx_utf8_csize_def read_at_def utf8_len_nth Let_def word_less_nat_alt not_less)
qed

lemma cp_bad: "lead_len c = 0 \<or> unat n < lead_len c \<Longrightarrow> cx_utf8_cp (Some (c # cs)) n = Some (- 1)"
  by (auto simp: cx_utf8_cp_def csize_eq)

lemma whole_cases:
  assumes "whole ch"
  obtains a where "ch = [a]" "lead_len a = 1" | a b where "ch = [a, b]" "lead_len a = 2"
    | a b c where "ch = [a, b, c]" "lead_len a = 3" | a b c d where "ch = [a, b, c, d]" "lead_len a = 4"
proof -
  have "length ch \<le> 4" using assms lead_len_le by (metis whole_def)
  then show thesis using assms that
    by (cases ch rule: char_value.cases) (auto simp: whole_def)
qed

lemma sint_char_value: "unat (w :: u32) = char_value ch \<Longrightarrow> sint w = int (char_value ch)"
  using char_value_lt [of ch] by (subst sint_u32) simp_all

lemma cp_whole:
  assumes ch: "whole ch" and n: "length ch \<le> unat n"
  shows "cx_utf8_cp (Some (ch @ bs)) n = Some (int (char_value ch))"
proof -
  note v = sint_char_value
  show ?thesis using ch
  proof (cases rule: whole_cases)
    case (1 a)
    then show ?thesis using n by (simp add: cx_utf8_cp_def csize_eq read_at_def)
  next
    case (2 a b)
    then show ?thesis using n v [OF join2] by (simp add: cx_utf8_cp_def csize_eq read_at_def)
  next
    case (3 a b c)
    then show ?thesis using n v [OF join3] by (simp add: cx_utf8_cp_def csize_eq read_at_def)
  next
    case (4 a b c d)
    then show ?thesis using n v [OF join4] by (simp add: cx_utf8_cp_def csize_eq read_at_def)
  qed
qed

lemma unat_marked8: "k * m + n < 256 \<Longrightarrow> n < m \<Longrightarrow> unat (of_nat (k * m + n) :: u8) mod m = n"
  by (subst unat_of_nat8) simp_all

lemma cont_byte: "n < 64 \<Longrightarrow> unat (of_nat (0x80 + n) :: u8) mod 64 = n"
  using unat_marked8 [of 2 64 n] by simp

lemma value_encode:
  assumes "is_cp cp"
  shows "char_value (utf8_encode cp) = cp"
proof -
  have d64: "cp div 64 * 64 + cp mod 64 = cp" by (rule div_mult_mod_eq)
  have d12: "cp div 4096 * 64 + cp div 64 mod 64 = cp div 64"
    using div_mult_mod_eq [of "cp div 64" 64] by (simp flip: div_mult2_eq)
  have d18: "cp div 262144 * 64 + cp div 4096 mod 64 = cp div 4096"
    using div_mult_mod_eq [of "cp div 4096" 64] by (simp flip: div_mult2_eq)
  consider "cp < 0x80" | "0x80 \<le> cp" "cp < 0x800" | "0x800 \<le> cp" "cp < 0x10000" | "0x10000 \<le> cp" "cp < 0x110000"
    using assms by (fastforce simp: is_cp_def)
  then show ?thesis
  proof cases
    case 1
    then show ?thesis by (simp add: utf8_encode_def unat_of_nat8)
  next
    case 2
    then have "cp div 64 < 32" by auto
    then have "unat (of_nat (0xC0 + cp div 64) :: u8) mod 32 = cp div 64"
      using unat_marked8 [of 6 32 "cp div 64"] by simp
    then show ?thesis using 2 cont_byte [of "cp mod 64"] d64
      by (simp add: utf8_encode_def del: of_nat_add)
  next
    case 3
    then have "cp div 4096 < 16" by auto
    then have "unat (of_nat (0xE0 + cp div 4096) :: u8) mod 16 = cp div 4096"
      using unat_marked8 [of 14 16 "cp div 4096"] by simp
    moreover have "cp div 4096 * 4096 + (cp div 64 mod 64 * 64 + cp mod 64) = cp" using d64 d12 by linarith
    ultimately show ?thesis using 3 cont_byte [of "cp mod 64"] cont_byte [of "cp div 64 mod 64"]
      by (simp add: utf8_encode_def del: of_nat_add)
  next
    case 4
    then have "cp div 262144 < 8" by auto
    then have "unat (of_nat (0xF0 + cp div 262144) :: u8) mod 8 = cp div 262144"
      using unat_marked8 [of 30 8 "cp div 262144"] by simp
    moreover have "cp div 262144 * 262144 + (cp div 4096 mod 64 * 4096 + (cp div 64 mod 64 * 64 + cp mod 64)) = cp"
      using d64 d12 d18 by linarith
    ultimately show ?thesis using 4 cont_byte [of "cp mod 64"] cont_byte [of "cp div 64 mod 64"] cont_byte [of "cp div 4096 mod 64"]
      by (simp add: utf8_encode_def del: of_nat_add)
  qed
qed

section \<open>Properties\<close>

text \<open>
  C15. Decoding inverts encoding: \<^verbatim>\<open>cx_utf8_cp\<close> at the first byte of the
  encoding of any code point returns that code point, \<^verbatim>\<open>cx_utf8_csize\<close> its number
  of bytes, whatever follows; with fewer bytes left than the character needs both report
  it (\<open>-1\<close> and \<open>0\<close>).
\<close>

theorem utf8_decode_encode:
  assumes "is_cp cp"
  shows "if length (utf8_encode cp) \<le> unat n
    then cx_utf8_cp (Some (utf8_encode cp @ bs)) n = Some (int cp) \<and>
         cx_utf8_csize (utf8_encode cp @ bs) n = Some (of_nat (length (utf8_encode cp)))
    else cx_utf8_cp (Some (utf8_encode cp @ bs)) n = Some (- 1) \<and>
         cx_utf8_csize (utf8_encode cp @ bs) n = Some 0"
proof -
  have w: "whole (utf8_encode cp)" by (rule encode_facts(1) [OF assms])
  then obtain c cs where ch: "utf8_encode cp = c # cs" "lead_len c = length (utf8_encode cp)"
    by (cases "utf8_encode cp") (auto simp: whole_def)
  show ?thesis
  proof (cases "length (utf8_encode cp) \<le> unat n")
    case True
    then show ?thesis
      using cp_whole [OF w True, of bs] value_encode [OF assms] csize_eq [of c "cs @ bs" n] ch by simp
  next
    case False
    then show ?thesis using cp_bad [of c n "cs @ bs"] csize_eq [of c "cs @ bs" n] ch by simp
  qed
qed

theorem utf8_decode_encode_witness:
  "cx_utf8_cp (Some (utf8_encode 0x1F603 @ [97])) 5 = Some 0x1F603 \<and> cx_utf8_csize (utf8_encode 0x1F603) 3 = Some 0"
  using utf8_decode_encode [of "0x1F603" 5 "[97]"] utf8_decode_encode [of "0x1F603" 3 "[]"]
  by (simp add: is_cp_def utf8_encode_def)

text \<open>
  C29. On encoded text the index functions count characters: \<^verbatim>\<open>cx_utf8_clen\<close> is
  the number of code points, \<^verbatim>\<open>cx_utf8_bidx\<close> the offset at which the character
  with the given number starts (the end of the text if there is none), so that cutting there
  gives the text of the first characters.
\<close>

theorem utf8_index_text:
  assumes "list_all is_cp cps" "length (utf8_text cps) < 2 ^ 63 - 1"
  shows "cx_utf8_clen (utf8_text cps) (of_nat (length (utf8_text cps))) = Some (int (length cps)) \<and>
    cx_utf8_bidx (utf8_text cps) (of_nat (length (utf8_text cps))) k =
      Some (int (length (utf8_text (take (unat k) cps))))"
proof -
  let ?s = "utf8_text cps" and ?n = "of_nat (length (utf8_text cps)) :: u64"
  have n: "unat ?n = length ?s" using assms(2) by (intro unat_of_nat64) simp
  have ok: "str_ok ?s ?n" using n assms(2) by (simp add: str_ok_def)
  have r: "rest ?s ?n 0 = ?s" by (simp add: rest_def n)
  have "walk (unat k) ?s = Some (length (utf8_text (take (unat k) cps)))"
    by (rule walk_text [OF assms(1)])
  moreover have "length (utf8_text (take (unat k) cps)) \<le> length ?s"
    by (subst append_take_drop_id [of "unat k" cps, symmetric])
      (simp only: utf8_text_def map_append concat_append length_append le_add1)
  ultimately show ?thesis
    using clen_loop_spec [OF ok, of 0 0] bidx_loop_spec [OF ok, of k 0 0] assms(2) chunks_text [OF assms(1)]
    by (simp add: cx_utf8_clen_def cx_utf8_bidx_def r n del: of_nat_unat)
qed

theorem utf8_index_text_witness:
  "cx_utf8_clen (utf8_text [97, 0xE4, 0x1F603]) 7 = Some 3 \<and> cx_utf8_bidx (utf8_text [97, 0xE4, 0x1F603]) 7 2 = Some 3"
proof -
  have "list_all is_cp [97, 0xE4, 0x1F603]" "length (utf8_text [97, 0xE4, 0x1F603]) = 7"
    "length (utf8_text (take (unat (2 :: u64)) [97, 0xE4, 0x1F603])) = 3"
    by (simp_all add: is_cp_def utf8_text_def utf8_encode_def)
  then show ?thesis using utf8_index_text [of "[97, 0xE4, 0x1F603]" 2] by simp
qed

lemma sum_units:
  "(\<Sum>cp \<leftarrow> cps. utf16_units cp) \<le> (\<Sum>cp \<leftarrow> cps. table_units cp)"
  "(\<Sum>cp \<leftarrow> cps. table_units cp) = (\<Sum>cp \<leftarrow> cps. utf16_units cp) \<longleftrightarrow>
     list_all (\<lambda>cp. cp < 0x800 \<or> 0x10000 \<le> cp) cps"
proof (induction cps)
  case (Cons cp cps)
  have "utf16_units cp \<le> table_units cp" "table_units cp = utf16_units cp \<longleftrightarrow> cp < 0x800 \<or> 0x10000 \<le> cp"
    by (auto simp: utf16_units_def table_units_def)
  with Cons show "(\<Sum>cp \<leftarrow> cp # cps. utf16_units cp) \<le> (\<Sum>cp \<leftarrow> cp # cps. table_units cp)"
    "(\<Sum>cp \<leftarrow> cp # cps. table_units cp) = (\<Sum>cp \<leftarrow> cp # cps. utf16_units cp) \<longleftrightarrow>
       list_all (\<lambda>cp. cp < 0x800 \<or> 0x10000 \<le> cp) (cp # cps)"
    by auto
qed simp_all

text \<open>
  \<^verbatim>\<open>cx_utf8_16len\<close> over-counts: on encoded text it returns one unit for the
  code points below U+0800 and two for every other one, so that it is the length in UTF-16
  exactly when the text has no character between U+0800 and U+FFFF (the standard gives those
  one unit; the generated table gives every three-byte lead two).
\<close>

theorem utf16_len_overcounts:
  assumes "list_all is_cp cps" "length (utf8_text cps) < 2 ^ 63 - 1"
  shows "\<exists>r. cx_utf8_16len (utf8_text cps) (of_nat (length (utf8_text cps))) = Some (int r) \<and>
    r = (\<Sum>cp \<leftarrow> cps. table_units cp) \<and>
    (r = (\<Sum>cp \<leftarrow> cps. utf16_units cp) \<longleftrightarrow> list_all (\<lambda>cp. cp < 0x800 \<or> 0x10000 \<le> cp) cps)"
proof -
  let ?s = "utf8_text cps" and ?n = "of_nat (length (utf8_text cps)) :: u64"
  have n: "unat ?n = length ?s" using assms(2) by (intro unat_of_nat64) simp
  have ok: "str_ok ?s ?n" using n assms(2) by (simp add: str_ok_def)
  have r: "rest ?s ?n 0 = ?s" by (simp add: rest_def n)
  have "(\<Sum>ch \<leftarrow> map utf8_encode cps. lead_units (hd ch)) = (\<Sum>cp \<leftarrow> cps. table_units cp)"
    using assms(1) by (induction cps) (simp_all add: encode_facts)
  then show ?thesis
    using len16_loop_spec [OF ok, of 0 0] assms(2) chunks_text [OF assms(1)] sum_units(2) [of cps]
    by (simp add: cx_utf8_16len_def r)
qed

theorem utf16_len_overcounts_witness:
  "cx_utf8_16len (utf8_text [0x20AC]) 3 = Some 2 \<and> utf16_units 0x20AC = 1"
proof -
  have "list_all is_cp [0x20AC]" "length (utf8_text [0x20AC]) = 3"
    by (simp_all add: is_cp_def utf8_text_def utf8_encode_def)
  then show ?thesis using utf16_len_overcounts [of "[0x20AC]"]
    by (auto simp: table_units_def utf16_units_def)
qed

lemma chunks_lengths:
  "chunks bs = Some chs \<Longrightarrow> length chs \<le> length bs \<and>
     walk (length chs) bs = Some (\<Sum>ch \<leftarrow> chs. lead_len (hd ch)) \<and>
     length bs \<le> (\<Sum>ch \<leftarrow> chs. lead_len (hd ch)) \<and>
     ((\<Sum>ch \<leftarrow> chs. lead_len (hd ch)) = length bs \<longleftrightarrow> list_all whole chs)"
proof (induction bs arbitrary: chs rule: chunks.induct)
  case (2 c cs)
  let ?bs = "drop (lead_len c) (c # cs)"
  obtain chs' where c: "lead_len c \<noteq> 0" "chunks ?bs = Some chs'" "chs = take (lead_len c) (c # cs) # chs'"
    using 2(2) by (auto split: if_splits)
  have len: "length ?bs = length (c # cs) - lead_len c" by simp
  have h: "hd (take (lead_len c) (c # cs)) = c" "take (lead_len c) (c # cs) \<noteq> []"
    using c(1) by (cases "lead_len c", auto)+
  have w: "whole (take (lead_len c) (c # cs)) \<longleftrightarrow> lead_len c \<le> length (c # cs)"
    using c(1) by (auto simp: whole_def h min_def simp del: take_Suc_Cons)
  have wk: "walk (Suc (length chs')) (c # cs) = map_option ((+) (lead_len c)) (walk (length chs') ?bs)"
    using c(1) by simp
  note IH = 2(1) [OF c(1,2)]
  have empty: "chs' = []" if "length (c # cs) \<le> lead_len c" using c(2) that by simp
  show ?case
  proof (cases "lead_len c \<le> length (c # cs)")
    case True
    then show ?thesis using IH c(1,3) wk w h len by (auto simp del: length_Cons drop_Suc_Cons take_Suc_Cons walk.simps)
  next
    case False
    then show ?thesis using IH c(1,3) wk w h len empty by (auto simp del: drop_Suc_Cons take_Suc_Cons walk.simps)
  qed
qed simp

text \<open>
  The index functions on arbitrary bytes return, without reading past the string. A
  string in which every character starts with a lead byte has at most as many characters as
  bytes, and the offset after the last of them is the end of the string exactly when the last
  character is complete: a character that is cut short is counted by
  \<^verbatim>\<open>cx_utf8_clen\<close>, but \<^verbatim>\<open>cx_utf8_bidx\<close> fails behind it. Otherwise
  \<^verbatim>\<open>cx_utf8_clen\<close> and \<^verbatim>\<open>cx_utf8_16len\<close> return \<open>-1\<close>.
\<close>

theorem utf8_index_total:
  assumes "unat n \<le> length str" "length str < 2 ^ 63 - 1"
  shows "(case chunks (take (unat n) str) of
      None \<Rightarrow> cx_utf8_clen str n = Some (- 1) \<and> cx_utf8_16len str n = Some (- 1)
    | Some chs \<Rightarrow> cx_utf8_clen str n = Some (int (length chs)) \<and> length chs \<le> unat n \<and>
        cx_utf8_bidx str n (of_nat (length chs)) = Some (if list_all whole chs then int (unat n) else - 1)) \<and>
    (\<exists>r. cx_utf8_bidx str n k = Some r \<and> - 1 \<le> r \<and> r \<le> int (unat n))"
proof -
  have ok: "str_ok str n" using assms by (simp add: str_ok_def)
  have r: "rest str n 0 = take (unat n) str" by (simp add: rest_def)
  note c = clen_loop_spec [OF ok, of 0 0, unfolded r] and b = bidx_loop_spec [OF ok, of _ 0 0, unfolded r]
    and u = len16_loop_spec [OF ok, of 0 0, unfolded r]
  have k: "\<exists>r. cx_utf8_bidx str n k = Some r \<and> - 1 \<le> r \<and> r \<le> int (unat n)"
    unfolding cx_utf8_bidx_def b by (auto split: option.splits simp del: of_nat_unat)
  show ?thesis
  proof (cases "chunks (take (unat n) str)")
    case None
    then show ?thesis using c u k assms by (simp add: cx_utf8_clen_def cx_utf8_16len_def)
  next
    case (Some chs)
    note l = chunks_lengths [OF Some]
    have "unat (of_nat (length chs) :: u64) = length chs"
      using l assms by (intro unat_of_nat64) simp
    then have "cx_utf8_bidx str n (of_nat (length chs)) = Some (if list_all whole chs then int (unat n) else - 1)"
      unfolding cx_utf8_bidx_def b using l assms by auto
    then show ?thesis using Some c k l assms by (simp add: cx_utf8_clen_def)
  qed
qed

theorem utf8_index_total_witness:
  "cx_utf8_clen [97, 0xF0, 0x9F] 3 = Some 2 \<and> cx_utf8_bidx [97, 0xF0, 0x9F] 3 2 = Some (- 1)"
proof -
  have "chunks (take (unat (3 :: u64)) [97, 0xF0, 0x9F]) = Some [[97], [0xF0, 0x9F]]"
    by (simp add: lead_len_def)
  then show ?thesis using utf8_index_total [of 3 "[97, 0xF0, 0x9F]"] by (simp add: whole_def lead_len_def)
qed

end
