(* ===== verification/WidthTable.thy ===== *)
theory WidthTable
  imports Prelude
begin

text \<open>
  The two-level bit tables for character widths: the generator
  \<^verbatim>\<open>print_radix_table\<close> of \<^verbatim>\<open>lib/unicode/codegen/char_width.c\<close>
  and its reader \<^verbatim>\<open>table_lookup\<close> of \<^verbatim>\<open>lib/unicode/unicode-width.c\<close>.
  The generator prints C source; the model gives the arrays that source declares, with the
  \<^verbatim>\<open>TBL_<i>\<close> macros as a list of pairs.
\<close>

section \<open>The reader\<close>

record width_table =
  wt_lookup :: "u8 list"
  wt_tbl :: "u8 list"
  wt_size :: u64
  wt_radix :: u64

definition fetch :: "'a list \<Rightarrow> nat \<Rightarrow> 'a option" where
  "fetch xs i = (if i < length xs then Some (xs ! i) else None)"

text \<open>\<^verbatim>\<open>1 << radix\<close> is an \<^verbatim>\<open>int\<close>: a shift past its sign and an offset that overflows are undefined.\<close>

definition table_lookup :: "u8 list \<Rightarrow> u8 list \<Rightarrow> u64 \<Rightarrow> u64 \<Rightarrow> u32 \<Rightarrow> bool option" where
  "table_lookup lookup tbl n radix cp =
     (if n \<le> ucast cp then Some False
      else if 31 \<le> radix then None
      else do {
        let radix_mask = push_bit (unat radix) 1 - 1;
        index \<leftarrow> fetch lookup (unat (drop_bit (unat radix) cp));
        let offset = unat index * 2 ^ unat radix;
        if 2 ^ 31 \<le> offset then None
        else do {
          byte \<leftarrow> fetch tbl (offset div 8 + unat ((ucast cp AND radix_mask) div (8 :: u64)));
          Some (byte AND push_bit (unat (cp mod 8)) 1 \<noteq> 0)
        }
      })"

section \<open>The generator\<close>

record gen_state =
  g_tbl :: "u8 list"
  g_index :: nat
  g_defs :: "(nat \<times> nat) list"
  g_set :: "bool list"
  g_unset :: "bool list"
  need_null :: bool
  need_full :: bool

text \<open>The first inner loop: is the block \<open>i\<close> all unset, is it all set?\<close>

fun block_flags :: "bool list \<Rightarrow> nat \<Rightarrow> nat \<Rightarrow> nat \<Rightarrow> bool \<Rightarrow> bool \<Rightarrow> bool \<times> bool" where
  "block_flags table base j 0 all_unset all_set = (all_unset, all_set)"
| "block_flags table base j (Suc k) all_unset all_set =
     (if length table \<le> base + j then block_flags table base (Suc j) k all_unset all_set
      else if table ! (base + j) then block_flags table base (Suc j) k False all_set
      else block_flags table base (Suc j) k all_unset False)"

text \<open>The second inner loop: the bytes of the block \<open>i\<close>.\<close>

fun block_bytes :: "bool list \<Rightarrow> nat \<Rightarrow> nat \<Rightarrow> nat \<Rightarrow> u8 \<Rightarrow> u8 list" where
  "block_bytes table base j 0 cur = []"
| "block_bytes table base j (Suc k) cur =
     (let cur = (if base + j < length table \<and> table ! (base + j) then cur OR push_bit (j mod 8) 1 else cur) in
      if j mod 8 = 7 then cur # block_bytes table base (Suc j) k 0
      else block_bytes table base (Suc j) k cur)"

definition level1_step :: "bool list \<Rightarrow> nat \<Rightarrow> nat \<Rightarrow> gen_state \<Rightarrow> gen_state" where
  "level1_step table radix_num i g =
     (let (all_unset, all_set) = block_flags table (i * radix_num) 0 radix_num True True;
          g = g\<lparr>g_set := g_set g @ [all_set], g_unset := g_unset g @ [all_unset],
                need_null := need_null g \<or> all_unset, need_full := need_full g \<or> all_set\<rparr>
      in if all_set \<or> all_unset then g
         else g\<lparr>g_defs := g_defs g @ [(i, g_index g)], g_index := g_index g + 1,
                g_tbl := g_tbl g @ block_bytes table (i * radix_num) 0 radix_num 0\<rparr>)"

definition lookup_entry :: "gen_state \<Rightarrow> nat \<Rightarrow> nat \<Rightarrow> nat \<Rightarrow> u8 option" where
  "lookup_entry g tbl_full tbl_null i =
     (if g_set g ! i then Some (of_nat tbl_full)
      else if g_unset g ! i then Some (of_nat tbl_null)
      else map_option of_nat (map_of (g_defs g) i))"

text \<open>The two maps of the first level are taken to be allocated; the code does not test the results of these \<^verbatim>\<open>calloc\<close>.\<close>

definition print_radix_table :: "bool list \<Rightarrow> nat \<Rightarrow> width_table option" where
  "print_radix_table table radix =
     (let radix_num = 2 ^ radix;
          level_1_size = length table div radix_num + (if length table mod radix_num \<noteq> 0 then 1 else 0);
          level_2_size = radix_num div 8;
          g = fold (level1_step table radix_num) [0..<level_1_size]
                \<lparr>g_tbl = [], g_index = 0, g_defs = [], g_set = [], g_unset = [], need_null = False, need_full = False\<rparr>;
          tbl_full = g_index g;
          (tbl, tbl_null) = (if need_full g then (g_tbl g @ replicate level_2_size 0xFF, g_index g + 1)
                             else (g_tbl g, g_index g));
          tbl = (if need_null g then tbl @ replicate level_2_size 0 else tbl)
      in do {
        lookup \<leftarrow> those (map (lookup_entry g tbl_full tbl_null) [0..<level_1_size]);
        Some \<lparr>wt_lookup = lookup, wt_tbl = tbl, wt_size = of_nat (length table), wt_radix = of_nat radix\<rparr>
      })"

section \<open>What the generator emits\<close>

definition tbit :: "bool list \<Rightarrow> nat \<Rightarrow> bool" where
  "tbit table p \<longleftrightarrow> p < length table \<and> table ! p"

definition all_clear :: "bool list \<Rightarrow> nat \<Rightarrow> nat \<Rightarrow> bool" where
  "all_clear table base n \<longleftrightarrow> (\<forall>j < n. \<not> tbit table (base + j))"

definition all_full :: "bool list \<Rightarrow> nat \<Rightarrow> nat \<Rightarrow> bool" where
  "all_full table base n \<longleftrightarrow> (\<forall>j < n. base + j < length table \<longrightarrow> tbit table (base + j))"

lemma block_flags_acc:
  "block_flags table base j k u s =
     (u \<and> (\<forall>i. j \<le> i \<and> i < j + k \<longrightarrow> \<not> tbit table (base + i)),
      s \<and> (\<forall>i. j \<le> i \<and> i < j + k \<longrightarrow> base + i < length table \<longrightarrow> tbit table (base + i)))"
proof (induction k arbitrary: j u s)
  case (Suc k)
  have split: "(\<forall>i. j \<le> i \<and> i < j + Suc k \<longrightarrow> P i) \<longleftrightarrow> P j \<and> (\<forall>i. Suc j \<le> i \<and> i < Suc j + k \<longrightarrow> P i)" for P
    by (metis Suc_leI add_Suc add_Suc_right le_add1 le_eq_less_or_eq less_add_Suc1 Suc_le_lessD)
  show ?case unfolding block_flags.simps Suc split by (auto simp: tbit_def)
qed auto

lemma block_flags_eq: "block_flags table base 0 n True True = (all_clear table base n, all_full table base n)"
  by (simp add: block_flags_acc all_clear_def all_full_def)

lemma block_bytes_spec:
  assumes "(j + k) mod 8 = 0" "\<And>r. bit cur r \<longleftrightarrow> r < j mod 8 \<and> tbit table (base + j div 8 * 8 + r)"
  shows "length (block_bytes table base j k cur) = (j mod 8 + k) div 8 \<and>
    (\<forall>q < (j mod 8 + k) div 8. \<forall>r < 8.
       bit (block_bytes table base j k cur ! q) r \<longleftrightarrow> tbit table (base + (j div 8 + q) * 8 + r))"
  using assms
proof (induction k arbitrary: j cur)
  case 0
  then show ?case by simp
next
  case (Suc k)
  let ?cur = "if base + j < length table \<and> table ! (base + j) then cur OR push_bit (j mod 8) 1 else cur"
  have j8: "j mod 8 < 8" by simp
  have jj: "base + j = base + j div 8 * 8 + j mod 8" by simp
  have cur: "bit ?cur r \<longleftrightarrow> r < Suc (j mod 8) \<and> tbit table (base + j div 8 * 8 + r)" for r
  proof (cases "r = j mod 8")
    case True
    then have "tbit table (base + j div 8 * 8 + r) \<longleftrightarrow> base + j < length table \<and> table ! (base + j)"
      using jj by (simp add: tbit_def add.commute)
    then show ?thesis using True Suc.prems(2) [of r] by (auto simp: bit_simps)
  next
    case False
    then show ?thesis using Suc.prems(2) [of r] by (auto simp: bit_simps bit_push_bit_iff)
  qed
  show ?case
  proof (cases "j mod 8 = 7")
    case True
    then have s: "Suc j mod 8 = 0" "Suc j div 8 = Suc (j div 8)" by (simp_all add: mod_Suc div_Suc)
    have IH: "length (block_bytes table base (Suc j) k 0) = k div 8 \<and>
      (\<forall>q < k div 8. \<forall>r < 8. bit (block_bytes table base (Suc j) k 0 ! q) r \<longleftrightarrow>
         tbit table (base + (Suc (j div 8) + q) * 8 + r))"
      using Suc.IH [of "Suc j" 0] Suc.prems(1) s by simp
    have len: "(j mod 8 + Suc k) div 8 = Suc (k div 8)" using True by simp
    have st: "block_bytes table base j (Suc k) cur = ?cur # block_bytes table base (Suc j) k 0"
      using True by (simp add: Let_def)
    have "bit ((?cur # block_bytes table base (Suc j) k 0) ! q) r \<longleftrightarrow> tbit table (base + (j div 8 + q) * 8 + r)"
      if "q < Suc (k div 8)" "r < 8" for q r
    proof (cases q)
      case 0
      then show ?thesis using cur [of r] True that(2) by simp
    next
      case (Suc q')
      then show ?thesis using IH that by simp
    qed
    then show ?thesis unfolding st len using IH by simp
  next
    case False
    then have s: "Suc j mod 8 = Suc (j mod 8)" "Suc j div 8 = j div 8"
      using j8 by (simp_all add: mod_Suc div_Suc)
    have "block_bytes table base j (Suc k) cur = block_bytes table base (Suc j) k ?cur"
      using False by (simp add: Let_def)
    then show ?thesis using Suc.IH [of "Suc j" ?cur] Suc.prems(1) cur s by simp
  qed
qed

definition block_at :: "bool list \<Rightarrow> nat \<Rightarrow> nat \<Rightarrow> u8 list \<Rightarrow> nat \<Rightarrow> bool" where
  "block_at table l2 b tbl idx \<longleftrightarrow> (idx + 1) * l2 \<le> length tbl \<and>
     (\<forall>q < l2. \<forall>r < 8. b * (8 * l2) + 8 * q + r < length table \<longrightarrow>
        (bit (tbl ! (idx * l2 + q)) r \<longleftrightarrow> tbit table (b * (8 * l2) + 8 * q + r)))"

lemma block_at_append: "block_at table l2 b tbl idx \<Longrightarrow> block_at table l2 b (tbl @ ext) idx"
proof -
  assume a: "block_at table l2 b tbl idx"
  then have "idx * l2 + q < length tbl" if "q < l2" for q using that by (simp add: block_at_def)
  then show ?thesis using a by (auto simp: block_at_def nth_append)
qed

lemma block_at_bytes:
  assumes "length tbl = idx * l2"
  shows "block_at table l2 b (tbl @ block_bytes table (b * (8 * l2)) 0 (8 * l2) 0) idx"
  using block_bytes_spec [of 0 "8 * l2" 0 table "b * (8 * l2)"] assms
  by (auto simp: block_at_def nth_append algebra_simps)

lemma block_at_full:
  assumes "length tbl = idx * l2" "all_full table (b * (8 * l2)) (8 * l2)"
  shows "block_at table l2 b (tbl @ replicate l2 0xFF) idx"
proof -
  have ff: "bit (0xFF :: u8) r" if "r < 8" for r
  proof -
    have "bit (mask 8 :: u8) r" using that by (simp add: bit_simps)
    then show ?thesis by (simp add: mask_eq_exp_minus_1)
  qed
  have "tbit table (b * (8 * l2) + 8 * q + r)"
    if "q < l2" "r < 8" "b * (8 * l2) + 8 * q + r < length table" for q r
  proof -
    have "8 * q + r < 8 * l2" using that by linarith
    then show ?thesis using assms(2) that(3) unfolding all_full_def add.assoc by blast
  qed
  then show ?thesis using assms(1) ff by (auto simp: block_at_def nth_append)
qed

lemma block_at_clear:
  assumes "length tbl = idx * l2" "all_clear table (b * (8 * l2)) (8 * l2)"
  shows "block_at table l2 b (tbl @ replicate l2 0) idx"
proof -
  have "\<not> tbit table (b * (8 * l2) + 8 * q + r)" if "q < l2" "r < 8" for q r
  proof -
    have "8 * q + r < 8 * l2" using that by linarith
    then show ?thesis using assms(2) unfolding all_clear_def add.assoc by blast
  qed
  then show ?thesis using assms(1) by (auto simp: block_at_def nth_append)
qed

text \<open>The state after the first \<open>n\<close> blocks.\<close>

definition gen_inv :: "bool list \<Rightarrow> nat \<Rightarrow> nat \<Rightarrow> gen_state \<Rightarrow> bool" where
  "gen_inv table l2 n g \<longleftrightarrow>
     g_set g = map (\<lambda>b. all_full table (b * (8 * l2)) (8 * l2)) [0..<n] \<and>
     g_unset g = map (\<lambda>b. all_clear table (b * (8 * l2)) (8 * l2)) [0..<n] \<and>
     (need_full g \<longleftrightarrow> list_ex id (g_set g)) \<and> (need_null g \<longleftrightarrow> list_ex id (g_unset g)) \<and>
     length (g_tbl g) = g_index g * l2 \<and> fst ` set (g_defs g) \<subseteq> {..<n} \<and>
     (\<forall>b < n. \<not> g_set g ! b \<longrightarrow> \<not> g_unset g ! b \<longrightarrow>
        (\<exists>idx < g_index g. map_of (g_defs g) b = Some idx \<and> block_at table l2 b (g_tbl g) idx))"

lemma gen_inv_step:
  assumes inv: "gen_inv table l2 n g"
  shows "gen_inv table l2 (Suc n) (level1_step table (8 * l2) n g)"
proof -
  let ?full = "all_full table (n * (8 * l2)) (8 * l2)" and ?clear = "all_clear table (n * (8 * l2)) (8 * l2)"
  let ?bytes = "block_bytes table (n * (8 * l2)) 0 (8 * l2) 0"
  note I = inv [unfolded gen_inv_def]
  have len: "length (g_set g) = n" "length (g_unset g) = n" "length (g_tbl g) = g_index g * l2"
    using I by auto
  have fresh: "map_of (g_defs g) n = None"
    using I by (force simp: map_of_eq_None_iff)
  have old: "\<exists>idx < g_index g. map_of (g_defs g) b = Some idx \<and> block_at table l2 b (g_tbl g) idx"
    if "b < n" "\<not> g_set g ! b" "\<not> g_unset g ! b" for b using I that by blast
  show ?thesis
  proof (cases "?full \<or> ?clear")
    case True
    then have st: "level1_step table (8 * l2) n g =
        g\<lparr>g_set := g_set g @ [?full], g_unset := g_unset g @ [?clear],
          need_null := need_null g \<or> ?clear, need_full := need_full g \<or> ?full\<rparr>"
      by (auto simp: level1_step_def block_flags_eq Let_def)
    have "\<exists>idx < g_index g. map_of (g_defs g) b = Some idx \<and> block_at table l2 b (g_tbl g) idx"
      if "b < Suc n" "\<not> (g_set g @ [?full]) ! b" "\<not> (g_unset g @ [?clear]) ! b" for b
    proof (cases "b = n")
      case True
      then show ?thesis using that \<open>?full \<or> ?clear\<close> len by (simp add: nth_append)
    next
      case False
      then show ?thesis using that old [of b] len by (simp add: nth_append)
    qed
    then show ?thesis using I unfolding st gen_inv_def by (auto simp: less_Suc_eq)
  next
    case False
    let ?g = "g\<lparr>g_set := g_set g @ [?full], g_unset := g_unset g @ [?clear],
          g_defs := g_defs g @ [(n, g_index g)], g_index := g_index g + 1, g_tbl := g_tbl g @ ?bytes\<rparr>"
    have st: "level1_step table (8 * l2) n g = ?g"
      using False by (simp add: level1_step_def block_flags_eq Let_def)
    have bytes: "length ?bytes = l2" using block_bytes_spec [of 0 "8 * l2" 0 table "n * (8 * l2)"] by simp
    have "\<exists>idx < g_index g + 1. map_of (g_defs g @ [(n, g_index g)]) b = Some idx \<and> block_at table l2 b (g_tbl g @ ?bytes) idx"
      if "b < Suc n" "\<not> (g_set g @ [?full]) ! b" "\<not> (g_unset g @ [?clear]) ! b" for b
    proof (cases "b = n")
      case True
      then show ?thesis using fresh block_at_bytes [OF len(3)] by (auto simp: map_add_def)
    next
      case False
      then have "b < n" "\<not> g_set g ! b" "\<not> g_unset g ! b" using that len by (simp_all add: nth_append)
      then obtain idx where "idx < g_index g" "map_of (g_defs g) b = Some idx" "block_at table l2 b (g_tbl g) idx"
        using old by blast
      then show ?thesis using False block_at_append by (fastforce simp: map_add_def)
    qed
    then show ?thesis using I bytes False unfolding st gen_inv_def by (auto simp: less_Suc_eq)
  qed
qed

lemma gen_inv_fold:
  "gen_inv table l2 n (fold (level1_step table (8 * l2)) [0..<n]
     \<lparr>g_tbl = [], g_index = 0, g_defs = [], g_set = [], g_unset = [], need_null = False, need_full = False\<rparr>)"
  by (induction n) (simp_all add: gen_inv_step, simp add: gen_inv_def)

lemma those_map:
  "(\<And>x. x \<in> set xs \<Longrightarrow> f x \<noteq> None) \<Longrightarrow> those (map f xs) = Some (map (\<lambda>x. the (f x)) xs)"
  by (induction xs) (auto split: option.splits)

lemma generated_blocks:
  fixes table :: "bool list" and k :: nat
  defines "l2 \<equiv> (2 :: nat) ^ k"
  defines "n \<equiv> length table div (8 * l2) + (if length table mod (8 * l2) \<noteq> 0 then 1 else 0)"
  shows "\<exists>w. print_radix_table table (k + 3) = Some w \<and> length (wt_lookup w) = n \<and>
    wt_size w = of_nat (length table) \<and> wt_radix w = of_nat (k + 3) \<and>
    (\<forall>b < n. \<exists>idx. wt_lookup w ! b = of_nat idx \<and> block_at table l2 b (wt_tbl w) idx)"
proof -
  define g where "g = fold (level1_step table (8 * l2)) [0..<n]
     \<lparr>g_tbl = [], g_index = 0, g_defs = [], g_set = [], g_unset = [], need_null = False, need_full = False\<rparr>"
  define tbl1 where "tbl1 = (if need_full g then g_tbl g @ replicate l2 0xFF else g_tbl g)"
  define null where "null = (if need_full g then g_index g + 1 else g_index g)"
  define tbl where "tbl = (if need_null g then tbl1 @ replicate l2 0 else tbl1)"
  have I: "gen_inv table l2 n g" unfolding g_def by (rule gen_inv_fold)
  note I = I [unfolded gen_inv_def]
  have len: "length (g_tbl g) = g_index g * l2" "length tbl1 = null * l2"
    using I by (auto simp: tbl1_def null_def)
  have entry: "\<exists>idx. lookup_entry g (g_index g) null b = Some (of_nat idx) \<and> block_at table l2 b tbl idx"
    if b: "b < n" for b
  proof -
    have f: "g_set g ! b = all_full table (b * (8 * l2)) (8 * l2)" "g_unset g ! b = all_clear table (b * (8 * l2)) (8 * l2)"
      and lens: "length (g_set g) = n" "length (g_unset g) = n" using I b by auto
    have ext: "block_at table l2 b (g_tbl g) i \<Longrightarrow> block_at table l2 b tbl i" for i
      by (simp add: tbl_def tbl1_def block_at_append)
    consider (full) "g_set g ! b" | (clear) "\<not> g_set g ! b" "g_unset g ! b" | (mixed) "\<not> g_set g ! b" "\<not> g_unset g ! b"
      by blast
    then show ?thesis
    proof cases
      case full
      then have "need_full g" using I b lens by (auto simp: list_ex_iff intro: nth_mem)
      then have "block_at table l2 b tbl1 (g_index g)"
        using block_at_full [OF len(1)] full f by (simp add: tbl1_def)
      then have "block_at table l2 b tbl (g_index g)" by (simp add: tbl_def block_at_append)
      then show ?thesis using full by (auto simp: lookup_entry_def)
    next
      case clear
      then have "need_null g" using I b lens by (auto simp: list_ex_iff intro: nth_mem)
      then have "block_at table l2 b tbl null"
        using block_at_clear [OF len(2)] clear f by (simp add: tbl_def)
      then show ?thesis using clear by (auto simp: lookup_entry_def)
    next
      case mixed
      then obtain idx where "map_of (g_defs g) b = Some idx" "block_at table l2 b (g_tbl g) idx"
        using I b by blast
      then show ?thesis using mixed ext by (auto simp: lookup_entry_def)
    qed
  qed
  let ?w = "\<lparr>wt_lookup = map (\<lambda>b. the (lookup_entry g (g_index g) null b)) [0..<n], wt_tbl = tbl,
    wt_size = of_nat (length table), wt_radix = of_nat (k + 3)\<rparr>"
  have r: "(2 :: nat) ^ (k + 3) = 8 * l2" by (simp add: l2_def power_add)
  have th: "those (map (lookup_entry g (g_index g) null) [0..<n]) = Some (map (\<lambda>b. the (lookup_entry g (g_index g) null b)) [0..<n])"
    by (rule those_map) (use entry in force)
  have "print_radix_table table (k + 3) = Some ?w"
  proof (cases "need_full g")
    case True
    then show ?thesis using th
      unfolding print_radix_table_def r Let_def n_def [symmetric] g_def [symmetric]
      by (simp add: tbl_def tbl1_def null_def)
  next
    case False
    then show ?thesis using th
      unfolding print_radix_table_def r Let_def n_def [symmetric] g_def [symmetric]
      by (simp add: tbl_def tbl1_def null_def)
  qed
  moreover have "\<exists>idx. wt_lookup ?w ! b = of_nat idx \<and> block_at table l2 b (wt_tbl ?w) idx" if "b < n" for b
    using entry [OF that] that by auto
  ultimately show ?thesis by auto
qed

section \<open>Reading a generated table\<close>

lemma index_below:
  assumes "p < (n :: nat)" "0 < m"
  shows "p div m < n div m + (if n mod m \<noteq> 0 then 1 else 0)"
proof -
  have "p div m \<le> n div m" using assms(1) by (simp add: div_le_mono)
  moreover have "p div m \<noteq> n div m" if "n mod m = 0"
  proof
    assume "p div m = n div m"
    then have "n \<le> p" using that by (metis add.right_neutral div_mult_mod_eq le_add1)
    then show False using assms(1) by simp
  qed
  ultimately show ?thesis by (auto simp: less_Suc_eq_le le_neq_implies_less)
qed

lemma table_lookup_block:
  assumes n: "length table \<le> 2 ^ 31" "unat cp < length table" and k: "k \<le> 19"
    and look: "unat cp div (8 * 2 ^ k) < length lookup" "lookup ! (unat cp div (8 * 2 ^ k)) = of_nat idx" "idx < 256"
    and blk: "block_at table (2 ^ k) (unat cp div (8 * 2 ^ k)) tbl idx"
  shows "table_lookup lookup tbl (of_nat (length table)) (of_nat (k + 3)) cp = Some (tbit table (unat cp))"
proof -
  let ?l2 = "2 ^ k :: nat" and ?cp = "unat cp"
  let ?q = "?cp mod (8 * ?l2) div 8" and ?r = "?cp mod 8"
  have rad: "unat (of_nat (k + 3) :: u64) = k + 3" using k by (intro unat_of_nat64) simp
  have "take_bit 64 ?cp = ?cp" using n by (intro take_bit_nat_eq_self) simp
  then have big: "\<not> of_nat (length table) \<le> (ucast cp :: u64)"
    using n by (simp add: word_le_nat_alt unat_of_nat64 unsigned_ucast_eq)
  have r31: "\<not> 31 \<le> (of_nat (k + 3) :: u64)"
    using k rad by (simp add: word_le_nat_alt del: of_nat_add)
  have p3: "(2 :: nat) ^ (k + 3) = 8 * ?l2" by (simp add: power_add)
  have ix: "unat (drop_bit (k + 3) cp) = ?cp div (8 * ?l2)"
    unfolding unat_drop_bit_eq by (simp add: drop_bit_eq_div [where 'a = nat] p3)
  have "?l2 \<le> 2 ^ 19" using k by (rule power_increasing) simp
  then have "idx * (8 * ?l2) \<le> 255 * (8 * 2 ^ 19)"
    using look(3) by (intro mult_le_mono) simp_all
  then have off: "\<not> 2 ^ 31 \<le> unat (of_nat idx :: u8) * 2 ^ (k + 3)"
    using look(3) by (simp add: p3 unat_of_nat)
  have mask: "unat ((ucast cp AND (2 ^ (k + 3) - 1)) div 8 :: u64) = ?q"
  proof -
    have "(2 ^ (k + 3) - 1 :: u64) = mask (k + 3)" by (simp add: mask_eq_exp_minus_1)
    then have "ucast cp AND (2 ^ (k + 3) - 1) = take_bit (k + 3) (ucast cp :: u64)"
      by (simp add: take_bit_eq_mask)
    moreover have "unat (take_bit (k + 3) (ucast cp :: u64)) = ?cp mod (8 * ?l2)"
      unfolding unsigned_take_bit_eq unsigned_ucast_eq using \<open>take_bit 64 ?cp = ?cp\<close>
      by (simp add: take_bit_eq_mod [of "k + 3", where 'a = nat] p3)
    ultimately show ?thesis by (simp add: unat_div)
  qed
  have "?cp mod (8 * ?l2) < ?l2 * 8" by (subst mult.commute) (rule mod_less_divisor, simp)
  then have q: "?q < ?l2" by (rule less_mult_imp_div_less)
  have r: "?cp mod (8 * ?l2) mod 8 = ?r" by (simp add: mod_mod_cancel)
  have pos: "?cp div (8 * ?l2) * (8 * ?l2) + 8 * ?q + ?r = ?cp"
  proof -
    have "8 * ?q + ?r = ?cp mod (8 * ?l2)"
      using mult_div_mod_eq [of 8 "?cp mod (8 * ?l2)"] unfolding r .
    then show ?thesis unfolding add.assoc by (simp add: div_mult_mod_eq)
  qed
  have inb: "idx * ?l2 + ?q < length tbl" using blk q by (simp add: block_at_def)
  have bit: "bit (tbl ! (idx * ?l2 + ?q)) ?r \<longleftrightarrow> tbit table ?cp"
  proof -
    have r: "?r < 8" by simp
    have "?cp div (8 * ?l2) * (8 * ?l2) + 8 * ?q + ?r < length table" unfolding pos by (rule n(2))
    with blk q r have "bit (tbl ! (idx * ?l2 + ?q)) ?r \<longleftrightarrow> tbit table (?cp div (8 * ?l2) * (8 * ?l2) + 8 * ?q + ?r)"
      unfolding block_at_def by blast
    then show ?thesis unfolding pos .
  qed
  have "idx * (8 * ?l2) div 8 = idx * ?l2" by simp
  then have dv: "unat (of_nat idx :: u8) * 2 ^ (k + 3) div 8 = idx * ?l2"
    using look(3) by (simp add: p3 unat_of_nat)
  have r8: "unat (cp mod 8) = ?r" by (simp add: unat_mod)
  show ?thesis
    using big r31 off inb look(1,2) bit
    by (simp add: table_lookup_def Let_def rad ix fetch_def mask dv r8 bit_iff_and_push_bit_not_eq_0 del: of_nat_add)
qed

lemma generated_lookup:
  assumes "length table \<le> 2 ^ 31" "k \<le> 19"
  shows "\<exists>w. print_radix_table table (k + 3) = Some w \<and>
    (length (wt_tbl w) \<le> 256 * 2 ^ k \<longrightarrow>
      (\<forall>cp. table_lookup (wt_lookup w) (wt_tbl w) (wt_size w) (wt_radix w) cp =
         Some (unat cp < length table \<and> table ! unat cp)))"
proof -
  let ?n = "length table div (8 * 2 ^ k) + (if length table mod (8 * 2 ^ k) \<noteq> 0 then 1 else 0)"
  obtain w where w: "print_radix_table table (k + 3) = Some w" "length (wt_lookup w) = ?n"
      "wt_size w = of_nat (length table)" "wt_radix w = of_nat (k + 3)"
      "\<forall>b < ?n. \<exists>idx. wt_lookup w ! b = of_nat idx \<and> block_at table (2 ^ k) b (wt_tbl w) idx"
    using generated_blocks [of table k] by blast
  have "table_lookup (wt_lookup w) (wt_tbl w) (wt_size w) (wt_radix w) cp = Some (tbit table (unat cp))"
    if small: "length (wt_tbl w) \<le> 256 * 2 ^ k" for cp
  proof (cases "unat cp < length table")
    case True
    let ?b = "unat cp div (8 * 2 ^ k)"
    have b: "?b < ?n" using True by (rule index_below) simp
    then obtain idx where idx: "wt_lookup w ! ?b = of_nat idx" "block_at table (2 ^ k) ?b (wt_tbl w) idx"
      using w(5) by blast
    have "(idx + 1) * 2 ^ k \<le> 256 * 2 ^ k" using idx(2) small unfolding block_at_def by (meson order_trans)
    then have "idx + 1 \<le> 256" unfolding mult_le_cancel2 by simp
    then have "idx < 256" by simp
    then show ?thesis
      using table_lookup_block [OF assms(1) True assms(2) _ idx(1) _ idx(2)] w(2) b by (simp add: w(3,4))
  next
    case False
    have "unat (of_nat (length table) :: u64) = length table" using assms(1) by (intro unat_of_nat64) simp
    moreover have "unat cp < 2 ^ 64" by (rule order_less_le_trans [OF unsigned_less]) simp
    then have "unat (ucast cp :: u64) = unat cp"
      by (simp add: unsigned_ucast_eq take_bit_nat_eq_self)
    ultimately have "of_nat (length table) \<le> (ucast cp :: u64)" using False by (simp add: word_le_nat_alt)
    then show ?thesis using False by (simp add: table_lookup_def w(3) tbit_def)
  qed
  then show ?thesis using w(1) by (auto simp: tbit_def)
qed

section \<open>Properties\<close>

text \<open>
  C14. The generated two-level table answers like the flat one it was generated from: for
  every table, every block size of 8 to \<open>2 ^ 22\<close> code points and every code point,
  \<^verbatim>\<open>table_lookup\<close> on the arrays \<^verbatim>\<open>print_radix_table\<close> emits reads
  inside both arrays and returns the flat entry, and false past the end, provided that the
  blocks are at most 256, the range of the \<^verbatim>\<open>uint8_t\<close> index.
\<close>

theorem radix_table_correct:
  assumes "length table \<le> 2 ^ 31" "k \<le> 19"
  shows "\<exists>w. print_radix_table table (k + 3) = Some w \<and>
    (length (wt_tbl w) \<le> 256 * 2 ^ k \<longrightarrow>
      (\<forall>cp. table_lookup (wt_lookup w) (wt_tbl w) (wt_size w) (wt_radix w) cp =
         Some (unat cp < length table \<and> table ! unat cp)))"
  by (rule generated_lookup [OF assms])

definition demo_flat :: "bool list" where
  "demo_flat = replicate 8 False @ [True, False, True] @ replicate 5 False @ replicate 8 True @ [True]"

theorem radix_table_correct_witness:
  "\<exists>w. print_radix_table demo_flat 3 = Some w \<and>
     table_lookup (wt_lookup w) (wt_tbl w) (wt_size w) (wt_radix w) 10 = Some True \<and>
     table_lookup (wt_lookup w) (wt_tbl w) (wt_size w) (wt_radix w) 11 = Some False"
proof -
  have small: "print_radix_table demo_flat 3 =
      Some \<lparr>wt_lookup = [2, 0, 1, 1], wt_tbl = [5, 0xFF, 0], wt_size = 25, wt_radix = 3\<rparr>"
    by code_simp
  have "length demo_flat \<le> 2 ^ 31" "demo_flat ! 10" "\<not> demo_flat ! 11" "length demo_flat = 25"
    by (simp_all add: demo_flat_def nth_append)
  then show ?thesis using radix_table_correct [of demo_flat 0] small by simp
qed

end
