(* ===== verification/Width.thy ===== *)
theory Width
  imports Utf8 WidthTable
begin

text \<open>
  The column functions of \<^verbatim>\<open>lib/unicode/unicode-width.c\<close>. The double-width and
  the zero-width table are generated at build time from files of the Unicode database; they
  are parameters \<open>D\<close> and \<open>Z\<close> of the functions.
\<close>

section \<open>The functions\<close>

definition lookup_in :: "width_table \<Rightarrow> u32 \<Rightarrow> bool option" where
  "lookup_in w cp = table_lookup (wt_lookup w) (wt_tbl w) (wt_size w) (wt_radix w) cp"

definition cx_cp_width :: "width_table \<Rightarrow> width_table \<Rightarrow> u32 \<Rightarrow> u64 option" where
  "cx_cp_width D Z cp = do {
     d \<leftarrow> lookup_in D cp;
     z \<leftarrow> lookup_in Z cp;
     Some (of_bool d + of_bool (\<not> z))
   }"

partial_function (option) cols_loop ::
  "width_table \<Rightarrow> width_table \<Rightarrow> u8 list \<Rightarrow> u64 \<Rightarrow> u64 \<Rightarrow> u64 \<Rightarrow> int option" where
  "cols_loop D Z str n i columns =
     (if i < n
      then do {
        char_size \<leftarrow> cx_utf8_csize (drop (unat i) str) (n - i);
        cp \<leftarrow> cx_utf8_cp (Some (drop (unat i) str)) char_size;
        if cp < 0 then Some (- 1)
        else do {
          w \<leftarrow> cx_cp_width D Z (of_int cp);
          cols_loop D Z str n (i + char_size) (columns + w)
        }
      }
      else Some (sint columns))"

definition cx_utf8_cols :: "width_table \<Rightarrow> width_table \<Rightarrow> u8 list \<Rightarrow> u64 \<Rightarrow> int option" where
  "cx_utf8_cols D Z str n = cols_loop D Z str n 0 0"

partial_function (option) colidx_loop ::
  "width_table \<Rightarrow> width_table \<Rightarrow> u8 list \<Rightarrow> u64 \<Rightarrow> u64 \<Rightarrow> u64 \<Rightarrow> u64 \<Rightarrow> int option" where
  "colidx_loop D Z str n tab_size column byte_index =
     (if byte_index < n
      then do {
        c \<leftarrow> read_at str byte_index;
        if c = 9
        then (if tab_size = 0 then None
              else colidx_loop D Z str n tab_size ((column div tab_size + 1) * tab_size) (byte_index + 1))
        else do {
          char_size \<leftarrow> cx_utf8_csize (drop (unat byte_index) str) (n - byte_index);
          cp \<leftarrow> cx_utf8_cp (Some (drop (unat byte_index) str)) char_size;
          if cp < 0 then Some (- 1)
          else do {
            char_width \<leftarrow> cx_cp_width D Z (of_int cp);
            if column < char_width then Some (sint byte_index)
            else colidx_loop D Z str n tab_size (column - char_width) (byte_index + char_size)
          }
        }
      }
      else Some (sint byte_index))"

definition cx_utf8_colidx ::
  "width_table \<Rightarrow> width_table \<Rightarrow> u8 list \<Rightarrow> u64 \<Rightarrow> u64 \<Rightarrow> u64 \<Rightarrow> int option" where
  "cx_utf8_colidx D Z str n column tab_size = colidx_loop D Z str n tab_size column 0"

section \<open>Widths\<close>

text \<open>
  \<open>tables_ok D Z\<close>: both tables answer for every code point, as generated ones do
  (\<open>radix_table_correct\<close>). The width is then 0, 1 or 2.
\<close>

definition tables_ok :: "width_table \<Rightarrow> width_table \<Rightarrow> bool" where
  "tables_ok D Z \<longleftrightarrow> (\<forall>cp. lookup_in D cp \<noteq> None \<and> lookup_in Z cp \<noteq> None)"

definition width :: "width_table \<Rightarrow> width_table \<Rightarrow> nat \<Rightarrow> nat" where
  "width D Z cp = of_bool (lookup_in D (of_nat cp) = Some True) + of_bool (lookup_in Z (of_nat cp) = Some False)"

lemma cp_width_eq:
  assumes "tables_ok D Z"
  shows "cx_cp_width D Z (of_nat cp) = Some (of_nat (width D Z cp))"
proof -
  obtain d z where "lookup_in D (of_nat cp) = Some d" "lookup_in Z (of_nat cp) = Some z"
    using assms by (fastforce simp: tables_ok_def)
  then show ?thesis by (simp add: cx_cp_width_def width_def)
qed

lemma width_le: "width D Z cp \<le> 2"
  by (simp add: width_def)

lemma unat_width: "unat (of_nat (width D Z cp) :: u64) = width D Z cp"
  using width_le [of D Z cp] by (intro unat_of_nat64) simp

section \<open>One character of the string\<close>

lemma minus_index: "i < (n :: u64) \<Longrightarrow> unat (n - i) = unat n - unat i"
  by (rule unat_sub) simp

lemma rest_drop:
  assumes "str_ok str n" "i < n"
  obtains tl where "drop (unat i) str = str ! unat i # tl"
proof -
  have "unat i < length str" using assms by (simp add: str_ok_def word_less_nat_alt)
  then show thesis using that Cons_nth_drop_Suc by metis
qed

text \<open>The character at \<open>i\<close> is decoded if it is complete, and an error otherwise.\<close>

lemma char_step:
  assumes ok: "str_ok str n" and i: "i < n"
  defines "ch \<equiv> take (lead_len (str ! unat i)) (rest str n i)"
  shows "\<exists>sz. cx_utf8_csize (drop (unat i) str) (n - i) = Some sz \<and>
    (if whole ch then sz = of_nat (lead_len (str ! unat i)) \<and>
        cx_utf8_cp (Some (drop (unat i) str)) sz = Some (int (char_value ch))
     else cx_utf8_cp (Some (drop (unat i) str)) sz = Some (- 1))"
proof -
  let ?c = "str ! unat i"
  obtain xs where d: "drop (unat i) str = ?c # xs" by (rule rest_drop [OF ok i])
  have len: "length (rest str n i) = unat n - unat i"
    using ok by (simp add: rest_def str_ok_def)
  have h: "unat (n - i) = unat n - unat i" by (rule minus_index [OF i])
  have l64: "unat (of_nat (lead_len ?c) :: u64) = lead_len ?c"
    using lead_len_le [of ?c] by (intro unat_of_nat64) simp
  have w: "whole ch \<longleftrightarrow> lead_len ?c \<noteq> 0 \<and> lead_len ?c \<le> unat n - unat i"
  proof (cases "lead_len ?c")
    case (Suc k)
    then have "hd ch = ?c" "ch \<noteq> []"
      unfolding ch_def by (subst rest_Cons(1) [OF ok i], simp)+
    then show ?thesis unfolding whole_def using len Suc by (auto simp: ch_def min_def)
  qed (simp add: whole_def ch_def)
  show ?thesis
  proof (cases "whole ch")
    case True
    have "length ch = lead_len ?c" using True w len by (simp add: ch_def)
    moreover have "ch @ drop (lead_len ?c) (drop (unat i) str) = drop (unat i) str"
    proof -
      have "ch = take (lead_len ?c) (drop (unat i) str)"
        using True w by (simp add: ch_def rest_def drop_take min_def)
      then show ?thesis by (simp del: drop_drop)
    qed
    ultimately have "cx_utf8_cp (Some (drop (unat i) str)) (of_nat (lead_len ?c)) = Some (int (char_value ch))"
      using cp_whole [OF True, of "of_nat (lead_len ?c)" "drop (lead_len ?c) (drop (unat i) str)"] l64 by simp
    then show ?thesis using True w h csize_eq [of ?c xs "n - i"] d by simp
  next
    case False
    then show ?thesis using w h csize_eq [of ?c xs "n - i"] cp_bad [of ?c 0 xs] d
      by (cases "lead_len ?c = 0") (auto simp: not_le)
  qed
qed

section \<open>The loops against the cut\<close>

definition chars_width :: "width_table \<Rightarrow> width_table \<Rightarrow> u8 list list \<Rightarrow> nat" where
  "chars_width D Z chs = (\<Sum>ch \<leftarrow> chs. width D Z (char_value ch))"

definition whole_chars :: "u8 list \<Rightarrow> u8 list list option" where
  "whole_chars bs = (case chunks bs of None \<Rightarrow> None | Some chs \<Rightarrow> if list_all whole chs then Some chs else None)"

lemma whole_chars_rest:
  assumes "str_ok str n" "i < n"
  defines "ch \<equiv> take (lead_len (str ! unat i)) (rest str n i)"
  shows "whole_chars (rest str n i) = (if whole ch
    then map_option ((#) ch) (whole_chars (rest str n (i + of_nat (lead_len (str ! unat i))))) else None)"
proof -
  have "whole ch \<Longrightarrow> lead_len (str ! unat i) \<noteq> 0" by (auto simp: whole_def ch_def)
  then show ?thesis unfolding whole_chars_def chunks_rest [OF assms(1,2)] ch_def
    by (auto simp: Let_def split: option.splits)
qed

lemma of_int_char: "(of_int (int (char_value ch)) :: u32) = of_nat (char_value ch)"
  by simp

lemma whole_lead: "whole (take (lead_len c) xs) \<Longrightarrow> lead_len c \<noteq> 0"
  by (auto simp: whole_def)

lemma cols_loop_spec:
  assumes "str_ok str n" and T: "tables_ok D Z"
  shows "unat cols + 2 * length (rest str n i) < 2 ^ 63 \<Longrightarrow> cols_loop D Z str n i cols =
    Some (case whole_chars (rest str n i) of None \<Rightarrow> - 1 | Some chs \<Rightarrow> int (unat cols + chars_width D Z chs))"
  using assms(1)
proof (induction i arbitrary: cols rule: loop_induct)
  case (stop i)
  then show ?case
    by (subst cols_loop.simps) (simp add: rest_Nil sint_unat whole_chars_def chars_width_def)
next
  case (step i)
  let ?c = "str ! unat i"
  let ?j = "i + of_nat (lead_len ?c)" and ?ch = "take (lead_len ?c) (rest str n i)"
  let ?w = "width D Z (char_value ?ch)"
  obtain sz where sz: "cx_utf8_csize (drop (unat i) str) (n - i) = Some sz"
      "if whole ?ch then sz = of_nat (lead_len ?c) \<and> cx_utf8_cp (Some (drop (unat i) str)) sz = Some (int (char_value ?ch))
       else cx_utf8_cp (Some (drop (unat i) str)) sz = Some (- 1)"
    using char_step [OF assms(1) step.hyps(1)] by blast
  note cut = whole_chars_rest [OF assms(1) step.hyps(1)]
  show ?case
  proof (cases "whole ?ch")
    case False
    then show ?thesis using sz step.hyps(1) cut by (subst cols_loop.simps) simp
  next
    case True
    have l: "lead_len ?c \<noteq> 0" by (rule whole_lead [OF True])
    note sh = rest_shrinks [OF assms(1) step.hyps(1) l]
    have room: "unat cols + ?w + 2 * length (rest str n ?j) < 2 ^ 63"
      using step.prems sh width_le [of D Z "char_value ?ch"] by linarith
    have u: "unat (cols + of_nat ?w) = unat cols + ?w"
      using room by (subst unat_add_no_wrap) (simp_all add: unat_width)
    have "sz = of_nat (lead_len ?c)" "cx_utf8_cp (Some (drop (unat i) str)) sz = Some (int (char_value ?ch))"
      using sz(2) True by auto
    then have "cols_loop D Z str n i cols = cols_loop D Z str n ?j (cols + of_nat ?w)"
      using sz(1) step.hyps(1) cp_width_eq [OF T, of "char_value ?ch"]
      by (subst cols_loop.simps) simp
    also have "\<dots> = Some (case whole_chars (rest str n ?j) of None \<Rightarrow> - 1
        | Some chs \<Rightarrow> int (unat (cols + of_nat ?w) + chars_width D Z chs))"
      by (rule step.IH [OF l]) (use room u in simp)
    finally show ?thesis using cut True u
      by (auto simp: chars_width_def split: option.splits)
  qed
qed

text \<open>The column walk on characters; tabs move to the next tab stop.\<close>

fun col_walk :: "width_table \<Rightarrow> width_table \<Rightarrow> u64 \<Rightarrow> u64 \<Rightarrow> u8 list list \<Rightarrow> nat" where
  "col_walk D Z t col [] = 0"
| "col_walk D Z t col (ch # chs) =
     (if ch = [9] then 1 + col_walk D Z t ((col div t + 1) * t) chs
      else if unat col < width D Z (char_value ch) then 0
      else length ch + col_walk D Z t (col - of_nat (width D Z (char_value ch))) chs)"

lemma colidx_loop_spec:
  assumes "str_ok str n" and T: "tables_ok D Z" and t: "t \<noteq> 0"
  shows "whole_chars (rest str n i) = Some chs \<Longrightarrow> unat i \<le> unat n \<Longrightarrow>
    colidx_loop D Z str n t col i = Some (int (unat i + col_walk D Z t col chs))"
  using assms(1)
proof (induction i arbitrary: col chs rule: loop_induct)
  case (stop i)
  then have "sint i = int (unat i)" using assms(1) by (intro sint_unat) (simp add: str_ok_def)
  then show ?case using stop
    by (subst colidx_loop.simps) (auto simp: rest_Nil whole_chars_def simp del: of_nat_unat)
next
  case (step i)
  let ?c = "str ! unat i"
  let ?j = "i + of_nat (lead_len ?c)" and ?ch = "take (lead_len ?c) (rest str n i)"
  let ?w = "width D Z (char_value ?ch)"
  obtain sz where sz: "cx_utf8_csize (drop (unat i) str) (n - i) = Some sz"
      "if whole ?ch then sz = of_nat (lead_len ?c) \<and> cx_utf8_cp (Some (drop (unat i) str)) sz = Some (int (char_value ?ch))
       else cx_utf8_cp (Some (drop (unat i) str)) sz = Some (- 1)"
    using char_step [OF assms(1) step.hyps(1)] by blast
  note cut = whole_chars_rest [OF assms(1) step.hyps(1)] and s = str_ok_step [OF assms(1) step.hyps(1)]
  obtain chs' where ch: "whole ?ch" "whole_chars (rest str n ?j) = Some chs'" "chs = ?ch # chs'"
    using step.prems(1) cut by (auto split: if_splits)
  have l: "lead_len ?c \<noteq> 0" by (rule whole_lead [OF ch(1)])
  obtain tl where tl: "rest str n i = ?c # tl" using rest_Cons(1) [OF assms(1) step.hyps(1)] by blast
  have lens: "length ?ch = lead_len ?c"
    using ch(1) tl l by (cases "lead_len ?c") (simp_all add: whole_def)
  have "lead_len ?c \<le> unat n - unat i"
    using lens assms(1) by (auto simp: rest_def str_ok_def min_def split: if_splits)
  then have le: "unat ?j \<le> unat n"
    using s(3) [of ?c] step.hyps(1) by (simp add: word_less_nat_alt)
  note IH = step.IH [OF l ch(2) le]
  have si: "sint i = int (unat i)"
    using step.hyps(1) assms(1) by (intro sint_unat) (simp add: str_ok_def word_less_nat_alt)
  show ?case
  proof (cases "?c = 9")
    case True
    then have one: "lead_len ?c = 1" by (simp add: lead_len_def)
    then have tab: "?ch = [9]" using True tl by simp
    have "colidx_loop D Z str n t col i = colidx_loop D Z str n t ((col div t + 1) * t) ?j"
      using step.hyps(1) s(1) True t one by (subst colidx_loop.simps) simp
    then show ?thesis using IH ch(3) tab s(3) [of ?c] one by (simp del: of_nat_unat)
  next
    case False
    have sz': "sz = of_nat (lead_len ?c)" "cx_utf8_cp (Some (drop (unat i) str)) sz = Some (int (char_value ?ch))"
      using sz(2) ch(1) by auto
    have nt: "?ch \<noteq> [9]" using False tl l by (cases "lead_len ?c") auto
    have cmp: "col < of_nat ?w \<longleftrightarrow> unat col < ?w" by (simp add: word_less_nat_alt unat_width)
    have run: "colidx_loop D Z str n t col i = (if unat col < ?w then Some (sint i)
        else colidx_loop D Z str n t (col - of_nat ?w) ?j)"
      using step.hyps(1) s(1) False sz(1) sz' cp_width_eq [OF T, of "char_value ?ch"] cmp
      by (subst colidx_loop.simps) simp
    show ?thesis
    proof (cases "unat col < ?w")
      case True
      then show ?thesis using run ch(3) nt si by simp
    next
      case False
      then show ?thesis using run ch(3) nt IH [of "col - of_nat ?w"] s(3) [of ?c] lens by (simp del: of_nat_unat)
    qed
  qed
qed

lemma col_walk_text:
  "list_all is_cp cps \<Longrightarrow> 9 \<notin> set cps \<Longrightarrow>
   \<exists>j \<le> length cps. col_walk D Z t col (map utf8_encode cps) = length (utf8_text (take j cps)) \<and>
     (\<Sum>cp \<leftarrow> take j cps. width D Z cp) \<le> unat col \<and>
     (j = length cps \<or> unat col < (\<Sum>cp \<leftarrow> take (Suc j) cps. width D Z cp))"
proof (induction cps arbitrary: col)
  case (Cons cp cps)
  have cp: "is_cp cp" "cp \<noteq> 9" using Cons.prems by auto
  have v: "char_value (utf8_encode cp) = cp" by (rule value_encode [OF cp(1)])
  have "utf8_encode cp \<noteq> [9]" using v cp(2) by auto
  show ?case
  proof (cases "unat col < width D Z cp")
    case True
    then show ?thesis using \<open>utf8_encode cp \<noteq> [9]\<close> v by (intro exI [of _ 0]) (simp add: utf8_text_def)
  next
    case False
    then have sub: "unat (col - of_nat (width D Z cp)) = unat col - width D Z cp"
      using unat_width [of D Z cp] by (subst unat_sub) (simp_all add: word_le_nat_alt)
    obtain j where j: "j \<le> length cps"
        "col_walk D Z t (col - of_nat (width D Z cp)) (map utf8_encode cps) = length (utf8_text (take j cps))"
        "(\<Sum>cp \<leftarrow> take j cps. width D Z cp) \<le> unat (col - of_nat (width D Z cp))"
        "j = length cps \<or> unat (col - of_nat (width D Z cp)) < (\<Sum>cp \<leftarrow> take (Suc j) cps. width D Z cp)"
      using Cons.IH [of "col - of_nat (width D Z cp)"] Cons.prems by auto
    show ?thesis
      using j False \<open>utf8_encode cp \<noteq> [9]\<close> v sub by (intro exI [of _ "Suc j"]) (auto simp: utf8_text_def)
  qed
qed (simp add: utf8_text_def)

section \<open>Properties\<close>

lemma whole_chars_text: "list_all is_cp cps \<Longrightarrow> whole_chars (utf8_text cps) = Some (map utf8_encode cps)"
  by (auto simp: whole_chars_def chunks_text list_all_iff encode_facts)

lemma rest_all: "unat n = length str \<Longrightarrow> rest str n 0 = str"
  by (simp add: rest_def)

text \<open>
  Tables as the build generates them, from flat tables \<open>wide\<close> and \<open>zero\<close>.
\<close>

definition tables_from :: "bool list \<Rightarrow> nat \<Rightarrow> bool list \<Rightarrow> nat \<Rightarrow> width_table \<Rightarrow> width_table \<Rightarrow> bool" where
  "tables_from wide j zero k D Z \<longleftrightarrow>
     print_radix_table wide (j + 3) = Some D \<and> print_radix_table zero (k + 3) = Some Z \<and>
     length wide \<le> 2 ^ 31 \<and> length zero \<le> 2 ^ 31 \<and> j \<le> 19 \<and> k \<le> 19 \<and>
     length (wt_tbl D) \<le> 256 * 2 ^ j \<and> length (wt_tbl Z) \<le> 256 * 2 ^ k"

lemma tables_from_lookup:
  assumes "tables_from wide j zero k D Z"
  shows "lookup_in D cp = Some (tbit wide (unat cp))" "lookup_in Z cp = Some (tbit zero (unat cp))"
  using assms generated_lookup [of wide j] generated_lookup [of zero k]
  by (auto simp: tables_from_def lookup_in_def tbit_def)

lemma tables_from_ok: "tables_from wide j zero k D Z \<Longrightarrow> tables_ok D Z"
  by (simp add: tables_ok_def tables_from_lookup)

lemma tables_from_width:
  assumes "tables_from wide j zero k D Z" "is_cp cp"
  shows "width D Z cp = of_bool (tbit wide cp) + of_bool (\<not> tbit zero cp)"
proof -
  have "unat (of_nat cp :: u32) = cp" using assms(2) by (simp add: unat_of_nat is_cp_def)
  then show ?thesis using tables_from_lookup [OF assms(1), of "of_nat cp"] by (simp add: width_def)
qed

text \<open>
  For the witnesses: the letter \<open>a\<close> is wide, and the zero-width code points are those of
  \<open>demo_flat\<close> (among them U+000A).
\<close>

definition demo_wide :: width_table where
  "demo_wide = \<lparr>wt_lookup = replicate 12 1 @ [0], wt_tbl = [2, 0], wt_size = 98, wt_radix = 3\<rparr>"

definition demo_zero :: width_table where
  "demo_zero = \<lparr>wt_lookup = [2, 0, 1, 1], wt_tbl = [5, 0xFF, 0], wt_size = 25, wt_radix = 3\<rparr>"

lemma demo_generated:
  "print_radix_table (replicate 97 False @ [True]) 3 = Some demo_wide"
  "print_radix_table demo_flat 3 = Some demo_zero"
  by code_simp+

lemma demo_tables: "tables_from (replicate 97 False @ [True]) 0 demo_flat 0 demo_wide demo_zero"
proof -
  have "length (wt_tbl demo_wide) = 2" "length (wt_tbl demo_zero) = 3" "length demo_flat = 25"
    by (simp_all add: demo_wide_def demo_zero_def demo_flat_def)
  then show ?thesis using demo_generated by (simp add: tables_from_def)
qed

lemma demo_widths:
  "width demo_wide demo_zero 97 = 2" "width demo_wide demo_zero 98 = 1" "width demo_wide demo_zero 10 = 0"
  by (simp_all add: tables_from_width [OF demo_tables] is_cp_def tbit_def nth_append demo_flat_def)

text \<open>
  C24. \<^verbatim>\<open>cx_utf8_cols\<close> on arbitrary bytes returns, without reading past the string,
  the sum of the widths of the characters, or \<open>-1\<close> exactly when some character has no lead
  byte or the last one is cut short.
\<close>

theorem utf8_cols_correct:
  assumes "unat n \<le> length str" "length str < 2 ^ 62" "tables_ok D Z"
  shows "cx_utf8_cols D Z str n =
    Some (case whole_chars (take (unat n) str) of None \<Rightarrow> - 1 | Some chs \<Rightarrow> int (chars_width D Z chs))"
proof -
  have ok: "str_ok str n" using assms by (simp add: str_ok_def)
  have r: "rest str n 0 = take (unat n) str" by (simp add: rest_def)
  show ?thesis
    using cols_loop_spec [OF ok assms(3), of 0 0] assms(1,2) by (simp add: cx_utf8_cols_def r cong: option.case_cong)
qed

theorem utf8_cols_correct_witness:
  "cx_utf8_cols demo_wide demo_zero [97, 98, 10] 3 = Some 3 \<and> cx_utf8_cols demo_wide demo_zero [97, 0xC3] 2 = Some (- 1)"
proof -
  have "whole_chars (take (unat (3 :: u64)) [97, 98, 10]) = Some [[97], [98], [10]]"
    "whole_chars (take (unat (2 :: u64)) [97, 0xC3]) = None"
    by (simp_all add: whole_chars_def lead_len_def whole_def)
  then show ?thesis
    using utf8_cols_correct [of 3 "[97, 98, 10]" demo_wide demo_zero] utf8_cols_correct [of 2 "[97, 0xC3]" demo_wide demo_zero]
      tables_from_ok [OF demo_tables] by (simp add: chars_width_def demo_widths)
qed

text \<open>
  \<^verbatim>\<open>cx_cp_width\<close> on tables the generator made from a wide and a zero-width
  set is one column, one more for a wide and one less for a zero-width code point.
\<close>

theorem cp_width_generated:
  assumes "tables_from wide j zero k D Z" "is_cp cp"
  shows "cx_cp_width D Z (of_nat cp) =
    Some (of_bool (cp < length wide \<and> wide ! cp) + of_bool (\<not> (cp < length zero \<and> zero ! cp)))"
  using cp_width_eq [OF tables_from_ok [OF assms(1)], of cp] tables_from_width [OF assms]
  by (simp add: tbit_def)

theorem cp_width_generated_witness:
  "cx_cp_width demo_wide demo_zero 97 = Some 2 \<and> cx_cp_width demo_wide demo_zero 10 = Some 0"
  using cp_width_generated [OF demo_tables, of 97] cp_width_generated [OF demo_tables, of 10]
  by (simp add: is_cp_def nth_append demo_flat_def)

text \<open>
  C23. \<^verbatim>\<open>cx_utf8_colidx\<close> inverts \<^verbatim>\<open>cx_utf8_cols\<close> on text without
  tabs: the offset it returns is the start of the character that covers the column, the
  first one whose end is right of it, or the end of the text.
\<close>

theorem utf8_colidx_correct:
  assumes "list_all is_cp cps" "9 \<notin> set cps" "tables_ok D Z" "tab \<noteq> 0"
    and "length (utf8_text cps) < 2 ^ 62"
  shows "\<exists>j \<le> length cps.
    cx_utf8_colidx D Z (utf8_text cps) (of_nat (length (utf8_text cps))) col tab = Some (int (length (utf8_text (take j cps)))) \<and>
    (\<Sum>cp \<leftarrow> take j cps. width D Z cp) \<le> unat col \<and>
    (j = length cps \<or> unat col < (\<Sum>cp \<leftarrow> take (Suc j) cps. width D Z cp))"
proof -
  let ?s = "utf8_text cps" and ?n = "of_nat (length (utf8_text cps)) :: u64"
  have n: "unat ?n = length ?s" using assms(5) by (intro unat_of_nat64) simp
  have ok: "str_ok ?s ?n" using n assms(5) by (simp add: str_ok_def)
  have "cx_utf8_colidx D Z ?s ?n col tab = Some (int (col_walk D Z tab col (map utf8_encode cps)))"
    using colidx_loop_spec [OF ok assms(3,4), of 0 "map utf8_encode cps" col] whole_chars_text [OF assms(1)]
    by (simp add: cx_utf8_colidx_def rest_all [OF n])
  then show ?thesis using col_walk_text [OF assms(1,2), of D Z tab col] by simp
qed

theorem utf8_colidx_correct_witness:
  "cx_utf8_colidx demo_wide demo_zero (utf8_text [97, 98]) 2 1 8 = Some 0 \<and>
   cx_utf8_colidx demo_wide demo_zero (utf8_text [97, 98]) 2 2 8 = Some 1"
proof -
  have t: "list_all is_cp [97, 98]" "9 \<notin> set [97, 98 :: nat]" "length (utf8_text [97, 98]) = 2"
      "length (utf8_text [97]) = 1" "utf8_text [] = []"
    by (simp_all add: is_cp_def utf8_text_def utf8_encode_def)
  have len: "length (utf8_text [97, 98]) < 2 ^ 62" and l2: "length [97, 98 :: nat] = 2" using t(3) by simp_all
  have pick: "j = (if c < 2 then 0 else 1)"
    if "j \<le> 2" "c < 3" "(\<Sum>cp \<leftarrow> take j [97, 98]. width demo_wide demo_zero cp) \<le> c"
      "j = 2 \<or> c < (\<Sum>cp \<leftarrow> take (Suc j) [97, 98]. width demo_wide demo_zero cp)" for j c :: nat
  proof -
    have "j = 0 \<or> j = 1 \<or> j = 2" using that(1) by linarith
    then show ?thesis using that by (auto simp: demo_widths)
  qed
  have "cx_utf8_colidx demo_wide demo_zero (utf8_text [97, 98]) 2 col 8 = Some (if unat col < 2 then 0 else 1)"
    if "unat col < 3" for col
  proof -
    obtain j where j: "j \<le> 2"
        "cx_utf8_colidx demo_wide demo_zero (utf8_text [97, 98]) 2 col 8 = Some (int (length (utf8_text (take j [97, 98]))))"
        "(\<Sum>cp \<leftarrow> take j [97, 98]. width demo_wide demo_zero cp) \<le> unat col"
        "j = 2 \<or> unat col < (\<Sum>cp \<leftarrow> take (Suc j) [97, 98]. width demo_wide demo_zero cp)"
      using utf8_colidx_correct [OF t(1,2) tables_from_ok [OF demo_tables] _ len, of 8 col, unfolded t(3) l2 of_nat_numeral]
      by auto
    show ?thesis using pick [OF j(1) that j(3,4)] j(2) t(4,5) by (auto split: if_splits)
  qed
  from this [of 1] this [of 2] show ?thesis by simp
qed

text \<open>
  Tabs in \<^verbatim>\<open>cx_utf8_colidx\<close>: a tab never stops the search; the remaining
  column is raised to the next multiple of the tab size instead of lowered by the width of the
  tab, so a column inside a tab or right behind it is looked for further on. A tab size of
  zero is a division by zero.
\<close>

theorem utf8_colidx_tab:
  assumes "whole_chars bs = Some chs" "tables_ok D Z" "length bs < 2 ^ 62"
  shows "cx_utf8_colidx D Z (9 # bs) (of_nat (length bs + 1)) col tab =
      (if tab = 0 then None
       else map_option (\<lambda>i. i + 1) (cx_utf8_colidx D Z bs (of_nat (length bs)) ((col div tab + 1) * tab) tab)) \<and>
    (tab \<noteq> 0 \<longrightarrow> unat col + unat tab < 2 ^ 64 \<longrightarrow> col < (col div tab + 1) * tab)"
proof -
  define n where "n = (of_nat (length bs) :: u64)"
  define m where "m = (of_nat (length bs + 1) :: u64)"
  have n: "unat n = length bs" "unat m = length (9 # bs)"
    using assms(3) unat_of_nat64 [of "length bs"] unat_of_nat64 [of "length bs + 1"] by (simp_all add: n_def m_def)
  have ok: "str_ok bs n" "str_ok (9 # bs) m" using n assms(3) by (simp_all add: str_ok_def)
  have "whole_chars (9 # bs) = Some ([9] # chs)"
    using assms(1) by (auto simp: whole_chars_def lead_len_def whole_def split: option.splits if_splits)
  then have "tab \<noteq> 0 \<Longrightarrow> cx_utf8_colidx D Z (9 # bs) m col tab = map_option (\<lambda>i. i + 1)
      (cx_utf8_colidx D Z bs n ((col div tab + 1) * tab) tab)"
    using colidx_loop_spec [OF ok(1) assms(2), of tab 0 chs] colidx_loop_spec [OF ok(2) assms(2), of tab 0 "[9] # chs"] assms(1)
    by (simp add: cx_utf8_colidx_def rest_all [OF n(1)] rest_all [OF n(2)])
  moreover have "cx_utf8_colidx D Z (9 # bs) m col 0 = None"
  proof -
    have "0 < m" using n(2) by (simp add: word_less_nat_alt)
    then show ?thesis unfolding cx_utf8_colidx_def by (subst colidx_loop.simps) (simp add: read_at_def)
  qed
  moreover have "col < (col div tab + 1) * tab" if t: "tab \<noteq> 0" and room: "unat col + unat tab < 2 ^ 64"
  proof -
    let ?q = "unat col div unat tab"
    have pos: "0 < unat tab" using t by (simp add: unat_gt_0)
    have le: "?q * unat tab \<le> unat col" by simp
    have lt: "unat col < (?q + 1) * unat tab"
      using dividend_less_div_times [OF pos, of "unat col"] by simp
    have "?q \<le> unat col" by (rule div_le_dividend)
    then have "?q + 1 < 2 ^ 64" using room pos by linarith
    then have "unat (col div tab + 1) = ?q + 1"
      by (subst unat_add_no_wrap) (simp_all add: unat_div)
    moreover have "(?q + 1) * unat tab < 2 ^ 64" using room le unfolding add_mult_distrib by linarith
    ultimately have "unat ((col div tab + 1) * tab) = (?q + 1) * unat tab"
      by (metis unat_mult_no_wrap)
    then show ?thesis using lt by (simp add: word_less_nat_alt)
  qed
  ultimately show ?thesis unfolding n_def [symmetric] m_def [symmetric] by auto
qed

theorem utf8_colidx_tab_witness:
  "cx_utf8_colidx demo_wide demo_zero [9, 98] 2 8 8 = Some 2 \<and> cx_utf8_colidx demo_wide demo_zero [9, 98] 2 0 0 = None"
proof -
  have "whole_chars [98] = Some [[98]]" by (simp add: whole_chars_def lead_len_def whole_def)
  moreover have "cx_utf8_colidx demo_wide demo_zero [98] 1 16 8 = Some 1"
    using colidx_loop_spec [of "[98]" 1 demo_wide demo_zero 8 0 "[[98]]" 16] tables_from_ok [OF demo_tables] calculation
    by (simp add: cx_utf8_colidx_def str_ok_def rest_all demo_widths)
  ultimately show ?thesis
    using utf8_colidx_tab [of "[98]" "[[98]]" demo_wide demo_zero 8 8] utf8_colidx_tab [of "[98]" "[[98]]" demo_wide demo_zero 0 0]
      tables_from_ok [OF demo_tables] by simp
qed

end
