(* ===== verification/CharWidth.thy ===== *)
theory CharWidth
  imports Width
begin

text \<open>
  The rest of the generator \<^verbatim>\<open>lib/unicode/codegen/char_width.c\<close>: it reads a file of the
  Unicode character database line by line, marks the code points of the lines that have one of the
  wanted properties, and prints the table of theory WidthTable. A file is its contents,
  a C string is the list of its characters.
\<close>

section \<open>The C library\<close>

definition is_space :: "char \<Rightarrow> bool" where
  "is_space c \<longleftrightarrow> c \<in> set [CHR '' '', CHR 0x09, CHR 0x0A, CHR 0x0B, CHR 0x0C, CHR 0x0D]"

definition digit_value :: "char \<Rightarrow> nat option" where
  "digit_value c =
     (let n = of_char c :: nat in
      if 48 \<le> n \<and> n \<le> 57 then Some (n - 48)
      else if 97 \<le> n \<and> n \<le> 102 then Some (n - 87)
      else if 65 \<le> n \<and> n \<le> 70 then Some (n - 55)
      else None)"

definition is_digit :: "nat \<Rightarrow> char \<Rightarrow> bool" where
  "is_digit base c = (case digit_value c of None \<Rightarrow> False | Some d \<Rightarrow> d < base)"

fun scan_digits :: "nat \<Rightarrow> nat \<Rightarrow> string \<Rightarrow> nat \<times> string" where
  "scan_digits base acc [] = (acc, [])"
| "scan_digits base acc (c # s) =
     (if is_digit base c then scan_digits base (base * acc + the (digit_value c)) s else (acc, c # s))"

fun scan_sign :: "string \<Rightarrow> bool \<times> string" where
  "scan_sign [] = (False, [])"
| "scan_sign (c # s) = (if c = CHR ''-'' then (True, s) else if c = CHR ''+'' then (False, s) else (False, c # s))"

fun skip_prefix :: "string \<Rightarrow> string" where
  "skip_prefix (z # x # s) = (if z = CHR ''0'' \<and> (x = CHR ''x'' \<or> x = CHR ''X'') then s else z # x # s)"
| "skip_prefix s = s"

text \<open>
  The conversion \<^verbatim>\<open>%x\<close>: the inner \<open>None\<close> is a matching failure, the outer one a number that does not
  fit, which is undefined.
\<close>

definition scan_x :: "string \<Rightarrow> (u32 \<times> string) option option" where
  "scan_x s =
     (let (neg, s) = scan_sign (dropWhile is_space s);
          s = skip_prefix s
      in case s of [] \<Rightarrow> Some None | c # _ \<Rightarrow>
        if \<not> is_digit 16 c then Some None
        else let (n, s) = scan_digits 16 0 s in
          if 2 ^ 32 \<le> n then None else Some (Some (if neg then - of_nat n else of_nat n, s)))"

definition atoi :: "string \<Rightarrow> int option" where
  "atoi s =
     (let (neg, s) = scan_sign (dropWhile is_space s);
          n = int (fst (scan_digits 10 0 s));
          n = (if neg then - n else n)
      in if - (2 ^ 31) \<le> n \<and> n < 2 ^ 31 then Some n else None)"

text \<open>\<^verbatim>\<open>strtok\<close> gives the next token, or null, and what it keeps for the next call.\<close>

definition strtok :: "string \<Rightarrow> string \<Rightarrow> string option \<times> string" where
  "strtok delim s =
     (let s = dropWhile (\<lambda>c. c \<in> set delim) s in
      if s = [] then (None, [])
      else (Some (takeWhile (\<lambda>c. c \<notin> set delim) s), drop 1 (dropWhile (\<lambda>c. c \<notin> set delim) s)))"

text \<open>\<^verbatim>\<open>getline\<close> until the end of the file; a character 0 ends the string in the buffer.\<close>

fun file_lines :: "string \<Rightarrow> string list" where
  "file_lines [] = []"
| "file_lines (c # s) =
     (if c = CHR 0x0A then [c] # file_lines s
      else case file_lines s of [] \<Rightarrow> [[c]] | l # ls \<Rightarrow> (c # l) # ls)"

definition c_string :: "string \<Rightarrow> string" where
  "c_string s = takeWhile (\<lambda>c. c \<noteq> CHR 0x00) s"

section \<open>Ranges\<close>

record cp_range =
  range_start :: u32
  range_end :: u32

text \<open>\<^verbatim>\<open>sscanf(line, "%x", &range->start)\<close> and \<^verbatim>\<open>sscanf(line, "%x..%x", &range->start, &range->end)\<close>.\<close>

definition sscanf_start :: "string \<Rightarrow> cp_range \<Rightarrow> (int \<times> string \<times> cp_range) option" where
  "sscanf_start s r = do {
     m \<leftarrow> scan_x s;
     Some (case m of
       None \<Rightarrow> (if dropWhile is_space s = [] then - 1 else 0, s, r)
     | Some (n, s) \<Rightarrow> (1, s, r\<lparr>range_start := n\<rparr>))
   }"

definition sscanf_range :: "string \<Rightarrow> cp_range \<Rightarrow> (int \<times> cp_range) option" where
  "sscanf_range s r = do {
     (rv, s, r) \<leftarrow> sscanf_start s r;
     if rv \<noteq> 1 \<or> take 2 s \<noteq> ''..'' then Some (rv, r)
     else do {
       m \<leftarrow> scan_x (drop 2 s);
       Some (case m of None \<Rightarrow> (1, r) | Some (n, s) \<Rightarrow> (2, r\<lparr>range_end := n\<rparr>))
     }
   }"

text \<open>The loop that goes to the field: \<^verbatim>\<open>strtok(NULL, ";#")\<close>, \<^verbatim>\<open>field_nbr\<close> times.\<close>

fun to_field :: "nat \<Rightarrow> string option \<Rightarrow> string \<Rightarrow> string option" where
  "to_field 0 line saved = line"
| "to_field (Suc i) line saved = (let (line, saved) = strtok '';#'' saved in to_field i line saved)"

text \<open>A null line is given to \<^verbatim>\<open>sscanf\<close> and \<^verbatim>\<open>strcmp\<close>.\<close>

definition parse_range :: "string \<Rightarrow> int \<Rightarrow> cp_range \<Rightarrow> (int \<times> cp_range) option" where
  "parse_range line field_nbr r = do {
     let (first, saved) = strtok '';'' line;
     line \<leftarrow> first;
     (rv, r) \<leftarrow> sscanf_range line r;
     (rv, r) \<leftarrow>
       (if rv \<noteq> 2
        then do {
          (rv, _, r) \<leftarrow> sscanf_start line r;
          Some (if rv \<noteq> 1 then (- 1 :: int, r) else (0, r\<lparr>range_end := range_start r\<rparr>))
        }
        else Some (0, r));
     if rv < 0 then Some (- 1, r)
     else do {
       field \<leftarrow> to_field (nat field_nbr) first saved;
       if field = '' W  '' then Some (0, r)
       else if field = ''Cc'' then Some (0, r)
       else if field = ''Cf'' then Some (0, r)
       else if field = ''Mn'' then Some (0, r)
       else if field = ''Me'' then Some (0, r)
       else Some (- 1, r)
     }
   }"

section \<open>The program\<close>

abbreviation no_range :: cp_range where
  "no_range \<equiv> \<lparr>range_start = 0, range_end = 0\<rparr>"

fun max_loop :: "int \<Rightarrow> string list \<Rightarrow> u64 \<Rightarrow> u64 option" where
  "max_loop field_nbr [] codepoint_size = Some codepoint_size"
| "max_loop field_nbr (line # file) codepoint_size = do {
     (rv, r) \<leftarrow> parse_range (c_string line) field_nbr no_range;
     max_loop field_nbr file
       (if rv < 0 then codepoint_size
        else if codepoint_size < ucast (range_end r) then ucast (range_end r)
        else if codepoint_size < ucast (range_start r) then ucast (range_start r)
        else codepoint_size)
   }"

text \<open>The result is an \<^verbatim>\<open>int\<close>.\<close>

definition find_max :: "string list \<Rightarrow> int \<Rightarrow> int option" where
  "find_max file field_nbr = do {
     codepoint_size \<leftarrow> max_loop field_nbr file 0;
     Some (signed_take_bit 31 (int (unat (codepoint_size + 1))))
   }"

partial_function (option) mark_loop :: "u32 \<Rightarrow> u32 \<Rightarrow> bool list \<Rightarrow> bool list option" where
  "mark_loop i end table =
     (if i \<le> end
      then if unat i < length table then mark_loop (i + 1) end (table[unat i := True]) else None
      else Some table)"

fun mark_lines :: "int \<Rightarrow> string list \<Rightarrow> bool list \<Rightarrow> bool list option" where
  "mark_lines field_nbr [] table = Some table"
| "mark_lines field_nbr (line # file) table = do {
     (rv, r) \<leftarrow> parse_range (c_string line) field_nbr no_range;
     table \<leftarrow> (if rv < 0 then Some table else mark_loop (range_start r) (range_end r) table);
     mark_lines field_nbr file table
   }"

text \<open>
  No object has a negative size, as a \<^verbatim>\<open>size_t\<close>. Without the table every use of it, here or in
  \<^verbatim>\<open>print_radix_table\<close>, is undefined.
\<close>

definition generate_flat_table :: "bool \<Rightarrow> string list \<Rightarrow> int \<Rightarrow> int \<Rightarrow> bool list option" where
  "generate_flat_table allocated file codepoint_size field_nbr =
     (if codepoint_size = 0 \<or> (0 < codepoint_size \<and> allocated)
      then mark_lines field_nbr file (replicate (nat codepoint_size) False)
      else None)"

text \<open>
  The environment is the arguments, the files with their contents, the result of \<^verbatim>\<open>fseek\<close> and whether
  the table could be allocated; the result is the exit status and the table that was printed.
\<close>

definition char_width_main :: "string list \<Rightarrow> (string \<Rightarrow> string option) \<Rightarrow> int \<Rightarrow> bool \<Rightarrow> (int \<times> width_table option) option" where
  "char_width_main argv files seek allocated =
     (if argv = [] then None
      else if length argv \<noteq> 5 then Some (1, None)
      else do {
        radix \<leftarrow> atoi (argv ! 4);
        field_nbr \<leftarrow> atoi (argv ! 3);
        contents \<leftarrow> files (argv ! 1);
        let file = file_lines contents;
        codepoint_size \<leftarrow> find_max file field_nbr;
        if seek < 0 then Some (1, None)
        else do {
          flat_table \<leftarrow> generate_flat_table allocated file codepoint_size field_nbr;
          if radix < 0 \<or> 31 \<le> radix then None
          else do {
            table \<leftarrow> print_radix_table flat_table (nat radix);
            Some (0, Some table)
          }
        }
      })"

section \<open>What the tables hold\<close>

text \<open>The code points that a line marks.\<close>

definition line_marks :: "int \<Rightarrow> string \<Rightarrow> nat \<Rightarrow> bool" where
  "line_marks field_nbr line cp =
     (case parse_range (c_string line) field_nbr no_range of
        Some (rv, r) \<Rightarrow> 0 \<le> rv \<and> unat (range_start r) \<le> cp \<and> cp \<le> unat (range_end r)
      | None \<Rightarrow> False)"

text \<open>A line that can be read, with code points that the size of the table, an \<^verbatim>\<open>int\<close>, can count.\<close>

definition line_ok :: "int \<Rightarrow> string \<Rightarrow> bool" where
  "line_ok field_nbr line =
     (case parse_range (c_string line) field_nbr no_range of
        Some (rv, r) \<Rightarrow> rv < 0 \<or> (unat (range_start r) < 2 ^ 31 - 1 \<and> unat (range_end r) < 2 ^ 31 - 1)
      | None \<Rightarrow> False)"

lemma max_loop_spec:
  assumes "list_all (line_ok f) ls" "unat m < 2 ^ 31 - 1"
  shows "\<exists>n. max_loop f ls m = Some n \<and> unat n < 2 ^ 31 - 1 \<and> m \<le> n \<and>
    (\<forall>l \<in> set ls. \<forall>cp. line_marks f l cp \<longrightarrow> cp \<le> unat n)"
  using assms
proof (induction ls arbitrary: m)
  case (Cons l ls)
  then obtain rv r where p: "parse_range (c_string l) f no_range = Some (rv, r)"
      and r: "rv < 0 \<or> (unat (range_start r) < 2 ^ 31 - 1 \<and> unat (range_end r) < 2 ^ 31 - 1)"
    by (auto simp: line_ok_def split: option.splits)
  let ?m = "if rv < 0 then m else if m < ucast (range_end r) then ucast (range_end r)
        else if m < ucast (range_start r) then ucast (range_start r) else m"
  have "unat ?m < 2 ^ 31 - 1" "m \<le> ?m" "rv < 0 \<or> unat (range_end r) \<le> unat ?m"
    using r Cons.prems(2) by (auto simp: word_less_nat_alt word_le_nat_alt unsigned_ucast_eq take_bit_nat_eq_self)
  moreover obtain n where "max_loop f ls ?m = Some n" "unat n < 2 ^ 31 - 1" "?m \<le> n" 
      "\<forall>l \<in> set ls. \<forall>cp. line_marks f l cp \<longrightarrow> cp \<le> unat n"
    using Cons.IH [of ?m] Cons.prems(1) calculation(1) by auto
  ultimately show ?case using p by (intro exI [of _ n]) (auto simp: line_marks_def word_le_nat_alt)
qed simp

lemma mark_loop_spec:
  assumes "unat e < length table" "length table \<le> 2 ^ 31"
  shows "\<exists>t. mark_loop i e table = Some t \<and> length t = length table \<and>
    (\<forall>p < length table. t ! p = (table ! p \<or> (unat i \<le> p \<and> p \<le> unat e)))"
  using assms
proof (induction "unat e + 1 - unat i" arbitrary: i table)
  case 0
  then have "\<not> i \<le> e" by (simp add: word_le_nat_alt)
  then show ?case using 0 by (subst mark_loop.simps) auto
next
  case (Suc x)
  then have le: "i \<le> e" "unat i \<le> unat e" by (simp_all add: word_le_nat_alt)
  have u: "unat (i + 1) = unat i + 1" using Suc.prems le(2) by (simp add: unat_word_ariths)
  obtain t where t: "mark_loop (i + 1) e (table[unat i := True]) = Some t" "length t = length table"
      "\<forall>p < length table. t ! p = (table[unat i := True] ! p \<or> (unat (i + 1) \<le> p \<and> p \<le> unat e))"
  proof -
    have "x = unat e + 1 - unat (i + 1)" using Suc.hyps(2) u by simp
    from Suc.hyps(1) [OF this, of "table[unat i := True]"] Suc.prems that show ?thesis by auto
  qed
  have "t ! p = (table ! p \<or> (unat i \<le> p \<and> p \<le> unat e))" if "p < length table" for p
    using t(3) that u le(2) by (cases "p = unat i") auto
  then show ?case using t(1,2) le Suc.prems(1) by (subst mark_loop.simps) simp
qed

lemma mark_lines_spec:
  assumes "list_all (line_ok f) ls" "length table \<le> 2 ^ 31" "\<forall>l \<in> set ls. \<forall>cp. line_marks f l cp \<longrightarrow> cp < length table"
  shows "\<exists>t. mark_lines f ls table = Some t \<and> length t = length table \<and>
    (\<forall>p < length table. t ! p = (table ! p \<or> (\<exists>l \<in> set ls. line_marks f l p)))"
  using assms
proof (induction ls arbitrary: table)
  case (Cons l ls)
  then obtain rv r where p: "parse_range (c_string l) f no_range = Some (rv, r)"
    by (auto simp: line_ok_def split: option.splits)
  have marks: "line_marks f l cp \<longleftrightarrow> 0 \<le> rv \<and> unat (range_start r) \<le> cp \<and> cp \<le> unat (range_end r)" for cp
    using p by (simp add: line_marks_def)
  obtain t where t: "(if rv < 0 then Some table else mark_loop (range_start r) (range_end r) table) = Some t"
      "length t = length table" "\<forall>p < length table. t ! p = (table ! p \<or> line_marks f l p)"
  proof (cases "rv < 0")
    case True
    then show ?thesis using that [of table] marks by auto
  next
    case False
    show ?thesis
    proof (cases "range_start r \<le> range_end r")
      case True
      then have "line_marks f l (unat (range_end r))" using False marks by (simp add: word_le_nat_alt)
      then have "unat (range_end r) < length table" using Cons.prems(3) by auto
      then obtain t where "mark_loop (range_start r) (range_end r) table = Some t" "length t = length table"
          "\<forall>p < length table. t ! p = (table ! p \<or> (unat (range_start r) \<le> p \<and> p \<le> unat (range_end r)))"
        using mark_loop_spec [of "range_end r" table "range_start r"] Cons.prems(2) by blast
      then show ?thesis using False marks by (intro that [of t]) simp_all
    next
      case outside: False
      then have "mark_loop (range_start r) (range_end r) table = Some table" by (subst mark_loop.simps) simp
      moreover have "\<not> line_marks f l cp" for cp
        using marks le_trans [of "unat (range_start r)" cp "unat (range_end r)"] outside by (auto simp: word_le_nat_alt)
      ultimately show ?thesis using False by (intro that [of table]) simp_all
    qed
  qed
  have "list_all (line_ok f) ls" "length t \<le> 2 ^ 31" "\<forall>l \<in> set ls. \<forall>cp. line_marks f l cp \<longrightarrow> cp < length t"
    using Cons.prems t(2) by auto
  from Cons.IH [OF this] obtain t' where t': "mark_lines f ls t = Some t'" "length t' = length t"
      "\<forall>p < length t. t' ! p = (t ! p \<or> (\<exists>l \<in> set ls. line_marks f l p))" by blast
  have "mark_lines f (l # ls) table = Some t'" using p t(1) t'(1) by simp
  moreover have "length t' = length table" using t(2) t'(2) by simp
  moreover have "t' ! q = (table ! q \<or> (\<exists>l' \<in> set (l # ls). line_marks f l' q))" if "q < length table" for q
    using t(3) t'(3) t(2) that by auto
  ultimately show ?case by blast
qed simp

text \<open>The file as a whole.\<close>

definition marks :: "int \<Rightarrow> string \<Rightarrow> nat \<Rightarrow> bool" where
  "marks field_nbr contents cp \<longleftrightarrow> (\<exists>l \<in> set (file_lines contents). line_marks field_nbr l cp)"

lemma char_width_main_spec:
  assumes "files path = Some contents" "list_all (line_ok f) (file_lines contents)"
    and "atoi field = Some f" "atoi radix = Some (int (k + 3))" "k \<le> 19"
  shows "\<exists>flat w. char_width_main [prog, path, name, field, radix] files 0 True = Some (0, Some w) \<and>
    print_radix_table flat (k + 3) = Some w \<and> length flat \<le> 2 ^ 31 \<and> (\<forall>cp. tbit flat cp = marks f contents cp)"
proof -
  obtain n where n: "max_loop f (file_lines contents) 0 = Some n" "unat n < 2 ^ 31 - 1"
      "\<forall>l \<in> set (file_lines contents). \<forall>cp. line_marks f l cp \<longrightarrow> cp \<le> unat n"
    using max_loop_spec [OF assms(2), of 0] by auto
  have u: "unat (n + 1) = unat n + 1" using n(2) by (intro unat_add_no_wrap [of n 1, simplified unat_1]) simp
  have fits: "signed_take_bit 31 (int (unat n + 1)) = int (unat n + 1)"
  proof (rule signed_take_bit_int_eq_self)
    have "unat n + 1 < 2 ^ 31" using n(2) by simp
    then have "int (unat n + 1) < int (2 ^ 31)" by (simp only: of_nat_less_iff)
    then show "int (unat n + 1) < 2 ^ 31" by simp
    have "(0 :: int) \<le> int (unat n + 1)" by (rule of_nat_0_le_iff)
    then show "- (2 ^ 31) \<le> int (unat n + 1)" by (rule order_trans [rotated]) simp
  qed
  have "find_max (file_lines contents) f = Some (signed_take_bit 31 (int (unat (n + 1))))" by (simp add: find_max_def n(1))
  then have m: "find_max (file_lines contents) f = Some (int (unat n + 1))" by (simp only: u fits)
  let ?t = "replicate (unat n + 1) False"
  obtain t where t: "mark_lines f (file_lines contents) ?t = Some t" "length t = unat n + 1"
      "\<forall>p < unat n + 1. t ! p = (?t ! p \<or> (\<exists>l \<in> set (file_lines contents). line_marks f l p))"
    using mark_lines_spec [OF assms(2), of ?t] n(2,3) by (auto simp: less_Suc_eq_le)
  have tbit: "tbit t cp = marks f contents cp" for cp
    using t(2,3) n(3) by (auto simp: tbit_def marks_def less_Suc_eq_le simp del: replicate_Suc)
  obtain w where w: "print_radix_table t (k + 3) = Some w"
    using generated_blocks [of t k] by blast
  obtain size where size: "find_max (file_lines contents) f = Some size"
      "generate_flat_table True (file_lines contents) size f = Some t"
  proof
    have "0 < int (unat n + 1)" by (simp only: of_nat_0_less_iff)
    then show "generate_flat_table True (file_lines contents) (int (unat n + 1)) f = Some t"
      using t(1) by (simp only: generate_flat_table_def nat_int simp_thms if_True)
  qed (rule m)
  obtain r where r: "atoi radix = Some r" "\<not> (r < 0 \<or> 31 \<le> r)" "nat r = k + 3"
    using assms(4,5) by (intro that [of "int (k + 3)"]) simp_all
  have "char_width_main [prog, path, name, field, radix] files 0 True = Some (0, Some w)"
    using assms(1,3) size r w by (simp add: char_width_main_def)
  then show ?thesis using w t(2) n(2) tbit by (intro exI [of _ t] exI [of _ w]) simp
qed

end
