(* ===== verification/UnicodeFiles.thy ===== *)
theory UnicodeFiles
  imports CharWidth
begin

text \<open>
  The files the build gives to the generator, \<^verbatim>\<open>EastAsianWidth.txt\<close> and \<^verbatim>\<open>UnicodeData.txt\<close>, in their
  printed form, and what the library computes with the tables that come out.
\<close>

section \<open>Numbers\<close>

definition hex_char :: "nat \<Rightarrow> char" where
  "hex_char d = char_of (if d < 10 then 48 + d else 55 + d)"

fun hex_digits :: "nat \<Rightarrow> string" where
  "hex_digits n = (if n < 16 then [hex_char n] else hex_digits (n div 16) @ [hex_char (n mod 16)])"

declare hex_digits.simps [simp del]

definition hex4 :: "nat \<Rightarrow> string" where
  "hex4 n = replicate (4 - length (hex_digits n)) (CHR ''0'') @ hex_digits n"

abbreviation hex_value :: "nat \<Rightarrow> string \<Rightarrow> nat" where
  "hex_value \<equiv> foldl (\<lambda>n c. 16 * n + the (digit_value c))"

lemma digit_hex_char: "d < 16 \<Longrightarrow> digit_value (hex_char d) = Some d"
  by (auto simp: hex_char_def digit_value_def)

lemma is_digit_hex_char: "d < 16 \<Longrightarrow> is_digit 16 (hex_char d)"
  by (simp add: is_digit_def digit_hex_char)

lemma is_digit_other:
  "is_digit 16 c \<Longrightarrow> \<not> is_space c \<and> c \<noteq> CHR ''-'' \<and> c \<noteq> CHR ''+'' \<and> c \<noteq> CHR ''x'' \<and> c \<noteq> CHR ''X'' \<and>
     c \<noteq> CHR '';'' \<and> c \<noteq> CHR ''#'' \<and> c \<noteq> CHR ''.'' \<and> c \<noteq> CHR 0x0A \<and> c \<noteq> CHR 0x00"
  by (auto simp: is_space_def is_digit_def digit_value_def)

lemma hex_digits_ok: "list_all (is_digit 16) (hex_digits n) \<and> hex_digits n \<noteq> [] \<and> hex_value 0 (hex_digits n) = n"
proof (induction n rule: hex_digits.induct)
  case (1 n)
  show ?case
  proof (cases "n < 16")
    case True
    then show ?thesis by (simp add: hex_digits.simps [of n] is_digit_hex_char digit_hex_char)
  next
    case False
    then show ?thesis using 1 by (simp add: hex_digits.simps [of n] is_digit_hex_char digit_hex_char)
  qed
qed

lemma hex_value_zeros: "hex_value 0 (replicate k (CHR ''0'') @ s) = hex_value 0 s"
  by (induction k) (simp_all add: digit_value_def)

lemma hex4_ok: "list_all (is_digit 16) (hex4 n)" "2 \<le> length (hex4 n)" "hex_value 0 (hex4 n) = n"
proof -
  have "is_digit 16 (CHR ''0'')" by (simp add: is_digit_def digit_value_def)
  then show "list_all (is_digit 16) (hex4 n)" using hex_digits_ok [of n] by (auto simp: hex4_def list_all_iff)
  show "2 \<le> length (hex4 n)" by (simp add: hex4_def)
  show "hex_value 0 (hex4 n) = n" using hex_digits_ok [of n] by (simp only: hex4_def hex_value_zeros)
qed

lemma scan_digits_spec:
  "list_all (is_digit 16) ds \<Longrightarrow> s = [] \<or> \<not> is_digit 16 (hd s) \<Longrightarrow> scan_digits 16 acc (ds @ s) = (hex_value acc ds, s)"
  by (induction ds arbitrary: acc; cases s) auto

lemma scan_x_hex4:
  assumes "n < 2 ^ 32" "s = [] \<or> \<not> is_digit 16 (hd s)"
  shows "scan_x (hex4 n @ s) = Some (Some (of_nat n, s))"
proof -
  obtain c d ds where h: "hex4 n = c # d # ds" using hex4_ok(2) [of n] by (cases "hex4 n" rule: remdups_adj.cases) auto
  have cd: "is_digit 16 c" "is_digit 16 d" using hex4_ok(1) [of n] h by simp_all
  have "scan_digits 16 0 (hex4 n @ s) = (n, s)" using scan_digits_spec [OF hex4_ok(1) assms(2), of 0 n] hex4_ok(3) by simp
  then show ?thesis using is_digit_other [OF cd(1)] is_digit_other [OF cd(2)] cd(1) assms(1) h by (simp add: scan_x_def)
qed

section \<open>Lines\<close>

text \<open>
  A range with its property and a remark; an entry with its name, category and further fields.
  In the first file a property is printed with a space in front.
\<close>

datatype ucd_line =
    Blank
  | Remark string
  | East_asian nat nat nat string string
  | Unicode_data nat string string string

fun line_body :: "ucd_line \<Rightarrow> string" where
  "line_body Blank = []"
| "line_body (Remark s) = ''#'' @ s"
| "line_body (East_asian a b pad property s) =
     hex4 a @ (if a = b then [] else ''..'' @ hex4 b) @ replicate pad (CHR '' '') @ ''; '' @ property @ ''#'' @ s"
| "line_body (Unicode_data a name category s) = hex4 a @ '';'' @ name @ '';'' @ category @ '';'' @ s"

definition print_line :: "ucd_line \<Rightarrow> string" where
  "print_line l = line_body l @ [CHR 0x0A]"

definition text_ok :: "string \<Rightarrow> bool" where
  "text_ok s \<longleftrightarrow> CHR 0x0A \<notin> set s \<and> CHR 0x00 \<notin> set s"

definition field_ok :: "string \<Rightarrow> bool" where
  "field_ok s \<longleftrightarrow> text_ok s \<and> s \<noteq> [] \<and> CHR '';'' \<notin> set s \<and> CHR ''#'' \<notin> set s"

text \<open>The lines of the file with \<open>field_nbr\<close>.\<close>

fun ucd_line_ok :: "int \<Rightarrow> ucd_line \<Rightarrow> bool" where
  "ucd_line_ok f Blank = True"
| "ucd_line_ok f (Remark s) = text_ok s"
| "ucd_line_ok f (East_asian a b pad property s) = (f = 1 \<and> is_cp a \<and> is_cp b \<and> field_ok property \<and> text_ok s)"
| "ucd_line_ok f (Unicode_data a name category s) =
     (f = 2 \<and> is_cp a \<and> field_ok name \<and> field_ok category \<and> hd category \<noteq> CHR '' '' \<and> text_ok s)"

fun covers :: "ucd_line \<Rightarrow> nat \<Rightarrow> bool" where
  "covers (East_asian a b pad property s) cp = (property = ''W  '' \<and> a \<le> cp \<and> cp \<le> b)"
| "covers (Unicode_data a name category s) cp = (category \<in> set [''Cc'', ''Cf'', ''Mn'', ''Me''] \<and> cp = a)"
| "covers _ cp = False"

lemma strtok_token:
  "a \<noteq> [] \<Longrightarrow> \<forall>c \<in> set a. c \<notin> set d \<Longrightarrow> s = [] \<or> hd s \<in> set d \<Longrightarrow> strtok d (a @ s) = (Some a, drop 1 s)"
proof -
  assume a: "a \<noteq> []" "\<forall>c \<in> set a. c \<notin> set d" and s: "s = [] \<or> hd s \<in> set d"
  have "dropWhile (\<lambda>c. c \<in> set d) (a @ s) = a @ s" using a by (cases a) auto
  moreover have "takeWhile (\<lambda>c. c \<notin> set d) (a @ s) = a" "dropWhile (\<lambda>c. c \<notin> set d) (a @ s) = s"
    using a(2) s by (cases s; simp add: takeWhile_append2)+
  ultimately show ?thesis using a(1) by (simp add: strtok_def)
qed

lemma hex4_chars: "c \<in> set (hex4 n) \<Longrightarrow> is_digit 16 c"
  using hex4_ok(1) by (simp add: list_all_iff)

lemma hex4_text: "text_ok (hex4 n)" "CHR '';'' \<notin> set (hex4 n)" "CHR ''#'' \<notin> set (hex4 n)" "hex4 n \<noteq> []"
proof -
  have "c \<notin> set (hex4 n)" if "\<not> is_digit 16 c" for c using that hex4_chars by blast
  then show "text_ok (hex4 n)" "CHR '';'' \<notin> set (hex4 n)" "CHR ''#'' \<notin> set (hex4 n)"
    by (simp_all add: text_ok_def is_digit_def digit_value_def)
  show "hex4 n \<noteq> []" using hex4_ok(2) [of n] by auto
qed

lemma separators [simp]: "\<not> is_digit 16 (CHR '';'')" "\<not> is_digit 16 (CHR ''.'')" "\<not> is_digit 16 (CHR '' '')" "\<not> is_digit 16 (CHR ''#'')"
  by (simp_all add: is_digit_def digit_value_def)

lemma body_text: "ucd_line_ok f l \<Longrightarrow> text_ok (line_body l)"
  using hex4_text(1) by (cases l) (auto simp: text_ok_def field_ok_def)

text \<open>The code points at the start of a line.\<close>

lemma sscanf_one:
  assumes "is_cp a"
  shows "sscanf_start (hex4 a @ replicate pad (CHR '' '')) r = Some (1, replicate pad (CHR '' ''), r\<lparr>range_start := of_nat a\<rparr>)"
    "sscanf_range (hex4 a @ replicate pad (CHR '' '')) r = Some (1, r\<lparr>range_start := of_nat a\<rparr>)"
proof -
  show start: "sscanf_start (hex4 a @ replicate pad (CHR '' '')) r = Some (1, replicate pad (CHR '' ''), r\<lparr>range_start := of_nat a\<rparr>)"
    using scan_x_hex4 [of a "replicate pad (CHR '' '')"] assms by (cases pad) (simp_all add: sscanf_start_def is_cp_def)
  have "take 2 (replicate pad (CHR '' '')) \<noteq> ''..''" by (cases pad) simp_all
  then show "sscanf_range (hex4 a @ replicate pad (CHR '' '')) r = Some (1, r\<lparr>range_start := of_nat a\<rparr>)"
    using start by (simp add: sscanf_range_def)
qed

lemma sscanf_two:
  assumes "is_cp a" "is_cp b"
  shows "sscanf_range (hex4 a @ ''..'' @ hex4 b @ replicate pad (CHR '' '')) r =
    Some (2, r\<lparr>range_start := of_nat a, range_end := of_nat b\<rparr>)"
proof -
  have "scan_x (hex4 a @ ''..'' @ hex4 b @ replicate pad (CHR '' '')) = Some (Some (of_nat a, ''..'' @ hex4 b @ replicate pad (CHR '' '')))"
    by (rule scan_x_hex4) (use assms in \<open>simp_all add: is_cp_def\<close>)
  moreover have "scan_x (hex4 b @ replicate pad (CHR '' '')) = Some (Some (of_nat b, replicate pad (CHR '' '')))"
    by (rule scan_x_hex4) (use assms in \<open>cases pad; simp add: is_cp_def\<close>)+
  ultimately show ?thesis by (simp add: sscanf_range_def sscanf_start_def numeral_2_eq_2)
qed

lemma parse_east_asian:
  assumes "ucd_line_ok f (East_asian a b pad property s)"
  shows "parse_range (print_line (East_asian a b pad property s)) f no_range =
    Some (if property = ''W  '' then 0 else - 1, \<lparr>range_start = of_nat a, range_end = of_nat b\<rparr>)"
proof -
  let ?first = "hex4 a @ (if a = b then [] else ''..'' @ hex4 b) @ replicate pad (CHR '' '')"
  let ?rest = "(CHR '' '' # property) @ ''#'' @ s @ [CHR 0x0A]"
  have l: "print_line (East_asian a b pad property s) = ?first @ CHR '';'' # ?rest" by (simp add: print_line_def)
  have ok: "f = 1" "is_cp a" "is_cp b" "field_ok property" using assms by simp_all
  have "strtok '';'' (?first @ CHR '';'' # ?rest) = (Some ?first, ?rest)"
    by (subst strtok_token) (use hex4_text in auto)
  moreover have "strtok '';#'' ?rest = (Some (CHR '' '' # property), s @ [CHR 0x0A])"
    by (subst strtok_token) (use ok(4) in \<open>auto simp: field_ok_def\<close>)
  ultimately show ?thesis
    using sscanf_one [OF ok(2)] sscanf_two [OF ok(2,3)] ok(1) unfolding l by (cases "a = b") (simp_all add: parse_range_def)
qed

lemma parse_unicode_data:
  assumes "ucd_line_ok f (Unicode_data a name category s)"
  shows "parse_range (print_line (Unicode_data a name category s)) f no_range =
    Some (if category \<in> set [''Cc'', ''Cf'', ''Mn'', ''Me''] then 0 else - 1, \<lparr>range_start = of_nat a, range_end = of_nat a\<rparr>)"
proof -
  let ?rest = "name @ '';'' @ category @ '';'' @ s @ [CHR 0x0A]"
  have l: "print_line (Unicode_data a name category s) = hex4 a @ CHR '';'' # ?rest" by (simp add: print_line_def)
  have ok: "f = 2" "is_cp a" "field_ok name" "field_ok category" "category \<noteq> '' W  ''" using assms by auto
  have "strtok '';'' (hex4 a @ CHR '';'' # ?rest) = (Some (hex4 a), ?rest)"
    by (subst strtok_token) (use hex4_text in auto)
  moreover have "strtok '';#'' ?rest = (Some name, category @ '';'' @ s @ [CHR 0x0A])"
    by (subst strtok_token) (use ok(3) in \<open>auto simp: field_ok_def\<close>)
  moreover have "strtok '';#'' (category @ '';'' @ s @ [CHR 0x0A]) = (Some category, s @ [CHR 0x0A])"
    by (subst strtok_token) (use ok(4) in \<open>auto simp: field_ok_def\<close>)
  ultimately show ?thesis
    using sscanf_one [OF ok(2), of 0] ok(1,5) unfolding l by (simp add: parse_range_def numeral_2_eq_2)
qed

text \<open>A first token without a number at its start.\<close>

lemma parse_no_number:
  assumes "strtok '';'' line = (Some t, saved)" "scan_x t = Some None"
  shows "parse_range line f no_range = Some (- 1, no_range)"
proof -
  have "\<exists>rv. sscanf_start t no_range = Some (rv, t, no_range) \<and> rv \<noteq> 1 \<and> rv \<noteq> 2"
    using assms(2) by (auto simp: sscanf_start_def)
  then obtain rv where "sscanf_start t no_range = Some (rv, t, no_range)" "rv \<noteq> 1" "rv \<noteq> 2" by blast
  then show ?thesis using assms(1) by (simp add: parse_range_def sscanf_range_def)
qed

lemma parse_remark: "parse_range (print_line (Remark s)) f no_range = Some (- 1, no_range)"
proof (rule parse_no_number)
  let ?t = "CHR ''#'' # takeWhile (\<lambda>c. c \<notin> set '';'') (s @ [CHR 0x0A])"
  show "strtok '';'' (print_line (Remark s)) = (Some ?t, drop 1 (dropWhile (\<lambda>c. c \<notin> set '';'') (print_line (Remark s))))"
    by (simp add: strtok_def print_line_def)
  show "scan_x ?t = Some None"
    by (cases "takeWhile (\<lambda>c. c \<notin> set '';'') (s @ [CHR 0x0A])") (simp_all add: scan_x_def is_space_def)
qed

lemma parse_blank: "parse_range (print_line Blank) f no_range = Some (- 1, no_range)"
proof (rule parse_no_number)
  show "strtok '';'' (print_line Blank) = (Some [CHR 0x0A], [])" by (simp add: strtok_def print_line_def)
  have "dropWhile is_space [CHR 0x0A] = []" by (simp add: is_space_def)
  then show "scan_x [CHR 0x0A] = Some None" by (simp add: scan_x_def)
qed

lemmas parse_line = parse_east_asian parse_unicode_data parse_remark parse_blank

section \<open>Files\<close>

lemma file_lines_Cons: "CHR 0x0A \<notin> set s \<Longrightarrow> file_lines (s @ CHR 0x0A # t) = (s @ [CHR 0x0A]) # file_lines t"
  by (induction s) auto

lemma file_lines_printed: "list_all (ucd_line_ok f) ls \<Longrightarrow> file_lines (concat (map print_line ls)) = map print_line ls"
proof (induction ls)
  case (Cons l ls)
  then have "CHR 0x0A \<notin> set (line_body l)" using body_text by (auto simp: text_ok_def)
  then show ?case using Cons by (simp add: print_line_def file_lines_Cons)
qed simp

lemma printed_c_string: "ucd_line_ok f l \<Longrightarrow> c_string (print_line l) = print_line l"
  using body_text [of f l] by (auto simp: c_string_def print_line_def text_ok_def takeWhile_eq_all_conv)

lemma parse_printed:
  "ucd_line_ok f (East_asian a b pad property s) \<Longrightarrow> parse_range (c_string (print_line (East_asian a b pad property s))) f no_range =
    Some (if property = ''W  '' then 0 else - 1, \<lparr>range_start = of_nat a, range_end = of_nat b\<rparr>)"
  "ucd_line_ok f (Unicode_data a name category s) \<Longrightarrow> parse_range (c_string (print_line (Unicode_data a name category s))) f no_range =
    Some (if category \<in> set [''Cc'', ''Cf'', ''Mn'', ''Me''] then 0 else - 1, \<lparr>range_start = of_nat a, range_end = of_nat a\<rparr>)"
  "text_ok s \<Longrightarrow> parse_range (c_string (print_line (Remark s))) f no_range = Some (- 1, no_range)"
  "parse_range (c_string (print_line Blank)) f no_range = Some (- 1, no_range)"
     apply (simp only: printed_c_string parse_east_asian)
    apply (simp only: printed_c_string parse_unicode_data)
   apply (simp add: printed_c_string [of f "Remark s"] parse_remark)
  apply (simp add: printed_c_string [of f Blank] parse_blank)
  done

lemma unat_cp: "is_cp a \<Longrightarrow> unat (of_nat a :: u32) = a"
  by (simp add: is_cp_def unat_of_nat)

lemma printed_line:
  assumes "ucd_line_ok f l"
  shows "line_ok f (print_line l)" "line_marks f (print_line l) cp = covers l cp"
proof -
  have cp: "a < 2 ^ 31 - 1" if "is_cp a" for a using that by (simp add: is_cp_def)
  show "line_ok f (print_line l)"
    using assms parse_line printed_c_string [OF assms] cp by (cases l) (auto simp: line_ok_def unat_cp)
  show "line_marks f (print_line l) cp = covers l cp"
    using assms parse_line printed_c_string [OF assms] by (cases l) (auto simp: line_marks_def unat_cp)
qed

lemma printed_file:
  assumes "list_all (ucd_line_ok f) ls"
  shows "list_all (line_ok f) (file_lines (concat (map print_line ls)))"
    "marks f (concat (map print_line ls)) cp = list_ex (\<lambda>l. covers l cp) ls"
  using assms printed_line unfolding marks_def file_lines_printed [OF assms] by (auto simp: list_all_iff list_ex_iff)

text \<open>Two small files for the witnesses.\<close>

definition demo_east :: "ucd_line list" where
  "demo_east = [Remark '' EastAsianWidth'', Blank, East_asian 1 2 2 ''W  '' '' Lo'', East_asian 0x63 0x63 10 ''N  '' []]"

definition demo_data :: "ucd_line list" where
  "demo_data = [Unicode_data 3 ''<control>'' ''Cc'' ''0'', Unicode_data 0x41 ''A'' ''Lu'' ''0'']"

lemma demo_lines: "list_all (ucd_line_ok 1) demo_east" "list_all (ucd_line_ok 2) demo_data"
  by (simp_all add: demo_east_def demo_data_def is_cp_def field_ok_def text_ok_def)

lemma demo_flat_tables:
  "find_max (map print_line demo_east) 1 = Some 3" "find_max (map print_line demo_data) 2 = Some 4"
  "generate_flat_table True (map print_line demo_east) 3 1 = Some [False, True, True]"
  "generate_flat_table True (map print_line demo_data) 4 2 = Some [False, False, False, True]"
proof -
  have r: "replicate 3 False = [False, False, False]" "replicate 4 False = [False, False, False, False]" by code_simp+
  show "find_max (map print_line demo_east) 1 = Some 3" "find_max (map print_line demo_data) 2 = Some 4"
  "generate_flat_table True (map print_line demo_east) 3 1 = Some [False, True, True]"
  "generate_flat_table True (map print_line demo_data) 4 2 = Some [False, False, False, True]"
    by (simp_all add: demo_east_def demo_data_def find_max_def generate_flat_table_def parse_printed mark_loop.simps r is_cp_def field_ok_def text_ok_def)
qed

lemma demo_radix_tables:
  "map_option (\<lambda>w. length (wt_tbl w)) (print_radix_table [False, True, True] 8) = Some 32"
  "map_option (\<lambda>w. length (wt_tbl w)) (print_radix_table [False, False, False, True] 9) = Some 64"
  by code_simp+

definition demo_files :: "string \<Rightarrow> string option" where
  "demo_files = [''e'' \<mapsto> concat (map print_line demo_east), ''u'' \<mapsto> concat (map print_line demo_data)]"

lemma arguments: "atoi ''1'' = Some 1" "atoi ''2'' = Some 2" "atoi ''8'' = Some (int (5 + 3))" "atoi ''9'' = Some (int (6 + 3))"
  by (simp_all add: atoi_def is_space_def is_digit_def digit_value_def)

lemma demo_small:
  "char_width_main [p, ''e'', t, ''1'', ''8''] demo_files 0 True = Some (0, Some w) \<Longrightarrow> length (wt_tbl w) = 32"
  "char_width_main [p, ''u'', t, ''2'', ''9''] demo_files 0 True = Some (0, Some w) \<Longrightarrow> length (wt_tbl w) = 64"
  using demo_radix_tables
  by (auto simp: char_width_main_def demo_files_def arguments file_lines_printed [OF demo_lines(1)] file_lines_printed [OF demo_lines(2)]
      demo_flat_tables bind_eq_Some_conv)

section \<open>Properties\<close>

text \<open>
  C17. The generator reads back every line as the files print it: the range or the code point of the
  line, accepted exactly when it has one of the wanted properties; blank lines and remarks are skipped.
\<close>

theorem ucd_line_roundtrip:
  assumes "ucd_line_ok f l"
  shows "parse_range (print_line l) f no_range = Some (case l of
      East_asian a b pad property s \<Rightarrow>
        (if property = ''W  '' then 0 else - 1, \<lparr>range_start = of_nat a, range_end = of_nat b\<rparr>)
    | Unicode_data a name category s \<Rightarrow>
        (if category \<in> set [''Cc'', ''Cf'', ''Mn'', ''Me''] then 0 else - 1, \<lparr>range_start = of_nat a, range_end = of_nat a\<rparr>)
    | _ \<Rightarrow> (- 1, no_range))"
  using assms parse_line by (cases l) auto

theorem ucd_line_roundtrip_witness:
  "parse_range (print_line (East_asian 0x1100 0x115F 4 ''W  '' '' Lo'')) 1 no_range =
    Some (0, \<lparr>range_start = 0x1100, range_end = 0x115F\<rparr>)"
  using ucd_line_roundtrip [of 1 "East_asian 0x1100 0x115F 4 ''W  '' '' Lo''"]
  by (simp add: is_cp_def field_ok_def text_ok_def)

text \<open>
  C27. On any file whose lines can be read the program prints a table in which \<^verbatim>\<open>table_lookup\<close> finds
  exactly the code points the lines mark, as long as no more than 256 different blocks are printed.
\<close>

theorem char_width_main_correct:
  assumes "files path = Some contents" "list_all (line_ok f) (file_lines contents)"
    and "atoi field = Some f" "atoi radix = Some (int (k + 3))" "k \<le> 19"
  shows "\<exists>w. char_width_main [prog, path, name, field, radix] files 0 True = Some (0, Some w) \<and>
    (length (wt_tbl w) \<le> 256 * 2 ^ k \<longrightarrow>
      (\<forall>cp. table_lookup (wt_lookup w) (wt_tbl w) (wt_size w) (wt_radix w) cp = Some (marks f contents (unat cp))))"
proof -
  obtain flat w where w: "char_width_main [prog, path, name, field, radix] files 0 True = Some (0, Some w)"
      "print_radix_table flat (k + 3) = Some w" "length flat \<le> 2 ^ 31" "\<forall>cp. tbit flat cp = marks f contents cp"
    using char_width_main_spec [where path = path and files = files, OF assms] by blast
  then show ?thesis using generated_lookup [OF w(3) assms(5)] by (intro exI [of _ w]) (auto simp: tbit_def)
qed

theorem char_width_main_correct_witness:
  "\<exists>w. char_width_main [''g'', ''u'', ''t'', ''2'', ''9''] demo_files 0 True = Some (0, Some w) \<and>
    table_lookup (wt_lookup w) (wt_tbl w) (wt_size w) (wt_radix w) 3 = Some True \<and>
    table_lookup (wt_lookup w) (wt_tbl w) (wt_size w) (wt_radix w) 0x41 = Some False"
proof -
  have f: "demo_files ''u'' = Some (concat (map print_line demo_data))" by (simp add: demo_files_def)
  obtain w where w: "char_width_main [''g'', ''u'', ''t'', ''2'', ''9''] demo_files 0 True = Some (0, Some w)"
      "length (wt_tbl w) \<le> 256 * 2 ^ 6 \<longrightarrow> (\<forall>cp. table_lookup (wt_lookup w) (wt_tbl w) (wt_size w) (wt_radix w) cp =
        Some (marks 2 (concat (map print_line demo_data)) (unat cp)))"
    using char_width_main_correct [where files = demo_files and path = "''u''", OF f printed_file(1) [OF demo_lines(2)] arguments(2,4), of "''g''" "''t''"]
    by auto
  then have "table_lookup (wt_lookup w) (wt_tbl w) (wt_size w) (wt_radix w) cp = Some (list_ex (\<lambda>l. covers l (unat cp)) demo_data)" for cp
    using demo_small(2) [OF w(1)] by (simp add: printed_file(2) [OF demo_lines(2)])
  then show ?thesis using w(1) by (intro exI [of _ w]) (simp add: demo_data_def)
qed

text \<open>
  C16. From the files to the library: with the tables that the build generates from \<^verbatim>\<open>EastAsianWidth.txt\<close> (field 1,
  radix 8) and \<^verbatim>\<open>UnicodeData.txt\<close> (field 2, radix 9), \<^verbatim>\<open>cx_cp_width\<close> of a code point is one column, one
  more if the first file gives it the width W and one less if the second gives it one of the categories Cc, Cf, Mn and Me.
\<close>

theorem widths_from_files:
  assumes "list_all (ucd_line_ok 1) east" "list_all (ucd_line_ok 2) data"
    and "files e = Some (concat (map print_line east))" "files u = Some (concat (map print_line data))"
  shows "\<exists>D Z. char_width_main [prog, e, ''cx__double_width'', ''1'', ''8''] files 0 True = Some (0, Some D) \<and>
    char_width_main [prog, u, ''cx__zero_width'', ''2'', ''9''] files 0 True = Some (0, Some Z) \<and>
    (length (wt_tbl D) \<le> 256 * 2 ^ 5 \<and> length (wt_tbl Z) \<le> 256 * 2 ^ 6 \<longrightarrow>
      (\<forall>cp. is_cp cp \<longrightarrow> cx_cp_width D Z (of_nat cp) =
        Some (of_bool (list_ex (\<lambda>l. covers l cp) east) + of_bool (\<not> list_ex (\<lambda>l. covers l cp) data))))"
proof -
  note a = arguments
  obtain wide D where D: "char_width_main [prog, e, ''cx__double_width'', ''1'', ''8''] files 0 True = Some (0, Some D)"
      "print_radix_table wide (5 + 3) = Some D" "length wide \<le> 2 ^ 31"
      "\<forall>cp. tbit wide cp = marks 1 (concat (map print_line east)) cp"
    using char_width_main_spec [where files = files and path = e and prog = prog and name = "''cx__double_width''", OF assms(3) printed_file(1) [OF assms(1)] a(1,3)] by auto
  obtain zero Z where Z: "char_width_main [prog, u, ''cx__zero_width'', ''2'', ''9''] files 0 True = Some (0, Some Z)"
      "print_radix_table zero (6 + 3) = Some Z" "length zero \<le> 2 ^ 31"
      "\<forall>cp. tbit zero cp = marks 2 (concat (map print_line data)) cp"
    using char_width_main_spec [where files = files and path = u and prog = prog and name = "''cx__zero_width''", OF assms(4) printed_file(1) [OF assms(2)] a(2,4)] by auto
  have "cx_cp_width D Z (of_nat cp) =
      Some (of_bool (list_ex (\<lambda>l. covers l cp) east) + of_bool (\<not> list_ex (\<lambda>l. covers l cp) data))"
    if "length (wt_tbl D) \<le> 256 * 2 ^ 5 \<and> length (wt_tbl Z) \<le> 256 * 2 ^ 6" "is_cp cp" for cp
  proof -
    have t: "tables_from wide 5 zero 6 D Z" using D(2,3) Z(2,3) that(1) by (simp add: tables_from_def)
    show ?thesis
      using cp_width_eq [OF tables_from_ok [OF t], of cp] tables_from_width [OF t that(2)] D(4) Z(4)
      by (simp add: printed_file(2) [OF assms(1)] printed_file(2) [OF assms(2)])
  qed
  then show ?thesis using D(1) Z(1) by blast
qed

theorem widths_from_files_witness:
  "\<exists>D Z. cx_cp_width D Z 1 = Some 2 \<and> cx_cp_width D Z 3 = Some 0 \<and> cx_cp_width D Z 0x63 = Some 1"
proof -
  have f: "demo_files ''e'' = Some (concat (map print_line demo_east))" "demo_files ''u'' = Some (concat (map print_line demo_data))"
    by (simp_all add: demo_files_def)
  obtain D Z where
      D: "char_width_main [[], ''e'', ''cx__double_width'', ''1'', ''8''] demo_files 0 True = Some (0, Some D)" and
      Z: "char_width_main [[], ''u'', ''cx__zero_width'', ''2'', ''9''] demo_files 0 True = Some (0, Some Z)" and
      w: "length (wt_tbl D) \<le> 256 * 2 ^ 5 \<and> length (wt_tbl Z) \<le> 256 * 2 ^ 6 \<longrightarrow>
        (\<forall>cp. is_cp cp \<longrightarrow> cx_cp_width D Z (of_nat cp) =
          Some (of_bool (list_ex (\<lambda>l. covers l cp) demo_east) + of_bool (\<not> list_ex (\<lambda>l. covers l cp) demo_data)))"
    using widths_from_files [where files = demo_files and e = "''e''" and u = "''u''" and prog = "[]", OF demo_lines f] by blast
  have r: "cx_cp_width D Z (of_nat cp) =
      Some (of_bool (list_ex (\<lambda>l. covers l cp) demo_east) + of_bool (\<not> list_ex (\<lambda>l. covers l cp) demo_data))" if "is_cp cp" for cp
    using that w demo_small(1) [OF D] demo_small(2) [OF Z] by simp
  show ?thesis
    using r [of 1] r [of 3] r [of 99] by (intro exI [of _ D] exI [of _ Z]) (simp add: is_cp_def demo_east_def demo_data_def)
qed

text \<open>A line with a code point and without the field ends in \<^verbatim>\<open>strcmp\<close> of a null pointer.\<close>

lemma parse_range_short_line:
  assumes "is_cp a"
  shows "parse_range (hex4 a @ [CHR 0x0A]) 1 no_range = None"
proof -
  have "strtok '';'' (hex4 a @ [CHR 0x0A]) = (Some (hex4 a @ [CHR 0x0A]), [])"
    using strtok_token [of "hex4 a @ [CHR 0x0A]" "'';''" "[]"] hex4_text(2) [of a] by fastforce
  moreover have "scan_x (hex4 a @ [CHR 0x0A]) = Some (Some (of_nat a, [CHR 0x0A]))"
    by (rule scan_x_hex4) (use assms in \<open>simp_all add: is_cp_def is_digit_def digit_value_def\<close>)
  ultimately show ?thesis by (simp add: parse_range_def sscanf_range_def sscanf_start_def strtok_def)
qed

end
