(* ===== verification/TestDriver.thy ===== *)
theory TestDriver
  imports Prelude
begin

text \<open>
  The test runner \<^verbatim>\<open>testlib/driver.c\<close>. What it prints is a list of events. \<^verbatim>\<open>fnmatch\<close> is a
  parameter, and so are what each test function does, whether each \<^verbatim>\<open>fork\<close> succeeds and whether
  \<^verbatim>\<open>stderr\<close> is a terminal. \<open>None\<close> is undefined behaviour.
\<close>

unbundle bit_operations_syntax

section \<open>State\<close>

text \<open>A test function returns, exits or is killed (a failed assertion calls \<^verbatim>\<open>abort\<close>).\<close>

datatype outcome_of_test = Returns | Exits int | Aborts

record testlib_test =
  func :: outcome_of_test
  test_name :: string
  enabled :: bool

datatype event = Usage | Invalid_colour string | Listed string | Ignored string | Disabled string | Started string | Finished string

text \<open>What a piece of the program ends with: a value, or the end of the process.\<close>

datatype 'a run = Val 'a | Ends int | Killed

record driver =
  patterns :: "string list"
  verbose :: bool
  coloured :: bool
  non_fork :: bool

section \<open>Options\<close>

text \<open>
  \<^verbatim>\<open>getopt\<close> with the string \<^verbatim>\<open>nlcv:\<close>, as POSIX has it: the options with their
  arguments, a question mark for an error, and the operands. What follows the first operand is an operand; the
  reordering of arguments by the GNU library is not modelled.
\<close>

fun cluster :: "string \<Rightarrow> (char \<times> string option) list \<times> bool" where
  "cluster [] = ([], False)"
| "cluster (c # cs) =
     (if c \<in> set ''nlc'' then (let (opts, wants) = cluster cs in ((c, None) # opts, wants))
      else if c = CHR ''v'' then (if cs = [] then ([], True) else ([(c, Some cs)], False))
      else ([(CHR ''?'', None)], False))"

fun getopts :: "string list \<Rightarrow> (char \<times> string option) list \<times> string list" where
  "getopts [] = ([], [])"
| "getopts (a # as) =
     (if a = ''--'' then ([], as)
      else if length a < 2 \<or> hd a \<noteq> CHR ''-'' then ([], a # as)
      else let (opts, wants) = cluster (tl a) in
        if \<not> wants then (let (opts', operands) = getopts as in (opts @ opts', operands))
        else case as of
            [] \<Rightarrow> (opts @ [(CHR ''?'', None)], [])
          | b # bs \<Rightarrow> let (opts', operands) = getopts bs in (opts @ (CHR ''v'', Some b) # opts', operands))"

text \<open>A null pointer is given to \<^verbatim>\<open>strcmp\<close>.\<close>

definition color_on :: "bool \<Rightarrow> string option \<Rightarrow> driver \<Rightarrow> (event list \<times> driver run) option" where
  "color_on tty opt d = do {
     opt \<leftarrow> opt;
     Some (if opt = ''always'' then ([], Val (d\<lparr>coloured := True\<rparr>))
       else if opt = ''never'' then ([], Val (d\<lparr>coloured := False\<rparr>))
       else if opt = ''auto'' then ([], Val (d\<lparr>coloured := tty\<rparr>))
       else ([Invalid_colour opt], Ends 1))
   }"

fun option_loop :: "bool \<Rightarrow> testlib_test list \<Rightarrow> (char \<times> string option) list \<Rightarrow> driver \<Rightarrow> (event list \<times> driver run) option" where
  "option_loop tty tests [] d = Some ([], Val d)"
| "option_loop tty tests ((opt, optarg) # opts) d =
     (if opt = CHR ''n'' then option_loop tty tests opts (d\<lparr>non_fork := True\<rparr>)
      else if opt = CHR ''v'' then option_loop tty tests opts (d\<lparr>verbose := True\<rparr>)
      else if opt = CHR ''c''
      then do {
        (log, r) \<leftarrow> color_on tty optarg d;
        case r of Val d \<Rightarrow> option_loop tty tests opts d | _ \<Rightarrow> Some (log, r)
      }
      else if opt = CHR ''l'' then Some (map (\<lambda>t. Listed (test_name t)) tests, Ends 0)
      else Some ([Usage], Ends 1))"

section \<open>Tests\<close>

fun pattern_loop :: "(string \<Rightarrow> string \<Rightarrow> int) \<Rightarrow> string \<Rightarrow> bool \<Rightarrow> string list \<Rightarrow> bool" where
  "pattern_loop fnmatch name found [] = found"
| "pattern_loop fnmatch name found (p # ps) = (if fnmatch p name = 0 then True else pattern_loop fnmatch name False ps)"

definition run_test :: "(string \<Rightarrow> string \<Rightarrow> int) \<Rightarrow> driver \<Rightarrow> testlib_test \<Rightarrow> event list \<times> int run" where
  "run_test fnmatch d test =
     (if \<not> pattern_loop fnmatch (test_name test) True (patterns d)
      then (if verbose d then [Ignored (test_name test)] else [], Val 0)
      else if \<not> enabled test then ([Disabled (test_name test)], Val 0)
      else case func test of
          Returns \<Rightarrow> ([Started (test_name test), Finished (test_name test)], Val 0)
        | Exits n \<Rightarrow> ([Started (test_name test)], Ends n)
        | Aborts \<Rightarrow> ([Started (test_name test)], Killed))"

text \<open>The child exits with 0 when the test returns; only the low eight bits of a status arrive.\<close>

definition run_test_forked :: "(string \<Rightarrow> string \<Rightarrow> int) \<Rightarrow> driver \<Rightarrow> bool \<Rightarrow> testlib_test \<Rightarrow> event list \<times> int run" where
  "run_test_forked fnmatch d forks test =
     (if forks
      then let (log, r) = run_test fnmatch d test in
        (log, Val (case r of Val _ \<Rightarrow> 0 | Ends n \<Rightarrow> n mod 256 | Killed \<Rightarrow> - 1))
      else ([], Ends 1))"

text \<open>The loop of \<^verbatim>\<open>main\<close>; \<open>forks i\<close> is about the fork for the test \<open>i\<close>.\<close>

fun test_loop :: "(string \<Rightarrow> string \<Rightarrow> int) \<Rightarrow> driver \<Rightarrow> (nat \<Rightarrow> bool) \<Rightarrow> nat \<Rightarrow> testlib_test list \<Rightarrow> int \<Rightarrow> event list \<times> int run" where
  "test_loop fnmatch d forks i [] rv = ([], Val rv)"
| "test_loop fnmatch d forks i (test # tests) rv =
     (let (log, r) = (if non_fork d then run_test fnmatch d test else run_test_forked fnmatch d (forks i) test) in
      case r of
        Val x \<Rightarrow>
          let rv = rv OR x in
          if rv \<noteq> 0 \<and> non_fork d then (log, Val rv)
          else let (log', r) = test_loop fnmatch d forks (i + 1) tests rv in (log @ log', r)
      | _ \<Rightarrow> (log, r))"

text \<open>The result is what was printed and how the process ended, with the status the caller sees.\<close>

definition driver_main ::
  "(string \<Rightarrow> string \<Rightarrow> int) \<Rightarrow> bool \<Rightarrow> (nat \<Rightarrow> bool) \<Rightarrow> testlib_test list \<Rightarrow> string list \<Rightarrow> (event list \<times> unit run) option" where
  "driver_main fnmatch tty forks tests argv =
     (if argv = [] then None
      else do {
        (_, r) \<leftarrow> color_on tty (Some ''auto'') \<lparr>patterns = [], verbose = False, coloured = False, non_fork = False\<rparr>;
        d \<leftarrow> (case r of Val d \<Rightarrow> Some d | _ \<Rightarrow> None);
        let (opts, operands) = getopts (tl argv);
        (log, r) \<leftarrow> option_loop tty tests opts d;
        Some (case r of
            Val d \<Rightarrow>
              let (log', r) = test_loop fnmatch (d\<lparr>patterns := operands\<rparr>) forks 0 tests 0 in
              (log @ log', case r of Val rv \<Rightarrow> Ends (rv mod 256) | Ends n \<Rightarrow> Ends (n mod 256) | Killed \<Rightarrow> Killed)
          | Ends n \<Rightarrow> (log, Ends n)
          | Killed \<Rightarrow> (log, Killed))
      })"

section \<open>Lemmas\<close>

definition selected :: "(string \<Rightarrow> string \<Rightarrow> int) \<Rightarrow> string list \<Rightarrow> testlib_test \<Rightarrow> bool" where
  "selected fnmatch ps t \<longleftrightarrow> enabled t \<and> (ps = [] \<or> list_ex (\<lambda>p. fnmatch p (test_name t) = 0) ps)"

definition passes :: "testlib_test \<Rightarrow> bool" where
  "passes t \<longleftrightarrow> (case func t of Returns \<Rightarrow> True | Exits n \<Rightarrow> n mod 256 = 0 | Aborts \<Rightarrow> False)"

fun started :: "event list \<Rightarrow> string list" where
  "started [] = []"
| "started (Started s # es) = s # started es"
| "started (e # es) = started es"

lemma started_append [simp]: "started (xs @ ys) = started xs @ started ys"
  by (induction xs rule: started.induct) simp_all

lemma pattern_loop_eq: "pattern_loop fnmatch name found ps \<longleftrightarrow> (if ps = [] then found else list_ex (\<lambda>p. fnmatch p name = 0) ps)"
  by (induction ps arbitrary: found) auto

lemma or_status:
  fixes x y :: int
  assumes "- 1 \<le> x" "x < 256" "- 1 \<le> y" "y < 256"
  shows "- 1 \<le> x OR y" "x OR y < 256" "(x OR y) mod 256 = 0 \<longleftrightarrow> x = 0 \<and> y = 0"
proof -
  have "- 1 \<le> x OR y \<and> x OR y < 256"
  proof (cases "x = - 1 \<or> y = - 1")
    case False
    then have p: "0 \<le> x" "0 \<le> y" using assms by simp_all
    have "0 \<le> x OR y" using p by simp
    moreover have "x OR y < 256" using OR_upper [of x 8 y] p assms by simp
    ultimately show ?thesis by linarith
  qed auto
  then show b: "- 1 \<le> x OR y" "x OR y < 256" by blast+
  have "(x OR y) mod 256 = 0 \<longleftrightarrow> x OR y = 0"
  proof (cases "x OR y = - 1")
    case False
    then have "0 \<le> x OR y" using b(1) by linarith
    then have "(x OR y) mod 256 = x OR y" using b(2) by (intro mod_pos_pos_trivial)
    then show ?thesis by simp
  qed simp
  then show "(x OR y) mod 256 = 0 \<longleftrightarrow> x = 0 \<and> y = 0" by (simp add: or_eq_0_iff)
qed

lemma forked_spec:
  assumes "run_test_forked fnmatch d True t = (log, r)"
  shows "\<exists>x. r = Val x \<and> - 1 \<le> x \<and> x < 256 \<and> (x = 0 \<longleftrightarrow> (selected fnmatch (patterns d) t \<longrightarrow> passes t)) \<and>
    started log = (if selected fnmatch (patterns d) t then [test_name t] else [])"
proof -
  have m: "- 1 \<le> n mod 256 \<and> n mod 256 < 256" for n :: int
    using pos_mod_bound [of 256 n] pos_mod_sign [of 256 n] by auto
  show ?thesis using assms m
    by (cases "func t") (auto simp: run_test_forked_def run_test_def pattern_loop_eq selected_def passes_def split: if_splits)
qed

lemma test_loop_spec:
  assumes "\<not> non_fork d" "\<And>j. forks j" "- 1 \<le> rv" "rv < 256"
  shows "\<exists>log x. test_loop fnmatch d forks i tests rv = (log, Val x) \<and>
    (x mod 256 = 0 \<longleftrightarrow> rv = 0 \<and> (\<forall>t \<in> set tests. selected fnmatch (patterns d) t \<longrightarrow> passes t)) \<and>
    started log = map test_name (filter (selected fnmatch (patterns d)) tests)"
  using assms(3,4)
proof (induction tests arbitrary: i rv)
  case Nil
  then show ?case by (cases "rv = - 1") auto
next
  case (Cons t tests)
  obtain log r where f: "run_test_forked fnmatch d True t = (log, r)" by (metis surj_pair)
  obtain x where x: "r = Val x" "- 1 \<le> x" "x < 256" "x = 0 \<longleftrightarrow> (selected fnmatch (patterns d) t \<longrightarrow> passes t)"
      "started log = (if selected fnmatch (patterns d) t then [test_name t] else [])"
    using forked_spec [OF f] by blast
  note R = or_status [OF Cons.prems x(2,3)]
  obtain log' y where y: "test_loop fnmatch d forks (i + 1) tests (rv OR x) = (log', Val y)"
      "y mod 256 = 0 \<longleftrightarrow> rv OR x = 0 \<and> (\<forall>t \<in> set tests. selected fnmatch (patterns d) t \<longrightarrow> passes t)"
      "started log' = map test_name (filter (selected fnmatch (patterns d)) tests)"
    using Cons.IH [OF R(1,2), of "i + 1"] by (elim exE conjE) (rule that)
  have "test_loop fnmatch d forks i (t # tests) rv = (log @ log', Val y)"
    using f x(1) y(1) assms(1,2) by simp
  then show ?case using x(4,5) y(2,3) by (intro exI [of _ "log @ log'"] exI [of _ y]) (auto simp: or_eq_0_iff)
qed

section \<open>Properties\<close>

text \<open>The options \<^verbatim>\<open>-v\<close> do not end the program.\<close>

lemma option_loop_verbose:
  "\<forall>x \<in> set opts. fst x = CHR ''v'' \<Longrightarrow>
     option_loop tty tests opts d = Some ([], Val (d\<lparr>verbose := verbose d \<or> opts \<noteq> []\<rparr>))"
  by (induction opts arbitrary: d) auto

text \<open>
  C28. Without the options \<^verbatim>\<open>-n\<close>, \<^verbatim>\<open>-c\<close> and \<^verbatim>\<open>-l\<close>, and when every \<^verbatim>\<open>fork\<close> succeeds, the runner starts exactly
  the enabled tests whose name matches one of the patterns (all, without a pattern), in order, whatever the
  others do, and its exit status is 0 exactly when each of them returned or exited with 0.
\<close>

theorem driver_reports_failures:
  assumes "getopts args = (opts, ps)" "\<forall>x \<in> set opts. fst x = CHR ''v''" "\<And>i. forks i"
  shows "\<exists>log status. driver_main fnmatch tty forks tests (prog # args) = Some (log, Ends status) \<and>
    (status = 0 \<longleftrightarrow> (\<forall>t \<in> set tests. selected fnmatch ps t \<longrightarrow> passes t)) \<and>
    started log = map test_name (filter (selected fnmatch ps) tests)"
proof -
  let ?d = "\<lparr>patterns = ps, verbose = opts \<noteq> [], coloured = tty, non_fork = False\<rparr>"
  obtain log x where t: "test_loop fnmatch ?d forks 0 tests 0 = (log, Val x)"
      "x mod 256 = 0 \<longleftrightarrow> (\<forall>t \<in> set tests. selected fnmatch ps t \<longrightarrow> passes t)"
      "started log = map test_name (filter (selected fnmatch ps) tests)"
    using test_loop_spec [of ?d forks 0 fnmatch 0 tests] assms(3) by auto
  have "driver_main fnmatch tty forks tests (prog # args) = Some (log, Ends (x mod 256))"
    using assms(1) t(1) by (simp add: driver_main_def color_on_def option_loop_verbose [OF assms(2)])
  then show ?thesis using t(2,3) by (intro exI [of _ log] exI [of _ "x mod 256"] conjI)
qed

definition demo_tests :: "testlib_test list" where
  "demo_tests = [\<lparr>func = Returns, test_name = ''a'', enabled = True\<rparr>, \<lparr>func = Aborts, test_name = ''b'', enabled = True\<rparr>,
     \<lparr>func = Aborts, test_name = ''c'', enabled = False\<rparr>, \<lparr>func = Exits 3, test_name = ''d'', enabled = True\<rparr>]"

definition demo_fnmatch :: "string \<Rightarrow> string \<Rightarrow> int" where
  "demo_fnmatch p name = (if p = name then 0 else 1)"

theorem driver_reports_failures_witness:
  "(\<exists>log status. driver_main demo_fnmatch False (\<lambda>_. True) demo_tests [''t''] = Some (log, Ends status) \<and>
     status \<noteq> 0 \<and> started log = [''a'', ''b'', ''d'']) \<and>
   (\<exists>log. driver_main demo_fnmatch False (\<lambda>_. True) demo_tests [''t'', ''a'', ''c''] = Some (log, Ends 0) \<and> started log = [''a''])"
proof -
  have g: "getopts [] = ([], [])" "getopts [''a'', ''c''] = ([], [''a'', ''c''])" by simp_all
  note d = driver_reports_failures [of _ "[]" _ "\<lambda>_. True" demo_fnmatch False demo_tests "''t''"]
  show ?thesis
    using d [OF g(1)] d [OF g(2)] by (auto simp: demo_tests_def demo_fnmatch_def selected_def passes_def)
qed

text \<open>
  The option string has its colon at the wrong letter: \<^verbatim>\<open>-v\<close> takes the next argument, so that a pattern
  behind it is lost and all tests are run, and \<^verbatim>\<open>-c\<close> has no argument, so that \<^verbatim>\<open>strcmp\<close> is given a null pointer.
\<close>

theorem driver_option_arguments:
  "(\<exists>log status. driver_main fnmatch tty (\<lambda>_. True) tests [prog, ''-v'', p] = Some (log, Ends status) \<and>
     started log = map test_name (filter enabled tests)) \<and>
   driver_main fnmatch tty forks tests [prog, ''-c'', colour] = None"
proof
  let ?d = "\<lparr>patterns = [], verbose = True, coloured = tty, non_fork = False\<rparr>"
  obtain log x where t: "test_loop fnmatch ?d (\<lambda>_. True) 0 tests 0 = (log, Val x)"
      "started log = map test_name (filter (selected fnmatch []) tests)"
    using test_loop_spec [of ?d "\<lambda>_. True" 0 fnmatch 0 tests] by auto
  have "selected fnmatch [] = enabled" by (simp add: selected_def fun_eq_iff)
  then show "\<exists>log status. driver_main fnmatch tty (\<lambda>_. True) tests [prog, ''-v'', p] = Some (log, Ends status) \<and>
     started log = map test_name (filter enabled tests)"
    using t by (simp add: driver_main_def color_on_def)
  show "driver_main fnmatch tty forks tests [prog, ''-c'', colour] = None"
    by (cases "getopts [colour]") (simp add: driver_main_def color_on_def del: getopts.simps(2), subst getopts.simps(2), simp add: color_on_def)
qed

end
