(* ===== verification/Endian.thy ===== *)
theory Endian
  imports Memory
begin

text \<open>
  The byte-order macros of \<^verbatim>\<open>include/cextras/endian.h\<close>: each is a function of the system for its width, on
  Apple's systems one of \<^verbatim>\<open>libkern/OSByteOrder.h\<close>, elsewhere one of \<^verbatim>\<open>endian.h\<close>. These functions swap
  the bytes of an integer when the order of the host is the other one.
\<close>

datatype byte_order = Little_endian | Big_endian

datatype platform = Apple | Other

definition swap_bytes :: "nat \<Rightarrow> 'a::len word \<Rightarrow> 'a word" where
  "swap_bytes n x = le_word (rev (le_bytes n x))"

section \<open>The functions of the systems\<close>

definition htole16 :: "byte_order \<Rightarrow> u16 \<Rightarrow> u16" where
  "htole16 host x = (if host = Little_endian then x else swap_bytes 2 x)"

definition OSSwapHostToLittleInt16 :: "byte_order \<Rightarrow> u16 \<Rightarrow> u16" where
  "OSSwapHostToLittleInt16 host x = (if host = Little_endian then x else swap_bytes 2 x)"

definition htole32 :: "byte_order \<Rightarrow> u32 \<Rightarrow> u32" where
  "htole32 host x = (if host = Little_endian then x else swap_bytes 4 x)"

definition OSSwapHostToLittleInt32 :: "byte_order \<Rightarrow> u32 \<Rightarrow> u32" where
  "OSSwapHostToLittleInt32 host x = (if host = Little_endian then x else swap_bytes 4 x)"

definition htole64 :: "byte_order \<Rightarrow> u64 \<Rightarrow> u64" where
  "htole64 host x = (if host = Little_endian then x else swap_bytes 8 x)"

definition OSSwapHostToLittleInt64 :: "byte_order \<Rightarrow> u64 \<Rightarrow> u64" where
  "OSSwapHostToLittleInt64 host x = (if host = Little_endian then x else swap_bytes 8 x)"

definition le16toh :: "byte_order \<Rightarrow> u16 \<Rightarrow> u16" where
  "le16toh host x = (if host = Little_endian then x else swap_bytes 2 x)"

definition OSSwapLittleToHostInt16 :: "byte_order \<Rightarrow> u16 \<Rightarrow> u16" where
  "OSSwapLittleToHostInt16 host x = (if host = Little_endian then x else swap_bytes 2 x)"

definition le32toh :: "byte_order \<Rightarrow> u32 \<Rightarrow> u32" where
  "le32toh host x = (if host = Little_endian then x else swap_bytes 4 x)"

definition OSSwapLittleToHostInt32 :: "byte_order \<Rightarrow> u32 \<Rightarrow> u32" where
  "OSSwapLittleToHostInt32 host x = (if host = Little_endian then x else swap_bytes 4 x)"

definition le64toh :: "byte_order \<Rightarrow> u64 \<Rightarrow> u64" where
  "le64toh host x = (if host = Little_endian then x else swap_bytes 8 x)"

definition OSSwapLittleToHostInt64 :: "byte_order \<Rightarrow> u64 \<Rightarrow> u64" where
  "OSSwapLittleToHostInt64 host x = (if host = Little_endian then x else swap_bytes 8 x)"

definition htobe16 :: "byte_order \<Rightarrow> u16 \<Rightarrow> u16" where
  "htobe16 host x = (if host = Big_endian then x else swap_bytes 2 x)"

definition OSSwapHostToBigInt16 :: "byte_order \<Rightarrow> u16 \<Rightarrow> u16" where
  "OSSwapHostToBigInt16 host x = (if host = Big_endian then x else swap_bytes 2 x)"

definition htobe32 :: "byte_order \<Rightarrow> u32 \<Rightarrow> u32" where
  "htobe32 host x = (if host = Big_endian then x else swap_bytes 4 x)"

definition OSSwapHostToBigInt32 :: "byte_order \<Rightarrow> u32 \<Rightarrow> u32" where
  "OSSwapHostToBigInt32 host x = (if host = Big_endian then x else swap_bytes 4 x)"

definition htobe64 :: "byte_order \<Rightarrow> u64 \<Rightarrow> u64" where
  "htobe64 host x = (if host = Big_endian then x else swap_bytes 8 x)"

definition OSSwapHostToBigInt64 :: "byte_order \<Rightarrow> u64 \<Rightarrow> u64" where
  "OSSwapHostToBigInt64 host x = (if host = Big_endian then x else swap_bytes 8 x)"

definition be16toh :: "byte_order \<Rightarrow> u16 \<Rightarrow> u16" where
  "be16toh host x = (if host = Big_endian then x else swap_bytes 2 x)"

definition OSSwapBigToHostInt16 :: "byte_order \<Rightarrow> u16 \<Rightarrow> u16" where
  "OSSwapBigToHostInt16 host x = (if host = Big_endian then x else swap_bytes 2 x)"

definition be32toh :: "byte_order \<Rightarrow> u32 \<Rightarrow> u32" where
  "be32toh host x = (if host = Big_endian then x else swap_bytes 4 x)"

definition OSSwapBigToHostInt32 :: "byte_order \<Rightarrow> u32 \<Rightarrow> u32" where
  "OSSwapBigToHostInt32 host x = (if host = Big_endian then x else swap_bytes 4 x)"

definition be64toh :: "byte_order \<Rightarrow> u64 \<Rightarrow> u64" where
  "be64toh host x = (if host = Big_endian then x else swap_bytes 8 x)"

definition OSSwapBigToHostInt64 :: "byte_order \<Rightarrow> u64 \<Rightarrow> u64" where
  "OSSwapBigToHostInt64 host x = (if host = Big_endian then x else swap_bytes 8 x)"

section \<open>The macros\<close>

definition CX_CPU_2_LE16 :: "platform \<Rightarrow> byte_order \<Rightarrow> u16 \<Rightarrow> u16" where
  "CX_CPU_2_LE16 system host x = (if system = Apple then OSSwapHostToLittleInt16 host x else htole16 host x)"

definition CX_CPU_2_LE32 :: "platform \<Rightarrow> byte_order \<Rightarrow> u32 \<Rightarrow> u32" where
  "CX_CPU_2_LE32 system host x = (if system = Apple then OSSwapHostToLittleInt32 host x else htole32 host x)"

definition CX_CPU_2_LE64 :: "platform \<Rightarrow> byte_order \<Rightarrow> u64 \<Rightarrow> u64" where
  "CX_CPU_2_LE64 system host x = (if system = Apple then OSSwapHostToLittleInt64 host x else htole64 host x)"

definition CX_LE_2_CPU16 :: "platform \<Rightarrow> byte_order \<Rightarrow> u16 \<Rightarrow> u16" where
  "CX_LE_2_CPU16 system host x = (if system = Apple then OSSwapLittleToHostInt16 host x else le16toh host x)"

definition CX_LE_2_CPU32 :: "platform \<Rightarrow> byte_order \<Rightarrow> u32 \<Rightarrow> u32" where
  "CX_LE_2_CPU32 system host x = (if system = Apple then OSSwapLittleToHostInt32 host x else le32toh host x)"

definition CX_LE_2_CPU64 :: "platform \<Rightarrow> byte_order \<Rightarrow> u64 \<Rightarrow> u64" where
  "CX_LE_2_CPU64 system host x = (if system = Apple then OSSwapLittleToHostInt64 host x else le64toh host x)"

definition CX_CPU_2_BE16 :: "platform \<Rightarrow> byte_order \<Rightarrow> u16 \<Rightarrow> u16" where
  "CX_CPU_2_BE16 system host x = (if system = Apple then OSSwapHostToBigInt16 host x else htobe16 host x)"

definition CX_CPU_2_BE32 :: "platform \<Rightarrow> byte_order \<Rightarrow> u32 \<Rightarrow> u32" where
  "CX_CPU_2_BE32 system host x = (if system = Apple then OSSwapHostToBigInt32 host x else htobe32 host x)"

definition CX_CPU_2_BE64 :: "platform \<Rightarrow> byte_order \<Rightarrow> u64 \<Rightarrow> u64" where
  "CX_CPU_2_BE64 system host x = (if system = Apple then OSSwapHostToBigInt64 host x else htobe64 host x)"

definition CX_BE_2_CPU16 :: "platform \<Rightarrow> byte_order \<Rightarrow> u16 \<Rightarrow> u16" where
  "CX_BE_2_CPU16 system host x = (if system = Apple then OSSwapBigToHostInt16 host x else be16toh host x)"

definition CX_BE_2_CPU32 :: "platform \<Rightarrow> byte_order \<Rightarrow> u32 \<Rightarrow> u32" where
  "CX_BE_2_CPU32 system host x = (if system = Apple then OSSwapBigToHostInt32 host x else be32toh host x)"

definition CX_BE_2_CPU64 :: "platform \<Rightarrow> byte_order \<Rightarrow> u64 \<Rightarrow> u64" where
  "CX_BE_2_CPU64 system host x = (if system = Apple then OSSwapBigToHostInt64 host x else be64toh host x)"

lemmas macro_defs = CX_CPU_2_LE16_def CX_CPU_2_LE32_def CX_CPU_2_LE64_def CX_LE_2_CPU16_def
  CX_LE_2_CPU32_def CX_LE_2_CPU64_def CX_CPU_2_BE16_def CX_CPU_2_BE32_def
  CX_CPU_2_BE64_def CX_BE_2_CPU16_def CX_BE_2_CPU32_def CX_BE_2_CPU64_def

lemmas system_defs = htole16_def OSSwapHostToLittleInt16_def htole32_def OSSwapHostToLittleInt32_def
  htole64_def OSSwapHostToLittleInt64_def le16toh_def OSSwapLittleToHostInt16_def
  le32toh_def OSSwapLittleToHostInt32_def le64toh_def OSSwapLittleToHostInt64_def
  htobe16_def OSSwapHostToBigInt16_def htobe32_def OSSwapHostToBigInt32_def
  htobe64_def OSSwapHostToBigInt64_def be16toh_def OSSwapBigToHostInt16_def
  be32toh_def OSSwapBigToHostInt32_def be64toh_def OSSwapBigToHostInt64_def

section \<open>Integers in memory\<close>

text \<open>The bytes of an integer in the memory of a host.\<close>

definition host_bytes :: "byte_order \<Rightarrow> nat \<Rightarrow> 'a::len word \<Rightarrow> u8 list" where
  "host_bytes host n x = (case host of Little_endian \<Rightarrow> le_bytes n x | Big_endian \<Rightarrow> rev (le_bytes n x))"

lemma le_bytes_le_word:
  assumes "length bs = n" "LENGTH('a::len) = 8 * n"
  shows "le_bytes n (le_word bs :: 'a word) = bs"
proof (rule nth_equalityI)
  fix i assume i: "i < length (le_bytes n (le_word bs :: 'a word))"
  show "le_bytes n (le_word bs :: 'a word) ! i = bs ! i"
  proof (rule bit_word_eqI)
    fix j assume j: "j < LENGTH(8)"
    have "(8 * i + j) div 8 = i" "(8 * i + j) mod 8 = j" "8 * i + j < LENGTH('a)" using i j assms by auto
    then show "bit (le_bytes n (le_word bs :: 'a word) ! i) j = bit (bs ! i) j"
      using i j assms by (simp add: le_bytes_def bit_simps bit_le_word)
  qed
qed (use assms in simp)

lemma swap_bytes_bytes: "LENGTH('a::len) = 8 * n \<Longrightarrow> le_bytes n (swap_bytes n (x :: 'a word)) = rev (le_bytes n x)"
  by (simp add: swap_bytes_def le_bytes_le_word)

lemma swap_swap: "LENGTH('a::len) = 8 * n \<Longrightarrow> swap_bytes n (swap_bytes n (x :: 'a word)) = x"
  by (simp add: swap_bytes_def le_bytes_le_word)

text \<open>
  On every system and host the bytes of a converted integer in memory are those of its value, least significant
  first for the LE macros and most significant first for the BE macros, and converting back gives the integer.
\<close>

theorem endian_roundtrip:
  fixes x :: u16 and y :: u32 and z :: u64
  shows "host_bytes host 2 (CX_CPU_2_LE16 s host x) = le_bytes 2 x" "host_bytes host 4 (CX_CPU_2_LE32 s host y) = le_bytes 4 y"
    "host_bytes host 8 (CX_CPU_2_LE64 s host z) = le_bytes 8 z"
    "host_bytes host 2 (CX_CPU_2_BE16 s host x) = rev (le_bytes 2 x)" "host_bytes host 4 (CX_CPU_2_BE32 s host y) = rev (le_bytes 4 y)"
    "host_bytes host 8 (CX_CPU_2_BE64 s host z) = rev (le_bytes 8 z)"
    "CX_LE_2_CPU16 s host (CX_CPU_2_LE16 s host x) = x" "CX_LE_2_CPU32 s host (CX_CPU_2_LE32 s host y) = y"
    "CX_LE_2_CPU64 s host (CX_CPU_2_LE64 s host z) = z"
    "CX_BE_2_CPU16 s host (CX_CPU_2_BE16 s host x) = x" "CX_BE_2_CPU32 s host (CX_CPU_2_BE32 s host y) = y"
    "CX_BE_2_CPU64 s host (CX_CPU_2_BE64 s host z) = z"
  by (cases host; simp add: macro_defs system_defs host_bytes_def swap_bytes_bytes swap_swap)+

end
