(* ===== verification/Spec2Isabelle.thy ===== *)
theory Spec2Isabelle
  imports Buffer Collector LruCache HashMapUse RcRadixTree ObjectMacros DebugPool Semaphore Future ThreadpoolUse UnicodeFiles TestDriver Endian
begin

text \<open>
  A verification development for cextras, a library of C data structures, memory helpers, UTF-8
  functions and thread primitives. Paths below are relative to \<^verbatim>\<open>src/\<close>.

  \<^bold>\<open>How the model reads the code.\<close> Theory Prelude has the machine integers (\<^verbatim>\<open>size_t\<close> is a 64-bit
  word, \<^verbatim>\<open>int\<close> an integer with its range checked where it may overflow), the error codes of
  \<^verbatim>\<open>include/cextras/error.h\<close> and the overflow macros of \<^verbatim>\<open>include/cextras/macro.h\<close>. Theory Memory
  has the memory: a byte-addressed store with the list of live objects. A C function is a HOL
  function with the state passed in and out; \<open>None\<close> is undefined behaviour, a failing assert or a loop
  that does not return, so a theorem that says \<open>Some\<close> says that none of these happens. A struct is a
  record; what a struct points to is on the heap, unless the text of the theory says otherwise. Names
  of functions and fields are those of the code (with a letter in front where they clash).

  \<^bold>\<open>The parts.\<close>
  \<^item> Buffer: \<^verbatim>\<open>lib/collection/buffer.c\<close>. Runs of operations refine byte lists; growth is bounded;
    moving and unwrapping hand the memory over.
  \<^item> Collector: \<^verbatim>\<open>lib/collection/collector.c\<close>. Uses a buffer through the locale of its interface. The
    result is one object with the array of pointers and the strings.
  \<^item> RcMap: \<^verbatim>\<open>lib/collection/rc_map.c\<close>. Counts and callbacks of any run are those of a counting
    specification; lifetime without leaks.
  \<^item> LruBackend, Lru, LruCache: \<^verbatim>\<open>lib/collection/lru.c\<close>. LruBackend has the contract of the table of
    function pointers as a locale; Lru proves the cache over any backend in it; the locale is
    interpreted on the map (LruCache), on the hash map (HashMapUse) and on the radix tree
    (RcRadixTree). Touches refine a queue; each cached key holds one reference.
  \<^item> RcHashMap, HashMapUse: \<^verbatim>\<open>lib/collection/rc_hash_map.c\<close>, open addressing over tables that are
    reference-counted maps. Puts, retains, releases and growth.
  \<^item> Pool: \<^verbatim>\<open>lib/memory/prealloc_pool.c\<close>, \<^verbatim>\<open>rc.c\<close> and \<^verbatim>\<open>utils.c\<close>. Elements of a pool never overlap; a
    history refines a stack of recycled contents; cleanup returns all memory.
  \<^item> DebugPool: the pool between \<^verbatim>\<open>#if 0\<close> and \<^verbatim>\<open>#else\<close> in the same file. It agrees with the other one for
    clients that clear their elements, but its cleanup frees nothing.
  \<^item> RadixTree, RcRadixTree: \<^verbatim>\<open>lib/collection/radix_tree.c\<close> and \<^verbatim>\<open>rc_radix_tree.c\<close>, on two pools. Runs refine
    a map from keys to bytes, and the counting specification.
  \<^item> Utf8: \<^verbatim>\<open>lib/unicode/utf8.c\<close>, \<^verbatim>\<open>utf16.c\<close> and the generator \<^verbatim>\<open>codegen/byte_size.c\<close> of their tables.
    Decoding inverts encoding; index functions agree with the list of characters.
  \<^item> WidthTable, Width, CharWidth, UnicodeFiles: \<^verbatim>\<open>lib/unicode/unicode-width.c\<close> and the generator
    \<^verbatim>\<open>codegen/char_width.c\<close>. The two-level table is equivalent to the flat one; columns are sums of
    widths; CharWidth has the reading of the Unicode files and UnicodeFiles their lines in printed form, so that
    the width of a code point follows from the contents of the files.
  \<^item> ObjectMacros: \<^verbatim>\<open>CX_NEW_IMPL\<close> and \<^verbatim>\<open>CX_FREE_IMPL\<close> of \<^verbatim>\<open>include/cextras/memory.h\<close>, for any type of object, with
    maps as the example.
  \<^item> Endian: the macros of \<^verbatim>\<open>include/cextras/endian.h\<close>.
  \<^item> TestDriver: \<^verbatim>\<open>testlib/driver.c\<close>. Which tests run and what the exit status says.
  \<^item> Monitor, Semaphore, Future: \<^verbatim>\<open>lib/concurrency/semaphore.c\<close> and \<^verbatim>\<open>future.c\<close>. Monitor has the thread
    library as a machine whose steps are single calls, with mutual exclusion and blocked threads as
    locales; every interleaving is a sequence of steps.
  \<^item> Threads, TaskQueue, Threadpool, ThreadpoolInv, ThreadpoolSteps, ThreadpoolReach, ThreadpoolWake,
    ThreadpoolUse: \<^verbatim>\<open>lib/concurrency/threadpool.c\<close>. Threads has programs over many mutexes and
    condition variables, with the locale of programs that lock well; TaskQueue the linked lists of tasks on the
    heap; Threadpool the functions as programs, from one call of the thread library or access to
    shared data to the next. The invariant (ThreadpoolInv) places every task of the pool in one queue or
    one thread; each instruction keeps it (ThreadpoolSteps), with what holds during a cleanup
    (ThreadpoolReach) and who is about to be woken (ThreadpoolWake). So no task is lost or run
    twice, a wait that returns has seen all tasks done, no task is left behind, and cleanup gives all memory back.

  \<^bold>\<open>Hypotheses and bounds.\<close>
  \<^item> The allocator is the environment: a heap carries the answers it will give, and an answer that
    does not fit is a failure. Theorems hold for all answers unless they name one; \<open>heap_ok\<close> bounds the
    size of an object by \<^verbatim>\<open>PTRDIFF_MAX\<close>.
  \<^item> Callbacks (cleanup functions, iterators) are parameters with the hypothesis that they leave the
    memory of the library alone.
  \<^item> Sizes are bounded where the code multiplies them without a check (each theorem states its bound);
    strings are shorter than \<open>2 ^ 62\<close>; reference counts stay below their maximum.
  \<^item> Loops whose end depends on the input are \<open>partial_function (option)\<close>; that they return is part of the
    theorems. Fuel is used nowhere.
  \<^item> Of the thread library: calls of \<^verbatim>\<open>pthread_mutex_lock\<close> and so on may fail where the code looks at the
    result; a waiting thread may wake up without a reason.
  \<^item> Of the thread pool: fewer than \<open>2 ^ 62\<close> threads; nobody calls the pool during or after its cleanup; what a
    task's function does to the program's own data is not modelled (a task that schedules others is
    a client beside its worker). The ghost field \<open>dropped\<close> marks the runs in which a task could not be
    allocated, after which the pool of tasks is not usable (see
    \<open>pool_get_after_failure_overruns\<close> in Pool); the theorems are about the other runs.

  \<^bold>\<open>Not modelled.\<close> \<^verbatim>\<open>codegen/char_info.c\<close>, which no build file names, which does not
  compile and which is \<^verbatim>\<open>char_width.c\<close> again but for the conversions of \<^verbatim>\<open>printf\<close>; attribute macros; the debug output
  between \<^verbatim>\<open>#if 0\<close> and \<^verbatim>\<open>#else\<close>; the text output of the generators (the tables they print are values) and of the test runner
  (a list of events).
\<close>

end
